(* ===== verification/Noc_Prelude.thy ===== *)
theory Noc_Prelude
  imports Complex_Main "HOL-Library.Word" "HOL-Library.Log_Nat" "HOL-Library.Monad_Syntax"
begin

unbundle bit_operations_syntax

text \<open>
  Shared vocabulary of the development.

  The C++ integers are words of their width. An operation that can stop the program (a
  failed \<^verbatim>\<open>NS_ASSERT\<close>, the \<^verbatim>\<open>std::out_of_range\<close> of \<^verbatim>\<open>vector::at\<close>, a dereferenced null
  pointer, a read behind the end of a buffer) returns an option: \<open>None\<close> is the stopped
  program, and the \<open>do\<close> blocks of \<open>HOL-Library.Monad_Syntax\<close> propagate it.
\<close>

section \<open>Types and collections of facts\<close>

type_synonym u8 = "8 word"
type_synonym u16 = "16 word"
type_synonym u32 = "32 word"
type_synonym u64 = "64 word"

named_theorems abort_simps \<open>unfolding of the operations that may stop the program\<close>
named_theorems byte_simps \<open>arithmetic of the direction bit and of the seven offset bits\<close>

section \<open>Operations that may stop the program\<close>

text \<open>\<^verbatim>\<open>NS_ASSERT (b)\<close>.\<close>

definition ns_assert :: "bool \<Rightarrow> unit option" where
  "ns_assert b = (if b then Some () else None)"

text \<open>\<^verbatim>\<open>xs.at (i)\<close> as an rvalue and as the target of an assignment.\<close>

definition vec_at :: "'a list \<Rightarrow> nat \<Rightarrow> 'a option" where
  "vec_at xs i = (if i < length xs then Some (xs ! i) else None)"

definition vec_set :: "'a list \<Rightarrow> nat \<Rightarrow> 'a \<Rightarrow> 'a list option" where
  "vec_set xs i v = (if i < length xs then Some (xs[i := v]) else None)"

lemma ns_assert_simps [simp, abort_simps]:
  "ns_assert True = Some ()" "ns_assert False = None"
  by (simp_all add: ns_assert_def)

lemma ns_assert_eq_Some [simp]: "ns_assert b = Some u \<longleftrightarrow> b"
  by (cases b) simp_all

lemma ns_assert_eq_None [simp]: "ns_assert b = None \<longleftrightarrow> \<not> b"
  by (cases b) simp_all

lemma bind_ns_assert [simp]: "Option.bind (ns_assert b) f = (if b then f () else None)"
  by (cases b) simp_all

lemma vec_at_inside [simp]: "i < length xs \<Longrightarrow> vec_at xs i = Some (xs ! i)"
  by (simp add: vec_at_def)

lemma vec_at_outside [simp]: "length xs \<le> i \<Longrightarrow> vec_at xs i = None"
  by (simp add: vec_at_def)

lemma vec_at_eq_Some: "vec_at xs i = Some v \<longleftrightarrow> i < length xs \<and> xs ! i = v"
  by (auto simp: vec_at_def)

lemma vec_at_Cons_0 [simp]: "vec_at (x # xs) 0 = Some x"
  by (simp add: vec_at_def)

lemma vec_set_inside [simp]: "i < length xs \<Longrightarrow> vec_set xs i v = Some (xs[i := v])"
  by (simp add: vec_set_def)

lemma vec_set_outside [simp]: "length xs \<le> i \<Longrightarrow> vec_set xs i v = None"
  by (simp add: vec_set_def)

lemma vec_set_eq_Some: "vec_set xs i v = Some ys \<longleftrightarrow> i < length xs \<and> ys = xs[i := v]"
  by (auto simp: vec_set_def)

lemmas abort_iffs = vec_at_eq_Some vec_set_eq_Some Option.bind_eq_Some_conv

section \<open>The direction bit of a byte\<close>

text \<open>
  A dimension of a header is one byte: the top bit is the direction, the seven lower bits are
  the number of hops. The facts below say what masking does on the unsigned value.
\<close>

lemma bit_128_int: "bit (128::int) n \<longleftrightarrow> n = 7"
  using bit_exp_iff [of 7 n, where ?'a = int] by simp

lemma bit_127_iff: "bit (127::int) n \<longleftrightarrow> n < 7"
  using bit_mask_iff [of 7 n, where ?'a = int] by (simp add: mask_eq_exp_minus_1)

lemma u8_eq_iff: "(x::u8) = y \<longleftrightarrow> (\<forall>n < 8. bit x n \<longleftrightarrow> bit y n)"
  by (auto intro: bit_word_eqI)

lemma bit_7_u8: "bit (x::u8) 7 \<longleftrightarrow> 128 \<le> unat x"
proof -
  have "unat x < 256" using unsigned_less [of x] by simp
  moreover have "bit x 7 \<longleftrightarrow> bit (unat x) 7"
    by (simp add: bit_unsigned_iff)
  moreover have "odd (m div 128) \<longleftrightarrow> 128 \<le> m" if "m < 256" for m :: nat
  proof (cases "m < 128")
    case False
    then have "m div 128 = 1" using that by (intro div_nat_eqI) simp_all
    with False show ?thesis by simp
  qed simp
  ultimately show ?thesis by (simp add: bit_iff_odd)
qed

lemma and_direction_eq [byte_simps]: "(x AND 0x80) = (0x80::u8) \<longleftrightarrow> 128 \<le> unat x"
  unfolding bit_7_u8 [symmetric] u8_eq_iff
  by (auto simp: bit_and_iff bit_128_int dest: spec [of _ 7])

lemma unat_and_offset [byte_simps]: "unat ((x::u8) AND 0x7F) = unat x mod 128"
proof -
  have "unat (x AND 0x7F) = unat x AND unat (0x7F :: u8)" by (simp add: unsigned_and_eq)
  also have "\<dots> = unat x AND mask 7" by (simp add: mask_eq_exp_minus_1)
  finally show ?thesis by (simp add: take_bit_eq_mask [symmetric] take_bit_eq_mod)
qed

lemma or_direction_set [byte_simps]: "128 \<le> unat (x::u8) \<Longrightarrow> x OR 0x80 = x"
  unfolding bit_7_u8 [symmetric] by (auto simp: u8_eq_iff bit_or_iff bit_128_int)

lemma unat_or_direction [byte_simps]:
  assumes "unat (x::u8) < 128"
  shows "unat (x OR 0x80) = unat x + 128"
proof -
  from assms have "\<not> bit x 7" by (simp add: bit_7_u8)
  then have "x AND 0x80 = 0"
    by (auto simp: u8_eq_iff bit_and_iff bit_128_int)
  then have "x OR 0x80 = x + 0x80"
    by (simp add: disjunctive_add_eq_or)
  then show ?thesis using assms by (simp add: unat_word_ariths)
qed

lemma unat_u8_less: "unat (x::u8) < 256"
  using unsigned_less [of x] by simp

lemma unat_u8_of_int:
  assumes "0 \<le> i" "i < 256"
  shows "unat (word_of_int i :: u8) = nat i"
  using assms by (simp add: unat_eq_nat_uint uint_word_of_int)

section \<open>Counters of 32 bits\<close>

lemma unat_u32_add: "unat a + unat b < 2 ^ 32 \<Longrightarrow> unat (a + b :: u32) = unat a + unat b"
  by (simp add: unat_word_ariths)

lemma unat_u32_Suc: "Suc (unat a) < 2 ^ 32 \<Longrightarrow> unat (a + 1 :: u32) = Suc (unat a)"
  using unat_u32_add [of a 1] by simp

lemma unat_u32_diff: "unat b \<le> unat a \<Longrightarrow> unat (a - b :: u32) = unat a - unat b"
  by (simp add: unat_sub word_le_nat_alt)

lemma unat_u32_pred: "0 < unat a \<Longrightarrow> unat (a - 1 :: u32) = unat a - 1"
  using unat_u32_diff [of 1 a] by simp

lemma unat_u32_less: "unat (a :: u32) < 2 ^ 32"
  using unsigned_less [of a] by simp

lemmas u32_arith = unat_u32_add unat_u32_Suc unat_u32_diff unat_u32_pred

section \<open>Integer and floating-point arithmetic of the source\<close>

text \<open>\<^verbatim>\<open>a / b\<close> on \<^verbatim>\<open>int\<close>: truncation towards zero.\<close>

definition trunc_div :: "int \<Rightarrow> int \<Rightarrow> int" where
  "trunc_div a b = sgn a * sgn b * (\<bar>a\<bar> div \<bar>b\<bar>)"

text \<open>
  The nearest \<^verbatim>\<open>double\<close> of a rational number, ties to even, for numbers in the range of normal
  doubles: the ulp is the power of two that leaves 53 bits before the point.
\<close>

definition round_even :: "rat \<Rightarrow> int" where
  "round_even q = (let f = \<lfloor>q\<rfloor>; r = q - rat_of_int f in
     if r < 1 / 2 then f else if r > 1 / 2 then f + 1 else if even f then f else f + 1)"

definition pow2 :: "int \<Rightarrow> rat" where
  "pow2 k = (if k \<ge> 0 then 2 ^ nat k else 1 / 2 ^ nat (- k))"

definition round64 :: "rat \<Rightarrow> rat" where
  "round64 q = (if q = 0 then 0 else
     let (n, d) = quotient_of \<bar>q\<bar>;
         k = bitlen n - bitlen d;
         e = (if \<bar>q\<bar> \<ge> pow2 k then k else k - 1);
         ulp = pow2 (e - 52)
     in sgn q * rat_of_int (round_even (\<bar>q\<bar> / ulp)) * ulp)"

text \<open>The conversion \<^verbatim>\<open>(int)\<close> of a \<^verbatim>\<open>double\<close>.\<close>

definition trunc_int :: "rat \<Rightarrow> int" where
  "trunc_int q = (if q \<ge> 0 then \<lfloor>q\<rfloor> else \<lceil>q\<rceil>)"

lemma trunc_div_pos: "0 \<le> a \<Longrightarrow> 0 < b \<Longrightarrow> trunc_div a b = a div b"
  by (cases "a = 0") (simp_all add: trunc_div_def sgn_if)

end
