(* ===== verification/Noc_Header.thy ===== *)
theory Noc_Header
  imports Noc_Prelude
begin

text \<open>
  The header of a head flit, \<^verbatim>\<open>src/noc/packet/noc-header.{h,cc}\<close>: one byte per dimension with
  the direction and the remaining hops, then one byte per dimension with the source
  coordinate. The number of dimensions is the registry attribute \<^verbatim>\<open>NoCDimensions\<close>, an
  argument (\<open>dims\<close>) of the operations that read it.
\<close>

section \<open>Data\<close>

record noc_header =
  m_distance :: "u8 list"
  m_source :: "u8 list"

definition DIRECTION_BIT_MASK :: u8 where "DIRECTION_BIT_MASK = 0x80"
definition OFFSET_BIT_MASK :: u8 where "OFFSET_BIT_MASK = 0x7F"

lemmas mask_defs = DIRECTION_BIT_MASK_def OFFSET_BIT_MASK_def

section \<open>Construction\<close>

definition NocHeader_new :: "u32 \<Rightarrow> noc_header" where
  "NocHeader_new dims =
     \<lparr>m_distance = replicate (unat dims) 0, m_source = replicate (unat dims) 0\<rparr>"

definition NocHeader_new2 :: "u32 \<Rightarrow> u8 \<Rightarrow> u8 \<Rightarrow> u8 \<Rightarrow> u8 \<Rightarrow> noc_header option" where
  "NocHeader_new2 dims xDistance yDistance sourceX sourceY = do {
     let h = NocHeader_new dims;
     d \<leftarrow> vec_set (m_distance h) 0 xDistance;
     d \<leftarrow> vec_set d 1 yDistance;
     s \<leftarrow> vec_set (m_source h) 0 sourceX;
     s \<leftarrow> vec_set s 1 sourceY;
     Some (h\<lparr>m_distance := d, m_source := s\<rparr>)
   }"

definition NocHeader_new3 ::
    "u32 \<Rightarrow> u8 \<Rightarrow> u8 \<Rightarrow> u8 \<Rightarrow> u8 \<Rightarrow> u8 \<Rightarrow> u8 \<Rightarrow> noc_header option" where
  "NocHeader_new3 dims xDistance yDistance zDistance sourceX sourceY sourceZ = do {
     let h = NocHeader_new dims;
     d \<leftarrow> vec_set (m_distance h) 0 xDistance;
     d \<leftarrow> vec_set d 1 yDistance;
     d \<leftarrow> vec_set d 2 zDistance;
     s \<leftarrow> vec_set (m_source h) 0 sourceX;
     s \<leftarrow> vec_set s 1 sourceY;
     s \<leftarrow> vec_set s 2 sourceZ;
     Some (h\<lparr>m_distance := d, m_source := s\<rparr>)
   }"

definition NocHeader_newN :: "u8 list \<Rightarrow> u8 list \<Rightarrow> noc_header" where
  "NocHeader_newN distance source = \<lparr>m_distance = distance, m_source = source\<rparr>"

section \<open>Bytes on the wire\<close>

definition NocHeader_GetHeaderSize :: "u32 \<Rightarrow> u32" where
  "NocHeader_GetHeaderSize dims = 2 * dims"

definition NocHeader_GetSerializedSize :: "u32 \<Rightarrow> u32" where
  "NocHeader_GetSerializedSize dims = NocHeader_GetHeaderSize dims"

text \<open>The two loops of \<^verbatim>\<open>WriteU8\<close>, as the bytes they write.\<close>

definition NocHeader_Serialize :: "noc_header \<Rightarrow> u8 list" where
  "NocHeader_Serialize h = m_distance h @ m_source h"

text \<open>
  \<^verbatim>\<open>Buffer::Iterator::ReadU8\<close> on the bytes from the iterator to the end of the buffer, and a
  loop of \<open>n\<close> such reads. A read at the end has no defined result.
\<close>

fun Iterator_ReadU8 :: "u8 list \<Rightarrow> (u8 \<times> u8 list) option" where
  "Iterator_ReadU8 [] = None"
| "Iterator_ReadU8 (b # bs) = Some (b, bs)"

fun read_u8s :: "nat \<Rightarrow> u8 list \<Rightarrow> (u8 list \<times> u8 list) option" where
  "read_u8s 0 bs = Some ([], bs)"
| "read_u8s (Suc n) bs = do {
     (v, bs) \<leftarrow> Iterator_ReadU8 bs;
     (vs, bs) \<leftarrow> read_u8s n bs;
     Some (v # vs, bs)
   }"

text \<open>
  \<^verbatim>\<open>Deserialize\<close> overwrites the vectors of an existing header, keeping their lengths, and
  returns the size of a header, whatever the number of bytes read.
\<close>

definition NocHeader_Deserialize ::
    "u32 \<Rightarrow> noc_header \<Rightarrow> u8 list \<Rightarrow> (noc_header \<times> u32) option" where
  "NocHeader_Deserialize dims h bs = do {
     (d, bs) \<leftarrow> read_u8s (length (m_distance h)) bs;
     (s, bs) \<leftarrow> read_u8s (length (m_source h)) bs;
     Some (h\<lparr>m_distance := d, m_source := s\<rparr>, NocHeader_GetHeaderSize dims)
   }"

section \<open>Queries and updates\<close>

definition NocHeader_IsEmpty :: "noc_header \<Rightarrow> bool" where
  "NocHeader_IsEmpty h = (list_all (\<lambda>b. b = 0) (m_distance h) \<and> list_all (\<lambda>b. b = 0) (m_source h))"

definition NocHeader_HasForwardDirection :: "noc_header \<Rightarrow> nat \<Rightarrow> bool option" where
  "NocHeader_HasForwardDirection h index = do {
     d \<leftarrow> vec_at (m_distance h) index;
     Some (d AND DIRECTION_BIT_MASK \<noteq> DIRECTION_BIT_MASK)
   }"

definition NocHeader_HasBackDirection :: "noc_header \<Rightarrow> nat \<Rightarrow> bool option" where
  "NocHeader_HasBackDirection h index = map_option Not (NocHeader_HasForwardDirection h index)"

definition NocHeader_HasEastDirection :: "noc_header \<Rightarrow> bool option" where
  "NocHeader_HasEastDirection h = do {
     d \<leftarrow> vec_at (m_distance h) 0;
     Some (d AND DIRECTION_BIT_MASK \<noteq> DIRECTION_BIT_MASK)
   }"

definition NocHeader_HasWestDirection :: "noc_header \<Rightarrow> bool option" where
  "NocHeader_HasWestDirection h = map_option Not (NocHeader_HasEastDirection h)"

definition NocHeader_HasNorthDirection :: "noc_header \<Rightarrow> bool option" where
  "NocHeader_HasNorthDirection h = do {
     d \<leftarrow> vec_at (m_distance h) 1;
     Some (d AND DIRECTION_BIT_MASK \<noteq> DIRECTION_BIT_MASK)
   }"

definition NocHeader_HasSouthDirection :: "noc_header \<Rightarrow> bool option" where
  "NocHeader_HasSouthDirection h = map_option Not (NocHeader_HasNorthDirection h)"

definition NocHeader_HasUpDirection :: "noc_header \<Rightarrow> bool option" where
  "NocHeader_HasUpDirection h = do {
     d \<leftarrow> vec_at (m_distance h) 2;
     Some (d AND DIRECTION_BIT_MASK \<noteq> DIRECTION_BIT_MASK)
   }"

definition NocHeader_HasDownDirection :: "noc_header \<Rightarrow> bool option" where
  "NocHeader_HasDownDirection h = map_option Not (NocHeader_HasUpDirection h)"

definition NocHeader_SetXOffset :: "noc_header \<Rightarrow> u8 \<Rightarrow> noc_header option" where
  "NocHeader_SetXOffset h xOffset = do {
     east \<leftarrow> NocHeader_HasEastDirection h;
     d \<leftarrow> vec_set (m_distance h) 0 (if east then xOffset else xOffset OR DIRECTION_BIT_MASK);
     Some (h\<lparr>m_distance := d\<rparr>)
   }"

definition NocHeader_SetYOffset :: "noc_header \<Rightarrow> u8 \<Rightarrow> noc_header option" where
  "NocHeader_SetYOffset h yOffset = do {
     north \<leftarrow> NocHeader_HasNorthDirection h;
     d \<leftarrow> vec_set (m_distance h) 1 (if north then yOffset else yOffset OR DIRECTION_BIT_MASK);
     Some (h\<lparr>m_distance := d\<rparr>)
   }"

definition NocHeader_SetZOffset :: "noc_header \<Rightarrow> u8 \<Rightarrow> noc_header option" where
  "NocHeader_SetZOffset h zOffset = do {
     up \<leftarrow> NocHeader_HasUpDirection h;
     d \<leftarrow> vec_set (m_distance h) 2 (if up then zOffset else zOffset OR DIRECTION_BIT_MASK);
     Some (h\<lparr>m_distance := d\<rparr>)
   }"

text \<open>The loop of \<^verbatim>\<open>SetOffset\<close>: \<open>n\<close> iterations, the next index is \<open>i\<close>.\<close>

fun set_offset_loop :: "nat \<Rightarrow> nat \<Rightarrow> noc_header \<Rightarrow> u8 list \<Rightarrow> noc_header option" where
  "set_offset_loop 0 i h offset = Some h"
| "set_offset_loop (Suc n) i h offset = do {
     fwd \<leftarrow> NocHeader_HasForwardDirection h i;
     v \<leftarrow> vec_at offset i;
     d \<leftarrow> vec_set (m_distance h) i (if fwd then v else v OR DIRECTION_BIT_MASK);
     set_offset_loop n (Suc i) (h\<lparr>m_distance := d\<rparr>) offset
   }"

definition NocHeader_SetOffset :: "noc_header \<Rightarrow> u8 list \<Rightarrow> noc_header option" where
  "NocHeader_SetOffset h offset = set_offset_loop (length (m_distance h)) 0 h offset"

definition NocHeader_GetXOffset :: "noc_header \<Rightarrow> u8 option" where
  "NocHeader_GetXOffset h = map_option (\<lambda>d. d AND OFFSET_BIT_MASK) (vec_at (m_distance h) 0)"

definition NocHeader_GetYOffset :: "noc_header \<Rightarrow> u8 option" where
  "NocHeader_GetYOffset h = map_option (\<lambda>d. d AND OFFSET_BIT_MASK) (vec_at (m_distance h) 1)"

definition NocHeader_GetZOffset :: "noc_header \<Rightarrow> u8 option" where
  "NocHeader_GetZOffset h = map_option (\<lambda>d. d AND OFFSET_BIT_MASK) (vec_at (m_distance h) 2)"

definition NocHeader_GetOffset :: "noc_header \<Rightarrow> u8 list" where
  "NocHeader_GetOffset h = map (\<lambda>d. d AND OFFSET_BIT_MASK) (m_distance h)"

definition NocHeader_SetSourceX :: "noc_header \<Rightarrow> u8 \<Rightarrow> noc_header option" where
  "NocHeader_SetSourceX h sourceX =
     map_option (\<lambda>s. h\<lparr>m_source := s\<rparr>) (vec_set (m_source h) 0 sourceX)"

definition NocHeader_GetSourceX :: "noc_header \<Rightarrow> u8 option" where
  "NocHeader_GetSourceX h = vec_at (m_source h) 0"

definition NocHeader_SetSourceY :: "noc_header \<Rightarrow> u8 \<Rightarrow> noc_header option" where
  "NocHeader_SetSourceY h sourceY =
     map_option (\<lambda>s. h\<lparr>m_source := s\<rparr>) (vec_set (m_source h) 1 sourceY)"

definition NocHeader_GetSourceY :: "noc_header \<Rightarrow> u8 option" where
  "NocHeader_GetSourceY h = vec_at (m_source h) 1"

definition NocHeader_SetSourceZ :: "noc_header \<Rightarrow> u8 \<Rightarrow> noc_header option" where
  "NocHeader_SetSourceZ h sourceZ =
     map_option (\<lambda>s. h\<lparr>m_source := s\<rparr>) (vec_set (m_source h) 2 sourceZ)"

definition NocHeader_GetSourceZ :: "noc_header \<Rightarrow> u8 option" where
  "NocHeader_GetSourceZ h = vec_at (m_source h) 2"

definition NocHeader_SetSource :: "noc_header \<Rightarrow> u8 list \<Rightarrow> noc_header" where
  "NocHeader_SetSource h source = h\<lparr>m_source := source\<rparr>"

definition NocHeader_GetSource :: "noc_header \<Rightarrow> u8 list" where
  "NocHeader_GetSource h = m_source h"

section \<open>The displacement a byte stands for\<close>

text \<open>
  The abstract value of a distance byte: a sign, which the direction bit gives, and the
  number of hops still to go in that direction.
\<close>

definition goes_back :: "u8 \<Rightarrow> bool" where
  "goes_back b \<longleftrightarrow> 128 \<le> unat b"

definition hops :: "u8 \<Rightarrow> nat" where
  "hops b = unat b mod 128"

definition hop_sign :: "u8 \<Rightarrow> int" where
  "hop_sign b = (if goes_back b then - 1 else 1)"

definition displacement :: "u8 \<Rightarrow> int" where
  "displacement b = hop_sign b * int (hops b)"

lemma direction_bit_iff [byte_simps]:
  "b AND DIRECTION_BIT_MASK = DIRECTION_BIT_MASK \<longleftrightarrow> goes_back b"
  by (simp add: DIRECTION_BIT_MASK_def goes_back_def byte_simps)

lemma unat_offset_bits [byte_simps]: "unat (b AND OFFSET_BIT_MASK) = hops b"
  by (simp add: OFFSET_BIT_MASK_def hops_def byte_simps)

lemma offset_bits_0_iff [byte_simps]: "b AND OFFSET_BIT_MASK = 0 \<longleftrightarrow> hops b = 0"
  unfolding unat_offset_bits [symmetric] by (simp add: unat_eq_0)

lemma hops_less [simp]: "hops b < 128"
  by (simp add: hops_def)

lemma hops_forward: "\<not> goes_back b \<Longrightarrow> hops b = unat b"
  by (simp add: hops_def goes_back_def)

lemma hops_0 [simp]: "hops 0 = 0" and goes_back_0 [simp]: "\<not> goes_back 0"
  by (simp_all add: hops_def goes_back_def)

lemma hops_or_direction [byte_simps]: "hops (b OR DIRECTION_BIT_MASK) = hops b"
proof (cases "unat b < 128")
  case True
  then show ?thesis by (simp add: hops_def DIRECTION_BIT_MASK_def unat_or_direction)
next
  case False
  then show ?thesis by (simp add: hops_def DIRECTION_BIT_MASK_def or_direction_set)
qed

lemma goes_back_or_direction [byte_simps]: "goes_back (b OR DIRECTION_BIT_MASK)"
proof (cases "unat b < 128")
  case True
  then show ?thesis by (simp add: goes_back_def DIRECTION_BIT_MASK_def unat_or_direction)
next
  case False
  then show ?thesis by (simp add: goes_back_def DIRECTION_BIT_MASK_def or_direction_set)
qed

lemma displacement_0_iff: "displacement b = 0 \<longleftrightarrow> hops b = 0"
  by (simp add: displacement_def hop_sign_def)

lemma abs_displacement: "\<bar>displacement b\<bar> = int (hops b)"
  by (simp add: displacement_def hop_sign_def)

text \<open>The byte that a \<^verbatim>\<open>Set..Offset\<close> stores over the byte \<open>d\<close>.\<close>

definition with_offset :: "u8 \<Rightarrow> u8 \<Rightarrow> u8" where
  "with_offset d v = (if goes_back d then v OR DIRECTION_BIT_MASK else v)"

lemma with_offset_small:
  assumes "unat v < 128"
  shows "goes_back (with_offset d v) = goes_back d" and "hops (with_offset d v) = unat v"
proof -
  have "\<not> goes_back v" "hops v = unat v"
    using assms by (simp_all add: goes_back_def hops_def)
  then show "goes_back (with_offset d v) = goes_back d" "hops (with_offset d v) = unat v"
    by (simp_all add: with_offset_def byte_simps)
qed

section \<open>Updates and queries on the displacement\<close>

lemma HasForwardDirection_eq:
  "NocHeader_HasForwardDirection h i = map_option (\<lambda>d. \<not> goes_back d) (vec_at (m_distance h) i)"
  by (cases "vec_at (m_distance h) i") (simp_all add: NocHeader_HasForwardDirection_def byte_simps)

lemma HasEastDirection_eq: "NocHeader_HasEastDirection h = NocHeader_HasForwardDirection h 0"
  by (simp add: NocHeader_HasEastDirection_def NocHeader_HasForwardDirection_def)

lemma HasNorthDirection_eq: "NocHeader_HasNorthDirection h = NocHeader_HasForwardDirection h 1"
  by (simp add: NocHeader_HasNorthDirection_def NocHeader_HasForwardDirection_def)

lemma HasUpDirection_eq: "NocHeader_HasUpDirection h = NocHeader_HasForwardDirection h 2"
  by (simp add: NocHeader_HasUpDirection_def NocHeader_HasForwardDirection_def)

text \<open>One dimension of a header with its offset replaced.\<close>

definition put_offset :: "noc_header \<Rightarrow> nat \<Rightarrow> u8 \<Rightarrow> noc_header" where
  "put_offset h i v = h\<lparr>m_distance := (m_distance h)[i := with_offset (m_distance h ! i) v]\<rparr>"

lemma put_offset_simps [simp]:
  "length (m_distance (put_offset h i v)) = length (m_distance h)"
  "m_source (put_offset h i v) = m_source h"
  "i < length (m_distance h) \<Longrightarrow> m_distance (put_offset h i v) ! i = with_offset (m_distance h ! i) v"
  "i \<noteq> j \<Longrightarrow> m_distance (put_offset h i v) ! j = m_distance h ! j"
  by (simp_all add: put_offset_def)

lemma SetOffsets_eq:
  "NocHeader_SetXOffset h v = (if 0 < length (m_distance h) then Some (put_offset h 0 v) else None)"
  "NocHeader_SetYOffset h v = (if 1 < length (m_distance h) then Some (put_offset h 1 v) else None)"
  "NocHeader_SetZOffset h v = (if 2 < length (m_distance h) then Some (put_offset h 2 v) else None)"
  by (auto simp: NocHeader_SetXOffset_def NocHeader_SetYOffset_def NocHeader_SetZOffset_def
      HasEastDirection_eq HasNorthDirection_eq HasUpDirection_eq HasForwardDirection_eq
      put_offset_def with_offset_def vec_at_def vec_set_def)

lemma GetOffsets_eq:
  "NocHeader_GetXOffset h = map_option (\<lambda>d. d AND OFFSET_BIT_MASK) (vec_at (m_distance h) 0)"
  "NocHeader_GetYOffset h = map_option (\<lambda>d. d AND OFFSET_BIT_MASK) (vec_at (m_distance h) 1)"
  "NocHeader_GetZOffset h = map_option (\<lambda>d. d AND OFFSET_BIT_MASK) (vec_at (m_distance h) 2)"
  by (simp_all add: NocHeader_GetXOffset_def NocHeader_GetYOffset_def NocHeader_GetZOffset_def)

lemma length_GetOffset [simp]: "length (NocHeader_GetOffset h) = length (m_distance h)"
  by (simp add: NocHeader_GetOffset_def)

lemma set_offset_loop_step:
  assumes "i < length (m_distance h)" "i < length offset"
  shows "set_offset_loop (Suc n) i h offset = set_offset_loop n (Suc i) (put_offset h i (offset ! i)) offset"
  using assms by (simp add: HasForwardDirection_eq put_offset_def with_offset_def)

lemma set_offset_loop_spec:
  assumes "i + n = length (m_distance h)" "i + n \<le> length offset"
  shows "\<exists>h'. set_offset_loop n i h offset = Some h' \<and> m_source h' = m_source h \<and>
     length (m_distance h') = length (m_distance h) \<and>
     (\<forall>k < length (m_distance h). m_distance h' ! k =
        (if i \<le> k then with_offset (m_distance h ! k) (offset ! k) else m_distance h ! k))"
  using assms
proof (induction n arbitrary: i h)
  case 0
  then show ?case by simp
next
  case (Suc n)
  let ?h = "put_offset h i (offset ! i)"
  have "Suc i + n = length (m_distance ?h)" "Suc i + n \<le> length offset"
    using Suc.prems by simp_all
  from Suc.IH [OF this] obtain h' where h':
    "set_offset_loop n (Suc i) ?h offset = Some h'" "m_source h' = m_source h"
    "length (m_distance h') = length (m_distance h)"
    "\<forall>k < length (m_distance h). m_distance h' ! k =
       (if Suc i \<le> k then with_offset (m_distance ?h ! k) (offset ! k) else m_distance ?h ! k)"
    by auto
  have "set_offset_loop (Suc n) i h offset = Some h'"
    using Suc.prems h'(1) by (simp only: set_offset_loop_step)
  moreover have "m_distance h' ! k =
      (if i \<le> k then with_offset (m_distance h ! k) (offset ! k) else m_distance h ! k)"
    if "k < length (m_distance h)" for k
    using h'(4) that by (cases "k = i") auto
  ultimately show ?case using h'(2,3) by blast
qed

lemma read_u8s_append [simp]: "read_u8s (length xs) (xs @ ys) = Some (xs, ys)"
  by (induction xs) simp_all

lemma read_u8s_eq_Some:
  "read_u8s n bs = Some (vs, rest) \<longleftrightarrow> bs = vs @ rest \<and> length vs = n"
proof (induction n arbitrary: bs vs rest)
  case 0
  then show ?case by auto
next
  case (Suc n)
  then show ?case
    by (cases bs; cases vs) (auto simp: Option.bind_eq_Some_conv split: prod.splits)
qed

section \<open>Properties of the header\<close>

text \<open>C25: a header written to a buffer and read back into a header of the same
  number of dimensions, with whatever bytes behind it, is the header that was written; the
  reported size is that of the bytes written when the header has \<open>dims\<close> dimensions.\<close>

theorem header_roundtrip:
  assumes "length (m_distance h) = unat dims" "length (m_source h) = unat dims"
    and "unat dims < 2 ^ 31"
  shows "NocHeader_Deserialize dims (NocHeader_new dims) (NocHeader_Serialize h @ payload)
           = Some (h, NocHeader_GetHeaderSize dims)
         \<and> unat (NocHeader_GetHeaderSize dims) = length (NocHeader_Serialize h)"
proof -
  have r1: "read_u8s (unat dims) (NocHeader_Serialize h @ payload) = Some (m_distance h, m_source h @ payload)"
    using assms(1) by (simp add: read_u8s_eq_Some NocHeader_Serialize_def)
  have r2: "read_u8s (unat dims) (m_source h @ payload) = Some (m_source h, payload)"
    using assms(2) by (simp add: read_u8s_eq_Some)
  have "NocHeader_Deserialize dims (NocHeader_new dims) (NocHeader_Serialize h @ payload)
     = Some (h, NocHeader_GetHeaderSize dims)"
    by (simp add: NocHeader_Deserialize_def NocHeader_new_def r1 r2)
  moreover have "unat (2 * dims) = 2 * unat dims"
    using assms(3) by (simp add: unat_word_ariths)
  ultimately show ?thesis
    using assms(1,2) by (simp add: NocHeader_GetHeaderSize_def NocHeader_Serialize_def)
qed

theorem header_roundtrip_witness:
  "NocHeader_Deserialize 2 (NocHeader_new 2)
     (NocHeader_Serialize \<lparr>m_distance = [0x83, 5], m_source = [1, 2]\<rparr> @ [9, 9])
   = Some (\<lparr>m_distance = [0x83, 5], m_source = [1, 2]\<rparr>, 4)"
  using header_roundtrip [of "\<lparr>m_distance = [0x83, 5], m_source = [1, 2]\<rparr>" 2 "[9, 9]"]
  by (simp add: NocHeader_GetHeaderSize_def)

text \<open>\<^verbatim>\<open>SetOffset\<close> with one offset per dimension, each at most 127,
  succeeds, leaves the direction of every dimension and the source as they were, and makes
  the hops of every dimension the offset given for it.\<close>

theorem set_offset_displacement:
  assumes "length (m_distance h) \<le> length offset"
    and "\<forall>v \<in> set (take (length (m_distance h)) offset). unat v < 128"
  shows "\<exists>h'. NocHeader_SetOffset h offset = Some h' \<and> m_source h' = m_source h \<and>
     map goes_back (m_distance h') = map goes_back (m_distance h) \<and>
     NocHeader_GetOffset h' = take (length (m_distance h)) offset"
proof -
  obtain h' where h': "NocHeader_SetOffset h offset = Some h'" "m_source h' = m_source h"
    "length (m_distance h') = length (m_distance h)"
    "\<forall>k < length (m_distance h). m_distance h' ! k = with_offset (m_distance h ! k) (offset ! k)"
    using set_offset_loop_spec [of 0 "length (m_distance h)" h offset] assms(1)
    unfolding NocHeader_SetOffset_def by auto
  have small: "unat (offset ! k) < 128" if "k < length (m_distance h)" for k
  proof -
    have "offset ! k \<in> set (take (length (m_distance h)) offset)"
      using that assms(1) by (auto simp: in_set_conv_nth intro!: exI [of _ k])
    with assms(2) show ?thesis by blast
  qed
  have "map goes_back (m_distance h') = map goes_back (m_distance h)"
    by (rule nth_equalityI) (simp_all add: h' with_offset_small small)
  moreover have "NocHeader_GetOffset h' = take (length (m_distance h)) offset"
  proof (rule nth_equalityI)
    show "length (NocHeader_GetOffset h') = length (take (length (m_distance h)) offset)"
      using h'(3) assms(1) by simp
  next
    fix k assume "k < length (NocHeader_GetOffset h')"
    then have k: "k < length (m_distance h)" by (simp add: h'(3))
    then have "unat (m_distance h' ! k AND OFFSET_BIT_MASK) = unat (offset ! k)"
      by (simp add: unat_offset_bits h'(4) with_offset_small small)
    then have "m_distance h' ! k AND OFFSET_BIT_MASK = offset ! k"
      by (rule unsigned_word_eqI)
    with k show "NocHeader_GetOffset h' ! k = take (length (m_distance h)) offset ! k"
      by (simp add: NocHeader_GetOffset_def h'(3))
  qed
  ultimately show ?thesis using h' by blast
qed

theorem set_offset_displacement_witness:
  "\<exists>h'. NocHeader_SetOffset \<lparr>m_distance = [0x83, 5], m_source = [1, 2]\<rparr> [2, 5] = Some h' \<and>
     m_source h' = [1, 2] \<and> map goes_back (m_distance h') = map goes_back [0x83, 5] \<and>
     NocHeader_GetOffset h' = [2, 5]"
  using set_offset_displacement [of "\<lparr>m_distance = [0x83, 5], m_source = [1, 2]\<rparr>" "[2, 5]"]
  by simp

end
