(* ===== verification/Noc_Packet.thy ===== *)
theory Noc_Packet
  imports Noc_Header
begin

text \<open>
  Packets and their tags. A packet of the network is a flit: its bytes (the headers in front
  of a zero payload), its UID, and the one tag the network attaches to it. Sources:
  \<^verbatim>\<open>src/noc/packet/noc-packet-tag.cc\<close>, \<^verbatim>\<open>src/noc/packet/noc-packet.{h,cc}\<close>, and of the
  simulator's packets what they use: \<^verbatim>\<open>src/common/packet.cc\<close>,
  \<^verbatim>\<open>src/common/packet-tag-list.cc\<close>, \<^verbatim>\<open>src/common/tag-buffer.cc\<close>. A time is the integer
  number of picoseconds that \<^verbatim>\<open>GetPicoSeconds\<close> returns.
\<close>

section \<open>Little-endian words in a tag buffer\<close>

text \<open>
  \<open>le_bytes n v\<close> is the run of \<open>n\<close> calls \<^verbatim>\<open>WriteU8 ((v >> 8*k) & 0xff)\<close>, and \<open>of_le\<close> the shifts
  and ors that the \<^verbatim>\<open>Read\<close> functions assemble the bytes with, last byte first.
\<close>

fun le_bytes :: "nat \<Rightarrow> 'a::len word \<Rightarrow> u8 list" where
  "le_bytes 0 v = []"
| "le_bytes (Suc n) v = ucast (v AND 0xff) # le_bytes n (drop_bit 8 v)"

fun of_le :: "u8 list \<Rightarrow> 'a::len word" where
  "of_le [] = 0"
| "of_le (b # bs) = push_bit 8 (of_le bs) OR ucast b"

definition TagBuffer_WriteU8 :: "u8 \<Rightarrow> u8 list" where
  "TagBuffer_WriteU8 v = [v]"

definition TagBuffer_WriteU16 :: "u16 \<Rightarrow> u8 list" where
  "TagBuffer_WriteU16 v = le_bytes 2 v"

definition TagBuffer_WriteU32 :: "u32 \<Rightarrow> u8 list" where
  "TagBuffer_WriteU32 v = le_bytes 4 v"

definition TagBuffer_WriteU64 :: "u64 \<Rightarrow> u8 list" where
  "TagBuffer_WriteU64 v = le_bytes 8 v"

fun TagBuffer_ReadU8 :: "u8 list \<Rightarrow> (u8 \<times> u8 list) option" where
  "TagBuffer_ReadU8 [] = None"
| "TagBuffer_ReadU8 (b # bs) = Some (b, bs)"

fun tag_read_bytes :: "nat \<Rightarrow> u8 list \<Rightarrow> (u8 list \<times> u8 list) option" where
  "tag_read_bytes 0 bs = Some ([], bs)"
| "tag_read_bytes (Suc n) bs = do {
     (v, bs) \<leftarrow> TagBuffer_ReadU8 bs;
     (vs, bs) \<leftarrow> tag_read_bytes n bs;
     Some (v # vs, bs)
   }"

definition TagBuffer_ReadU16 :: "u8 list \<Rightarrow> (u16 \<times> u8 list) option" where
  "TagBuffer_ReadU16 bs = map_option (\<lambda>(vs, bs). (of_le vs, bs)) (tag_read_bytes 2 bs)"

definition TagBuffer_ReadU32 :: "u8 list \<Rightarrow> (u32 \<times> u8 list) option" where
  "TagBuffer_ReadU32 bs = map_option (\<lambda>(vs, bs). (of_le vs, bs)) (tag_read_bytes 4 bs)"

definition TagBuffer_ReadU64 :: "u8 list \<Rightarrow> (u64 \<times> u8 list) option" where
  "TagBuffer_ReadU64 bs = map_option (\<lambda>(vs, bs). (of_le vs, bs)) (tag_read_bytes 8 bs)"

lemma length_le_bytes [simp]: "length (le_bytes n v) = n"
  by (induction n arbitrary: v) simp_all

lemma mask_8_eq: "(0xff :: 'a::len word) = mask 8"
  by (simp add: mask_eq_exp_minus_1)

lemma of_le_le_bytes: "of_le (le_bytes n (v :: 'a::len word)) = take_bit (8 * n) v"
proof (induction n arbitrary: v)
  case 0
  then show ?case by simp
next
  case (Suc n)
  show ?case
    unfolding le_bytes.simps of_le.simps Suc.IH mask_8_eq
    by (rule bit_word_eqI) (auto simp: bit_simps)
qed

lemma tag_read_bytes_append: "length vs = n \<Longrightarrow> tag_read_bytes n (vs @ bs) = Some (vs, bs)"
  by (induction vs arbitrary: n) auto

lemma TagBuffer_round_trips [simp]:
  "TagBuffer_ReadU8 (TagBuffer_WriteU8 v8 @ bs) = Some (v8, bs)"
  "TagBuffer_ReadU16 (TagBuffer_WriteU16 v16 @ bs) = Some (v16, bs)"
  "TagBuffer_ReadU32 (TagBuffer_WriteU32 v32 @ bs) = Some (v32, bs)"
  "TagBuffer_ReadU64 (TagBuffer_WriteU64 v64 @ bs) = Some (v64, bs)"
  by (simp_all add: TagBuffer_ReadU16_def TagBuffer_WriteU16_def TagBuffer_ReadU32_def
      TagBuffer_WriteU32_def TagBuffer_ReadU64_def TagBuffer_WriteU64_def TagBuffer_WriteU8_def
      tag_read_bytes_append of_le_le_bytes take_bit_word_eq_self)

section \<open>The packet tag\<close>

datatype packet_type = HEAD | DATA | TAIL | UNKNOWN

text \<open>The members of \<^verbatim>\<open>NocPacketTag\<close>, \<open>tag_x\<close> for \<^verbatim>\<open>m_x\<close>.\<close>

record noc_packet_tag =
  tag_type :: packet_type
  tag_headPacketUid :: u32
  tag_dataFlitCount :: u16
  tag_load :: u8
  tag_packetBlocked :: bool
  tag_injectionTime :: int
  tag_receiveTime :: int
  tag_ctgIteration :: u64

text \<open>
  The default constructor leaves the type and the head UID uninitialised; they are
  \<open>UNKNOWN\<close> and 0 here, and no property below depends on that choice.
\<close>

definition NocPacketTag_new :: noc_packet_tag where
  "NocPacketTag_new = \<lparr>tag_type = UNKNOWN, tag_headPacketUid = 0, tag_dataFlitCount = 0,
     tag_load = 0, tag_packetBlocked = False, tag_injectionTime = 0, tag_receiveTime = 0,
     tag_ctgIteration = 0\<rparr>"

definition NocPacketTag_GetSerializedSize :: u32 where
  "NocPacketTag_GetSerializedSize = 33"

fun type_to_u8 :: "packet_type \<Rightarrow> u8" where
  "type_to_u8 HEAD = 0"
| "type_to_u8 DATA = 1"
| "type_to_u8 TAIL = 2"
| "type_to_u8 UNKNOWN = 3"

definition type_of_u8 :: "u8 \<Rightarrow> packet_type" where
  "type_of_u8 t = (if t = 0 then HEAD else if t = 1 then DATA else if t = 2 then TAIL else UNKNOWN)"

definition NocPacketTag_Serialize :: "noc_packet_tag \<Rightarrow> u8 list" where
  "NocPacketTag_Serialize t =
     TagBuffer_WriteU8 (type_to_u8 (tag_type t)) @
     TagBuffer_WriteU32 (tag_headPacketUid t) @
     TagBuffer_WriteU16 (tag_dataFlitCount t) @
     TagBuffer_WriteU8 (tag_load t) @
     TagBuffer_WriteU8 (if tag_packetBlocked t then 1 else 0) @
     TagBuffer_WriteU64 (word_of_int (tag_injectionTime t)) @
     TagBuffer_WriteU64 (word_of_int (tag_receiveTime t)) @
     TagBuffer_WriteU64 (tag_ctgIteration t)"

definition NocPacketTag_Deserialize :: "u8 list \<Rightarrow> noc_packet_tag option" where
  "NocPacketTag_Deserialize bs = do {
     (type, bs) \<leftarrow> TagBuffer_ReadU8 bs;
     (uid, bs) \<leftarrow> TagBuffer_ReadU32 bs;
     (cnt, bs) \<leftarrow> TagBuffer_ReadU16 bs;
     (load, bs) \<leftarrow> TagBuffer_ReadU8 bs;
     (blocked, bs) \<leftarrow> TagBuffer_ReadU8 bs;
     (inj, bs) \<leftarrow> TagBuffer_ReadU64 bs;
     (rec, bs) \<leftarrow> TagBuffer_ReadU64 bs;
     (ctg, bs) \<leftarrow> TagBuffer_ReadU64 bs;
     Some \<lparr>tag_type = type_of_u8 type, tag_headPacketUid = uid, tag_dataFlitCount = cnt,
       tag_load = load, tag_packetBlocked = (blocked \<noteq> 0), tag_injectionTime = uint inj,
       tag_receiveTime = uint rec, tag_ctgIteration = ctg\<rparr>
   }"

text \<open>A tag whose times fit the 64 bits they are written in.\<close>

definition tag_wf :: "noc_packet_tag \<Rightarrow> bool" where
  "tag_wf t \<longleftrightarrow> 0 \<le> tag_injectionTime t \<and> tag_injectionTime t < 2 ^ 64 \<and>
     0 \<le> tag_receiveTime t \<and> tag_receiveTime t < 2 ^ 64"

lemma type_of_to_u8 [simp]: "type_of_u8 (type_to_u8 t) = t"
  by (cases t) (simp_all add: type_of_u8_def)

lemma length_tag_Serialize [simp]: "length (NocPacketTag_Serialize t) = 33"
  by (simp add: NocPacketTag_Serialize_def TagBuffer_WriteU8_def TagBuffer_WriteU16_def
      TagBuffer_WriteU32_def TagBuffer_WriteU64_def)

lemma tag_Deserialize_Serialize:
  assumes "tag_wf t"
  shows "NocPacketTag_Deserialize (NocPacketTag_Serialize t @ pad) = Some t"
proof -
  have "uint (word_of_int (tag_injectionTime t) :: u64) = tag_injectionTime t"
    "uint (word_of_int (tag_receiveTime t) :: u64) = tag_receiveTime t"
    using assms by (simp_all add: tag_wf_def uint_word_of_int)
  then show ?thesis
    by (simp add: NocPacketTag_Deserialize_def NocPacketTag_Serialize_def)
qed

section \<open>Packets\<close>

text \<open>
  The buffer of a packet is the bytes in front of its zero area and the length of that area
  (a packet created with a size is all zero area; headers go in front). \<open>pk_tag\<close> is the data
  of the packet tag of type \<^verbatim>\<open>NocPacketTag\<close>, the only type the network attaches.
\<close>

record packet =
  pk_uid :: u32
  pk_bytes :: "u8 list"
  pk_zeros :: nat
  pk_tag :: "u8 list option"

definition PACKET_TAG_MAX_SIZE :: nat where
  "PACKET_TAG_MAX_SIZE = 40"

text \<open>\<^verbatim>\<open>Packet (size)\<close>, with the next UID of the global counter and the counter after it.\<close>

definition Packet_new :: "u32 \<Rightarrow> u32 \<Rightarrow> packet \<times> u32" where
  "Packet_new globalUid nbytes =
     (\<lparr>pk_uid = globalUid, pk_bytes = [], pk_zeros = unat nbytes, pk_tag = None\<rparr>, globalUid + 1)"

definition Packet_data :: "packet \<Rightarrow> u8 list" where
  "Packet_data p = pk_bytes p @ replicate (pk_zeros p) 0"

definition Packet_GetSize :: "packet \<Rightarrow> u32" where
  "Packet_GetSize p = of_nat (length (pk_bytes p) + pk_zeros p)"

text \<open>
  \<^verbatim>\<open>AddHeader\<close> makes room for the serialized size and writes the header over the front of the
  buffer; the iterator asserts that no byte is written in the zero area. \<^verbatim>\<open>RemoveAtStart\<close>
  takes bytes from the front, then from the zero area.
\<close>

definition Packet_AddHeader :: "u32 \<Rightarrow> packet \<Rightarrow> noc_header \<Rightarrow> packet option" where
  "Packet_AddHeader dims p h = do {
     let front = replicate (unat (NocHeader_GetSerializedSize dims)) 0 @ pk_bytes p;
     let written = NocHeader_Serialize h;
     _ \<leftarrow> ns_assert (length written \<le> length front);
     Some (p\<lparr>pk_bytes := written @ drop (length written) front\<rparr>)
   }"

definition Buffer_RemoveAtStart :: "nat \<Rightarrow> packet \<Rightarrow> packet" where
  "Buffer_RemoveAtStart start p =
     p\<lparr>pk_bytes := drop start (pk_bytes p),
       pk_zeros := pk_zeros p - (start - length (pk_bytes p))\<rparr>"

definition Packet_RemoveHeader :: "u32 \<Rightarrow> packet \<Rightarrow> noc_header \<Rightarrow> (noc_header \<times> packet) option" where
  "Packet_RemoveHeader dims p h = do {
     (h', deserialized) \<leftarrow> NocHeader_Deserialize dims h (Packet_data p);
     Some (h', Buffer_RemoveAtStart (unat deserialized) p)
   }"

definition Packet_PeekHeader :: "u32 \<Rightarrow> packet \<Rightarrow> noc_header \<Rightarrow> noc_header option" where
  "Packet_PeekHeader dims p h = map_option fst (NocHeader_Deserialize dims h (Packet_data p))"

text \<open>
  The packet tag list: adding asserts that no tag of the type is there and that the tag fits;
  removing and peeking say whether they found one, and leave the argument alone if not.
\<close>

definition Packet_AddPacketTag :: "packet \<Rightarrow> noc_packet_tag \<Rightarrow> packet option" where
  "Packet_AddPacketTag p t = do {
     _ \<leftarrow> ns_assert (pk_tag p = None);
     _ \<leftarrow> ns_assert (unat NocPacketTag_GetSerializedSize < PACKET_TAG_MAX_SIZE);
     Some (p\<lparr>pk_tag := Some (NocPacketTag_Serialize t)\<rparr>)
   }"

definition Packet_PeekPacketTag :: "packet \<Rightarrow> noc_packet_tag \<Rightarrow> (bool \<times> noc_packet_tag) option" where
  "Packet_PeekPacketTag p t = (case pk_tag p of
     None \<Rightarrow> Some (False, t)
   | Some data \<Rightarrow> map_option (\<lambda>t'. (True, t')) (NocPacketTag_Deserialize data))"

definition Packet_RemovePacketTag ::
    "packet \<Rightarrow> noc_packet_tag \<Rightarrow> (bool \<times> noc_packet_tag \<times> packet) option" where
  "Packet_RemovePacketTag p t = (case pk_tag p of
     None \<Rightarrow> Some (False, t, p)
   | Some data \<Rightarrow> map_option (\<lambda>t'. (True, t', p\<lparr>pk_tag := None\<rparr>)) (NocPacketTag_Deserialize data))"

section \<open>Constructors of flits\<close>

text \<open>
  The constructors of \<^verbatim>\<open>NocPacket\<close>: a head flit from a header (the argument
  \<^verbatim>\<open>dataFlitCount\<close> of the source is passed on to the header, which ignores it), and a data or
  tail flit that names its head flit.
\<close>

definition NocPacket_head :: "u32 \<Rightarrow> u32 \<Rightarrow> noc_header \<Rightarrow> u32 \<Rightarrow> (packet \<times> u32) option" where
  "NocPacket_head dims globalUid h dataPacketSize = do {
     let (p, globalUid) = Packet_new globalUid dataPacketSize;
     p \<leftarrow> Packet_AddHeader dims p h;
     p \<leftarrow> Packet_AddPacketTag p (NocPacketTag_new\<lparr>tag_type := HEAD\<rparr>);
     Some (p, globalUid)
   }"

definition NocPacket_head2 ::
    "u32 \<Rightarrow> u32 \<Rightarrow> u8 \<Rightarrow> u8 \<Rightarrow> u8 \<Rightarrow> u8 \<Rightarrow> u32 \<Rightarrow> (packet \<times> u32) option" where
  "NocPacket_head2 dims globalUid xDistance yDistance sourceX sourceY dataPacketSize = do {
     h \<leftarrow> NocHeader_new2 dims xDistance yDistance sourceX sourceY;
     NocPacket_head dims globalUid h dataPacketSize
   }"

definition NocPacket_head3 ::
    "u32 \<Rightarrow> u32 \<Rightarrow> u8 \<Rightarrow> u8 \<Rightarrow> u8 \<Rightarrow> u8 \<Rightarrow> u8 \<Rightarrow> u8 \<Rightarrow> u32 \<Rightarrow> (packet \<times> u32) option" where
  "NocPacket_head3 dims globalUid xDistance yDistance zDistance sourceX sourceY sourceZ
     dataPacketSize = do {
     h \<leftarrow> NocHeader_new3 dims xDistance yDistance zDistance sourceX sourceY sourceZ;
     NocPacket_head dims globalUid h dataPacketSize
   }"

definition NocPacket_headN ::
    "u32 \<Rightarrow> u32 \<Rightarrow> u8 list \<Rightarrow> u8 list \<Rightarrow> u32 \<Rightarrow> (packet \<times> u32) option" where
  "NocPacket_headN dims globalUid distance source dataPacketSize =
     NocPacket_head dims globalUid (NocHeader_newN distance source) dataPacketSize"

definition NocPacket_data :: "u32 \<Rightarrow> u32 \<Rightarrow> u32 \<Rightarrow> bool \<Rightarrow> (packet \<times> u32) option" where
  "NocPacket_data globalUid headPacketUid dataPacketSize isTailPacket = do {
     let (p, globalUid) = Packet_new globalUid dataPacketSize;
     let tag = NocPacketTag_new\<lparr>tag_type := (if isTailPacket then TAIL else DATA)\<rparr>;
     p \<leftarrow> Packet_AddPacketTag p (tag\<lparr>tag_headPacketUid := headPacketUid\<rparr>);
     Some (p, globalUid)
   }"

section \<open>Properties of packets and tags\<close>

lemma PeekPacketTag_of_Serialize:
  "tag_wf t \<Longrightarrow> pk_tag p = Some (NocPacketTag_Serialize t) \<Longrightarrow>
     Packet_PeekPacketTag p t0 = Some (True, t)"
  using tag_Deserialize_Serialize [of t "[]"] by (simp add: Packet_PeekPacketTag_def)

lemma RemovePacketTag_of_Serialize:
  "tag_wf t \<Longrightarrow> pk_tag p = Some (NocPacketTag_Serialize t) \<Longrightarrow>
     Packet_RemovePacketTag p t0 = Some (True, t, p\<lparr>pk_tag := None\<rparr>)"
  using tag_Deserialize_Serialize [of t "[]"] by (simp add: Packet_RemovePacketTag_def)

lemma AddPacketTag_eq:
  "Packet_AddPacketTag p t =
     (if pk_tag p = None then Some (p\<lparr>pk_tag := Some (NocPacketTag_Serialize t)\<rparr>) else None)"
  by (simp add: Packet_AddPacketTag_def NocPacketTag_GetSerializedSize_def PACKET_TAG_MAX_SIZE_def)

text \<open>Attaching a well-formed tag to a packet that has none succeeds; peeking
  then finds that tag whatever the tag object passed in held, and removing it finds the same
  tag and gives back the packet as it was before.\<close>

theorem tag_roundtrip:
  assumes "pk_tag p = None" "tag_wf t"
  shows "\<exists>p'. Packet_AddPacketTag p t = Some p' \<and>
     Packet_PeekPacketTag p' t0 = Some (True, t) \<and>
     Packet_RemovePacketTag p' t0 = Some (True, t, p)"
proof -
  let ?p' = "p\<lparr>pk_tag := Some (NocPacketTag_Serialize t)\<rparr>"
  have "Packet_AddPacketTag p t = Some ?p'"
    using assms(1) by (simp add: AddPacketTag_eq)
  moreover have "Packet_RemovePacketTag ?p' t0 = Some (True, t, p)"
    using RemovePacketTag_of_Serialize [of t ?p' t0] assms by simp
  moreover have "Packet_PeekPacketTag ?p' t0 = Some (True, t)"
    using assms(2) by (simp add: PeekPacketTag_of_Serialize)
  ultimately show ?thesis by blast
qed

theorem tag_roundtrip_witness:
  "\<exists>p'. Packet_AddPacketTag \<lparr>pk_uid = 7, pk_bytes = [1, 2], pk_zeros = 3, pk_tag = None\<rparr>
       (NocPacketTag_new\<lparr>tag_dataFlitCount := 4, tag_receiveTime := 1000\<rparr>) = Some p' \<and>
     Packet_PeekPacketTag p' NocPacketTag_new
       = Some (True, NocPacketTag_new\<lparr>tag_dataFlitCount := 4, tag_receiveTime := 1000\<rparr>) \<and>
     Packet_RemovePacketTag p' NocPacketTag_new
       = Some (True, NocPacketTag_new\<lparr>tag_dataFlitCount := 4, tag_receiveTime := 1000\<rparr>,
           \<lparr>pk_uid = 7, pk_bytes = [1, 2], pk_zeros = 3, pk_tag = None\<rparr>)"
  using tag_roundtrip [of "\<lparr>pk_uid = 7, pk_bytes = [1, 2], pk_zeros = 3, pk_tag = None\<rparr>"
      "NocPacketTag_new\<lparr>tag_dataFlitCount := 4, tag_receiveTime := 1000\<rparr>" NocPacketTag_new]
  by (simp add: tag_wf_def NocPacketTag_new_def)

text \<open>Headers of the configured number of dimensions, and what adding one does.\<close>

definition header_fits :: "u32 \<Rightarrow> noc_header \<Rightarrow> bool" where
  "header_fits dims h \<longleftrightarrow> unat dims < 2 ^ 31 \<and>
     length (m_distance h) = unat dims \<and> length (m_source h) = unat dims"

lemma unat_header_size: "unat dims < 2 ^ 31 \<Longrightarrow> unat (NocHeader_GetHeaderSize dims) = 2 * unat dims"
  by (simp add: NocHeader_GetHeaderSize_def unat_word_ariths)

lemma AddHeader_fits:
  assumes "header_fits dims h"
  shows "Packet_AddHeader dims p h = Some (p\<lparr>pk_bytes := NocHeader_Serialize h @ pk_bytes p\<rparr>)"
  using assms unat_header_size [of dims]
  by (simp add: Packet_AddHeader_def header_fits_def NocHeader_GetSerializedSize_def
      NocHeader_Serialize_def Let_def)

lemma Deserialize_fits:
  assumes "header_fits dims h" "header_fits dims h0"
  shows "NocHeader_Deserialize dims h0 (NocHeader_Serialize h @ bs)
     = Some (h, NocHeader_GetHeaderSize dims)"
proof -
  have "read_u8s (unat dims) (NocHeader_Serialize h @ bs) = Some (m_distance h, m_source h @ bs)"
    "read_u8s (unat dims) (m_source h @ bs) = Some (m_source h, bs)"
    using assms(1) by (simp_all add: read_u8s_eq_Some NocHeader_Serialize_def header_fits_def)
  then show ?thesis
    using assms(2) by (simp add: NocHeader_Deserialize_def header_fits_def)
qed

lemma header_fits_new [simp]: "unat dims < 2 ^ 31 \<Longrightarrow> header_fits dims (NocHeader_new dims)"
  by (simp add: header_fits_def NocHeader_new_def)

lemma PeekHeader_front:
  assumes "header_fits dims h" "header_fits dims h0" "pk_bytes p = NocHeader_Serialize h @ bs"
  shows "Packet_PeekHeader dims p h0 = Some h"
  using Deserialize_fits [OF assms(1,2)] assms(3)
  by (simp add: Packet_PeekHeader_def Packet_data_def)

lemma RemoveHeader_front:
  assumes "header_fits dims h" "header_fits dims h0" "pk_bytes p = NocHeader_Serialize h @ bs"
  shows "Packet_RemoveHeader dims p h0 = Some (h, p\<lparr>pk_bytes := bs\<rparr>)"
proof -
  have "length (NocHeader_Serialize h) = unat (NocHeader_GetHeaderSize dims)"
    using assms(1) unat_header_size by (simp add: header_fits_def NocHeader_Serialize_def)
  then show ?thesis
    using Deserialize_fits [OF assms(1,2)] assms(3)
    by (simp add: Packet_RemoveHeader_def Packet_data_def Buffer_RemoveAtStart_def)
qed

text \<open>Headers are a stack. On a packet with any bytes already in front of its
  payload, adding a header of the configured dimensions succeeds, peeking returns it, and
  removing it returns it together with the packet as it was.\<close>

theorem header_stack:
  assumes "header_fits dims h"
  shows "\<exists>p'. Packet_AddHeader dims p h = Some p' \<and>
     Packet_PeekHeader dims p' (NocHeader_new dims) = Some h \<and>
     Packet_RemoveHeader dims p' (NocHeader_new dims) = Some (h, p)"
proof -
  let ?p' = "p\<lparr>pk_bytes := NocHeader_Serialize h @ pk_bytes p\<rparr>"
  have n: "header_fits dims (NocHeader_new dims)"
    using assms by (simp add: header_fits_def NocHeader_new_def)
  have "Packet_RemoveHeader dims ?p' (NocHeader_new dims) = Some (h, p)"
    using RemoveHeader_front [OF assms n, of ?p' "pk_bytes p"] by simp
  moreover have "Packet_PeekHeader dims ?p' (NocHeader_new dims) = Some h"
    using PeekHeader_front [OF assms n] by simp
  ultimately show ?thesis using AddHeader_fits [OF assms] by blast
qed

theorem header_stack_witness:
  "\<exists>p'. Packet_AddHeader 2 \<lparr>pk_uid = 1, pk_bytes = [4, 4, 4, 4], pk_zeros = 8, pk_tag = None\<rparr>
       \<lparr>m_distance = [0x82, 1], m_source = [3, 0]\<rparr> = Some p' \<and>
     Packet_PeekHeader 2 p' (NocHeader_new 2) = Some \<lparr>m_distance = [0x82, 1], m_source = [3, 0]\<rparr> \<and>
     Packet_RemoveHeader 2 p' (NocHeader_new 2)
       = Some (\<lparr>m_distance = [0x82, 1], m_source = [3, 0]\<rparr>,
           \<lparr>pk_uid = 1, pk_bytes = [4, 4, 4, 4], pk_zeros = 8, pk_tag = None\<rparr>)"
  by (rule header_stack) (simp add: header_fits_def)

lemma NocPacket_head_eq:
  assumes "header_fits dims h"
  shows "NocPacket_head dims uid h n = Some
     (\<lparr>pk_uid = uid, pk_bytes = NocHeader_Serialize h, pk_zeros = unat n,
       pk_tag = Some (NocPacketTag_Serialize (NocPacketTag_new\<lparr>tag_type := HEAD\<rparr>))\<rparr>, uid + 1)"
  by (simp add: NocPacket_head_def Packet_new_def AddHeader_fits [OF assms] AddPacketTag_eq)

end
