(* ===== verification/Drop_Tail_Queue.thy ===== *)
theory Drop_Tail_Queue
  imports Noc_Prelude
begin

text \<open>
  The input buffer of a net device: \<^verbatim>\<open>Queue\<close> (\<^verbatim>\<open>src/node/queue.cc\<close>, the counters) over
  \<^verbatim>\<open>DropTailQueue\<close> (\<^verbatim>\<open>src/node/drop-tail-queue.cc\<close>, the storage and the limit). The elements
  are the pointers the code stores; \<open>sz\<close> is \<^verbatim>\<open>GetSize\<close> of the packet behind a pointer. The
  trace callbacks, which have no effect on the queue, are not modelled.
\<close>

section \<open>State and operations\<close>

datatype queue_mode = ILLEGAL | PACKETS | BYTES

text \<open>\<open>q_x\<close> is the member \<^verbatim>\<open>m_x\<close> of \<^verbatim>\<open>DropTailQueue\<close> or of its base class.\<close>

record 'p drop_tail_queue =
  q_packets :: "'p list"
  q_maxPackets :: u32
  q_maxBytes :: u32
  q_bytesInQueue :: u32
  q_mode :: queue_mode
  q_nBytes :: u32
  q_nTotalReceivedBytes :: u32
  q_nPackets :: u32
  q_nTotalReceivedPackets :: u32
  q_nTotalDroppedBytes :: u32
  q_nTotalDroppedPackets :: u32

text \<open>An empty queue: the two constructors and the defaults of the attributes.\<close>

definition DropTailQueue_new :: "'p drop_tail_queue" where
  "DropTailQueue_new = \<lparr>q_packets = [], q_maxPackets = 100, q_maxBytes = 100 * 65535,
     q_bytesInQueue = 0, q_mode = PACKETS, q_nBytes = 0, q_nTotalReceivedBytes = 0,
     q_nPackets = 0, q_nTotalReceivedPackets = 0, q_nTotalDroppedBytes = 0,
     q_nTotalDroppedPackets = 0\<rparr>"

definition DropTailQueue_SetMode :: "queue_mode \<Rightarrow> 'p drop_tail_queue \<Rightarrow> 'p drop_tail_queue" where
  "DropTailQueue_SetMode mode q = q\<lparr>q_mode := mode\<rparr>"

definition Queue_Drop :: "('p \<Rightarrow> u32) \<Rightarrow> 'p \<Rightarrow> 'p drop_tail_queue \<Rightarrow> 'p drop_tail_queue" where
  "Queue_Drop sz p q = q\<lparr>q_nTotalDroppedPackets := q_nTotalDroppedPackets q + 1,
     q_nTotalDroppedBytes := q_nTotalDroppedBytes q + sz p\<rparr>"

definition DropTailQueue_DoEnqueue ::
    "('p \<Rightarrow> u32) \<Rightarrow> 'p \<Rightarrow> 'p drop_tail_queue \<Rightarrow> bool \<times> 'p drop_tail_queue" where
  "DropTailQueue_DoEnqueue sz p q =
     (if q_mode q = PACKETS \<and> length (q_packets q) \<ge> unat (q_maxPackets q)
      then (False, Queue_Drop sz p q)
      else if q_mode q = BYTES \<and> q_bytesInQueue q + sz p \<ge> q_maxBytes q
      then (False, Queue_Drop sz p q)
      else (True, q\<lparr>q_bytesInQueue := q_bytesInQueue q + sz p, q_packets := q_packets q @ [p]\<rparr>))"

definition DropTailQueue_DoDequeue ::
    "('p \<Rightarrow> u32) \<Rightarrow> 'p drop_tail_queue \<Rightarrow> 'p option \<times> 'p drop_tail_queue" where
  "DropTailQueue_DoDequeue sz q = (case q_packets q of
     [] \<Rightarrow> (None, q)
   | p # ps \<Rightarrow> (Some p, q\<lparr>q_packets := ps, q_bytesInQueue := q_bytesInQueue q - sz p\<rparr>))"

definition DropTailQueue_DoPeek :: "'p drop_tail_queue \<Rightarrow> 'p option" where
  "DropTailQueue_DoPeek q = (case q_packets q of [] \<Rightarrow> None | p # ps \<Rightarrow> Some p)"

definition Queue_Enqueue ::
    "('p \<Rightarrow> u32) \<Rightarrow> 'p \<Rightarrow> 'p drop_tail_queue \<Rightarrow> bool \<times> 'p drop_tail_queue" where
  "Queue_Enqueue sz p q =
     (let (retval, q) = DropTailQueue_DoEnqueue sz p q
      in if retval
         then (True, q\<lparr>q_nBytes := q_nBytes q + sz p,
                q_nTotalReceivedBytes := q_nTotalReceivedBytes q + sz p,
                q_nPackets := q_nPackets q + 1,
                q_nTotalReceivedPackets := q_nTotalReceivedPackets q + 1\<rparr>)
         else (False, q))"

definition Queue_Dequeue ::
    "('p \<Rightarrow> u32) \<Rightarrow> 'p drop_tail_queue \<Rightarrow> ('p option \<times> 'p drop_tail_queue) option" where
  "Queue_Dequeue sz q =
     (case DropTailQueue_DoDequeue sz q of
        (None, q) \<Rightarrow> Some (None, q)
      | (Some p, q) \<Rightarrow> do {
          _ \<leftarrow> ns_assert (q_nBytes q \<ge> sz p);
          _ \<leftarrow> ns_assert (q_nPackets q > 0);
          Some (Some p, q\<lparr>q_nBytes := q_nBytes q - sz p, q_nPackets := q_nPackets q - 1\<rparr>)
        })"

definition Queue_Peek :: "'p drop_tail_queue \<Rightarrow> 'p option" where
  "Queue_Peek q = DropTailQueue_DoPeek q"

definition Queue_GetNPackets :: "'p drop_tail_queue \<Rightarrow> u32" where
  "Queue_GetNPackets q = q_nPackets q"

definition Queue_GetNBytes :: "'p drop_tail_queue \<Rightarrow> u32" where
  "Queue_GetNBytes q = q_nBytes q"

definition Queue_IsEmpty :: "'p drop_tail_queue \<Rightarrow> bool" where
  "Queue_IsEmpty q = (q_nPackets q = 0)"

definition Queue_ResetStatistics :: "'p drop_tail_queue \<Rightarrow> 'p drop_tail_queue" where
  "Queue_ResetStatistics q = q\<lparr>q_nTotalReceivedBytes := 0, q_nTotalReceivedPackets := 0,
     q_nTotalDroppedBytes := 0, q_nTotalDroppedPackets := 0\<rparr>"

text \<open>The loop of \<^verbatim>\<open>DequeueAll\<close>; \<open>None\<close> is an assertion that fails or a loop that does not end.\<close>

partial_function (option) Queue_DequeueAll ::
    "('p \<Rightarrow> u32) \<Rightarrow> 'p drop_tail_queue \<Rightarrow> 'p drop_tail_queue option" where
  "Queue_DequeueAll sz q =
     (if Queue_IsEmpty q then Some q
      else Option.bind (Queue_Dequeue sz q) (\<lambda>r. Queue_DequeueAll sz (snd r)))"

section \<open>A bounded FIFO buffer\<close>

text \<open>A client's sequence of calls, with what was accepted and what was delivered.\<close>

datatype 'p buffer_call = Enq 'p | Deq

fun run_calls ::
    "('p \<Rightarrow> 'q \<Rightarrow> bool \<times> 'q) \<Rightarrow> ('q \<Rightarrow> ('p option \<times> 'q) option) \<Rightarrow> 'p buffer_call list \<Rightarrow> 'q
       \<Rightarrow> ('p list \<times> 'p list \<times> 'q) option" where
  "run_calls enq deq [] q = Some ([], [], q)"
| "run_calls enq deq (Enq p # cs) q = (case enq p q of
     (acc, q) \<Rightarrow> map_option (\<lambda>(as, ds, q). (if acc then p # as else as, ds, q))
       (run_calls enq deq cs q))"
| "run_calls enq deq (Deq # cs) q = (case deq q of
     None \<Rightarrow> None
   | Some (r, q) \<Rightarrow> map_option (\<lambda>(as, ds, q). (as, (case r of None \<Rightarrow> ds | Some p \<Rightarrow> p # ds), q))
       (run_calls enq deq cs q))"

locale bounded_fifo =
  fixes enq :: "'p \<Rightarrow> 'q \<Rightarrow> bool \<times> 'q"
    and deq :: "'q \<Rightarrow> ('p option \<times> 'q) option"
    and items :: "'q \<Rightarrow> 'p list"
    and inv :: "'q \<Rightarrow> bool"
    and ok :: "'p \<Rightarrow> bool"
    and accepts :: "'q \<Rightarrow> 'p \<Rightarrow> bool"
  assumes enq_accept: "inv q \<Longrightarrow> ok p \<Longrightarrow> accepts q p \<Longrightarrow>
      \<exists>q'. enq p q = (True, q') \<and> items q' = items q @ [p] \<and> inv q'"
    and enq_reject: "inv q \<Longrightarrow> ok p \<Longrightarrow> \<not> accepts q p \<Longrightarrow>
      \<exists>q'. enq p q = (False, q') \<and> items q' = items q \<and> inv q'"
    and deq_Nil: "inv q \<Longrightarrow> items q = [] \<Longrightarrow> deq q = Some (None, q)"
    and deq_Cons: "inv q \<Longrightarrow> items q = p # ps \<Longrightarrow>
      \<exists>q'. deq q = Some (Some p, q') \<and> items q' = ps \<and> inv q'"
begin

text \<open>No call sequence stops the program, and what comes out, followed by what is left, is
  what was there followed by what was accepted.\<close>

lemma run_calls_fifo:
  assumes "inv q" "\<forall>p. Enq p \<in> set cs \<longrightarrow> ok p"
  shows "\<exists>as ds q'. run_calls enq deq cs q = Some (as, ds, q') \<and> inv q' \<and>
     items q @ as = ds @ items q'"
  using assms
proof (induction cs arbitrary: q)
  case Nil
  then show ?case by simp
next
  case (Cons c cs)
  have rest: "\<forall>p. Enq p \<in> set cs \<longrightarrow> ok p" using Cons.prems(2) by simp
  show ?case
  proof (cases c)
    case (Enq p)
    obtain acc q1 where e: "enq p q = (acc, q1)" "inv q1"
      "items q1 = items q @ (if acc then [p] else [])"
      using enq_accept [of q p] enq_reject [of q p] Cons.prems Enq
      by (cases "accepts q p") auto
    from Cons.IH [OF e(2) rest] e show ?thesis
      by (force simp: Enq)
  next
    case Deq
    obtain r q1 where d: "deq q = Some (r, q1)" "inv q1" "items q = (case r of None \<Rightarrow> [] | Some p \<Rightarrow> [p]) @ items q1"
    proof (cases "items q")
      case Nil
      then show ?thesis using that deq_Nil Cons.prems(1) by force
    next
      case (Cons p ps)
      then show ?thesis using that deq_Cons [OF \<open>inv q\<close>] by force
    qed
    from Cons.IH [OF d(2) rest] d show ?thesis
      by (cases r) (force simp: Deq)+
  qed
qed

end

section \<open>The drop-tail queue is a bounded FIFO buffer\<close>

definition total_size :: "('p \<Rightarrow> u32) \<Rightarrow> 'p list \<Rightarrow> nat" where
  "total_size sz ps = sum_list (map (\<lambda>p. unat (sz p)) ps)"

text \<open>
  The counters agree with the contents. The bytes that the limit admits, with packets of at
  most \<open>B\<close> bytes, do not overflow the 32-bit counters.
\<close>

definition queue_inv :: "('p \<Rightarrow> u32) \<Rightarrow> nat \<Rightarrow> 'p drop_tail_queue \<Rightarrow> bool" where
  "queue_inv sz B q \<longleftrightarrow>
     unat (q_nPackets q) = length (q_packets q) \<and>
     unat (q_nBytes q) = total_size sz (q_packets q) \<and>
     q_bytesInQueue q = q_nBytes q \<and>
     (\<forall>p \<in> set (q_packets q). 0 < unat (sz p) \<and> unat (sz p) \<le> B) \<and>
     (q_mode q = PACKETS \<and> length (q_packets q) \<le> unat (q_maxPackets q) \<and> unat (q_maxPackets q) * B < 2 ^ 32
      \<or> q_mode q = BYTES \<and> total_size sz (q_packets q) \<le> unat (q_maxBytes q) \<and> unat (q_maxBytes q) + B < 2 ^ 32)"

definition queue_accepts :: "('p \<Rightarrow> u32) \<Rightarrow> 'p drop_tail_queue \<Rightarrow> 'p \<Rightarrow> bool" where
  "queue_accepts sz q p \<longleftrightarrow>
     (if q_mode q = PACKETS then length (q_packets q) < unat (q_maxPackets q)
      else total_size sz (q_packets q) + unat (sz p) < unat (q_maxBytes q))"

lemma total_size_simps [simp]:
  "total_size sz [] = 0"
  "total_size sz (p # ps) = unat (sz p) + total_size sz ps"
  "total_size sz (ps @ qs) = total_size sz ps + total_size sz qs"
  by (simp_all add: total_size_def)

lemma total_size_le: "\<forall>p \<in> set ps. unat (sz p) \<le> B \<Longrightarrow> total_size sz ps \<le> length ps * B"
  by (induction ps) (simp_all add: add_mono)

lemma length_le_total_size: "\<forall>p \<in> set ps. 0 < unat (sz p) \<Longrightarrow> length ps \<le> total_size sz ps"
proof (induction ps)
  case Nil
  then show ?case by simp
next
  case (Cons p ps)
  then have "0 < unat (sz p)" "length ps \<le> total_size sz ps" by simp_all
  then show ?case by (simp del: unat_gt_0)
qed

text \<open>In a well-formed queue the test of the code is the limit without wrap-around.\<close>

lemma queue_bounds:
  assumes "queue_inv sz B q" "0 < unat (sz p)" "unat (sz p) \<le> B" "queue_accepts sz q p"
  shows "unat (q_nBytes q) + unat (sz p) < 2 ^ 32" and "Suc (unat (q_nPackets q)) < 2 ^ 32"
proof -
  let ?n = "length (q_packets q)" and ?t = "total_size sz (q_packets q)"
  have t: "?t \<le> ?n * B" "?n \<le> ?t"
    using assms(1) total_size_le [of "q_packets q" sz B] length_le_total_size [of "q_packets q" sz]
    by (auto simp: queue_inv_def)
  have m: "unat (q_maxPackets q) < 2 ^ 32" "unat (q_maxBytes q) < 2 ^ 32"
    by (rule unat_u32_less)+
  have "?t + unat (sz p) < 2 ^ 32 \<and> Suc ?n < 2 ^ 32"
  proof (cases "q_mode q = PACKETS")
    case True
    with assms have n: "Suc ?n \<le> unat (q_maxPackets q)" "unat (q_maxPackets q) * B < 2 ^ 32"
      by (auto simp: queue_inv_def queue_accepts_def)
    have "?t + unat (sz p) \<le> Suc ?n * B" using t(1) assms(3) by simp
    also have "\<dots> \<le> unat (q_maxPackets q) * B" using n(1) by (rule mult_le_mono1)
    finally show ?thesis using n m by simp
  next
    case False
    with assms have "?t + unat (sz p) < unat (q_maxBytes q)"
      by (auto simp: queue_accepts_def)
    with t m assms(2) show ?thesis by simp
  qed
  with assms(1) show "unat (q_nBytes q) + unat (sz p) < 2 ^ 32"
    and "Suc (unat (q_nPackets q)) < 2 ^ 32"
    by (simp_all add: queue_inv_def)
qed

lemma DoEnqueue_result:
  assumes "queue_inv sz B q" "unat (sz p) \<le> B"
  shows "DropTailQueue_DoEnqueue sz p q =
    (if queue_accepts sz q p
     then (True, q\<lparr>q_bytesInQueue := q_bytesInQueue q + sz p, q_packets := q_packets q @ [p]\<rparr>)
     else (False, Queue_Drop sz p q))"
proof (cases "q_mode q = BYTES")
  case True
  with assms have "unat (q_nBytes q) + unat (sz p) < 2 ^ 32"
    by (auto simp: queue_inv_def)
  then have "unat (q_bytesInQueue q + sz p) = total_size sz (q_packets q) + unat (sz p)"
    using assms(1) by (simp add: u32_arith queue_inv_def)
  with True show ?thesis
    by (simp add: DropTailQueue_DoEnqueue_def queue_accepts_def word_le_nat_alt)
next
  case False
  with assms(1) have "q_mode q = PACKETS" by (auto simp: queue_inv_def)
  then show ?thesis by (simp add: DropTailQueue_DoEnqueue_def queue_accepts_def)
qed

lemma Enqueue_accept:
  assumes "queue_inv sz B q" "0 < unat (sz p) \<and> unat (sz p) \<le> B" "queue_accepts sz q p"
  shows "\<exists>q'. Queue_Enqueue sz p q = (True, q') \<and> q_packets q' = q_packets q @ [p] \<and> queue_inv sz B q'"
proof -
  have "Queue_Enqueue sz p q = (True, q\<lparr>q_bytesInQueue := q_bytesInQueue q + sz p,
      q_packets := q_packets q @ [p], q_nBytes := q_nBytes q + sz p,
      q_nTotalReceivedBytes := q_nTotalReceivedBytes q + sz p, q_nPackets := q_nPackets q + 1,
      q_nTotalReceivedPackets := q_nTotalReceivedPackets q + 1\<rparr>)" (is "_ = (True, ?q')")
    using assms by (simp add: Queue_Enqueue_def DoEnqueue_result)
  moreover have "queue_inv sz B ?q'"
    using queue_bounds [of sz B q p] assms
    by (auto simp: queue_inv_def u32_arith queue_accepts_def)
  ultimately show ?thesis by auto
qed

lemma Enqueue_reject:
  assumes "queue_inv sz B q" "0 < unat (sz p) \<and> unat (sz p) \<le> B" "\<not> queue_accepts sz q p"
  shows "\<exists>q'. Queue_Enqueue sz p q = (False, q') \<and> q_packets q' = q_packets q \<and> queue_inv sz B q'"
proof -
  have "queue_inv sz B (Queue_Drop sz p q)"
    using assms(1) by (simp add: Queue_Drop_def queue_inv_def)
  moreover have "Queue_Enqueue sz p q = (False, Queue_Drop sz p q)"
    using assms by (simp add: Queue_Enqueue_def DoEnqueue_result)
  ultimately show ?thesis by (simp add: Queue_Drop_def)
qed

lemma Dequeue_Nil: "q_packets q = [] \<Longrightarrow> Queue_Dequeue sz q = Some (None, q)"
  by (simp add: Queue_Dequeue_def DropTailQueue_DoDequeue_def)

lemma Dequeue_Cons:
  assumes "queue_inv sz B q" "q_packets q = p # ps"
  shows "\<exists>q'. Queue_Dequeue sz q = Some (Some p, q') \<and> q_packets q' = ps \<and> queue_inv sz B q'"
proof -
  have n: "unat (sz p) \<le> unat (q_nBytes q)" "0 < unat (q_nPackets q)"
    using assms by (simp_all add: queue_inv_def)
  let ?q' = "q\<lparr>q_packets := ps, q_bytesInQueue := q_bytesInQueue q - sz p,
      q_nBytes := q_nBytes q - sz p, q_nPackets := q_nPackets q - 1\<rparr>"
  have "Queue_Dequeue sz q = Some (Some p, ?q')"
    using n assms(2) by (simp add: Queue_Dequeue_def DropTailQueue_DoDequeue_def
        word_le_nat_alt word_less_nat_alt)
  moreover have "queue_inv sz B ?q'"
    using assms n by (auto simp: queue_inv_def u32_arith)
  ultimately show ?thesis by auto
qed

interpretation drop_tail: bounded_fifo "Queue_Enqueue sz" "Queue_Dequeue sz" q_packets
    "queue_inv sz B" "\<lambda>p. 0 < unat (sz p) \<and> unat (sz p) \<le> B" "queue_accepts sz"
  for sz :: "'p \<Rightarrow> u32" and B :: nat
  by unfold_locales (rule Enqueue_accept Enqueue_reject Dequeue_Nil Dequeue_Cons; assumption)+

section \<open>Properties of the queue\<close>

text \<open>C26: from a queue whose counters agree with its contents, no sequence of
  \<^verbatim>\<open>Enqueue\<close> and \<^verbatim>\<open>Dequeue\<close> calls with packets of 1 to \<open>B\<close> bytes stops the program; the packets
  delivered, followed by those still buffered, are those buffered at the start followed by
  those accepted, in order; the counters agree with the contents at the end.\<close>

theorem queue_fifo:
  assumes "queue_inv sz B q" "\<forall>p. Enq p \<in> set cs \<longrightarrow> 0 < unat (sz p) \<and> unat (sz p) \<le> B"
  shows "\<exists>as ds q'. run_calls (Queue_Enqueue sz) (Queue_Dequeue sz) cs q = Some (as, ds, q') \<and>
     queue_inv sz B q' \<and> q_packets q @ as = ds @ q_packets q'"
  using drop_tail.run_calls_fifo [OF assms] .

theorem queue_fifo_witness:
  "\<exists>as ds q'. run_calls (Queue_Enqueue (\<lambda>_. 3)) (Queue_Dequeue (\<lambda>_. 3))
       [Enq (1::nat), Enq 2, Deq, Enq 4] (DropTailQueue_new\<lparr>q_maxPackets := 2\<rparr>) = Some (as, ds, q') \<and>
     queue_inv (\<lambda>_. 3) 10 q' \<and> as = ds @ q_packets q'"
proof -
  have "queue_inv (\<lambda>_::nat. 3) 10 (DropTailQueue_new\<lparr>q_maxPackets := 2\<rparr>)"
    by (simp add: queue_inv_def DropTailQueue_new_def)
  from queue_fifo [OF this, of "[Enq 1, Enq 2, Deq, Enq 4]"] show ?thesis
    by (simp add: DropTailQueue_new_def)
qed

text \<open>A well-formed queue accepts a packet exactly when, in packet mode, it
  holds fewer than \<^verbatim>\<open>MaxPackets\<close> packets, and, in byte mode, the bytes with the packet would stay
  strictly below \<^verbatim>\<open>MaxBytes\<close>: a packet that would fill the queue to the byte is dropped. A
  rejected packet changes nothing but the two drop counters.\<close>

theorem queue_limit:
  assumes "queue_inv sz B q" "unat (sz p) \<le> B"
  shows "(fst (Queue_Enqueue sz p q) \<longleftrightarrow>
     (if q_mode q = PACKETS then length (q_packets q) < unat (q_maxPackets q)
      else total_size sz (q_packets q) + unat (sz p) < unat (q_maxBytes q))) \<and>
    (\<not> fst (Queue_Enqueue sz p q) \<longrightarrow> snd (Queue_Enqueue sz p q) =
       q\<lparr>q_nTotalDroppedPackets := q_nTotalDroppedPackets q + 1,
         q_nTotalDroppedBytes := q_nTotalDroppedBytes q + sz p\<rparr>)"
  using DoEnqueue_result [OF assms]
  by (simp_all add: Queue_Enqueue_def queue_accepts_def Queue_Drop_def Let_def split: if_splits)

theorem queue_limit_witness:
  "fst (Queue_Enqueue (\<lambda>_. 4) (7::nat)
     (DropTailQueue_new\<lparr>q_mode := BYTES, q_maxBytes := 4\<rparr>)) = False"
proof -
  have "queue_inv (\<lambda>_::nat. 4) 4 (DropTailQueue_new\<lparr>q_mode := BYTES, q_maxBytes := 4\<rparr>)"
    by (simp add: queue_inv_def DropTailQueue_new_def)
  from queue_limit [OF this, of 7] show ?thesis
    by (simp add: DropTailQueue_new_def)
qed

text \<open>On a well-formed queue the loop of \<^verbatim>\<open>DequeueAll\<close> ends and leaves the
  queue empty.\<close>

theorem dequeue_all_terminates:
  assumes "queue_inv sz B q"
  shows "\<exists>q'. Queue_DequeueAll sz q = Some q' \<and> q_packets q' = [] \<and> queue_inv sz B q'"
  using assms
proof (induction "q_packets q" arbitrary: q)
  case Nil
  then have "Queue_IsEmpty q" by (simp add: Queue_IsEmpty_def queue_inv_def unat_eq_0)
  with Nil show ?case by (simp add: Queue_DequeueAll.simps)
next
  case (Cons p ps)
  have "\<not> Queue_IsEmpty q"
  proof -
    have "unat (q_nPackets q) \<noteq> 0"
      using Cons.prems Cons.hyps(2) [symmetric] by (simp add: queue_inv_def)
    then show ?thesis by (auto simp: Queue_IsEmpty_def)
  qed
  moreover obtain q1 where "Queue_Dequeue sz q = Some (Some p, q1)" "q_packets q1 = ps"
    "queue_inv sz B q1"
    using Dequeue_Cons [OF Cons.prems Cons.hyps(2) [symmetric]] by blast
  ultimately show ?case
    using Cons.hyps(1) [of q1] by (simp add: Queue_DequeueAll.simps [of sz q])
qed

theorem dequeue_all_terminates_witness:
  "\<exists>q'. Queue_DequeueAll (\<lambda>_::nat. 4) DropTailQueue_new = Some q' \<and> q_packets q' = [] \<and>
     queue_inv (\<lambda>_. 4) 4 q'"
  by (rule dequeue_all_terminates) (simp add: queue_inv_def DropTailQueue_new_def)

end
