(* ===== verification/Noc_Switching.thy ===== *)
theory Noc_Switching
  imports Noc_Packet
begin

text \<open>
  The switching protocols, \<^verbatim>\<open>src/noc/switching/\<close>: store-and-forward, virtual cut-through and
  wormhole. Each decides, flit by flit, whether a router may forward what it has buffered. The
  queue argument of \<^verbatim>\<open>ApplyFlowControl\<close> is not used by any of them and is left out.
\<close>

section \<open>What the protocols read of a flit\<close>

text \<open>
  \<open>peeked_tag\<close> is the tag a default constructed \<^verbatim>\<open>NocPacketTag\<close> holds after \<^verbatim>\<open>PeekPacketTag\<close>;
  \<open>head_header\<close> is the header that a default constructed \<^verbatim>\<open>NocHeader\<close> holds after it was peeked
  from a head packet only.
\<close>

definition peeked_tag :: "packet \<Rightarrow> noc_packet_tag option" where
  "peeked_tag p = map_option snd (Packet_PeekPacketTag p NocPacketTag_new)"

definition head_header :: "u32 \<Rightarrow> packet \<Rightarrow> noc_packet_tag \<Rightarrow> noc_header option" where
  "head_header dims p tag =
     (if HEAD = tag_type tag then Packet_PeekHeader dims p (NocHeader_new dims)
      else Some (NocHeader_new dims))"

section \<open>Store and forward\<close>

record saf_switching =
  saf_flitCount :: "u32 \<Rightarrow> u32 option"

definition SafSwitching_new :: saf_switching where
  "SafSwitching_new = \<lparr>saf_flitCount = Map.empty\<rparr>"

text \<open>\<open>m_flitCount[v]\<close> on a key that is not there inserts 0.\<close>

definition count_at :: "(u32 \<Rightarrow> u32 option) \<Rightarrow> u32 \<Rightarrow> u32" where
  "count_at m v = (case m v of None \<Rightarrow> 0 | Some n \<Rightarrow> n)"

definition SafSwitching_ApplyFlowControl ::
    "u32 \<Rightarrow> packet \<Rightarrow> saf_switching \<Rightarrow> (bool \<times> saf_switching) option" where
  "SafSwitching_ApplyFlowControl dims p s = do {
     tag \<leftarrow> peeked_tag p;
     header \<leftarrow> head_header dims p tag;
     if \<not> NocHeader_IsEmpty header then
       Some (False, s\<lparr>saf_flitCount := (saf_flitCount s)(pk_uid p \<mapsto> ucast (tag_dataFlitCount tag))\<rparr>)
     else do {
       let v = tag_headPacketUid tag;
       let dataFlitCount = count_at (saf_flitCount s) v;
       if sint dataFlitCount - 1 > 0
       then Some (False, s\<lparr>saf_flitCount := (saf_flitCount s)(v \<mapsto> dataFlitCount - 1)\<rparr>)
       else Some (True, s\<lparr>saf_flitCount := (saf_flitCount s)(v := None)\<rparr>)
     }
   }"

section \<open>Virtual cut-through\<close>

record vct_switching =
  vct_blockedHeadFlits :: "u32 set"
  vct_flitCount :: "u32 \<Rightarrow> u32 option"

definition VctSwitching_new :: vct_switching where
  "VctSwitching_new = \<lparr>vct_blockedHeadFlits = {}, vct_flitCount = Map.empty\<rparr>"

definition VctSwitching_ApplyFlowControl ::
    "u32 \<Rightarrow> packet \<Rightarrow> vct_switching \<Rightarrow> (bool \<times> vct_switching) option" where
  "VctSwitching_ApplyFlowControl dims p s = do {
     tag \<leftarrow> peeked_tag p;
     header \<leftarrow> head_header dims p tag;
     if \<not> NocHeader_IsEmpty header then
       if tag_packetBlocked tag
       then Some (False, s\<lparr>vct_blockedHeadFlits := insert (pk_uid p) (vct_blockedHeadFlits s),
              vct_flitCount := (vct_flitCount s)(pk_uid p \<mapsto> ucast (tag_dataFlitCount tag))\<rparr>)
       else Some (True, s)
     else do {
       let headPacketUid = tag_headPacketUid tag;
       if headPacketUid \<in> vct_blockedHeadFlits s then do {
         let dataFlitCount = count_at (vct_flitCount s) headPacketUid;
         if sint dataFlitCount - 1 > 0
         then Some (False, s\<lparr>vct_flitCount := (vct_flitCount s)(headPacketUid \<mapsto> dataFlitCount - 1)\<rparr>)
         else Some (True, s\<lparr>vct_flitCount := (vct_flitCount s)(headPacketUid := None),
                vct_blockedHeadFlits := vct_blockedHeadFlits s - {headPacketUid}\<rparr>)
       }
       else Some (True, s)
     }
   }"

section \<open>Wormhole\<close>

text \<open>The protocol has no state.\<close>

definition WormholeSwitching_ApplyFlowControl :: "packet \<Rightarrow> unit \<Rightarrow> (bool \<times> unit) option" where
  "WormholeSwitching_ApplyFlowControl p s = Some (True, s)"

section \<open>The contract of a switching protocol\<close>

text \<open>
  Head flits carry a header that is not all zero; every other flit of a message carries the UID
  of its head flit.
\<close>

definition head_flit :: "u32 \<Rightarrow> packet \<Rightarrow> noc_packet_tag \<Rightarrow> noc_header \<Rightarrow> bool" where
  "head_flit dims p t h \<longleftrightarrow> pk_tag p = Some (NocPacketTag_Serialize t) \<and> tag_wf t \<and>
     tag_type t = HEAD \<and> header_fits dims h \<and> \<not> NocHeader_IsEmpty h \<and>
     pk_bytes p = NocHeader_Serialize h"

definition body_flit :: "packet \<Rightarrow> noc_packet_tag \<Rightarrow> bool" where
  "body_flit p t \<longleftrightarrow> pk_tag p = Some (NocPacketTag_Serialize t) \<and> tag_wf t \<and> tag_type t \<noteq> HEAD"

lemma peeked_tag_of: "pk_tag p = Some (NocPacketTag_Serialize t) \<Longrightarrow> tag_wf t \<Longrightarrow> peeked_tag p = Some t"
  by (simp add: peeked_tag_def PeekPacketTag_of_Serialize)

lemma IsEmpty_new [simp]: "NocHeader_IsEmpty (NocHeader_new dims)"
  by (simp add: NocHeader_IsEmpty_def NocHeader_new_def list_all_iff)

lemma head_flit_reads:
  assumes "head_flit dims p t h"
  shows "peeked_tag p = Some t" "head_header dims p t = Some h" "\<not> NocHeader_IsEmpty h"
proof -
  have "unat dims < 2 ^ 31" using assms by (simp add: head_flit_def header_fits_def)
  then show "head_header dims p t = Some h"
    using assms PeekHeader_front [of dims h "NocHeader_new dims" p "[]"]
    by (simp add: head_header_def head_flit_def)
qed (use assms in \<open>auto simp: head_flit_def intro: peeked_tag_of\<close>)

lemma body_flit_reads:
  assumes "body_flit p t"
  shows "peeked_tag p = Some t" "head_header dims p t = Some (NocHeader_new dims)"
  using assms by (auto simp: body_flit_def head_header_def intro: peeked_tag_of)

text \<open>One decision per flit, in the order the flits arrive.\<close>

fun run_flow :: "(packet \<Rightarrow> 's \<Rightarrow> (bool \<times> 's) option) \<Rightarrow> packet list \<Rightarrow> 's \<Rightarrow> (bool list \<times> 's) option" where
  "run_flow apply [] s = Some ([], s)"
| "run_flow apply (p # ps) s = do {
     (b, s) \<leftarrow> apply p s;
     (bs, s) \<leftarrow> run_flow apply ps s;
     Some (b # bs, s)
   }"

text \<open>The flits that follow the head flit \<open>u\<close>, and the decisions taken on them.\<close>

definition follows :: "u32 \<Rightarrow> packet \<Rightarrow> bool" where
  "follows u p \<longleftrightarrow> (case peeked_tag p of None \<Rightarrow> False
     | Some t \<Rightarrow> tag_type t \<noteq> HEAD \<and> tag_headPacketUid t = u)"

definition decisions_of :: "u32 \<Rightarrow> packet list \<Rightarrow> bool list \<Rightarrow> bool list" where
  "decisions_of u ps bs = map snd (filter (\<lambda>(p, b). follows u p) (zip ps bs))"

definition other_flit :: "u32 \<Rightarrow> u32 \<Rightarrow> packet \<Rightarrow> bool" where
  "other_flit dims u p \<longleftrightarrow> (\<exists>t h. head_flit dims p t h \<and> pk_uid p \<noteq> u) \<or> (\<exists>t. body_flit p t)"

lemma follows_head: "head_flit dims p t h \<Longrightarrow> \<not> follows u p"
  by (simp add: follows_def head_flit_reads(1)) (simp add: head_flit_def)

lemma follows_body: "body_flit p t \<Longrightarrow> follows u p \<longleftrightarrow> tag_headPacketUid t = u"
  by (simp add: follows_def body_flit_reads(1)) (simp add: body_flit_def)

lemma decisions_of_simps [simp]:
  "decisions_of u [] bs = []"
  "decisions_of u (p # ps) (b # bs) =
     (if follows u p then b # decisions_of u ps bs else decisions_of u ps bs)"
  by (simp_all add: decisions_of_def)

text \<open>
  \<open>waits s u\<close> is the number of body flits that must still arrive before the message \<open>u\<close> moves
  on; at 0 and 1 the next one moves on at once.
\<close>

locale flow_control =
  fixes dims :: u32
    and apply_flow :: "packet \<Rightarrow> 's \<Rightarrow> (bool \<times> 's) option"
    and waits :: "'s \<Rightarrow> u32 \<Rightarrow> nat"
    and inv :: "'s \<Rightarrow> bool"
  assumes head_step: "inv s \<Longrightarrow> head_flit dims p t h \<Longrightarrow>
      \<exists>b s'. apply_flow p s = Some (b, s') \<and> inv s' \<and>
        waits s' = (if b then waits s else (waits s)(pk_uid p := unat (tag_dataFlitCount t)))"
    and body_step: "inv s \<Longrightarrow> body_flit p t \<Longrightarrow>
      \<exists>s'. apply_flow p s = Some (waits s (tag_headPacketUid t) \<le> 1, s') \<and> inv s' \<and>
        waits s' = (waits s)(tag_headPacketUid t := waits s (tag_headPacketUid t) - 1)"
begin

lemma other_step:
  assumes "inv s" "other_flit dims u p"
  obtains b s' where "apply_flow p s = Some (b, s')" "inv s'"
    "follows u p \<longrightarrow> b = (waits s u \<le> 1)"
    "waits s' u = (if follows u p then waits s u - 1 else waits s u)"
proof (cases "\<exists>t. body_flit p t")
  case True
  then obtain t where t: "body_flit p t" by blast
  from body_step [OF assms(1) t] obtain s' where
    "apply_flow p s = Some (waits s (tag_headPacketUid t) \<le> 1, s')" "inv s'"
    "waits s' = (waits s)(tag_headPacketUid t := waits s (tag_headPacketUid t) - 1)"
    by blast
  with follows_body [OF t, of u] show ?thesis
    by (intro that [of "waits s (tag_headPacketUid t) \<le> 1" s']) auto
next
  case False
  with assms(2) obtain t h where th: "head_flit dims p t h" "pk_uid p \<noteq> u"
    by (auto simp: other_flit_def)
  from head_step [OF assms(1) th(1)] obtain b s' where
    "apply_flow p s = Some (b, s')" "inv s'"
    "waits s' = (if b then waits s else (waits s)(pk_uid p := unat (tag_dataFlitCount t)))"
    by blast
  with th follows_head [OF th(1), of u] show ?thesis by (intro that [of b s']) auto
qed

lemma run_other:
  assumes "inv s" "\<forall>p \<in> set ps. other_flit dims u p"
  shows "\<exists>bs s'. run_flow apply_flow ps s = Some (bs, s') \<and> inv s' \<and> length bs = length ps \<and>
     (let n = length (filter (follows u) ps); w = waits s u - 1
      in decisions_of u ps bs = replicate (min n w) False @ replicate (n - w) True)"
  using assms
proof (induction ps arbitrary: s)
  case Nil
  then show ?case by simp
next
  case (Cons p ps)
  then have "other_flit dims u p" by simp
  with Cons.prems(1) obtain b s1 where s1: "apply_flow p s = Some (b, s1)" "inv s1"
    "follows u p \<longrightarrow> b = (waits s u \<le> 1)"
    "waits s1 u = (if follows u p then waits s u - 1 else waits s u)"
    by (rule other_step)
  from Cons.IH [OF s1(2)] Cons.prems(2) obtain bs s2 where s2:
    "run_flow apply_flow ps s1 = Some (bs, s2)" "inv s2" "length bs = length ps"
    "decisions_of u ps bs =
       replicate (min (length (filter (follows u) ps)) (waits s1 u - 1)) False @
       replicate (length (filter (follows u) ps) - (waits s1 u - 1)) True"
    by (auto simp: Let_def)
  show ?case
  proof (cases "follows u p")
    case False
    with s1 s2 show ?thesis by (simp add: Let_def)
  next
    case True
    then have b: "b = (waits s u \<le> 1)" "waits s1 u = waits s u - 1"
      using s1(3,4) by simp_all
    show ?thesis
    proof (cases "waits s u \<le> 1")
      case True
      with b s1 s2 \<open>follows u p\<close> show ?thesis by (simp add: Let_def)
    next
      case False
      then obtain k where k: "waits s u = Suc (Suc k)"
        by (metis One_nat_def Suc_diff_Suc diff_Suc_1 diff_zero not_le less_imp_Suc_add add_Suc_right)
      with b s1 s2 \<open>follows u p\<close> show ?thesis by (simp add: Let_def)
    qed
  qed
qed

text \<open>
  A message whose head flit was held back waits for its last body flit; one whose head flit
  passed with nothing recorded for it is never held. Other messages do not interfere.
\<close>

lemma run_message:
  assumes "inv s" "head_flit dims hf t h" "\<forall>p \<in> set ps. other_flit dims (pk_uid hf) p"
  shows "\<exists>b bs s'. run_flow apply_flow (hf # ps) s = Some (b # bs, s') \<and> length bs = length ps \<and>
     (let n = length (filter (follows (pk_uid hf)) ps);
          w = (if b then waits s (pk_uid hf) else unat (tag_dataFlitCount t)) - 1
      in decisions_of (pk_uid hf) ps bs = replicate (min n w) False @ replicate (n - w) True)"
proof -
  from head_step [OF assms(1,2)] obtain b s1 where s1: "apply_flow hf s = Some (b, s1)" "inv s1"
    "waits s1 = (if b then waits s else (waits s)(pk_uid hf := unat (tag_dataFlitCount t)))"
    by blast
  from run_other [OF s1(2) assms(3)] obtain bs s2 where
    "run_flow apply_flow ps s1 = Some (bs, s2)" "length bs = length ps"
    "decisions_of (pk_uid hf) ps bs =
       replicate (min (length (filter (follows (pk_uid hf)) ps)) (waits s1 (pk_uid hf) - 1)) False @
       replicate (length (filter (follows (pk_uid hf)) ps) - (waits s1 (pk_uid hf) - 1)) True"
    by (auto simp: Let_def)
  with s1 show ?thesis
    by (intro exI [of _ b] exI [of _ bs] exI [of _ s2]) (auto simp: Let_def)
qed

end

section \<open>The three protocols keep the contract\<close>

definition counts_small :: "(u32 \<Rightarrow> u32 option) \<Rightarrow> bool" where
  "counts_small m \<longleftrightarrow> (\<forall>v. unat (count_at m v) < 2 ^ 16)"

definition saf_waits :: "saf_switching \<Rightarrow> u32 \<Rightarrow> nat" where
  "saf_waits s u = unat (count_at (saf_flitCount s) u)"

definition vct_waits :: "vct_switching \<Rightarrow> u32 \<Rightarrow> nat" where
  "vct_waits s u = (if u \<in> vct_blockedHeadFlits s then unat (count_at (vct_flitCount s) u) else 0)"

lemma count_at_upd [simp]:
  "count_at (m(v \<mapsto> n)) u = (if u = v then n else count_at m u)"
  "count_at (m(v := None)) u = (if u = v then 0 else count_at m u)"
  by (simp_all add: count_at_def)

lemma sint_small:
  assumes "unat (d :: u32) < 2 ^ 16"
  shows "sint d = int (unat d)"
proof -
  have "int (unat d) < 2 ^ 16" using assms by (metis of_nat_less_iff of_nat_numeral of_nat_power)
  then have u: "uint d < 2 ^ 16" by (simp only: uint_nat)
  have "sint d = signed_take_bit 31 (uint d)" by (simp add: sint_uint)
  also have "\<dots> = uint d"
    by (intro signed_take_bit_int_eq_self order_less_trans [OF u] order_trans [OF _ uint_ge_0]) simp_all
  finally show ?thesis by simp
qed

lemma more_to_come_iff: "unat (d :: u32) < 2 ^ 16 \<Longrightarrow> sint d - 1 > 0 \<longleftrightarrow> \<not> unat d \<le> 1"
  unfolding sint_small by linarith

lemma unat_ucast_u16 [simp]: "unat (ucast (n :: u16) :: u32) = unat n"
  using unsigned_less [of n, where ?'a = nat]
  by (simp add: unsigned_ucast_eq take_bit_nat_eq_self_iff)

lemma unat_u16_less [simp]: "unat (n :: u16) < 65536"
  using unsigned_less [of n] by simp

lemma counts_small_upd:
  "counts_small m \<Longrightarrow> unat n < 2 ^ 16 \<Longrightarrow> counts_small (m(v \<mapsto> n))"
  "counts_small m \<Longrightarrow> counts_small (m(v := None))"
  by (simp_all add: counts_small_def)

lemma saf_head_step:
  assumes "counts_small (saf_flitCount s)" "head_flit dims p t h"
  shows "\<exists>b s'. SafSwitching_ApplyFlowControl dims p s = Some (b, s') \<and>
    counts_small (saf_flitCount s') \<and> \<not> b \<and>
    saf_waits s' = (saf_waits s)(pk_uid p := unat (tag_dataFlitCount t))"
  using assms head_flit_reads [OF assms(2)]
  by (auto simp: SafSwitching_ApplyFlowControl_def saf_waits_def counts_small_upd)

lemma saf_body_step:
  assumes "counts_small (saf_flitCount s)" "body_flit p t"
  shows "\<exists>s'. SafSwitching_ApplyFlowControl dims p s = Some (saf_waits s (tag_headPacketUid t) \<le> 1, s') \<and>
    counts_small (saf_flitCount s') \<and>
    saf_waits s' = (saf_waits s)(tag_headPacketUid t := saf_waits s (tag_headPacketUid t) - 1)"
proof -
  let ?v = "tag_headPacketUid t"
  let ?d = "count_at (saf_flitCount s) ?v"
  have d: "unat ?d < 2 ^ 16" using assms(1) by (simp add: counts_small_def)
  note reads = body_flit_reads [OF assms(2)]
  show ?thesis
  proof (cases "unat ?d \<le> 1")
    case True
    have "\<not> sint ?d - 1 > 0" using True more_to_come_iff [OF d] by blast
    then have "SafSwitching_ApplyFlowControl dims p s
      = Some (True, s\<lparr>saf_flitCount := (saf_flitCount s)(?v := None)\<rparr>)"
      using reads by (simp add: SafSwitching_ApplyFlowControl_def Let_def)
    then show ?thesis using True assms(1) by (auto simp: saf_waits_def counts_small_upd)
  next
    case False
    have "sint ?d - 1 > 0" using False more_to_come_iff [OF d] by blast
    then have "SafSwitching_ApplyFlowControl dims p s
      = Some (False, s\<lparr>saf_flitCount := (saf_flitCount s)(?v \<mapsto> ?d - 1)\<rparr>)"
      using reads by (simp add: SafSwitching_ApplyFlowControl_def Let_def)
    moreover have "unat (?d - 1) = unat ?d - 1" using False by (intro unat_u32_pred) simp
    ultimately show ?thesis
      using False assms(1) d by (auto simp: saf_waits_def counts_small_upd fun_eq_iff)
  qed
qed

lemma vct_head_step:
  assumes "counts_small (vct_flitCount s)" "head_flit dims p t h"
  shows "\<exists>b s'. VctSwitching_ApplyFlowControl dims p s = Some (b, s') \<and>
    counts_small (vct_flitCount s') \<and> b = (\<not> tag_packetBlocked t) \<and>
    vct_waits s' = (if b then vct_waits s else (vct_waits s)(pk_uid p := unat (tag_dataFlitCount t)))"
  using assms head_flit_reads [OF assms(2)]
  by (auto simp: VctSwitching_ApplyFlowControl_def vct_waits_def counts_small_upd fun_eq_iff)

lemma vct_body_step:
  assumes "counts_small (vct_flitCount s)" "body_flit p t"
  shows "\<exists>s'. VctSwitching_ApplyFlowControl dims p s = Some (vct_waits s (tag_headPacketUid t) \<le> 1, s') \<and>
    counts_small (vct_flitCount s') \<and>
    vct_waits s' = (vct_waits s)(tag_headPacketUid t := vct_waits s (tag_headPacketUid t) - 1)"
proof -
  let ?v = "tag_headPacketUid t"
  let ?d = "count_at (vct_flitCount s) ?v"
  have d: "unat ?d < 2 ^ 16" using assms(1) by (simp add: counts_small_def)
  note reads = body_flit_reads [OF assms(2)]
  consider "?v \<notin> vct_blockedHeadFlits s" | "?v \<in> vct_blockedHeadFlits s" "unat ?d \<le> 1"
    | "?v \<in> vct_blockedHeadFlits s" "\<not> unat ?d \<le> 1" by blast
  then show ?thesis
  proof cases
    case 1
    then have "VctSwitching_ApplyFlowControl dims p s = Some (True, s)"
      using reads by (simp add: VctSwitching_ApplyFlowControl_def Let_def)
    then show ?thesis using 1 assms(1) by (auto simp: vct_waits_def fun_eq_iff)
  next
    case 2
    have "\<not> sint ?d - 1 > 0" using 2 more_to_come_iff [OF d] by blast
    then have "VctSwitching_ApplyFlowControl dims p s
      = Some (True, s\<lparr>vct_flitCount := (vct_flitCount s)(?v := None),
          vct_blockedHeadFlits := vct_blockedHeadFlits s - {?v}\<rparr>)"
      using reads 2 by (simp add: VctSwitching_ApplyFlowControl_def Let_def)
    then show ?thesis using 2 assms(1) by (auto simp: vct_waits_def counts_small_upd fun_eq_iff)
  next
    case 3
    have "sint ?d - 1 > 0" using 3 more_to_come_iff [OF d] by blast
    then have "VctSwitching_ApplyFlowControl dims p s
      = Some (False, s\<lparr>vct_flitCount := (vct_flitCount s)(?v \<mapsto> ?d - 1)\<rparr>)"
      using reads 3 by (simp add: VctSwitching_ApplyFlowControl_def Let_def)
    moreover have "unat (?d - 1) = unat ?d - 1" using 3 by (intro unat_u32_pred) simp
    ultimately show ?thesis
      using 3 assms(1) d by (auto simp: vct_waits_def counts_small_upd fun_eq_iff)
  qed
qed

interpretation saf: flow_control dims "SafSwitching_ApplyFlowControl dims" saf_waits
    "\<lambda>s. counts_small (saf_flitCount s)" for dims
proof (unfold_locales, goal_cases)
  case (1 s p t h)
  then show ?case using saf_head_step [of s dims p t h] by metis
next
  case (2 s p t)
  then show ?case using saf_body_step [of s p t dims] by blast
qed

interpretation vct: flow_control dims "VctSwitching_ApplyFlowControl dims" vct_waits
    "\<lambda>s. counts_small (vct_flitCount s)" for dims
proof (unfold_locales, goal_cases)
  case (1 s p t h)
  then show ?case using vct_head_step [of s dims p t h] by blast
next
  case (2 s p t)
  then show ?case using vct_body_step [of s p t dims] by blast
qed

interpretation wormhole: flow_control dims WormholeSwitching_ApplyFlowControl "\<lambda>s u. 0" "\<lambda>s. True" for dims
  by unfold_locales (auto simp: WormholeSwitching_ApplyFlowControl_def)

section \<open>Properties of switching\<close>

text \<open>C27: store and forward holds a whole message. After the head flit, which
  is never forwarded, the first body flits of the message are held until as many as its tag
  announces have arrived: the last announced one and every later one may go on, in whatever
  way the flits of other messages are interleaved with them.\<close>

theorem saf_stores_message:
  assumes "counts_small (saf_flitCount s)" "head_flit dims hf t h"
    and "\<forall>p \<in> set ps. other_flit dims (pk_uid hf) p"
  shows "\<exists>bs s'. run_flow (SafSwitching_ApplyFlowControl dims) (hf # ps) s = Some (False # bs, s') \<and>
     length bs = length ps \<and>
     (let n = length (filter (follows (pk_uid hf)) ps); w = unat (tag_dataFlitCount t) - 1
      in decisions_of (pk_uid hf) ps bs = replicate (min n w) False @ replicate (n - w) True)"
proof -
  from saf.run_message [OF assms] obtain b bs s' where r:
    "run_flow (SafSwitching_ApplyFlowControl dims) (hf # ps) s = Some (b # bs, s')" "length bs = length ps"
    "(let n = length (filter (follows (pk_uid hf)) ps);
          w = (if b then saf_waits s (pk_uid hf) else unat (tag_dataFlitCount t)) - 1
      in decisions_of (pk_uid hf) ps bs = replicate (min n w) False @ replicate (n - w) True)"
    by blast
  from saf_head_step [OF assms(1,2)] r(1) have "\<not> b"
    by (auto simp: Option.bind_eq_Some_conv split: prod.splits)
  with r show ?thesis by simp
qed

text \<open>Virtual cut-through lets an unblocked message through. When the head
  flit is not marked as blocked and its UID is not among the blocked ones, the head flit and
  every body flit of its message are forwarded as they arrive, however the flits of other
  messages are interleaved with them and whatever happens to those.\<close>

theorem vct_cuts_through:
  assumes "counts_small (vct_flitCount s)" "head_flit dims hf t h"
    and "\<forall>p \<in> set ps. other_flit dims (pk_uid hf) p"
    and "\<not> tag_packetBlocked t" "pk_uid hf \<notin> vct_blockedHeadFlits s"
  shows "\<exists>bs s'. run_flow (VctSwitching_ApplyFlowControl dims) (hf # ps) s = Some (True # bs, s') \<and>
     length bs = length ps \<and>
     decisions_of (pk_uid hf) ps bs = replicate (length (filter (follows (pk_uid hf)) ps)) True"
proof -
  from vct.run_message [OF assms(1-3)] obtain b bs s' where r:
    "run_flow (VctSwitching_ApplyFlowControl dims) (hf # ps) s = Some (b # bs, s')" "length bs = length ps"
    "(let n = length (filter (follows (pk_uid hf)) ps);
          w = (if b then vct_waits s (pk_uid hf) else unat (tag_dataFlitCount t)) - 1
      in decisions_of (pk_uid hf) ps bs = replicate (min n w) False @ replicate (n - w) True)"
    by blast
  from vct_head_step [OF assms(1,2)] r(1) assms(4) have "b"
    by (auto simp: Option.bind_eq_Some_conv split: prod.splits)
  with r assms(5) show ?thesis by (simp add: vct_waits_def)
qed

text \<open>A message that finds its way blocked is treated by virtual
  cut-through as by store and forward: both hold the head flit, and take the same decisions
  on every body flit of the message.\<close>

theorem vct_blocked_is_saf:
  assumes "counts_small (vct_flitCount s)" "counts_small (saf_flitCount s')" "head_flit dims hf t h"
    and "\<forall>p \<in> set ps. other_flit dims (pk_uid hf) p" "tag_packetBlocked t"
  shows "\<exists>bs1 bs2 s1 s2. run_flow (VctSwitching_ApplyFlowControl dims) (hf # ps) s = Some (False # bs1, s1) \<and>
     run_flow (SafSwitching_ApplyFlowControl dims) (hf # ps) s' = Some (False # bs2, s2) \<and>
     decisions_of (pk_uid hf) ps bs1 = decisions_of (pk_uid hf) ps bs2"
proof -
  from vct.run_message [OF assms(1,3,4)] obtain b bs s1 where r:
    "run_flow (VctSwitching_ApplyFlowControl dims) (hf # ps) s = Some (b # bs, s1)" "length bs = length ps"
    "(let n = length (filter (follows (pk_uid hf)) ps);
          w = (if b then vct_waits s (pk_uid hf) else unat (tag_dataFlitCount t)) - 1
      in decisions_of (pk_uid hf) ps bs = replicate (min n w) False @ replicate (n - w) True)"
    by blast
  from vct_head_step [OF assms(1,3)] r(1) assms(5) have b: "\<not> b"
    by (auto simp: Option.bind_eq_Some_conv split: prod.splits)
  from saf.run_message [OF assms(2,3,4)] obtain b' bs' s2 where r':
    "run_flow (SafSwitching_ApplyFlowControl dims) (hf # ps) s' = Some (b' # bs', s2)" "length bs' = length ps"
    "(let n = length (filter (follows (pk_uid hf)) ps);
          w = (if b' then saf_waits s' (pk_uid hf) else unat (tag_dataFlitCount t)) - 1
      in decisions_of (pk_uid hf) ps bs' = replicate (min n w) False @ replicate (n - w) True)"
    by blast
  from saf_head_step [OF assms(2,3)] r'(1) have b': "\<not> b'"
    by (auto simp: Option.bind_eq_Some_conv split: prod.splits)
  from b b' r r' show ?thesis by (auto simp: Let_def)
qed

text \<open>A message of one head flit and body flits, to evaluate the properties on.\<close>

definition sample_tag :: "packet_type \<Rightarrow> u32 \<Rightarrow> u16 \<Rightarrow> bool \<Rightarrow> noc_packet_tag" where
  "sample_tag ty u n blocked = NocPacketTag_new\<lparr>tag_type := ty, tag_headPacketUid := u,
     tag_dataFlitCount := n, tag_packetBlocked := blocked\<rparr>"

definition sample_head :: "u32 \<Rightarrow> u16 \<Rightarrow> bool \<Rightarrow> packet" where
  "sample_head u n blocked = \<lparr>pk_uid = u, pk_bytes = [2, 1, 0, 0], pk_zeros = 12,
     pk_tag = Some (NocPacketTag_Serialize (sample_tag HEAD 0 n blocked))\<rparr>"

definition sample_body :: "u32 \<Rightarrow> u32 \<Rightarrow> packet" where
  "sample_body v u = \<lparr>pk_uid = v, pk_bytes = [], pk_zeros = 16,
     pk_tag = Some (NocPacketTag_Serialize (sample_tag DATA u 0 False))\<rparr>"

lemma tag_wf_sample [simp]: "tag_wf (sample_tag ty u n blocked)"
  by (simp add: sample_tag_def tag_wf_def NocPacketTag_new_def)

lemma head_flit_sample:
  "head_flit 2 (sample_head u n blocked) (sample_tag HEAD 0 n blocked)
     \<lparr>m_distance = [2, 1], m_source = [0, 0]\<rparr>"
  by (simp add: head_flit_def sample_head_def header_fits_def NocHeader_IsEmpty_def NocHeader_Serialize_def)
    (simp add: sample_tag_def)

lemma body_flit_sample: "body_flit (sample_body v u) (sample_tag DATA u 0 False)"
  by (simp add: body_flit_def sample_body_def) (simp add: sample_tag_def)

lemma other_flit_sample [simp]:
  "other_flit dims w (sample_body v u)"
  "u \<noteq> w \<Longrightarrow> other_flit 2 w (sample_head u n blocked)"
  unfolding other_flit_def
  using body_flit_sample [of v u] head_flit_sample [of u n blocked]
  by (blast, auto simp: sample_head_def)

lemma counts_small_empty [simp]: "counts_small Map.empty"
  by (simp add: counts_small_def count_at_def)

lemma follows_sample [simp]:
  "follows w (sample_body v u) \<longleftrightarrow> u = w" "\<not> follows w (sample_head u n blocked)"
  using follows_body [OF body_flit_sample] follows_head [OF head_flit_sample]
  by (simp_all add: sample_tag_def)

lemma sample_simps [simp]:
  "pk_uid (sample_head u n blocked) = u"
  "tag_dataFlitCount (sample_tag ty u n blocked) = n"
  "tag_packetBlocked (sample_tag ty u n blocked) = blocked"
  by (simp_all add: sample_head_def sample_tag_def)

theorem saf_stores_message_witness:
  "\<exists>bs s'. run_flow (SafSwitching_ApplyFlowControl 2)
       [sample_head 7 2 False, sample_body 8 7, sample_head 30 1 False, sample_body 9 7]
       SafSwitching_new = Some (False # bs, s') \<and> length bs = 3 \<and>
     decisions_of 7 [sample_body 8 7, sample_head 30 1 False, sample_body 9 7] bs = [False, True]"
  using saf_stores_message [of SafSwitching_new 2 "sample_head 7 2 False" "sample_tag HEAD 0 2 False" _
      "[sample_body 8 7, sample_head 30 1 False, sample_body 9 7]", OF _ head_flit_sample]
  by (simp add: SafSwitching_new_def Let_def numeral_3_eq_3)

theorem vct_cuts_through_witness:
  "\<exists>bs s'. run_flow (VctSwitching_ApplyFlowControl 2)
       [sample_head 7 2 False, sample_body 8 7, sample_head 30 1 True, sample_body 9 7]
       VctSwitching_new = Some (True # bs, s') \<and> length bs = 3 \<and>
     decisions_of 7 [sample_body 8 7, sample_head 30 1 True, sample_body 9 7] bs = [True, True]"
  using vct_cuts_through [of VctSwitching_new 2 "sample_head 7 2 False" "sample_tag HEAD 0 2 False" _
      "[sample_body 8 7, sample_head 30 1 True, sample_body 9 7]", OF _ head_flit_sample]
  by (simp add: VctSwitching_new_def numeral_3_eq_3)

theorem vct_blocked_is_saf_witness:
  "\<exists>bs1 bs2 s1 s2. run_flow (VctSwitching_ApplyFlowControl 2)
       [sample_head 7 2 True, sample_body 8 7, sample_body 9 7] VctSwitching_new = Some (False # bs1, s1) \<and>
     run_flow (SafSwitching_ApplyFlowControl 2)
       [sample_head 7 2 True, sample_body 8 7, sample_body 9 7] SafSwitching_new = Some (False # bs2, s2) \<and>
     decisions_of 7 [sample_body 8 7, sample_body 9 7] bs1 = decisions_of 7 [sample_body 8 7, sample_body 9 7] bs2"
  using vct_blocked_is_saf [of VctSwitching_new SafSwitching_new 2 "sample_head 7 2 True"
      "sample_tag HEAD 0 2 True" _ "[sample_body 8 7, sample_body 9 7]", OF _ _ head_flit_sample]
  by (simp add: VctSwitching_new_def SafSwitching_new_def)

end
