(* ===== verification/High_Precision.thy ===== *)
theory High_Precision
  imports Noc_Prelude
begin

text \<open>
  The fixed-point numbers behind simulated time: \<^verbatim>\<open>simulator/high-precision-128.cc\<close> and
  \<^verbatim>\<open>high-precision-128.h\<close>, the implementation that is configured where the compiler has
  128-bit integers. A number is a signed 128-bit integer, its upper half the integer part and
  its lower half the fraction. A division by zero and a failed \<^verbatim>\<open>NS_ABORT_MSG_IF\<close> are \<open>None\<close>.
\<close>

type_synonym u128 = "128 word"

section \<open>The operations\<close>

definition MASK_LO :: u128 where "MASK_LO = push_bit 64 1 - 1"
definition MASK_HI :: u128 where "MASK_HI = NOT MASK_LO"

definition hp_abs :: "u128 \<Rightarrow> u128" where
  "hp_abs x = (if sint x < 0 then - x else x)"

definition hp_sign :: "bool \<Rightarrow> u128 \<Rightarrow> u128" where
  "hp_sign negative x = (if negative then - x else x)"

text \<open>\<^verbatim>\<open>HighPrecision (int64_t high, uint64_t low)\<close> and \<^verbatim>\<open>HighPrecision (int64_t value, bool)\<close>.\<close>

definition HighPrecision_parts :: "u64 \<Rightarrow> u64 \<Rightarrow> u128" where
  "HighPrecision_parts high low = (let
     is_negative = sint high < 0;
     m_value = scast (if is_negative then - high else high);
     m_value = push_bit 64 m_value;
     m_value = m_value + ucast low
   in hp_sign is_negative m_value)"

definition HighPrecision_int :: "u64 \<Rightarrow> u128" where
  "HighPrecision_int value = push_bit 64 (scast value)"

definition HighPrecision_GetInteger :: "u128 \<Rightarrow> u64" where
  "HighPrecision_GetInteger m_value = (let
     negative = sint m_value < 0;
     retval = ucast (drop_bit 64 (hp_abs m_value))
   in if negative then - retval else retval)"

definition HighPrecision_GetHigh :: "u128 \<Rightarrow> u64" where
  "HighPrecision_GetHigh = HighPrecision_GetInteger"

definition HighPrecision_GetLow :: "u128 \<Rightarrow> u64" where
  "HighPrecision_GetLow m_value = ucast (hp_abs m_value AND MASK_LO)"

definition HighPrecision_Add :: "u128 \<Rightarrow> u128 \<Rightarrow> u128" where "HighPrecision_Add x y = x + y"
definition HighPrecision_Sub :: "u128 \<Rightarrow> u128 \<Rightarrow> u128" where "HighPrecision_Sub x y = x - y"

definition HighPrecision_Compare :: "u128 \<Rightarrow> u128 \<Rightarrow> int" where
  "HighPrecision_Compare x y = (if sint x < sint y then - 1 else if x = y then 0 else 1)"

definition HighPrecision_Umul :: "u128 \<Rightarrow> u128 \<Rightarrow> u128 option" where
  "HighPrecision_Umul a b = do {
     let aL = a AND MASK_LO;
     let bL = b AND MASK_LO;
     let aH = drop_bit 64 a AND MASK_LO;
     let bH = drop_bit 64 b AND MASK_LO;
     let loPart = aL * bL;
     let midPart = aL * bH + aH * bL;
     let result = drop_bit 64 loPart + (midPart AND MASK_LO);
     let hiPart = aH * bH;
     let result = result OR (push_bit 64 (hiPart AND MASK_LO) + (midPart AND MASK_HI));
     _ \<leftarrow> ns_assert (hiPart AND MASK_HI = 0);
     Some result
   }"

definition HighPrecision_Mul :: "u128 \<Rightarrow> u128 \<Rightarrow> u128 option" where
  "HighPrecision_Mul x y =
     map_option (hp_sign ((sint x < 0) \<noteq> (sint y < 0))) (HighPrecision_Umul (hp_abs x) (hp_abs y))"

definition HighPrecision_Divu :: "u128 \<Rightarrow> u128 \<Rightarrow> u128 option" where
  "HighPrecision_Divu a b = do {
     _ \<leftarrow> ns_assert (b \<noteq> 0);
     let quo = a div b;
     let rem = a mod b;
     let result = push_bit 64 quo;
     let tmp = drop_bit 64 rem;
     let (rem, den) = (if tmp = 0 then (push_bit 64 rem, b) else (rem, drop_bit 64 b));
     let quo = rem div den;
     Some (result + quo)
   }"

definition HighPrecision_Div :: "u128 \<Rightarrow> u128 \<Rightarrow> u128 option" where
  "HighPrecision_Div x y =
     map_option (hp_sign ((sint x < 0) \<noteq> (sint y < 0))) (HighPrecision_Divu (hp_abs x) (hp_abs y))"

definition HighPrecision_UmulByInvert :: "u128 \<Rightarrow> u128 \<Rightarrow> u128" where
  "HighPrecision_UmulByInvert a b = (let
     ah = drop_bit 64 a;
     bh = drop_bit 64 b;
     al = a AND MASK_LO;
     bl = b AND MASK_LO;
     mid = ah * bl + al * bh;
     mid = drop_bit 64 mid
   in ah * bh + mid)"

definition HighPrecision_MulByInvert :: "u128 \<Rightarrow> u128 \<Rightarrow> u128" where
  "HighPrecision_MulByInvert x y =
     hp_sign (sint x < 0) (HighPrecision_UmulByInvert (hp_abs x) y)"

definition HighPrecision_Invert :: "u64 \<Rightarrow> u128 option" where
  "HighPrecision_Invert v = do {
     _ \<leftarrow> ns_assert (v > 1);
     result \<leftarrow> HighPrecision_Divu (push_bit 64 1) (ucast v);
     let tmp = HighPrecision_MulByInvert (HighPrecision_int v) result;
     Some (if HighPrecision_GetInteger tmp \<noteq> 1 then result + 1 else result)
   }"

section \<open>Words as numbers\<close>

named_theorems hp_words \<open>the numbers that words of 64 and 128 bits stand for\<close>

lemma unat_u128_less: "unat (x :: u128) < 2 ^ 128"
  using unsigned_less [of x] by simp

lemma unat_u64_less: "unat (x :: u64) < 2 ^ 64"
  using unsigned_less [of x] by simp

lemma MASK_LO_mask: "MASK_LO = mask 64"
  by (simp add: MASK_LO_def mask_eq_exp_minus_1)

lemma unat_low [hp_words]: "unat (x AND MASK_LO) = unat x mod 2 ^ 64"
proof -
  have "unat (x AND MASK_LO) = unat (take_bit 64 x)" by (simp only: MASK_LO_mask take_bit_eq_mask)
  also have "\<dots> = take_bit 64 (unat x)" by (rule unsigned_take_bit_eq)
  also have "\<dots> = unat x mod 2 ^ 64" by (rule take_bit_eq_mod)
  finally show ?thesis .
qed

lemma unat_high [hp_words]: "unat (drop_bit 64 x :: u128) = unat x div 2 ^ 64"
proof -
  have "take_bit 128 (unat x) = unat x" using unat_u128_less [of x] by (simp add: take_bit_nat_eq_self)
  then have "unat (drop_bit 64 x) = drop_bit 64 (unat x)" by (simp add: unsigned_drop_bit_eq del: drop_bit_eq_div)
  also have "\<dots> = unat x div 2 ^ 64" by (rule drop_bit_eq_div)
  finally show ?thesis .
qed

lemma unat_times [hp_words]: "unat a * unat b < 2 ^ 128 \<Longrightarrow> unat (a * b :: u128) = unat a * unat b"
  by (simp add: unat_word_ariths)

lemma unat_plus [hp_words]: "unat a + unat b < 2 ^ 128 \<Longrightarrow> unat (a + b :: u128) = unat a + unat b"
  by (simp add: unat_word_ariths)

lemma unat_shift [hp_words]: "unat a < 2 ^ 64 \<Longrightarrow> unat (push_bit 64 a :: u128) = unat a * 2 ^ 64"
  by (subst push_bit_eq_mult, subst unat_times) simp_all

lemma unat_masked_high [hp_words]: "unat (x AND MASK_HI) = unat x div 2 ^ 64 * 2 ^ 64"
proof -
  have "x AND MASK_HI = push_bit 64 (drop_bit 64 x)"
    by (rule bit_word_eqI)
      (auto simp: MASK_HI_def MASK_LO_mask bit_and_iff bit_not_iff bit_mask_iff bit_push_bit_iff bit_drop_bit_eq)
  moreover have "unat (drop_bit 64 x) < 2 ^ 64"
    using unat_u128_less [of x] by (simp add: unat_high less_mult_imp_div_less)
  ultimately show ?thesis by (simp only: unat_shift unat_high)
qed

lemma halves_less [hp_words]: "unat (x :: u128) div 2 ^ 64 < 2 ^ 64"
  using unat_u128_less [of x] by (simp add: less_mult_imp_div_less)

text \<open>\<^verbatim>\<open>|\<close> adds, but for a carry into a bit that is already set.\<close>

lemma nat_or_disjoint: "(x :: nat) < 2 ^ n \<Longrightarrow> x OR y * 2 ^ n = x + y * 2 ^ n"
proof -
  assume "x < 2 ^ n"
  then have x: "take_bit n x = x" by (simp add: take_bit_nat_eq_self)
  have "x AND y * 2 ^ n = take_bit n x AND push_bit n y" by (simp add: x push_bit_eq_mult)
  also have "\<dots> = 0" by (rule bit_eqI) (auto simp: bit_and_iff bit_take_bit_iff bit_push_bit_iff)
  finally show ?thesis by (simp add: disjunctive_add_eq_or)
qed

section \<open>Multiplication\<close>

text \<open>The sum of the parts that goes into the lower half, and what the upper half gets.\<close>

definition mul_low :: "nat \<Rightarrow> nat \<Rightarrow> nat" where
  "mul_low A B = (A mod 2 ^ 64) * (B mod 2 ^ 64) div 2 ^ 64 +
     ((A mod 2 ^ 64) * (B div 2 ^ 64) + (A div 2 ^ 64) * (B mod 2 ^ 64)) mod 2 ^ 64"

definition mul_high :: "nat \<Rightarrow> nat \<Rightarrow> nat" where
  "mul_high A B = (A div 2 ^ 64) * (B div 2 ^ 64) +
     ((A mod 2 ^ 64) * (B div 2 ^ 64) + (A div 2 ^ 64) * (B mod 2 ^ 64)) div 2 ^ 64"

definition carry_lost :: "nat \<Rightarrow> nat \<Rightarrow> bool" where
  "carry_lost A B \<longleftrightarrow> 2 ^ 64 \<le> mul_low A B \<and> odd (mul_high A B)"

lemma split_product:
  fixes A B K :: nat
  assumes "0 < K"
  defines "M \<equiv> A mod K * (B div K) + A div K * (B mod K)"
  shows "A * B = (A div K * (B div K)) * (K * K) + M * K + A mod K * (B mod K)"
proof -
  have "A * B = (A div K * K + A mod K) * (B div K * K + B mod K)" by simp
  also have "\<dots> = (A div K * (B div K)) * (K * K) + M * K + A mod K * (B mod K)"
    unfolding M_def by (simp only: algebra_simps)
  finally show ?thesis .
qed

lemma product_div:
  fixes A B K :: nat
  assumes "0 < K"
  defines "M \<equiv> A mod K * (B div K) + A div K * (B mod K)"
  shows "A * B div K = (A div K * (B div K)) * K + M + A mod K * (B mod K) div K"
proof -
  have "A * B = (A mod K * (B mod K)) + ((A div K * (B div K)) * K + M) * K"
    using split_product [OF assms(1), of A B] by (simp add: M_def algebra_simps)
  then show ?thesis using assms(1) by (simp add: M_def)
qed

lemma mul_split: "A * B div 2 ^ 64 = mul_high A B * 2 ^ 64 + mul_low A B"
proof -
  let ?M = "A mod 2 ^ 64 * (B div 2 ^ 64) + A div 2 ^ 64 * (B mod 2 ^ 64)"
  have "?M = ?M div 2 ^ 64 * 2 ^ 64 + ?M mod 2 ^ 64" by (rule div_mult_mod_eq [symmetric])
  then show ?thesis using product_div [of "2 ^ 64" A B]
    unfolding mul_low_def mul_high_def by (simp only: add_mult_distrib) presburger
qed

lemma or_carry:
  assumes "s < 2 * 2 ^ 64"
  shows "(s OR Q * 2 ^ 64) + (if 2 ^ 64 \<le> s \<and> odd Q then 2 ^ 64 else 0) = (s :: nat) + Q * 2 ^ 64"
proof (cases "s < 2 ^ 64")
  case True
  then show ?thesis using nat_or_disjoint [OF True, of Q] by simp
next
  case False
  define r where "r = s - 2 ^ 64"
  have r: "s = r + 1 * 2 ^ 64" "r < 2 ^ 64" using False assms by (simp_all add: r_def)
  have "s OR Q * 2 ^ 64 = r OR (1 * 2 ^ 64 OR Q * 2 ^ 64)"
    unfolding r(1) nat_or_disjoint [OF r(2), symmetric] by (simp only: or.assoc)
  also have "1 * 2 ^ 64 OR Q * 2 ^ 64 = (1 OR Q) * 2 ^ 64"
    by (simp only: push_bit_or flip: push_bit_eq_mult)
  also have "r OR (1 OR Q) * 2 ^ 64 = r + (1 OR Q) * 2 ^ 64" by (rule nat_or_disjoint [OF r(2)])
  finally show ?thesis using r by (simp add: Suc_0_or_eq)
qed

lemma Umul_value:
  assumes "unat a * unat b < 2 ^ 192"
  shows "\<exists>r. HighPrecision_Umul a b = Some r \<and>
    unat r + (if carry_lost (unat a) (unat b) then 2 ^ 64 else 0) = unat a * unat b div 2 ^ 64"
proof -
  define K :: nat where "K = 2 ^ 64"
  have K: "0 < K" "2 ^ 128 = K * K" "2 ^ 192 = K * K * K" by (simp_all add: K_def)
  let ?A = "unat a" and ?B = "unat b"
  define H where "H = ?A div K * (?B div K)"
  define M where "M = ?A mod K * (?B div K) + ?A div K * (?B mod K)"
  define L where "L = ?A mod K * (?B mod K)"
  have AB: "?A * ?B = H * (K * K) + M * K + L"
    unfolding H_def M_def L_def by (rule split_product [OF K(1)])
  have "H * (K * K) + M * K + L < K * K * K" using assms unfolding AB K .
  then have small: "H * (K * K) + M * K < K * K * K" by (rule add_lessD1)
  have lt: "?A mod K < K" "?B mod K < K" by (rule mod_less_divisor [OF K(1)])+
  have "H * (K * K) < K * (K * K)" using add_lessD1 [OF small] by (simp only: mult.assoc)
  then have H: "H < K" by (simp only: mult_less_cancel2)
  have "(H * K + M) * K < K * K * K" using small by (simp only: add_mult_distrib mult.assoc)
  then have HM: "H * K + M < K * K" by (simp only: mult_less_cancel2)
  have L: "L < K * K" unfolding L_def using lt by (intro mult_strict_mono') simp_all
  have L1: "L div K < K" using L by (rule less_mult_imp_div_less)
  have "H * K + M div K * K \<le> H * K + M" by simp
  then have Q: "H * K + M div K * K < K * K" using HM by (rule le_less_trans)
  have M2: "M < K * K" using HM by linarith
  let ?al = "a AND MASK_LO" and ?bl = "b AND MASK_LO"
  let ?ah = "drop_bit 64 a AND MASK_LO" and ?bh = "drop_bit 64 b AND MASK_LO"
  have low: "unat ?al = ?A mod K" "unat ?bl = ?B mod K" by (simp_all only: unat_low K_def)
  have "unat (drop_bit 64 x AND MASK_LO) = unat x div K" for x
    unfolding unat_low unat_high K_def by (rule mod_less [OF halves_less])
  then have high: "unat ?ah = ?A div K" "unat ?bh = ?B div K" by blast+
  have lo: "unat (?al * ?bl) = L"
    unfolding L_def by (subst unat_times) (use L in \<open>simp_all only: low K L_def\<close>)
  have cross: "unat (?al * ?bh) = ?A mod K * (?B div K)" "unat (?ah * ?bl) = ?A div K * (?B mod K)"
    by (subst unat_times; use M2 in \<open>simp only: low high K M_def\<close>)+
  have mid: "unat (?al * ?bh + ?ah * ?bl) = M"
    unfolding M_def by (subst unat_plus) (use M2 in \<open>simp_all only: cross K M_def\<close>)
  have "K \<le> K * K" using K(1) by simp
  with H have "H < K * K" by (rule less_le_trans)
  then have hi: "unat (?ah * ?bh) = H"
    unfolding H_def by (subst unat_times) (simp_all only: high K(2))
  have hi_low: "unat (?ah * ?bh AND MASK_LO) = H"
    by (simp only: unat_low hi mod_less [OF H] flip: K_def)
  have "unat (?ah * ?bh AND MASK_HI) = 0"
    by (simp only: unat_masked_high hi div_less [OF H] mult_zero_left flip: K_def)
  then have fits: "?ah * ?bh AND MASK_HI = 0" by (simp only: unat_eq_0)
  let ?low = "drop_bit 64 (?al * ?bl) + (?al * ?bh + ?ah * ?bl AND MASK_LO)"
  let ?high = "push_bit 64 (?ah * ?bh AND MASK_LO) + (?al * ?bh + ?ah * ?bl AND MASK_HI)"
  have s: "L div K + M mod K < 2 * K" using L1 mod_less_divisor [OF K(1), of M] by linarith
  have "2 * K \<le> K * K" by (simp add: K_def)
  with s have s': "L div K + M mod K < K * K" by (rule less_le_trans)
  have low_val: "unat ?low = L div K + M mod K"
    by (subst unat_plus) (use s' in \<open>simp_all only: unat_high unat_low lo mid K flip: K_def\<close>)
  have "unat (push_bit 64 (?ah * ?bh AND MASK_LO)) = H * K"
    by (subst unat_shift) (use H in \<open>simp_all only: hi_low flip: K_def\<close>)
  then have high_val: "unat ?high = (H + M div K) * K"
    by (subst unat_plus) (use Q in \<open>simp_all only: unat_masked_high mid K add_mult_distrib flip: K_def\<close>)
  have sums: "mul_low ?A ?B = L div K + M mod K" "mul_high ?A ?B = H + M div K"
    by (simp_all only: mul_low_def mul_high_def H_def M_def L_def K_def)
  have "unat (?low OR ?high) + (if carry_lost ?A ?B then 2 ^ 64 else 0) = (L div K + M mod K) + (H + M div K) * K"
    using or_carry [of "L div K + M mod K" "H + M div K"] s
    by (simp only: unsigned_or_eq low_val high_val carry_lost_def sums flip: K_def)
  also have "\<dots> = ?A * ?B div 2 ^ 64"
    using mul_split [of ?A ?B] by (simp only: sums add.commute flip: K_def)
  finally show ?thesis
    by (simp add: HighPrecision_Umul_def fits Let_def ns_assert_def)
qed

section \<open>Signs\<close>

lemma sint_eq_uint_if:
  fixes w :: "'a::len word"
  shows "sint w = (if uint w < 2 ^ (LENGTH('a) - 1) then uint w else uint w - 2 ^ LENGTH('a))"
proof -
  obtain n where n: "LENGTH('a) = Suc n" by (metis len_not_eq_0 not0_implies_Suc)
  have u: "0 \<le> uint w" "uint w < 2 * 2 ^ n" using uint_bounded [of w] by (simp_all add: n)
  have "bit (uint w) n \<longleftrightarrow> odd (uint w div 2 ^ n)" by (simp add: bit_iff_odd)
  moreover have "uint w div 2 ^ n = (if uint w < 2 ^ n then 0 else 1)"
    using u by (auto intro: int_div_pos_eq [where r = "uint w - 2 ^ n"])
  moreover have "sint w = take_bit (Suc n) (uint w) - 2 ^ Suc n * of_bool (bit (uint w) n)"
    by (simp add: sint_uint n signed_take_bit_eq_take_bit_minus)
  moreover have "take_bit (Suc n) (uint w) = uint w" using u by (simp add: take_bit_int_eq_self)
  ultimately show ?thesis by (simp add: n)
qed

lemma sint_u128: "sint (x :: u128) = (if uint x < 2 ^ 127 then uint x else uint x - 2 ^ 128)"
  using sint_eq_uint_if [of x] by simp

lemma sint_u64: "sint (x :: u64) = (if uint x < 2 ^ 63 then uint x else uint x - 2 ^ 64)"
  using sint_eq_uint_if [of x] by simp

lemma uint_neg:
  fixes x :: "'a::len word"
  shows "uint (- x) = (if x = 0 then 0 else 2 ^ LENGTH('a) - uint x)"
proof -
  have "uint (- x) = - uint x mod 2 ^ LENGTH('a)" by (rule uint_word_ariths)
  then show ?thesis
    using uint_bounded [of x] by (auto simp: zmod_zminus1_eq_if mod_pos_pos_trivial uint_0_iff)
qed

lemma uint_pos: "x \<noteq> 0 \<Longrightarrow> 0 < uint (x :: 'a::len word)"
  using uint_ge_0 [of x] uint_0_iff [of x] by linarith

lemma uint_u128_less: "uint (x :: u128) < 2 ^ 128"
  using uint_bounded [of x] by simp

lemma hp_abs_value: "uint (hp_abs x) = \<bar>sint x\<bar>"
proof (cases "uint x < 2 ^ 127")
  case True
  then show ?thesis by (simp add: hp_abs_def sint_u128)
next
  case False
  then have "x \<noteq> 0" by auto
  with False show ?thesis using uint_u128_less [of x]
    by (simp add: hp_abs_def sint_u128 uint_neg)
qed

lemma hp_sign_value: "uint x < 2 ^ 127 \<Longrightarrow> sint (hp_sign s x) = (if s then - uint x else uint x)"
proof (cases "s \<and> x \<noteq> 0")
  case True
  assume "uint x < 2 ^ 127"
  with True uint_pos [of x] show ?thesis by (simp add: hp_sign_def sint_u128 uint_neg)
qed (auto simp: hp_sign_def sint_u128)

lemma hp_abs_le: "uint (hp_abs x) \<le> 2 ^ 127" "\<not> sint x < 0 \<Longrightarrow> uint (hp_abs x) < 2 ^ 127"
  using hp_abs_value [of x] uint_u128_less [of x] uint_ge_0 [of x] by (auto simp: sint_u128 split: if_splits)

lemma uint_high: "uint (drop_bit 64 x :: u128) = uint x div 2 ^ 64"
  using unat_high [of x] by (metis of_nat_numeral of_nat_power uint_nat zdiv_int)

lemma GetInteger_value: "sint (HighPrecision_GetInteger x) = trunc_div (sint x) (2 ^ 64)"
proof -
  let ?h = "ucast (drop_bit 64 (hp_abs x)) :: u64"
  have le: "uint (hp_abs x) div 2 ^ 64 \<le> 2 ^ 63"
    using zdiv_mono1 [OF hp_abs_le(1), of "2 ^ 64" x] by simp
  have h: "uint ?h = uint (hp_abs x) div 2 ^ 64"
  proof -
    have "uint ?h = uint (hp_abs x) div 2 ^ 64 mod 2 ^ 64"
      by (simp only: unsigned_ucast_eq take_bit_eq_mod uint_high) simp
    also have "\<dots> = uint (hp_abs x) div 2 ^ 64" using le by (intro mod_pos_pos_trivial) (simp_all add: pos_imp_zdiv_nonneg_iff)
    finally show ?thesis .
  qed
  have a: "\<bar>sint x\<bar> div 2 ^ 64 = uint ?h" by (simp only: h hp_abs_value)
  show ?thesis
  proof (cases "sint x < 0")
    case True
    have "sint (- ?h) = - uint ?h"
      using le h by (cases "?h = 0") (auto simp: sint_u64 uint_neg dest: uint_pos)
    with True a show ?thesis by (simp add: HighPrecision_GetInteger_def trunc_div_def sgn_if Let_def)
  next
    case False
    have "uint ?h < 2 ^ 63" unfolding h using zdiv_mono1 [of "uint (hp_abs x)" "2 ^ 127 - 1" "2 ^ 64"] hp_abs_le(2) [OF False] by simp
    then have "sint ?h = uint ?h" by (simp add: sint_u64)
    with False a show ?thesis by (auto simp: HighPrecision_GetInteger_def trunc_div_def sgn_if Let_def)
  qed
qed

section \<open>Division\<close>

lemma Divu_value:
  assumes "b \<noteq> 0" "unat a div unat b < 2 ^ 64" "unat a mod unat b < 2 ^ 64 \<or> 2 ^ 64 dvd unat b"
  shows "\<exists>r. HighPrecision_Divu a b = Some r \<and> unat r = unat a * 2 ^ 64 div unat b"
proof -
  define K :: nat where "K = 2 ^ 64"
  have K: "0 < K" "2 ^ 128 = K * K" by (simp_all add: K_def)
  let ?B = "unat b" and ?q = "unat a div unat b" and ?m = "unat a mod unat b"
  have B: "0 < ?B" using assms(1) by (simp add: unat_gt_0)
  have m: "?m < ?B" using B by simp
  let ?rest = "if ?m < K then ?m * K div ?B else ?m div (?B div K)"
  have rest: "?rest < K \<and> ?rest = ?m * K div ?B"
  proof (cases "?m < K")
    case True
    have "?m * K < K * ?B" using m K(1) by simp
    then have "?m * K div ?B < K" by (rule less_mult_imp_div_less)
    with True show ?thesis by simp
  next
    case False
    then obtain c where c: "?B = c * K" using assms(3) by (auto simp: K_def elim: dvdE)
    then have "?m * K div ?B = ?m div c" using K(1) by simp
    moreover have "?m div c < K" using m c by (simp add: less_mult_imp_div_less mult.commute)
    ultimately show ?thesis using False c K(1) by simp
  qed
  have "unat a * K = (?q * ?B + ?m) * K" by (simp only: div_mult_mod_eq)
  also have "\<dots> = ?m * K + ?q * K * ?B" by (simp only: algebra_simps)
  finally have whole: "unat a * K div ?B = ?q * K + ?rest" using B rest by simp
  have "Suc ?q \<le> K" using assms(2) by (simp add: K_def)
  then have "Suc ?q * K \<le> K * K" by (rule mult_le_mono1)
  then have "?q * K + K \<le> K * K" by simp
  then have fits: "?q * K + ?rest < K * K" using rest by linarith
  have quo: "unat (push_bit 64 (a div b)) = ?q * K"
    by (subst unat_shift) (use assms(2) in \<open>simp_all only: unat_div_distrib K_def\<close>)
  have tmp: "drop_bit 64 (a mod b) = 0 \<longleftrightarrow> ?m < K"
    using unat_high [of "a mod b"] K(1) by (simp add: unat_mod_distrib K_def div_eq_0_iff flip: unat_eq_0)
  let ?quo2 = "if drop_bit 64 (a mod b) = 0 then push_bit 64 (a mod b) div b else a mod b div drop_bit 64 b"
  have "unat ?quo2 = ?rest"
  proof (cases "?m < K")
    case True
    then have "unat (push_bit 64 (a mod b)) = ?m * K"
      by (subst unat_shift) (simp_all add: unat_mod_distrib K_def)
    with True tmp show ?thesis by (simp add: unat_div_distrib)
  next
    case False
    with tmp show ?thesis by (simp add: unat_div_distrib unat_mod_distrib unat_high K_def)
  qed
  then have "unat (push_bit 64 (a div b) + ?quo2) = ?q * K + ?rest"
    by (subst unat_plus) (use fits in \<open>simp_all only: quo K\<close>)
  then show ?thesis
    using assms(1) whole by (auto simp: HighPrecision_Divu_def Let_def K_def ns_assert_def)
qed

section \<open>Conversion by multiplication with an inverse\<close>

lemma UmulByInvert_value:
  assumes "unat a = n * 2 ^ 64" "n < 2 ^ 64" "n * unat b < 2 ^ 192"
  shows "unat (HighPrecision_UmulByInvert a b) = n * unat b div 2 ^ 64"
proof -
  define K :: nat where "K = 2 ^ 64"
  have K: "0 < K" "2 ^ 128 = K * K" "2 ^ 192 = K * K * K" by (simp_all add: K_def)
  let ?B = "unat b"
  have n: "n < K" "unat a = n * K" using assms by (simp_all add: K_def)
  have val: "n * ?B div K = n * (?B div K) + n * (?B mod K) div K"
  proof -
    have "n * ?B = n * (?B div K * K + ?B mod K)" by (simp only: div_mult_mod_eq)
    also have "\<dots> = n * (?B mod K) + n * (?B div K) * K" by (simp only: algebra_simps)
    finally show ?thesis using K(1) by simp
  qed
  have "n * ?B < K * K * K" using assms(3) unfolding K(3) .
  then have small: "n * ?B div K < K * K" by (rule less_mult_imp_div_less)
  have ah: "unat (drop_bit 64 a) = n" using K(1) by (simp only: unat_high n(2) K_def [symmetric]) simp
  have "unat (a AND MASK_LO) = 0" by (simp only: unat_low n(2) K_def [symmetric]) simp
  then have al: "a AND MASK_LO = 0" by (simp only: unat_eq_0)
  have "n * (?B mod K) < K * K" using n(1) K(1) by (intro mult_strict_mono') simp_all
  then have mid: "unat (drop_bit 64 a * (b AND MASK_LO)) = n * (?B mod K)"
    by (subst unat_times) (simp_all only: ah unat_low K(2) K_def [symmetric])
  have bh: "unat (drop_bit 64 b) = ?B div K" by (simp only: unat_high K_def)
  have "n * (?B div K) < K * K" using small val by linarith
  then have hi: "unat (drop_bit 64 a * drop_bit 64 b) = n * (?B div K)"
    by (subst unat_times) (simp_all only: ah bh K(2))
  have "unat (drop_bit 64 a * drop_bit 64 b + drop_bit 64 (drop_bit 64 a * (b AND MASK_LO))) = n * ?B div K"
    by (subst unat_plus) (use small val in \<open>simp_all only: hi unat_high mid K(2) K_def [symmetric]\<close>)
  then show ?thesis by (simp add: HighPrecision_UmulByInvert_def Let_def al K_def)
qed

lemma HighPrecision_int_value: "sint (HighPrecision_int n) = sint n * 2 ^ 64"
proof -
  have b: "- (2 ^ 63) \<le> sint n" "sint n < 2 ^ 63" using sint_ge [of n] sint_lt [of n] by simp_all
  have "HighPrecision_int n = of_int (sint n * 2 ^ 64)"
    by (simp only: HighPrecision_int_def scast_eq push_bit_eq_mult of_int_mult of_int_power of_int_numeral)
  moreover have "sint (of_int (sint n * 2 ^ 64) :: u128) = sint n * 2 ^ 64"
    unfolding int_word_sint using b by (simp add: mod_pos_pos_trivial)
  ultimately show ?thesis by simp
qed

text \<open>\<open>R\<close> is the smallest number of \<open>2 ^ - 128\<close> that is at least \<open>1 / v\<close>.\<close>

definition is_inverse :: "nat \<Rightarrow> nat \<Rightarrow> bool" where
  "is_inverse v R \<longleftrightarrow> 2 ^ 128 \<le> v * R \<and> v * R < 2 ^ 128 + v"

lemma inverse_divides:
  assumes "is_inverse v R" "0 < v" "n * v \<le> 2 ^ 128"
  shows "n * R div 2 ^ 128 = n div v"
proof (rule div_nat_eqI)
  define C :: nat where "C = 2 ^ 128"
  let ?q = "n div v"
  have R: "C \<le> v * R" "v * R < C + v" using assms(1) by (simp_all add: is_inverse_def C_def)
  have "C * ?q \<le> v * R * ?q" using R(1) by (rule mult_le_mono1)
  also have "\<dots> = ?q * v * R" by (simp only: ac_simps)
  also have "\<dots> \<le> n * R" by (rule mult_le_mono1) simp
  finally show "2 ^ 128 * (n div v) \<le> n * R" by (simp only: C_def)
  show "n * R < 2 ^ 128 * Suc (n div v)"
  proof (cases "n = 0")
    case False
    have "n < v * Suc ?q" using assms(2) dividend_less_times_div by simp
    then have "(n + 1) * C \<le> v * Suc ?q * C" by (intro mult_le_mono1) simp
    moreover have "n * (v * R) < n * (C + v)" using R(2) False by simp
    moreover have "n * (C + v) \<le> (n + 1) * C" using assms(3) by (simp add: C_def add_mult_distrib2)
    ultimately have "v * (n * R) < v * (C * Suc ?q)" by (simp only: ac_simps)
    then show ?thesis by (simp add: C_def)
  qed (simp add: C_def)
qed

lemma trunc_div_sign: "0 \<le> b \<Longrightarrow> trunc_div (if neg then - int u else int u) b = (if neg then - (int u div b) else int u div b)"
  by (cases "u = 0"; cases "b = 0") (simp_all add: trunc_div_def sgn_if)

lemma MulByInvert_raw:
  assumes "nat \<bar>sint n\<bar> * unat R < 2 ^ 191"
  shows "sint (HighPrecision_GetInteger (HighPrecision_MulByInvert (HighPrecision_int n) R)) =
    (if sint n < 0 then - int (nat \<bar>sint n\<bar> * unat R div 2 ^ 128) else int (nat \<bar>sint n\<bar> * unat R div 2 ^ 128))"
proof -
  let ?x = "HighPrecision_int n" and ?n = "nat \<bar>sint n\<bar>"
  have n: "?n < 2 ^ 64" using sint_ge [of n] sint_lt [of n] by simp
  have "uint (hp_abs ?x) = int (?n * 2 ^ 64)"
    by (simp add: hp_abs_value HighPrecision_int_value abs_mult)
  then have abs: "unat (hp_abs ?x) = ?n * 2 ^ 64" by (simp only: unat_eq_nat_uint nat_int)
  define u where "u = ?n * unat R div 2 ^ 64"
  have "?n * unat R < 2 ^ 192" by (rule less_trans [OF assms]) simp
  then have um: "unat (HighPrecision_UmulByInvert (hp_abs ?x) R) = u"
    unfolding u_def using abs n by (intro UmulByInvert_value)
  then have ui: "uint (HighPrecision_UmulByInvert (hp_abs ?x) R) = int u" by (simp only: uint_nat)
  have "?n * unat R < 2 ^ 127 * 2 ^ 64" using assms by simp
  then have "u < 2 ^ 127" unfolding u_def by (rule less_mult_imp_div_less)
  then have "sint (HighPrecision_MulByInvert ?x R) = (if sint n < 0 then - int u else int u)"
    unfolding HighPrecision_MulByInvert_def HighPrecision_int_value
    by (subst hp_sign_value) (simp_all add: ui mult_less_0_iff)
  then have "sint (HighPrecision_GetInteger (HighPrecision_MulByInvert ?x R)) =
      (if sint n < 0 then - (int u div 2 ^ 64) else int u div 2 ^ 64)"
    by (simp only: GetInteger_value) (rule trunc_div_sign, simp)
  moreover have "?n * unat R div 2 ^ 128 = u div 2 ^ 64" unfolding u_def by (simp flip: div_mult2_eq)
  ultimately show ?thesis by (simp only: zdiv_int of_nat_power of_nat_numeral)
qed

lemma MulByInvert_int:
  assumes "is_inverse v (unat R)" "1 < v" "v < 2 ^ 63"
  shows "sint (HighPrecision_GetInteger (HighPrecision_MulByInvert (HighPrecision_int n) R)) = trunc_div (sint n) (int v)"
proof -
  let ?n = "nat \<bar>sint n\<bar>"
  have n: "?n \<le> 2 ^ 63" using sint_ge [of n] sint_lt [of n] by simp
  have "2 * unat R \<le> v * unat R" using assms(2) by (intro mult_le_mono1) simp
  also have "v * unat R < 2 ^ 128 + v" using assms(1) by (simp only: is_inverse_def)
  finally have "2 * unat R < 2 ^ 128 + 2 ^ 63" using assms(3) by linarith
  then have "2 ^ 63 * unat R < 2 ^ 191" by simp
  with mult_le_mono1 [OF n, of "unat R"] have "?n * unat R < 2 ^ 191" by (rule le_less_trans)
  note raw = MulByInvert_raw [OF this]
  have "?n * v \<le> 2 ^ 63 * 2 ^ 63" using n assms(3) by (intro mult_le_mono) simp_all
  then have "?n * unat R div 2 ^ 128 = ?n div v" using assms by (intro inverse_divides) simp_all
  note raw = raw [unfolded this]
  show ?thesis unfolding raw by (auto simp: trunc_div_def sgn_if zdiv_int)
qed

lemma Invert_value:
  assumes "1 < unat v" "unat v < 2 ^ 63"
  shows "\<exists>R. HighPrecision_Invert v = Some R \<and> is_inverse (unat v) (unat R)"
proof -
  let ?V = "unat v"
  have cast: "unat (ucast v :: u128) = ?V"
    using assms(2) by (simp add: unsigned_ucast_eq take_bit_nat_eq_self)
  have one: "unat (push_bit 64 1 :: u128) = 2 ^ 64" by (subst unat_shift) simp_all
  obtain q where q: "HighPrecision_Divu (push_bit 64 1) (ucast v) = Some q" "unat q = 2 ^ 64 * 2 ^ 64 div ?V"
  proof -
    have "ucast v \<noteq> (0 :: u128)" using cast assms(1) by (metis unat_eq_0 not_one_less_zero)
    moreover have "2 ^ 64 div ?V < (2 ^ 64 :: nat)" using assms(1) by (intro div_less_dividend) simp_all
    moreover have "2 ^ 64 mod ?V < (2 ^ 64 :: nat)"
    proof -
      have "2 ^ 64 mod ?V < ?V" using assms(1) by simp
      also have "?V < 2 ^ 64" using assms(2) by simp
      finally show ?thesis .
    qed
    ultimately show ?thesis
      using Divu_value [of "ucast v" "push_bit 64 1"] that unfolding cast one by blast
  qed
  define C :: nat where "C = 2 ^ 128"
  have qC: "unat q = C div ?V" unfolding q(2) C_def by (simp add: mult.assoc flip: power_add)
  have low: "?V * unat q \<le> C" unfolding qC by (metis times_div_less_eq_dividend)
  have "0 < ?V" using assms(1) by simp
  then have high: "C < ?V * unat q + ?V" unfolding qC
    using dividend_less_times_div [of ?V C] by simp
  have "uint v < 2 ^ 63" using assms(2) by (metis of_nat_less_iff of_nat_numeral of_nat_power uint_nat)
  then have sv: "sint v = int ?V" by (simp add: sint_u64)
  have "?V * unat q < 2 ^ 191" using low by (simp add: C_def)
  then have tmp: "sint (HighPrecision_GetInteger (HighPrecision_MulByInvert (HighPrecision_int v) q)) = int (?V * unat q div C)"
    using MulByInvert_raw [of v q] by (simp only: sv C_def) simp
  have V1: "v > 1" using assms(1) by (simp add: word_less_nat_alt)
  show ?thesis
  proof (cases "?V * unat q = C")
    case True
    then have "sint (HighPrecision_GetInteger (HighPrecision_MulByInvert (HighPrecision_int v) q)) = sint (1 :: u64)"
      using tmp by (simp add: C_def)
    then have "HighPrecision_GetInteger (HighPrecision_MulByInvert (HighPrecision_int v) q) = 1" by (rule signed_word_eqI)
    then show ?thesis
      using q(1) V1 True assms(1) by (simp add: HighPrecision_Invert_def is_inverse_def C_def ns_assert_def)
  next
    case False
    then have "?V * unat q div C = 0" using low by simp
    then have "HighPrecision_GetInteger (HighPrecision_MulByInvert (HighPrecision_int v) q) \<noteq> 1" using tmp by auto
    moreover have "unat (q + 1) = unat q + 1"
    proof -
      have "2 * unat q \<le> ?V * unat q" using assms(1) by (intro mult_le_mono1) simp
      also note low
      finally show ?thesis by (subst unat_plus) (simp_all add: C_def)
    qed
    ultimately show ?thesis
      using q(1) V1 low high False by (simp add: HighPrecision_Invert_def is_inverse_def C_def ns_assert_def)
  qed
qed

section \<open>Properties\<close>

lemma hp_abs_unat: "unat (hp_abs x) = nat \<bar>sint x\<bar>"
  using hp_abs_value [of x] by (metis nat_int uint_nat)

lemma hp_sign_unat: "unat r < 2 ^ 127 \<Longrightarrow> sint (hp_sign s r) = (if s then - int (unat r) else int (unat r))"
  using hp_sign_value [of r s] by (metis of_nat_less_iff of_nat_numeral of_nat_power uint_nat)

lemma carry_lost_int: "2 ^ 64 dvd A \<or> 2 ^ 64 dvd B \<Longrightarrow> \<not> carry_lost A B"
proof -
  assume "2 ^ 64 dvd A \<or> 2 ^ 64 dvd B"
  then have "A mod 2 ^ 64 * (B mod 2 ^ 64) = 0" by auto
  then have "mul_low A B < 2 ^ 64" unfolding mul_low_def by (simp only: div_0 add_0 mod_less_divisor) simp
  then show ?thesis by (simp add: carry_lost_def)
qed

lemma dvd_nat_abs: "2 ^ 64 dvd i \<longleftrightarrow> 2 ^ 64 dvd nat \<bar>i\<bar>"
proof -
  have "(2 :: int) ^ 64 = int (2 ^ 64)" by simp
  then show ?thesis by (metis int_dvd_int_iff dvd_abs_iff nat_0_le abs_ge_zero)
qed

text \<open>Dividing by multiplication with an inverse is exact. For every divisor the
  units of time need, \<^verbatim>\<open>Invert\<close> succeeds, and every 64-bit integer multiplied with its
  result has the integer part that the division has, rounded towards zero.\<close>

theorem hp_conversion:
  assumes "1 < unat v" "unat v < 2 ^ 63"
  shows "\<exists>R. HighPrecision_Invert v = Some R \<and>
    (\<forall>n. sint (HighPrecision_GetInteger (HighPrecision_MulByInvert (HighPrecision_int n) R)) =
      trunc_div (sint n) (int (unat v)))"
  using Invert_value [OF assms] MulByInvert_int [OF _ assms] by blast

theorem hp_conversion_witness:
  "\<exists>R. HighPrecision_Invert 1000 = Some R \<and>
    sint (HighPrecision_GetInteger (HighPrecision_MulByInvert (HighPrecision_int 2999999) R)) = 2999"
proof -
  obtain R where "HighPrecision_Invert 1000 = Some R"
    "\<forall>n. sint (HighPrecision_GetInteger (HighPrecision_MulByInvert (HighPrecision_int n) R)) =
      trunc_div (sint n) (int (unat (1000 :: u64)))"
    using hp_conversion [of 1000] by auto
  then show ?thesis by (intro exI [of _ R]) (simp add: trunc_div_pos)
qed

text \<open>C40: the division of two fixed-point numbers by an integer is exact, rounded towards
  zero to \<open>2 ^ - 64\<close>, as long as the quotient fits.\<close>

theorem hp_division:
  assumes "sint y \<noteq> 0" "2 ^ 64 dvd sint y" "\<bar>sint x\<bar> div \<bar>sint y\<bar> < 2 ^ 63"
  shows "\<exists>r. HighPrecision_Div x y = Some r \<and> sint r = trunc_div (sint x * 2 ^ 64) (sint y)"
proof -
  let ?X = "nat \<bar>sint x\<bar>" and ?Y = "nat \<bar>sint y\<bar>"
  have y: "hp_abs y \<noteq> 0" "0 < ?Y" using hp_abs_unat [of y] assms(1) by auto
  have "int (?X div ?Y) < 2 ^ 63" using assms(3) by (simp add: zdiv_int)
  then have q: "?X div ?Y < 2 ^ 63" by simp
  have d: "2 ^ 64 dvd ?Y" using assms(2) dvd_nat_abs by blast
  obtain r where r: "HighPrecision_Divu (hp_abs x) (hp_abs y) = Some r" "unat r = ?X * 2 ^ 64 div ?Y"
    using Divu_value [OF y(1), of "hp_abs x"] q d by (auto simp: hp_abs_unat)
  have "?X < 2 ^ 63 * ?Y" using q y(2) by (simp add: div_less_iff_less_mult)
  then have "?X * 2 ^ 64 < 2 ^ 127 * ?Y" by simp
  then have "unat r < 2 ^ 127" unfolding r(2) by (rule less_mult_imp_div_less)
  note val = hp_sign_unat [OF this]
  have "int (unat r) = \<bar>sint x\<bar> * 2 ^ 64 div \<bar>sint y\<bar>" unfolding r(2) by (simp add: zdiv_int)
  then have "sint (hp_sign ((sint x < 0) \<noteq> (sint y < 0)) r) = trunc_div (sint x * 2 ^ 64) (sint y)"
    unfolding val by (auto simp: trunc_div_def sgn_if abs_mult)
  then show ?thesis using r(1) by (simp add: HighPrecision_Div_def)
qed

text \<open>1.5 by 3 is 0.5; but 1.5 by 1.75 is 1.5, for the divisor is no integer.\<close>

theorem hp_division_witness:
  "(\<exists>r. HighPrecision_Div (HighPrecision_parts 1 0x8000000000000000) (HighPrecision_int 3) = Some r \<and> sint r = 2 ^ 63) \<and>
   HighPrecision_Div (HighPrecision_parts 1 0x8000000000000000) (HighPrecision_parts 1 0xC000000000000000)
     = Some (HighPrecision_parts 1 0x8000000000000000)"
proof
  have "sint (HighPrecision_int 3) = 3 * 2 ^ 64" by (simp add: HighPrecision_int_value)
  moreover have "HighPrecision_parts 1 0x8000000000000000 = 0x18000000000000000" by code_simp
  moreover have "sint (0x18000000000000000 :: u128) = 0x18000000000000000" by simp
  ultimately show "\<exists>r. HighPrecision_Div (HighPrecision_parts 1 0x8000000000000000) (HighPrecision_int 3) = Some r \<and> sint r = 2 ^ 63"
    using hp_division [of "HighPrecision_int 3" "HighPrecision_parts 1 0x8000000000000000"]
    by (simp add: trunc_div_pos)
qed code_simp

text \<open>C39: the product is exact, rounded towards zero, but for the carry from the lower
  half: it is joined to the upper half with \<^verbatim>\<open>|\<close>, so it is lost where the upper half is odd,
  and the product is then one too small. A product with an integer is always exact.\<close>

theorem hp_multiplication:
  assumes "\<bar>sint x * sint y\<bar> < 2 ^ 191"
  shows "\<exists>r. HighPrecision_Mul x y = Some r \<and>
    sint r = sgn (sint x) * sgn (sint y) * (\<bar>sint x * sint y\<bar> div 2 ^ 64 -
      (if carry_lost (nat \<bar>sint x\<bar>) (nat \<bar>sint y\<bar>) then 2 ^ 64 else 0)) \<and>
    (2 ^ 64 dvd sint x \<or> 2 ^ 64 dvd sint y \<longrightarrow> \<not> carry_lost (nat \<bar>sint x\<bar>) (nat \<bar>sint y\<bar>))"
proof -
  let ?X = "nat \<bar>sint x\<bar>" and ?Y = "nat \<bar>sint y\<bar>"
  let ?c = "if carry_lost ?X ?Y then 2 ^ 64 else 0 :: nat"
  have i: "int (?X * ?Y) = \<bar>sint x * sint y\<bar>" by (simp add: abs_mult)
  then have "int (?X * ?Y) < int (2 ^ 127 * 2 ^ 64)" using assms by simp
  then have lt: "?X * ?Y < 2 ^ 127 * 2 ^ 64" by (simp only: of_nat_less_iff)
  then have lt': "unat (hp_abs x) * unat (hp_abs y) < 2 ^ 192" by (simp add: hp_abs_unat)
  obtain r where r: "HighPrecision_Umul (hp_abs x) (hp_abs y) = Some r" "unat r + ?c = ?X * ?Y div 2 ^ 64"
    using Umul_value [OF lt'] by (auto simp: hp_abs_unat)
  have "?X * ?Y div 2 ^ 64 < 2 ^ 127" using lt by (rule less_mult_imp_div_less)
  then have "unat r < 2 ^ 127" using r(2) by linarith
  note val = hp_sign_unat [OF this]
  have "int (unat r) + int ?c = \<bar>sint x * sint y\<bar> div 2 ^ 64"
    using r(2) unfolding i [symmetric] by (metis of_nat_add of_nat_numeral of_nat_power zdiv_int)
  then have "int (unat r) = \<bar>sint x * sint y\<bar> div 2 ^ 64 - (if carry_lost ?X ?Y then 2 ^ 64 else 0)"
    by (auto split: if_splits)
  moreover have "unat r = 0" if "sint x = 0 \<or> sint y = 0" using r(2) that by auto
  ultimately have "sint (hp_sign ((sint x < 0) \<noteq> (sint y < 0)) r) = sgn (sint x) * sgn (sint y) *
      (\<bar>sint x * sint y\<bar> div 2 ^ 64 - (if carry_lost ?X ?Y then 2 ^ 64 else 0))"
    unfolding val using uint_ge_0 [of r] by (auto simp: sgn_if)
  then show ?thesis
    using r(1) carry_lost_int [of ?X ?Y] dvd_nat_abs by (simp add: HighPrecision_Mul_def)
qed

text \<open>2.5 times 0.9, rounded down to a fraction of 64 bits, is 1.25.\<close>

theorem hp_multiplication_witness:
  "\<exists>r. HighPrecision_Mul 0x28000000000000000 0xE666666666666666 = Some r \<and> sint r = 0x13FFFFFFFFFFFFFFF"
proof -
  have "carry_lost 0x28000000000000000 0xE666666666666666"
    by (simp add: carry_lost_def mul_low_def mul_high_def)
  then show ?thesis
    using hp_multiplication [of "0x28000000000000000" "0xE666666666666666"] by simp
qed

end
