(* ===== verification/Sim_Time.thy ===== *)
theory Sim_Time
  imports High_Precision
begin

text \<open>
  Simulated time: class \<^verbatim>\<open>Time\<close> and \<^verbatim>\<open>Scalar\<close> of \<^verbatim>\<open>simulator/nstime.h\<close>, with the table of
  conversion factors of \<^verbatim>\<open>Time::SetResolution\<close> in \<^verbatim>\<open>simulator/time.cc\<close>. A time is a
  fixed-point number of steps of the global resolution, an argument here; it is nanoseconds
  unless a program sets another. Where the source keeps a double, the model keeps the
  rational number that the double is.
\<close>

section \<open>Doubles\<close>

text \<open>The literal \<^verbatim>\<open>18446744073709551615.0\<close> is the double \<open>2 ^ 64\<close>.\<close>

definition HighPrecision_double :: "rat \<Rightarrow> u128" where
  "HighPrecision_double value = (let
     is_negative = value < 0;
     value = \<bar>value\<bar>;
     hi = \<lfloor>value\<rfloor>;
     lo = round64 ((value - rat_of_int hi) * 2 ^ 64);
     m_value = push_bit 64 (word_of_int hi);
     m_value = m_value + word_of_int (trunc_int lo)
   in hp_sign is_negative m_value)"

definition HighPrecision_GetDouble :: "u128 \<Rightarrow> rat" where
  "HighPrecision_GetDouble m_value = (let
     is_negative = sint m_value < 0;
     value = hp_abs m_value;
     hi = uint (drop_bit 64 value) mod 2 ^ 64;
     lo = uint value mod 2 ^ 64;
     flo = round64 (rat_of_int lo) / 2 ^ 64;
     retval = round64 (round64 (rat_of_int hi) + flo)
   in if is_negative then - retval else retval)"

section \<open>Units\<close>

datatype time_unit = Unit_S | Unit_MS | Unit_US | Unit_NS | Unit_PS | Unit_FS

fun unit_power :: "time_unit \<Rightarrow> int" where
  "unit_power Unit_S = 15"
| "unit_power Unit_MS = 12"
| "unit_power Unit_US = 9"
| "unit_power Unit_NS = 6"
| "unit_power Unit_PS = 3"
| "unit_power Unit_FS = 0"

record time_information =
  ti_toMul :: bool
  ti_fromMul :: bool
  ti_factor :: u64
  ti_timeTo :: u128
  ti_timeFrom :: u128

text \<open>The entry for the unit \<open>i\<close> in the table of the resolution \<open>res\<close>.\<close>

definition Time_PeekInformation :: "time_unit \<Rightarrow> time_unit \<Rightarrow> time_information option" where
  "Time_PeekInformation res i = do {
     let shift = unit_power i - unit_power res;
     let factor = word_of_int (10 ^ nat \<bar>shift\<bar>);
     if shift = 0 then
       Some \<lparr>ti_toMul = True, ti_fromMul = True, ti_factor = factor,
         ti_timeTo = HighPrecision_int 1, ti_timeFrom = HighPrecision_int 1\<rparr>
     else if shift > 0 then do {
       inv \<leftarrow> HighPrecision_Invert factor;
       Some \<lparr>ti_toMul = False, ti_fromMul = True, ti_factor = factor,
         ti_timeTo = inv, ti_timeFrom = HighPrecision_int factor\<rparr>
     }
     else do {
       inv \<leftarrow> HighPrecision_Invert factor;
       Some \<lparr>ti_toMul = True, ti_fromMul = False, ti_factor = factor,
         ti_timeTo = HighPrecision_int factor, ti_timeFrom = inv\<rparr>
     }
   }"

definition Time_From :: "time_unit \<Rightarrow> u128 \<Rightarrow> time_unit \<Rightarrow> u128 option" where
  "Time_From res from timeUnit = do {
     info \<leftarrow> Time_PeekInformation res timeUnit;
     if ti_fromMul info then HighPrecision_Mul from (ti_timeFrom info)
     else Some (HighPrecision_MulByInvert from (ti_timeFrom info))
   }"

definition Time_To :: "time_unit \<Rightarrow> u128 \<Rightarrow> time_unit \<Rightarrow> u128 option" where
  "Time_To res time timeUnit = do {
     info \<leftarrow> Time_PeekInformation res timeUnit;
     if ti_toMul info then HighPrecision_Mul time (ti_timeTo info)
     else Some (HighPrecision_MulByInvert time (ti_timeTo info))
   }"

definition Time_FromInteger :: "time_unit \<Rightarrow> u64 \<Rightarrow> time_unit \<Rightarrow> u128 option" where
  "Time_FromInteger res value timeUnit = do {
     info \<leftarrow> Time_PeekInformation res timeUnit;
     if ti_fromMul info then Some (HighPrecision_int (value * ti_factor info))
     else Time_From res (HighPrecision_int value) timeUnit
   }"

definition Time_FromDouble :: "time_unit \<Rightarrow> rat \<Rightarrow> time_unit \<Rightarrow> u128 option" where
  "Time_FromDouble res value timeUnit = Time_From res (HighPrecision_double value) timeUnit"

definition Time_ToInteger :: "time_unit \<Rightarrow> u128 \<Rightarrow> time_unit \<Rightarrow> u64 option" where
  "Time_ToInteger res time timeUnit = do {
     info \<leftarrow> Time_PeekInformation res timeUnit;
     let v = HighPrecision_GetInteger time;
     Some (if ti_toMul info then v * ti_factor info else v div ti_factor info)
   }"

definition Time_ToDouble :: "time_unit \<Rightarrow> u128 \<Rightarrow> time_unit \<Rightarrow> rat option" where
  "Time_ToDouble res time timeUnit = map_option HighPrecision_GetDouble (Time_To res time timeUnit)"

definition Time_GetTimeStep :: "u128 \<Rightarrow> u64" where
  "Time_GetTimeStep = HighPrecision_GetInteger"

definition TimeStep :: "u64 \<Rightarrow> u128" where
  "TimeStep ts = HighPrecision_int ts"

definition PicoSeconds :: "time_unit \<Rightarrow> u64 \<Rightarrow> u128 option" where
  "PicoSeconds res ps = Time_FromInteger res ps Unit_PS"

definition Time_GetPicoSeconds :: "time_unit \<Rightarrow> u128 \<Rightarrow> u64 option" where
  "Time_GetPicoSeconds res time = Time_ToInteger res time Unit_PS"

definition Time_GetSeconds :: "time_unit \<Rightarrow> u128 \<Rightarrow> rat option" where
  "Time_GetSeconds res time = Time_ToDouble res time Unit_S"

definition Time_IsZero :: "u128 \<Rightarrow> bool" where
  "Time_IsZero t = (HighPrecision_Compare t 0 = 0)"

definition Time_IsPositive :: "u128 \<Rightarrow> bool" where
  "Time_IsPositive t = (HighPrecision_Compare t 0 \<ge> 0)"

text \<open>The operators of times. \<^verbatim>\<open>Scalar\<close> is a double that converts to a time.\<close>

definition time_add :: "u128 \<Rightarrow> u128 \<Rightarrow> u128" where "time_add lhs rhs = HighPrecision_Add lhs rhs"
definition time_sub :: "u128 \<Rightarrow> u128 \<Rightarrow> u128" where "time_sub lhs rhs = HighPrecision_Sub lhs rhs"
definition time_mul :: "u128 \<Rightarrow> u128 \<Rightarrow> u128 option" where "time_mul lhs rhs = HighPrecision_Mul lhs rhs"

definition time_div :: "u128 \<Rightarrow> u128 \<Rightarrow> u128 option" where
  "time_div lhs rhs = do {
     _ \<leftarrow> ns_assert (HighPrecision_GetDouble rhs \<noteq> 0);
     HighPrecision_Div lhs rhs
   }"

definition time_less_eq :: "u128 \<Rightarrow> u128 \<Rightarrow> bool" where
  "time_less_eq lhs rhs = (HighPrecision_Compare lhs rhs \<le> 0)"

definition Scalar :: "rat \<Rightarrow> u128" where
  "Scalar v = HighPrecision_double v"

section \<open>Conversion between units\<close>

lemma GetInteger_int: "HighPrecision_GetInteger (HighPrecision_int n) = n"
proof -
  have "sint (HighPrecision_GetInteger (HighPrecision_int n)) = sint n"
    by (simp add: GetInteger_value HighPrecision_int_value trunc_div_def sgn_if abs_mult)
  then show ?thesis by (rule signed_word_eqI)
qed

lemma sint_nonneg_unat: "sint (v :: u64) = int k \<Longrightarrow> unat v = k"
proof -
  assume v: "sint v = int k"
  have "uint v = int k"
  proof (cases "uint v < 2 ^ 63")
    case False
    then have "sint v < 0" using uint_bounded [of v] by (simp add: sint_u64)
    with v show ?thesis by simp
  qed (use v in \<open>simp add: sint_u64\<close>)
  then show ?thesis by (metis nat_int nat_uint_eq)
qed

lemma sint_small_u64: "unat (n :: u64) < 2 ^ 63 \<Longrightarrow> sint n = int (unat n)"
proof -
  assume "unat n < 2 ^ 63"
  then have "uint n < 2 ^ 63" by (metis of_nat_less_iff of_nat_numeral of_nat_power uint_nat)
  then show ?thesis by (simp add: sint_u64)
qed

text \<open>The factor between two units.\<close>

definition unit_factor :: "time_unit \<Rightarrow> time_unit \<Rightarrow> nat" where
  "unit_factor res i = 10 ^ nat \<bar>unit_power i - unit_power res\<bar>"

lemma unit_factor_le: "unit_factor res i \<le> 10 ^ 15"
  by (cases res; cases i) (simp_all add: unit_factor_def)

lemma unat_factor: "unat (word_of_int (10 ^ nat \<bar>unit_power i - unit_power res\<bar>) :: u64) = unit_factor res i"
  by (cases res; cases i) (simp_all add: unit_factor_def)

lemma PeekInformation_coarse:
  assumes "unit_power res \<le> unit_power i"
  obtains info where "Time_PeekInformation res i = Some info" "ti_fromMul info"
    "unat (ti_factor info) = unit_factor res i" "ti_toMul info \<longleftrightarrow> unit_factor res i = 1"
proof (cases "unit_power i = unit_power res")
  case True
  with that show ?thesis by (simp add: Time_PeekInformation_def unit_factor_def)
next
  case False
  then have "1 < unit_factor res i" using assms by (cases res; cases i) (simp_all add: unit_factor_def)
  moreover have "unit_factor res i < 2 ^ 63" using unit_factor_le [of res i] by simp
  ultimately obtain R where "HighPrecision_Invert (word_of_int (10 ^ nat \<bar>unit_power i - unit_power res\<bar>)) = Some R"
    using Invert_value unat_factor by metis
  with False assms that \<open>1 < unit_factor res i\<close> show ?thesis
    using unat_factor [of i res] by (simp add: Time_PeekInformation_def Let_def)
qed

lemma PeekInformation_fine:
  assumes "unit_power i < unit_power res"
  obtains info where "Time_PeekInformation res i = Some info" "\<not> ti_fromMul info" "ti_toMul info"
    "unat (ti_factor info) = unit_factor res i" "is_inverse (unit_factor res i) (unat (ti_timeFrom info))"
proof -
  have "1 < unit_factor res i" using assms by (cases res; cases i) (simp_all add: unit_factor_def)
  moreover have "unit_factor res i < 2 ^ 63" using unit_factor_le [of res i] by simp
  ultimately obtain R where "HighPrecision_Invert (word_of_int (10 ^ nat \<bar>unit_power i - unit_power res\<bar>)) = Some R"
    "is_inverse (unit_factor res i) (unat R)"
    using Invert_value unat_factor by metis
  with assms that show ?thesis
    using unat_factor [of i res] by (simp add: Time_PeekInformation_def Let_def)
qed

text \<open>C38: a whole number of a unit that is no finer than the resolution is a time
  from which the same number is read back. A finer unit loses what is below a step: reading
  it back gives the greatest multiple of the step that is no greater. So a clock period of
  less than a nanosecond is read as zero picoseconds under the default resolution.\<close>

theorem time_roundtrip:
  assumes "unat n < 2 ^ 63" "unit_power res \<le> unit_power i \<longrightarrow> unat n * unit_factor res i < 2 ^ 63"
  shows "\<exists>t v. Time_FromInteger res n i = Some t \<and> Time_ToInteger res t i = Some v \<and>
    unat v = (if unit_power res \<le> unit_power i then unat n
      else unat n div unit_factor res i * unit_factor res i)"
proof (cases "unit_power res \<le> unit_power i")
  case True
  obtain info where info: "Time_PeekInformation res i = Some info" "ti_fromMul info"
    "unat (ti_factor info) = unit_factor res i" "ti_toMul info \<longleftrightarrow> unit_factor res i = 1"
    by (rule PeekInformation_coarse [OF True])
  have "unat (n * ti_factor info) = unat n * unit_factor res i"
    using assms(2) True info(3) by (simp add: unat_word_ariths)
  moreover have "0 < unit_factor res i" by (simp add: unit_factor_def)
  ultimately have "unat (n * ti_factor info div ti_factor info) = unat n"
    by (simp add: unat_div_distrib info(3))
  moreover have "ti_factor info = 1" if "unit_factor res i = 1" using that info(3) by (metis unat_1 word_unat_eq_iff)
  ultimately show ?thesis
    using True info by (auto simp: Time_FromInteger_def Time_ToInteger_def GetInteger_int Let_def)
next
  case False
  then have lt: "unit_power i < unit_power res" by simp
  obtain info where info: "Time_PeekInformation res i = Some info" "\<not> ti_fromMul info" "ti_toMul info"
    "unat (ti_factor info) = unit_factor res i" "is_inverse (unit_factor res i) (unat (ti_timeFrom info))"
    by (rule PeekInformation_fine [OF lt])
  let ?f = "unit_factor res i"
  let ?g = "HighPrecision_GetInteger (HighPrecision_MulByInvert (HighPrecision_int n) (ti_timeFrom info))"
  have "1 < ?f" using lt by (cases res; cases i) (simp_all add: unit_factor_def)
  moreover have "?f < 2 ^ 63" using unit_factor_le [of res i] by simp
  ultimately have "sint ?g = trunc_div (sint n) (int ?f)" by (rule MulByInvert_int [OF info(5)])
  also have "\<dots> = int (unat n div ?f)"
    using sint_small_u64 [OF assms(1)] \<open>1 < ?f\<close> by (simp only: zdiv_int) (simp add: trunc_div_pos)
  finally have g: "unat ?g = unat n div ?f" by (rule sint_nonneg_unat)
  have "unat n div ?f * ?f \<le> unat n" by simp
  then have "unat n div ?f * ?f < 2 ^ 64" using assms(1) by (rule le_less_trans [OF _ less_trans]) simp
  then have "unat (?g * ti_factor info) = unat n div ?f * ?f"
    by (simp add: unat_word_ariths g info(4))
  with False info show ?thesis
    by (auto simp: Time_FromInteger_def Time_ToInteger_def Time_From_def)
qed

theorem time_roundtrip_witness:
  "\<exists>t v. Time_FromInteger Unit_NS 2500 Unit_PS = Some t \<and> Time_ToInteger Unit_NS t Unit_PS = Some v \<and> unat v = 2000"
  using time_roundtrip [of 2500 Unit_NS Unit_PS] by (simp add: unit_factor_def)

end
