(* ===== verification/Noc_World.thy ===== *)
theory Noc_World
  imports Drop_Tail_Queue Noc_Switching Sim_Time
begin

text \<open>
  The objects of a running network and the store that holds them. The code shares packets,
  net devices, channels, nodes and routers by reference (\<^verbatim>\<open>Ptr\<close>), and routing changes a packet
  in place while a queue may hold the same packet, so the references are kept: an object is
  a number, and the world maps numbers to the objects' contents. A null reference is \<open>None\<close>.
  Sources: \<^verbatim>\<open>noc-net-device.h\<close>, \<^verbatim>\<open>noc-channel.h\<close>, \<^verbatim>\<open>noc-node.h\<close>, \<^verbatim>\<open>noc-router.h\<close> and the
  router classes, \<^verbatim>\<open>noc-routing-protocol.h\<close>, \<^verbatim>\<open>noc-registry.cc\<close>.
\<close>

type_synonym packet_ref = nat
type_synonym device_ref = nat
type_synonym channel_ref = nat
type_synonym node_ref = nat
type_synonym router_ref = nat
type_synonym mac48 = "48 word"

section \<open>Directions\<close>

text \<open>\<^verbatim>\<open>enum RoutingDirection\<close>; a device holds its direction as an \<^verbatim>\<open>int\<close>.\<close>

definition dir_NONE :: int where "dir_NONE = 0"
definition dir_FORWARD :: int where "dir_FORWARD = 1"
definition dir_BACK :: int where "dir_BACK = 2"

lemmas dir_defs = dir_NONE_def dir_FORWARD_def dir_BACK_def

definition NocRoutingProtocol_GetOpositeRoutingDirection :: "int \<Rightarrow> int" where
  "NocRoutingProtocol_GetOpositeRoutingDirection direction =
     (if direction = dir_FORWARD then dir_BACK
      else if direction = dir_BACK then dir_FORWARD else dir_NONE)"

section \<open>Net devices and channels\<close>

record src_dest =
  sd_src :: mac48
  sd_dest :: mac48
  sd_via :: "device_ref option"

record net_device =
  nd_deviceId :: u32
  nd_channel :: "channel_ref option"
  nd_inQueue :: "packet_ref drop_tail_queue option"
  nd_pktSrcDestMap :: "packet_ref \<Rightarrow> src_dest option"
  nd_outQueue :: "packet_ref drop_tail_queue option"
  nd_node :: "node_ref option"
  nd_mtu :: u16
  nd_ifIndex :: u32
  nd_address :: mac48
  nd_routingDirection :: int
  nd_routingDimension :: int
  nd_viaNetDevice :: "device_ref option"
  nd_lastScheduledEvent :: u128

text \<open>A constructed device; its address is set later.\<close>

definition NocNetDevice_new :: net_device where
  "NocNetDevice_new = \<lparr>nd_deviceId = 0, nd_channel = None, nd_inQueue = None,
     nd_pktSrcDestMap = Map.empty, nd_outQueue = None, nd_node = None, nd_mtu = 0xffff,
     nd_ifIndex = 0, nd_address = 0, nd_routingDirection = 0, nd_routingDimension = - 1,
     nd_viaNetDevice = None, nd_lastScheduledEvent = 0\<rparr>"

datatype wire_state = IDLE | TRANSMITTING | PROPAGATING

record noc_channel =
  c_fullDuplex :: bool
  c_devices :: "device_ref list"
  c_state :: "wire_state list"
  c_currentPkt :: "packet_ref option list"
  c_packetOriginalDevice :: "(u32 \<Rightarrow> device_ref option) list"
  c_currentDestDevice :: "device_ref option list"
  c_bps :: u64
  c_delay :: u128
  c_powerCounter :: u64
  c_lastClock :: u64
  c_flitsFromLastClock :: "packet_ref list"
  c_trasmittedFlits :: u64

section \<open>Routers\<close>

record four_way =
  fw_internalInputDevice :: device_ref
  fw_internalOutputDevice :: device_ref

record four_way_load =
  fwl_northLoad :: int
  fwl_eastLoad :: int
  fwl_southLoad :: int
  fwl_westLoad :: int

record irvine =
  iv_internalLeftInputDevice :: device_ref
  iv_internalRightInputDevice :: device_ref
  iv_internalOutputDevice :: device_ref
  iv_leftRouterInputDevices :: "device_ref list"
  iv_rightRouterInputDevices :: "device_ref list"
  iv_leftRouterOutputDevices :: "device_ref list"
  iv_rightRouterOutputDevices :: "device_ref list"
  iv_headPacketsInjectionNetDevice :: "u32 \<Rightarrow> device_ref option"
  iv_north1DeviceAdded :: bool
  iv_north2DeviceAdded :: bool
  iv_eastDeviceAdded :: bool
  iv_south1DeviceAdded :: bool
  iv_south2DeviceAdded :: bool
  iv_westDeviceAdded :: bool

record irvine_load =
  ivl_northLeftLoad :: int
  ivl_northRightLoad :: int
  ivl_eastLoad :: int
  ivl_southLeftLoad :: int
  ivl_southRightLoad :: int
  ivl_westLoad :: int

datatype router_class =
    FourWayRouter four_way
  | FourWayLoadRouter four_way four_way_load
  | IrvineRouter irvine
  | IrvineLoadRouter irvine irvine_load

text \<open>The load components: \<^verbatim>\<open>m_load\<close>, and \<^verbatim>\<open>m_dataLength\<close> of the SLB one.\<close>

datatype load_component = SoLoadRouterComponent int | SlbLoadRouterComponent int int

section \<open>Routing and switching objects\<close>

record routing_base =
  rp_packetSourceNetDevices :: "u32 \<Rightarrow> device_ref option"
  rp_packetDestinationNetDevices :: "u32 \<Rightarrow> device_ref option"
  rp_sourceNetDevice :: "device_ref option"
  rp_destinationNetDevice :: "device_ref option"

record so_params =
  so_progressiveWeight :: int
  so_remainingWeight :: int
  so_loadWeight :: int
  so_dataLength :: int

record slb_params =
  slb_progressiveWeight :: int
  slb_remainingWeight :: int
  slb_loadWeight :: int
  slb_loadThreshold :: int

datatype routing_class =
    XyRouting bool
  | XyzRouting bool bool bool bool
  | DorRouting "u32 list"
  | SoRouting so_params
  | SlbRouting slb_params

datatype switching_protocol =
    SafSwitching saf_switching
  | VctSwitching vct_switching
  | WormholeSwitching

record noc_router =
  r_class :: router_class
  r_nocNode :: "node_ref option"
  r_routingProtocol :: "(routing_class \<times> routing_base) option"
  r_switchingProtocol :: "switching_protocol option"
  r_devices :: "device_ref list"
  r_loadComponent :: "load_component option"
  r_powerCounter :: u64
  r_lastClock :: u64
  r_flitsFromLastClock :: "packet_ref list"
  r_arrivedFlits :: u64

section \<open>The store\<close>

record noc_node =
  n_id :: u32
  n_router :: "router_ref option"
  n_devices :: "device_ref list"

text \<open>The attributes of \<^verbatim>\<open>NocRegistry\<close> that the network reads. No program of the network changes the
  resolution of time, so it is the nanosecond.\<close>

abbreviation resolution :: time_unit where
  "resolution \<equiv> Unit_NS"

record noc_registry =
  reg_NoCDimensions :: u32
  reg_GlobalClock :: u128
  reg_DataPacketSpeedup :: int

text \<open>
  The events that the network schedules, with the arguments bound to them, and what its trace
  sources report. The events stand in the order in which they were scheduled, with their time;
  \<open>w_now\<close> is the time step of the simulator. \<open>w_topology\<close> is \<^verbatim>\<open>m_devices\<close> of the topology, and
  \<open>w_nextPacket\<close> the reference that the next copy of a packet gets.
\<close>

datatype net_event =
    TransmitEnd channel_ref device_ref mac48 device_ref mac48
  | ProcessBufferedPackets device_ref noc_header

datatype trace_event = Sent device_ref packet | Received device_ref packet

record world =
  w_registry :: noc_registry
  w_now :: u64
  w_packets :: "packet_ref \<Rightarrow> packet"
  w_devices :: "device_ref \<Rightarrow> net_device"
  w_channels :: "channel_ref \<Rightarrow> noc_channel"
  w_routers :: "router_ref \<Rightarrow> noc_router"
  w_nodes :: "node_ref \<Rightarrow> noc_node"
  w_topology :: "device_ref list"
  w_nextPacket :: packet_ref
  w_events :: "(u64 \<times> net_event) list"
  w_trace :: "trace_event list"

abbreviation w_dims :: "world \<Rightarrow> u32" where
  "w_dims w \<equiv> reg_NoCDimensions (w_registry w)"

definition put_packet :: "packet_ref \<Rightarrow> packet \<Rightarrow> world \<Rightarrow> world" where
  "put_packet p x w = w\<lparr>w_packets := (w_packets w)(p := x)\<rparr>"

definition put_device :: "device_ref \<Rightarrow> net_device \<Rightarrow> world \<Rightarrow> world" where
  "put_device d x w = w\<lparr>w_devices := (w_devices w)(d := x)\<rparr>"

definition put_channel :: "channel_ref \<Rightarrow> noc_channel \<Rightarrow> world \<Rightarrow> world" where
  "put_channel c x w = w\<lparr>w_channels := (w_channels w)(c := x)\<rparr>"

definition put_router :: "router_ref \<Rightarrow> noc_router \<Rightarrow> world \<Rightarrow> world" where
  "put_router r x w = w\<lparr>w_routers := (w_routers w)(r := x)\<rparr>"

definition put_node :: "node_ref \<Rightarrow> noc_node \<Rightarrow> world \<Rightarrow> world" where
  "put_node n x w = w\<lparr>w_nodes := (w_nodes w)(n := x)\<rparr>"

named_theorems world_simps \<open>reading the store after an update\<close>

lemma put_packet_simps [simp, world_simps]:
  "w_packets (put_packet p x w) = (w_packets w)(p := x)"
  "w_registry (put_packet p x w) = w_registry w" "w_now (put_packet p x w) = w_now w"
  "w_devices (put_packet p x w) = w_devices w" "w_channels (put_packet p x w) = w_channels w"
  "w_routers (put_packet p x w) = w_routers w" "w_nodes (put_packet p x w) = w_nodes w"
  "w_topology (put_packet p x w) = w_topology w" "w_nextPacket (put_packet p x w) = w_nextPacket w"
  "w_events (put_packet p x w) = w_events w" "w_trace (put_packet p x w) = w_trace w"
  by (simp_all add: put_packet_def)

lemma put_device_simps [simp, world_simps]:
  "w_devices (put_device d y w) = (w_devices w)(d := y)"
  "w_registry (put_device d y w) = w_registry w" "w_now (put_device d y w) = w_now w"
  "w_packets (put_device d y w) = w_packets w" "w_channels (put_device d y w) = w_channels w"
  "w_routers (put_device d y w) = w_routers w" "w_nodes (put_device d y w) = w_nodes w"
  "w_topology (put_device d y w) = w_topology w" "w_nextPacket (put_device d y w) = w_nextPacket w"
  "w_events (put_device d y w) = w_events w" "w_trace (put_device d y w) = w_trace w"
  by (simp_all add: put_device_def)

lemma put_channel_simps [simp, world_simps]:
  "w_channels (put_channel c z w) = (w_channels w)(c := z)"
  "w_registry (put_channel c z w) = w_registry w" "w_now (put_channel c z w) = w_now w"
  "w_packets (put_channel c z w) = w_packets w" "w_devices (put_channel c z w) = w_devices w"
  "w_routers (put_channel c z w) = w_routers w" "w_nodes (put_channel c z w) = w_nodes w"
  "w_topology (put_channel c z w) = w_topology w" "w_nextPacket (put_channel c z w) = w_nextPacket w"
  "w_events (put_channel c z w) = w_events w" "w_trace (put_channel c z w) = w_trace w"
  by (simp_all add: put_channel_def)

lemma put_router_simps [simp, world_simps]:
  "w_routers (put_router r v w) = (w_routers w)(r := v)"
  "w_registry (put_router r v w) = w_registry w" "w_now (put_router r v w) = w_now w"
  "w_packets (put_router r v w) = w_packets w" "w_devices (put_router r v w) = w_devices w"
  "w_channels (put_router r v w) = w_channels w" "w_nodes (put_router r v w) = w_nodes w"
  "w_topology (put_router r v w) = w_topology w" "w_nextPacket (put_router r v w) = w_nextPacket w"
  "w_events (put_router r v w) = w_events w" "w_trace (put_router r v w) = w_trace w"
  by (simp_all add: put_router_def)

lemma put_node_simps [simp, world_simps]:
  "w_nodes (put_node n u w) = (w_nodes w)(n := u)"
  "w_registry (put_node n u w) = w_registry w" "w_now (put_node n u w) = w_now w"
  "w_packets (put_node n u w) = w_packets w" "w_devices (put_node n u w) = w_devices w"
  "w_channels (put_node n u w) = w_channels w" "w_routers (put_node n u w) = w_routers w"
  "w_topology (put_node n u w) = w_topology w" "w_nextPacket (put_node n u w) = w_nextPacket w"
  "w_events (put_node n u w) = w_events w" "w_trace (put_node n u w) = w_trace w"
  by (simp_all add: put_node_def)

text \<open>\<^verbatim>\<open>device->GetNode ()->GetObject<NocNode> ()->GetRouter ()\<close> and \<^verbatim>\<open>node->GetRouter ()\<close>, where
  a null reference on the way stops the program.\<close>

definition node_router :: "world \<Rightarrow> node_ref \<Rightarrow> router_ref option" where
  "node_router w n = n_router (w_nodes w n)"

definition device_router :: "world \<Rightarrow> device_ref \<Rightarrow> router_ref option" where
  "device_router w d = Option.bind (nd_node (w_devices w d)) (node_router w)"

section \<open>Queue sizes of a device\<close>

definition NocNetDevice_GetInQueueNPacktes :: "net_device \<Rightarrow> u32" where
  "NocNetDevice_GetInQueueNPacktes d = (case nd_inQueue d of None \<Rightarrow> 0 | Some q \<Rightarrow> Queue_GetNPackets q)"

definition NocNetDevice_GetInQueueSize :: "net_device \<Rightarrow> u64" where
  "NocNetDevice_GetInQueueSize d = (case nd_inQueue d of None \<Rightarrow> 0 | Some q \<Rightarrow> ucast (q_maxPackets q))"

definition NocNetDevice_GetOutQueueNPacktes :: "net_device \<Rightarrow> u32" where
  "NocNetDevice_GetOutQueueNPacktes d = (case nd_outQueue d of None \<Rightarrow> 0 | Some q \<Rightarrow> Queue_GetNPackets q)"

definition NocNetDevice_GetOutQueueSize :: "net_device \<Rightarrow> u64" where
  "NocNetDevice_GetOutQueueSize d = (case nd_outQueue d of None \<Rightarrow> 0 | Some q \<Rightarrow> ucast (q_maxPackets q))"

definition NocNetDevice_SetRoutingDirection :: "int \<Rightarrow> u32 \<Rightarrow> net_device \<Rightarrow> net_device" where
  "NocNetDevice_SetRoutingDirection routingDirection dimension d =
     d\<lparr>nd_routingDirection := routingDirection, nd_routingDimension := sint dimension\<rparr>"

text \<open>The test of the device searches, \<^verbatim>\<open>GetRoutingDirection () == ... && GetRoutingDimension () == ...\<close>.\<close>

definition device_matches :: "world \<Rightarrow> int \<Rightarrow> int \<Rightarrow> device_ref \<Rightarrow> bool" where
  "device_matches w direction dimension d \<longleftrightarrow>
     nd_routingDirection (w_devices w d) = direction \<and> nd_routingDimension (w_devices w d) = dimension"

lemma node_router_put [simp]:
  "node_router (put_packet p x w) = node_router w" "node_router (put_device d y w) = node_router w"
  "node_router (put_channel c z w) = node_router w" "node_router (put_router r v w) = node_router w"
  by (simp_all add: node_router_def fun_eq_iff)

lemma lookups_put [simp]:
  "device_router (put_packet p x w) = device_router w"
  "device_router (put_channel c z w) = device_router w"
  "device_router (put_router r v w) = device_router w"
  "device_matches (put_packet p x w) = device_matches w"
  "device_matches (put_channel c z w) = device_matches w"
  "device_matches (put_router r v w) = device_matches w"
  by (simp_all add: device_router_def device_matches_def fun_eq_iff)

section \<open>The state of a wire\<close>

text \<open>
  \<^verbatim>\<open>GetState\<close> and \<^verbatim>\<open>IsBusy\<close> of \<^verbatim>\<open>NocChannel\<close>: the index of the device among the two of the
  channel selects its wire, and a device that is not on the channel fails the assertion.
\<close>

fun index_of :: "'a \<Rightarrow> 'a list \<Rightarrow> nat option" where
  "index_of x [] = None"
| "index_of x (y # ys) = (if x = y then Some 0 else map_option Suc (index_of x ys))"

definition channel_link :: "noc_channel \<Rightarrow> nat \<Rightarrow> nat" where
  "channel_link c srcId = (if \<not> c_fullDuplex c then 0 else srcId)"

definition NocChannel_GetState :: "noc_channel \<Rightarrow> device_ref \<Rightarrow> wire_state option" where
  "NocChannel_GetState c device = do {
     srcId \<leftarrow> index_of device (c_devices c);
     vec_at (c_state c) (channel_link c srcId)
   }"

definition NocChannel_IsBusy :: "noc_channel \<Rightarrow> device_ref \<Rightarrow> bool option" where
  "NocChannel_IsBusy c device = do {
     srcId \<leftarrow> index_of device (c_devices c);
     s \<leftarrow> vec_at (c_state c) (channel_link c srcId);
     Some (s \<noteq> IDLE)
   }"

section \<open>A world to evaluate examples in\<close>

text \<open>Every reference points to a fresh object; an example overwrites the ones it uses.\<close>

definition blank_world :: "u32 \<Rightarrow> world" where
  "blank_world dims = \<lparr>
     w_registry = \<lparr>reg_NoCDimensions = dims, reg_GlobalClock = TimeStep 1, reg_DataPacketSpeedup = 1\<rparr>,
     w_now = 0,
     w_packets = (\<lambda>_. \<lparr>pk_uid = 0, pk_bytes = [], pk_zeros = 0, pk_tag = None\<rparr>),
     w_devices = (\<lambda>_. NocNetDevice_new),
     w_channels = (\<lambda>_. \<lparr>c_fullDuplex = True, c_devices = [], c_state = [IDLE, IDLE],
        c_currentPkt = [None, None], c_packetOriginalDevice = [Map.empty, Map.empty],
        c_currentDestDevice = [None, None], c_bps = 0xffffffff, c_delay = 0, c_powerCounter = 0, c_lastClock = 0,
        c_flitsFromLastClock = [], c_trasmittedFlits = 0\<rparr>),
     w_routers = (\<lambda>_. \<lparr>r_class = FourWayRouter \<lparr>fw_internalInputDevice = 0, fw_internalOutputDevice = 1\<rparr>,
        r_nocNode = None, r_routingProtocol = None, r_switchingProtocol = None, r_devices = [],
        r_loadComponent = None, r_powerCounter = 0, r_lastClock = 0, r_flitsFromLastClock = [],
        r_arrivedFlits = 0\<rparr>),
     w_nodes = (\<lambda>_. \<lparr>n_id = 0, n_router = None, n_devices = []\<rparr>),
     w_topology = [], w_nextPacket = 1000, w_events = [], w_trace = []\<rparr>"

definition facing_device :: "node_ref \<Rightarrow> int \<Rightarrow> int \<Rightarrow> net_device" where
  "facing_device n direction dimension = NocNetDevice_new\<lparr>nd_node := Some n,
     nd_routingDirection := direction, nd_routingDimension := dimension\<rparr>"

lemma facing_device_simps [simp]:
  "nd_node (facing_device n a b) = Some n"
  "nd_routingDirection (facing_device n a b) = a"
  "nd_routingDimension (facing_device n a b) = b"
  by (simp_all add: facing_device_def)

end
