(* ===== verification/Noc_Routers.thy ===== *)
theory Noc_Routers
  imports Noc_World "HOL-Library.Multiset"
begin

text \<open>
  The routers, \<^verbatim>\<open>src/noc/router/\<close>: which net device a flit leaves and enters by, the two
  sub-routers of an Irvine router, the loads that load-aware routers remember of their
  neighbours, and the occupancy of the buffers. The class of a router selects the method, as
  the virtual calls of the source do. A search that finds nothing returns the null reference,
  \<open>Some None\<close> where the outer option is the stopped program. The ports and virtual channels
  that only feed the power model are not modelled, but for the input ports.
\<close>

section \<open>Four-way routers\<close>

definition four_way_of :: "router_class \<Rightarrow> four_way option" where
  "four_way_of c = (case c of FourWayRouter f \<Rightarrow> Some f | FourWayLoadRouter f l \<Rightarrow> Some f | _ \<Rightarrow> None)"

definition irvine_of :: "router_class \<Rightarrow> irvine option" where
  "irvine_of c = (case c of IrvineRouter v \<Rightarrow> Some v | IrvineLoadRouter v l \<Rightarrow> Some v | _ \<Rightarrow> None)"

definition FourWayRouter_GetInjectionNetDevices :: "four_way \<Rightarrow> device_ref list" where
  "FourWayRouter_GetInjectionNetDevices f = [fw_internalInputDevice f]"

definition FourWayRouter_GetReceiveNetDevice :: "four_way \<Rightarrow> device_ref" where
  "FourWayRouter_GetReceiveNetDevice f = fw_internalOutputDevice f"

text \<open>The first device with the direction and the dimension.\<close>

definition FourWayRouter_GetInputNetDevice :: "world \<Rightarrow> noc_router \<Rightarrow> int \<Rightarrow> int \<Rightarrow> device_ref option" where
  "FourWayRouter_GetInputNetDevice w r direction dimension =
     find (device_matches w direction dimension) (r_devices r)"

definition FourWayRouter_GetOutputNetDevice :: "world \<Rightarrow> noc_router \<Rightarrow> int \<Rightarrow> int \<Rightarrow> device_ref option" where
  "FourWayRouter_GetOutputNetDevice w r direction dimension =
     FourWayRouter_GetInputNetDevice w r direction dimension"

text \<open>Insertion at the front reverses the order.\<close>

definition FourWayRouter_GetOutputNetDevices :: "noc_router \<Rightarrow> device_ref list" where
  "FourWayRouter_GetOutputNetDevices r = rev (r_devices r)"

definition FourWayRouter_GetNumberOfInputPorts :: u32 where
  "FourWayRouter_GetNumberOfInputPorts = 5"

section \<open>Irvine routers\<close>

text \<open>
  Membership is asked of the router the sender belongs to, the internal injection device of
  this router. A sender without a node, or of another router class, stops the program.
\<close>

definition sender_irvine :: "world \<Rightarrow> device_ref \<Rightarrow> irvine option" where
  "sender_irvine w sender = do {
     r \<leftarrow> device_router w sender;
     irvine_of (r_class (w_routers w r))
   }"

definition IrvineRouter_isRightRouter :: "world \<Rightarrow> irvine \<Rightarrow> device_ref \<Rightarrow> bool option" where
  "IrvineRouter_isRightRouter w v sender =
     (if sender = iv_internalRightInputDevice v then Some True
      else map_option (\<lambda>v'. sender \<in> set (iv_rightRouterInputDevices v')) (sender_irvine w sender))"

definition IrvineRouter_isLeftRouter :: "world \<Rightarrow> irvine \<Rightarrow> device_ref \<Rightarrow> bool option" where
  "IrvineRouter_isLeftRouter w v sender =
     (if sender = iv_internalLeftInputDevice v then Some True
      else map_option (\<lambda>v'. sender \<in> set (iv_leftRouterInputDevices v')) (sender_irvine w sender))"

text \<open>The two assertions: the sender is on exactly one side; \<open>True\<close> is the right one.\<close>

definition irvine_side :: "world \<Rightarrow> irvine \<Rightarrow> device_ref \<Rightarrow> bool option" where
  "irvine_side w v sender = do {
     right \<leftarrow> IrvineRouter_isRightRouter w v sender;
     left \<leftarrow> IrvineRouter_isLeftRouter w v sender;
     _ \<leftarrow> ns_assert (right \<or> left);
     _ \<leftarrow> ns_assert (\<not> right \<or> \<not> left);
     Some right
   }"

definition IrvineRouter_GetInputNetDevice ::
    "world \<Rightarrow> irvine \<Rightarrow> device_ref \<Rightarrow> int \<Rightarrow> int \<Rightarrow> device_ref option option" where
  "IrvineRouter_GetInputNetDevice w v sender direction dimension = do {
     right \<leftarrow> irvine_side w v sender;
     let right_found = find (device_matches w direction dimension) (iv_rightRouterInputDevices v);
     let left_found = find (device_matches w direction dimension) (iv_leftRouterInputDevices v);
     Some (if right then (case right_found of None \<Rightarrow> left_found | Some d \<Rightarrow> Some d)
           else (case left_found of None \<Rightarrow> right_found | Some d \<Rightarrow> Some d))
   }"

text \<open>There is no \<^verbatim>\<open>break\<close> in the loops: the last match is returned.\<close>

definition IrvineRouter_GetOutputNetDevice ::
    "world \<Rightarrow> irvine \<Rightarrow> device_ref \<Rightarrow> int \<Rightarrow> int \<Rightarrow> device_ref option option" where
  "IrvineRouter_GetOutputNetDevice w v sender direction dimension = do {
     right \<leftarrow> irvine_side w v sender;
     Some (find (device_matches w direction dimension)
       (rev (if right then iv_rightRouterOutputDevices v else iv_leftRouterOutputDevices v)))
   }"

definition IrvineRouter_GetOutputNetDevices ::
    "world \<Rightarrow> irvine \<Rightarrow> packet \<Rightarrow> device_ref \<Rightarrow> device_ref list option" where
  "IrvineRouter_GetOutputNetDevices w v p sender = do {
     right \<leftarrow> irvine_side w v sender;
     tag \<leftarrow> peeked_tag p;
     header \<leftarrow> head_header (w_dims w) p tag;
     _ \<leftarrow> ns_assert (\<not> NocHeader_IsEmpty header);
     let devices = (if right then iv_rightRouterOutputDevices v else iv_leftRouterOutputDevices v);
     if devices = [] then Some [] else do {
       xOffset \<leftarrow> NocHeader_GetXOffset header;
       Some (rev (filter (\<lambda>d. xOffset = 0 \<longrightarrow>
         nd_routingDirection (w_devices w d) \<noteq> dir_FORWARD \<and> nd_routingDimension (w_devices w d) \<noteq> 0)
         devices))
     }
   }"

definition IrvineRouter_GetInjectionNetDevice ::
    "u32 \<Rightarrow> irvine \<Rightarrow> packet \<Rightarrow> (device_ref \<times> irvine) option" where
  "IrvineRouter_GetInjectionNetDevice dims v p = do {
     tag \<leftarrow> peeked_tag p;
     (netDevice, v) \<leftarrow>
       (if HEAD = tag_type tag then do {
          nocHeader \<leftarrow> Packet_PeekHeader dims p (NocHeader_new dims);
          if \<not> NocHeader_IsEmpty nocHeader then do {
            isEast \<leftarrow> NocHeader_HasEastDirection nocHeader;
            let d = (if \<not> isEast then iv_internalLeftInputDevice v else iv_internalRightInputDevice v);
            Some (Some d, v\<lparr>iv_headPacketsInjectionNetDevice :=
              (iv_headPacketsInjectionNetDevice v)(pk_uid p \<mapsto> d)\<rparr>)
          }
          else Some (None, v)
        }
        else Some (iv_headPacketsInjectionNetDevice v (tag_headPacketUid tag), v));
     d \<leftarrow> netDevice;
     Some (d, v)
   }"

definition IrvineRouter_GetInjectionNetDevices :: "irvine \<Rightarrow> device_ref list" where
  "IrvineRouter_GetInjectionNetDevices v = [iv_internalLeftInputDevice v, iv_internalRightInputDevice v]"

definition IrvineRouter_GetReceiveNetDevice :: "irvine \<Rightarrow> device_ref" where
  "IrvineRouter_GetReceiveNetDevice v = iv_internalOutputDevice v"

definition IrvineRouter_AddDevice :: "net_device \<Rightarrow> device_ref \<Rightarrow> irvine \<Rightarrow> irvine option" where
  "IrvineRouter_AddDevice device d v =
     (if nd_routingDirection device = dir_FORWARD then
        if nd_routingDimension device = 1 then
          if \<not> iv_north1DeviceAdded v then
            Some (v\<lparr>iv_rightRouterInputDevices := iv_rightRouterInputDevices v @ [d],
              iv_rightRouterOutputDevices := iv_rightRouterOutputDevices v @ [d],
              iv_north1DeviceAdded := True\<rparr>)
          else do {
            _ \<leftarrow> ns_assert (\<not> iv_north2DeviceAdded v);
            Some (v\<lparr>iv_leftRouterInputDevices := iv_leftRouterInputDevices v @ [d],
              iv_leftRouterOutputDevices := iv_leftRouterOutputDevices v @ [d],
              iv_north2DeviceAdded := True\<rparr>)
          }
        else if nd_routingDimension device = 0 then do {
          _ \<leftarrow> ns_assert (\<not> iv_eastDeviceAdded v);
          Some (v\<lparr>iv_leftRouterInputDevices := iv_leftRouterInputDevices v @ [d],
            iv_rightRouterOutputDevices := iv_rightRouterOutputDevices v @ [d],
            iv_eastDeviceAdded := True\<rparr>)
        }
        else Some v
      else if nd_routingDirection device = dir_BACK then
        if nd_routingDimension device = 1 then
          if \<not> iv_south1DeviceAdded v then
            Some (v\<lparr>iv_rightRouterInputDevices := iv_rightRouterInputDevices v @ [d],
              iv_rightRouterOutputDevices := iv_rightRouterOutputDevices v @ [d],
              iv_south1DeviceAdded := True\<rparr>)
          else do {
            _ \<leftarrow> ns_assert (\<not> iv_south2DeviceAdded v);
            Some (v\<lparr>iv_leftRouterInputDevices := iv_leftRouterInputDevices v @ [d],
              iv_leftRouterOutputDevices := iv_leftRouterOutputDevices v @ [d],
              iv_south2DeviceAdded := True\<rparr>)
          }
        else if nd_routingDimension device = 0 then do {
          _ \<leftarrow> ns_assert (\<not> iv_westDeviceAdded v);
          Some (v\<lparr>iv_rightRouterInputDevices := iv_rightRouterInputDevices v @ [d],
            iv_leftRouterOutputDevices := iv_leftRouterOutputDevices v @ [d],
            iv_westDeviceAdded := True\<rparr>)
        }
        else Some v
      else Some v)"

definition IrvineRouter_GetNumberOfInputPorts :: u32 where
  "IrvineRouter_GetNumberOfInputPorts = 8"

section \<open>The loads of the neighbours\<close>

definition FourWayLoadRouter_AddNeighborLoad :: "int \<Rightarrow> net_device \<Rightarrow> four_way_load \<Rightarrow> four_way_load" where
  "FourWayLoadRouter_AddNeighborLoad load source l =
     (if nd_routingDirection source = dir_FORWARD then
        if nd_routingDimension source = 1 then l\<lparr>fwl_southLoad := load\<rparr>
        else if nd_routingDirection source = 0 then l\<lparr>fwl_westLoad := load\<rparr> else l
      else if nd_routingDirection source = dir_BACK then
        if nd_routingDimension source = 1 then l\<lparr>fwl_northLoad := load\<rparr>
        else if nd_routingDirection source = 0 then l\<lparr>fwl_eastLoad := load\<rparr> else l
      else l)"

definition FourWayLoadRouter_GetNeighborLoad :: "net_device \<Rightarrow> four_way_load \<Rightarrow> int" where
  "FourWayLoadRouter_GetNeighborLoad source l =
     (if nd_routingDirection source = dir_FORWARD then
        if nd_routingDimension source = 1 then fwl_southLoad l
        else if nd_routingDimension source = 0 then fwl_westLoad l else 0
      else if nd_routingDirection source = dir_BACK then
        if nd_routingDimension source = 1 then fwl_northLoad l
        else if nd_routingDimension source = 0 then fwl_eastLoad l else 0
      else 0)"

definition FourWayLoadRouter_GetNeighborLoad3 ::
    "world \<Rightarrow> noc_router \<Rightarrow> four_way_load \<Rightarrow> int \<Rightarrow> int \<Rightarrow> int" where
  "FourWayLoadRouter_GetNeighborLoad3 w r l direction dimension =
     (case FourWayRouter_GetInputNetDevice w r direction dimension of
        None \<Rightarrow> 0 | Some d \<Rightarrow> FourWayLoadRouter_GetNeighborLoad (w_devices w d) l)"

text \<open>The side of a source device is asked of the router it belongs to.\<close>

definition IrvineLoadRouter_AddNeighborLoad ::
    "world \<Rightarrow> int \<Rightarrow> device_ref \<Rightarrow> irvine_load \<Rightarrow> irvine_load option" where
  "IrvineLoadRouter_AddNeighborLoad w load source l = do {
     sourceRouter \<leftarrow> sender_irvine w source;
     let dev = w_devices w source;
     if nd_routingDirection dev = dir_FORWARD then
       if nd_routingDimension dev = 1 then do {
         left \<leftarrow> IrvineRouter_isLeftRouter w sourceRouter source;
         if left then Some (l\<lparr>ivl_southLeftLoad := load\<rparr>) else do {
           right \<leftarrow> IrvineRouter_isRightRouter w sourceRouter source;
           Some (if right then l\<lparr>ivl_southRightLoad := load\<rparr> else l)
         }
       }
       else Some (if nd_routingDimension dev = 0 then l\<lparr>ivl_westLoad := load\<rparr> else l)
     else if nd_routingDirection dev = dir_BACK then
       if nd_routingDimension dev = 1 then do {
         left \<leftarrow> IrvineRouter_isLeftRouter w sourceRouter source;
         if left then Some (l\<lparr>ivl_northLeftLoad := load\<rparr>) else do {
           right \<leftarrow> IrvineRouter_isRightRouter w sourceRouter source;
           Some (if right then l\<lparr>ivl_northRightLoad := load\<rparr> else l)
         }
       }
       else Some (if nd_routingDimension dev = 0 then l\<lparr>ivl_eastLoad := load\<rparr> else l)
     else Some l
   }"

definition IrvineLoadRouter_GetNeighborLoad ::
    "world \<Rightarrow> irvine \<Rightarrow> device_ref \<Rightarrow> irvine_load \<Rightarrow> int option" where
  "IrvineLoadRouter_GetNeighborLoad w v source l = do {
     let dev = w_devices w source;
     if nd_routingDirection dev = dir_FORWARD then
       if nd_routingDimension dev = 1 then do {
         left \<leftarrow> IrvineRouter_isLeftRouter w v source;
         if left then Some (ivl_southLeftLoad l) else do {
           right \<leftarrow> IrvineRouter_isRightRouter w v source;
           Some (if right then ivl_southRightLoad l else 0)
         }
       }
       else Some (if nd_routingDimension dev = 0 then ivl_westLoad l else 0)
     else if nd_routingDirection dev = dir_BACK then
       if nd_routingDimension dev = 1 then do {
         left \<leftarrow> IrvineRouter_isLeftRouter w v source;
         if left then Some (ivl_northLeftLoad l) else do {
           right \<leftarrow> IrvineRouter_isRightRouter w v source;
           Some (if right then ivl_northRightLoad l else 0)
         }
       }
       else Some (if nd_routingDimension dev = 0 then ivl_eastLoad l else 0)
     else Some 0
   }"

definition IrvineLoadRouter_GetNeighborLoad3 ::
    "world \<Rightarrow> irvine \<Rightarrow> device_ref \<Rightarrow> int \<Rightarrow> int \<Rightarrow> irvine_load \<Rightarrow> int option" where
  "IrvineLoadRouter_GetNeighborLoad3 w v source direction dimension l = do {
     device \<leftarrow> IrvineRouter_GetInputNetDevice w v source direction dimension;
     (case device of None \<Rightarrow> Some 0 | Some d \<Rightarrow> IrvineLoadRouter_GetNeighborLoad w v d l)
   }"

section \<open>Occupancy\<close>

text \<open>The sums over a list of devices, in 32 and 64 bits, and their quotient as a \<^verbatim>\<open>double\<close>.\<close>

definition occupancy_of :: "u32 \<Rightarrow> u64 \<Rightarrow> rat" where
  "occupancy_of packets sizes =
     (if sizes \<noteq> 0 \<and> packets \<noteq> 0 then round64 (rat_of_nat (unat packets) / round64 (rat_of_nat (unat sizes))) else 0)"

definition in_occupancy :: "world \<Rightarrow> device_ref list \<Rightarrow> rat" where
  "in_occupancy w ds = occupancy_of
     (fold (\<lambda>d n. n + NocNetDevice_GetInQueueNPacktes (w_devices w d)) ds 0)
     (fold (\<lambda>d n. n + NocNetDevice_GetInQueueSize (w_devices w d)) ds 0)"

definition out_occupancy :: "world \<Rightarrow> device_ref list \<Rightarrow> rat" where
  "out_occupancy w ds = occupancy_of
     (fold (\<lambda>d n. n + NocNetDevice_GetOutQueueNPacktes (w_devices w d)) ds 0)
     (fold (\<lambda>d n. n + NocNetDevice_GetOutQueueSize (w_devices w d)) ds 0)"

definition NocRouter_GetInChannelsOccupancy :: "world \<Rightarrow> noc_router \<Rightarrow> rat" where
  "NocRouter_GetInChannelsOccupancy w r = in_occupancy w (r_devices r)"

definition NocRouter_GetOutChannelsOccupancy :: "world \<Rightarrow> noc_router \<Rightarrow> rat" where
  "NocRouter_GetOutChannelsOccupancy w r = out_occupancy w (r_devices r)"

definition IrvineRouter_GetInChannelsOccupancy :: "world \<Rightarrow> irvine \<Rightarrow> device_ref \<Rightarrow> rat option" where
  "IrvineRouter_GetInChannelsOccupancy w v source = do {
     left \<leftarrow> IrvineRouter_isLeftRouter w v source;
     if left then Some (in_occupancy w (iv_leftRouterInputDevices v)) else do {
       right \<leftarrow> IrvineRouter_isRightRouter w v source;
       Some (if right then in_occupancy w (iv_rightRouterInputDevices v) else 0)
     }
   }"

definition IrvineRouter_GetOutChannelsOccupancy :: "world \<Rightarrow> irvine \<Rightarrow> device_ref \<Rightarrow> rat option" where
  "IrvineRouter_GetOutChannelsOccupancy w v source = do {
     left \<leftarrow> IrvineRouter_isLeftRouter w v source;
     if left then Some (out_occupancy w (iv_leftRouterOutputDevices v)) else do {
       right \<leftarrow> IrvineRouter_isRightRouter w v source;
       Some (if right then out_occupancy w (iv_rightRouterOutputDevices v) else 0)
     }
   }"

section \<open>The virtual calls\<close>

definition router_AddDevice :: "net_device \<Rightarrow> device_ref \<Rightarrow> noc_router \<Rightarrow> (u32 \<times> noc_router) option" where
  "router_AddDevice device d r = (case r_class r of
     IrvineRouter v \<Rightarrow> map_option (\<lambda>v. (of_nat (length (r_devices r)),
       r\<lparr>r_devices := r_devices r @ [d], r_class := IrvineRouter v\<rparr>)) (IrvineRouter_AddDevice device d v)
   | IrvineLoadRouter v l \<Rightarrow> map_option (\<lambda>v. (of_nat (length (r_devices r)),
       r\<lparr>r_devices := r_devices r @ [d], r_class := IrvineLoadRouter v l\<rparr>)) (IrvineRouter_AddDevice device d v)
   | _ \<Rightarrow> Some (of_nat (length (r_devices r)), r\<lparr>r_devices := r_devices r @ [d]\<rparr>))"

definition router_GetInputNetDevice ::
    "world \<Rightarrow> router_ref \<Rightarrow> device_ref \<Rightarrow> int \<Rightarrow> int \<Rightarrow> device_ref option option" where
  "router_GetInputNetDevice w r sender direction dimension =
     (case irvine_of (r_class (w_routers w r)) of
        Some v \<Rightarrow> IrvineRouter_GetInputNetDevice w v sender direction dimension
      | None \<Rightarrow> Some (FourWayRouter_GetInputNetDevice w (w_routers w r) direction dimension))"

definition router_GetOutputNetDevice ::
    "world \<Rightarrow> router_ref \<Rightarrow> device_ref \<Rightarrow> int \<Rightarrow> int \<Rightarrow> device_ref option option" where
  "router_GetOutputNetDevice w r sender direction dimension =
     (case irvine_of (r_class (w_routers w r)) of
        Some v \<Rightarrow> IrvineRouter_GetOutputNetDevice w v sender direction dimension
      | None \<Rightarrow> Some (FourWayRouter_GetOutputNetDevice w (w_routers w r) direction dimension))"

definition router_GetOutputNetDevices ::
    "world \<Rightarrow> router_ref \<Rightarrow> packet \<Rightarrow> device_ref \<Rightarrow> device_ref list option" where
  "router_GetOutputNetDevices w r p sender =
     (case irvine_of (r_class (w_routers w r)) of
        Some v \<Rightarrow> IrvineRouter_GetOutputNetDevices w v p sender
      | None \<Rightarrow> Some (FourWayRouter_GetOutputNetDevices (w_routers w r)))"

definition router_GetInChannelsOccupancy :: "world \<Rightarrow> router_ref \<Rightarrow> device_ref \<Rightarrow> rat option" where
  "router_GetInChannelsOccupancy w r source =
     (case irvine_of (r_class (w_routers w r)) of
        Some v \<Rightarrow> IrvineRouter_GetInChannelsOccupancy w v source
      | None \<Rightarrow> Some (NocRouter_GetInChannelsOccupancy w (w_routers w r)))"

definition router_AddNeighborLoad :: "int \<Rightarrow> device_ref \<Rightarrow> router_ref \<Rightarrow> world \<Rightarrow> world option" where
  "router_AddNeighborLoad load source r w = (case r_class (w_routers w r) of
     FourWayLoadRouter f l \<Rightarrow> Some (put_router r ((w_routers w r)\<lparr>r_class :=
       FourWayLoadRouter f (FourWayLoadRouter_AddNeighborLoad load (w_devices w source) l)\<rparr>) w)
   | IrvineLoadRouter v l \<Rightarrow> map_option (\<lambda>l. put_router r ((w_routers w r)\<lparr>r_class :=
       IrvineLoadRouter v l\<rparr>) w) (IrvineLoadRouter_AddNeighborLoad w load source l)
   | _ \<Rightarrow> Some w)"

definition router_GetNeighborLoad :: "world \<Rightarrow> router_ref \<Rightarrow> device_ref \<Rightarrow> int option" where
  "router_GetNeighborLoad w r source = (case r_class (w_routers w r) of
     FourWayLoadRouter f l \<Rightarrow> Some (FourWayLoadRouter_GetNeighborLoad (w_devices w source) l)
   | IrvineLoadRouter v l \<Rightarrow> IrvineLoadRouter_GetNeighborLoad w v source l
   | _ \<Rightarrow> Some 0)"

definition router_GetNeighborLoad3 ::
    "world \<Rightarrow> router_ref \<Rightarrow> device_ref \<Rightarrow> int \<Rightarrow> int \<Rightarrow> int option" where
  "router_GetNeighborLoad3 w r source direction dimension = (case r_class (w_routers w r) of
     FourWayLoadRouter f l \<Rightarrow> Some (FourWayLoadRouter_GetNeighborLoad3 w (w_routers w r) l direction dimension)
   | IrvineLoadRouter v l \<Rightarrow> IrvineLoadRouter_GetNeighborLoad3 w v source direction dimension l
   | _ \<Rightarrow> Some 0)"

definition router_GetNumberOfInputPorts :: "noc_router \<Rightarrow> u32" where
  "router_GetNumberOfInputPorts r = (case irvine_of (r_class r) of
     Some v \<Rightarrow> IrvineRouter_GetNumberOfInputPorts | None \<Rightarrow> FourWayRouter_GetNumberOfInputPorts)"

section \<open>The two sides of an Irvine router\<close>

definition IrvineRouter_Init :: "device_ref \<Rightarrow> device_ref \<Rightarrow> device_ref \<Rightarrow> irvine" where
  "IrvineRouter_Init left right output = \<lparr>iv_internalLeftInputDevice = left,
     iv_internalRightInputDevice = right, iv_internalOutputDevice = output,
     iv_leftRouterInputDevices = [], iv_rightRouterInputDevices = [],
     iv_leftRouterOutputDevices = [], iv_rightRouterOutputDevices = [],
     iv_headPacketsInjectionNetDevice = Map.empty, iv_north1DeviceAdded = False,
     iv_north2DeviceAdded = False, iv_eastDeviceAdded = False, iv_south1DeviceAdded = False,
     iv_south2DeviceAdded = False, iv_westDeviceAdded = False\<rparr>"

fun irvine_add_all :: "world \<Rightarrow> device_ref list \<Rightarrow> irvine \<Rightarrow> irvine option" where
  "irvine_add_all w [] v = Some v"
| "irvine_add_all w (d # ds) v =
     Option.bind (IrvineRouter_AddDevice (w_devices w d) d v) (irvine_add_all w ds)"

text \<open>The devices of one direction and dimension, in the order they were added.\<close>

definition facing :: "world \<Rightarrow> int \<Rightarrow> int \<Rightarrow> device_ref list \<Rightarrow> device_ref list" where
  "facing w direction dimension ds = filter (device_matches w direction dimension) ds"

text \<open>What the lists of a router are after the devices \<open>ds\<close> were added.\<close>

definition irvine_holds :: "world \<Rightarrow> device_ref list \<Rightarrow> irvine \<Rightarrow> bool" where
  "irvine_holds w ds v \<longleftrightarrow>
     (let N = facing w dir_FORWARD 1 ds; S = facing w dir_BACK 1 ds;
          E = facing w dir_FORWARD 0 ds; W = facing w dir_BACK 0 ds in
      length N \<le> 2 \<and> length S \<le> 2 \<and> length E \<le> 1 \<and> length W \<le> 1 \<and>
      iv_north1DeviceAdded v = (1 \<le> length N) \<and> iv_north2DeviceAdded v = (2 \<le> length N) \<and>
      iv_south1DeviceAdded v = (1 \<le> length S) \<and> iv_south2DeviceAdded v = (2 \<le> length S) \<and>
      iv_eastDeviceAdded v = (1 \<le> length E) \<and> iv_westDeviceAdded v = (1 \<le> length W) \<and>
      mset (iv_rightRouterInputDevices v) = mset (take 1 N @ take 1 S @ W) \<and>
      mset (iv_rightRouterOutputDevices v) = mset (take 1 N @ take 1 S @ E) \<and>
      mset (iv_leftRouterInputDevices v) = mset (drop 1 N @ drop 1 S @ E) \<and>
      mset (iv_leftRouterOutputDevices v) = mset (drop 1 N @ drop 1 S @ W))"

definition irvine_fits :: "world \<Rightarrow> device_ref list \<Rightarrow> bool" where
  "irvine_fits w ds \<longleftrightarrow> length (facing w dir_FORWARD 1 ds) \<le> 2 \<and> length (facing w dir_BACK 1 ds) \<le> 2 \<and>
     length (facing w dir_FORWARD 0 ds) \<le> 1 \<and> length (facing w dir_BACK 0 ds) \<le> 1"

lemma facing_snoc: "facing w a b (ds @ [d]) =
    (if device_matches w a b d then facing w a b ds @ [d] else facing w a b ds)"
  by (simp add: facing_def)

lemma take_1_snoc: "take (Suc 0) (xs @ [x]) = (if xs = [] then [x] else take (Suc 0) xs)"
  by (cases xs) simp_all

lemma drop_1_snoc: "drop (Suc 0) (xs @ [x]) = (if xs = [] then [] else drop (Suc 0) xs @ [x])"
  by (cases xs) simp_all

lemma irvine_add_step:
  assumes "irvine_holds w ds v"
  shows "case IrvineRouter_AddDevice (w_devices w d) d v of
     None \<Rightarrow> \<not> irvine_fits w (ds @ [d]) | Some v' \<Rightarrow> irvine_holds w (ds @ [d]) v'"
proof -
  let ?dir = "nd_routingDirection (w_devices w d)"
  let ?dim = "nd_routingDimension (w_devices w d)"
  note m = device_matches_def facing_snoc irvine_fits_def irvine_holds_def Let_def dir_defs
    IrvineRouter_AddDevice_def take_1_snoc drop_1_snoc Suc_le_eq
  consider "?dir = 1" "?dim = 1" | "?dir = 1" "?dim = 0" | "?dir = 2" "?dim = 1" | "?dir = 2" "?dim = 0"
    | "\<not> (?dir = 1 \<and> ?dim = 1)" "\<not> (?dir = 1 \<and> ?dim = 0)" "\<not> (?dir = 2 \<and> ?dim = 1)" "\<not> (?dir = 2 \<and> ?dim = 0)"
    by blast
  then show ?thesis
  proof cases
    case 1
    then show ?thesis using assms by (cases "facing w 1 1 ds") (auto simp: m)
  next
    case 2
    then show ?thesis using assms by (cases "facing w 1 0 ds") (auto simp: m)
  next
    case 3
    then show ?thesis using assms by (cases "facing w 2 1 ds") (auto simp: m)
  next
    case 4
    then show ?thesis using assms by (cases "facing w 2 0 ds") (auto simp: m)
  next
    case 5
    then show ?thesis using assms by (auto simp: m)
  qed
qed

lemma facing_append: "facing w a b (xs @ ys) = facing w a b xs @ facing w a b ys"
  by (simp add: facing_def)

lemma irvine_fits_prefix: "irvine_fits w (xs @ ys) \<Longrightarrow> irvine_fits w xs"
  by (simp add: irvine_fits_def facing_append)

lemma irvine_add_all_holds:
  "irvine_holds w ds0 v \<Longrightarrow> case irvine_add_all w ds v of
     None \<Rightarrow> \<not> irvine_fits w (ds0 @ ds) | Some v' \<Rightarrow> irvine_holds w (ds0 @ ds) v'"
proof (induction ds arbitrary: ds0 v)
  case Nil
  then show ?case by simp
next
  case (Cons d ds)
  show ?case
  proof (cases "IrvineRouter_AddDevice (w_devices w d) d v")
    case None
    with irvine_add_step [OF Cons.prems, of d] have "\<not> irvine_fits w (ds0 @ [d])" by simp
    with irvine_fits_prefix [of w "ds0 @ [d]" ds] None show ?thesis by auto
  next
    case (Some v')
    with irvine_add_step [OF Cons.prems, of d] have "irvine_holds w (ds0 @ [d]) v'" by simp
    from Cons.IH [OF this] show ?thesis by (simp add: Some split: option.splits)
  qed
qed

lemma irvine_holds_Init: "irvine_holds w [] (IrvineRouter_Init l r out)"
  by (simp add: irvine_holds_def facing_def IrvineRouter_Init_def)

lemma irvine_holds_fits: "irvine_holds w ds v \<Longrightarrow> irvine_fits w ds"
  by (simp add: irvine_holds_def irvine_fits_def Let_def)

lemma disjoint_take_drop:
  "distinct xs \<Longrightarrow> x \<in> set (take n xs) \<Longrightarrow> x \<in> set (drop n xs) \<Longrightarrow> False"
  using set_take_disj_set_drop_if_distinct [of xs n n] by blast

lemma facing_iff: "d \<in> set (facing w a b ds) \<longleftrightarrow> d \<in> set ds \<and> device_matches w a b d"
  by (auto simp: facing_def)

lemma in_take_facing:
  "d \<in> set (take n (facing w a b ds)) \<Longrightarrow> device_matches w a b d"
  "d \<in> set (drop n (facing w a b ds)) \<Longrightarrow> device_matches w a b d"
  using in_set_takeD in_set_dropD by (fastforce simp: facing_iff)+

lemma facing_clash:
  "device_matches w dir_FORWARD 1 x \<Longrightarrow> \<not> device_matches w dir_BACK 1 x"
  "device_matches w dir_FORWARD 0 x \<Longrightarrow> \<not> device_matches w dir_BACK 0 x"
  "device_matches w a 1 x \<Longrightarrow> \<not> device_matches w b 0 x"
  by (auto simp: device_matches_def dir_defs)



text \<open>A device that leads to a neighbour in the plane.\<close>

definition irvine_device :: "world \<Rightarrow> device_ref \<Rightarrow> bool" where
  "irvine_device w d \<longleftrightarrow> (\<exists>a \<in> {dir_FORWARD, dir_BACK}. \<exists>b \<in> {0, 1}. device_matches w a b d)"

lemma mset_irvine_devices: "mset (filter (irvine_device w) ds) = mset (facing w dir_FORWARD 1 ds) + mset (facing w dir_BACK 1 ds) +
    mset (facing w dir_FORWARD 0 ds) + mset (facing w dir_BACK 0 ds)"
  by (induction ds) (auto simp: facing_def irvine_device_def device_matches_def dir_defs)

lemma mset_take_drop: "mset (take n xs) + mset (drop n xs) = mset xs"
  by (metis append_take_drop_id mset_append)

lemma short_mset_eq: "mset xs = mset ys \<Longrightarrow> length ys \<le> 1 \<Longrightarrow> xs = ys"
  by (cases ys) auto

text \<open>What a list made of devices of some directions holds of one of them.\<close>

lemma facing_mset: "mset xs = mset ys \<Longrightarrow> length (facing w a b ys) \<le> 1 \<Longrightarrow> facing w a b xs = facing w a b ys"
  unfolding facing_def by (rule short_mset_eq) (simp_all add: mset_filter)

lemma facing_of:
  assumes "\<forall>d \<in> set xs. device_matches w a' b' d"
  shows "facing w a b xs = (if a = a' \<and> b = b' then xs else [])"
  using assms by (auto simp: facing_def device_matches_def filter_id_conv filter_empty_conv)

lemma facing_part:
  "facing w a b (take n (facing w a' b' ds)) = (if a = a' \<and> b = b' then take n (facing w a' b' ds) else [])"
  "facing w a b (drop n (facing w a' b' ds)) = (if a = a' \<and> b = b' then drop n (facing w a' b' ds) else [])"
  "facing w a b (facing w a' b' ds) = (if a = a' \<and> b = b' then facing w a' b' ds else [])"
  by (rule facing_of; use in_take_facing in \<open>auto simp: facing_iff\<close>)+

text \<open>C28: building an Irvine router from distinct devices succeeds exactly when there are at
  most two north, two south, one east and one west device. Then the devices are split between the two
  sub-routers: each one that leads to a neighbour is, once, in the input devices of one of them and in the output
  devices of one of them, and there are no others. The first north device and the first south device are in
  both lists of the right sub-router, the second ones in both lists of the left one; the east
  device is an input of the left one and an output of the right one, the west device the other way around.\<close>

theorem irvine_sides:
  assumes "distinct ds"
  shows "case irvine_add_all w ds (IrvineRouter_Init l r out) of
     None \<Rightarrow> \<not> irvine_fits w ds
   | Some v \<Rightarrow> irvine_fits w ds \<and>
       distinct (iv_leftRouterInputDevices v @ iv_rightRouterInputDevices v) \<and>
       set (iv_leftRouterInputDevices v @ iv_rightRouterInputDevices v) = set (filter (irvine_device w) ds) \<and>
       distinct (iv_leftRouterOutputDevices v @ iv_rightRouterOutputDevices v) \<and>
       set (iv_leftRouterOutputDevices v @ iv_rightRouterOutputDevices v) = set (filter (irvine_device w) ds) \<and>
       (\<forall>a \<in> {dir_FORWARD, dir_BACK}. \<forall>xs \<in> {iv_rightRouterInputDevices v, iv_rightRouterOutputDevices v}.
          facing w a 1 xs = take 1 (facing w a 1 ds)) \<and>
       (\<forall>a \<in> {dir_FORWARD, dir_BACK}. \<forall>xs \<in> {iv_leftRouterInputDevices v, iv_leftRouterOutputDevices v}.
          facing w a 1 xs = drop 1 (facing w a 1 ds)) \<and>
       facing w dir_FORWARD 0 (iv_leftRouterInputDevices v) = facing w dir_FORWARD 0 ds \<and>
       facing w dir_FORWARD 0 (iv_rightRouterOutputDevices v) = facing w dir_FORWARD 0 ds \<and>
       facing w dir_BACK 0 (iv_rightRouterInputDevices v) = facing w dir_BACK 0 ds \<and>
       facing w dir_BACK 0 (iv_leftRouterOutputDevices v) = facing w dir_BACK 0 ds"
proof (cases "irvine_add_all w ds (IrvineRouter_Init l r out)")
  case None
  with irvine_add_all_holds [OF irvine_holds_Init, of w ds l r out] show ?thesis by simp
next
  case (Some v)
  with irvine_add_all_holds [OF irvine_holds_Init, of w ds l r out] have h: "irvine_holds w ds v"
    by simp
  let ?N = "facing w dir_FORWARD 1 ds" and ?S = "facing w dir_BACK 1 ds"
  let ?E = "facing w dir_FORWARD 0 ds" and ?W = "facing w dir_BACK 0 ds"
  have small: "length ?N \<le> 2" "length ?S \<le> 2" "length ?E \<le> 1" "length ?W \<le> 1"
    and lists: "mset (iv_rightRouterInputDevices v) = mset (take 1 ?N @ take 1 ?S @ ?W)"
    "mset (iv_rightRouterOutputDevices v) = mset (take 1 ?N @ take 1 ?S @ ?E)"
    "mset (iv_leftRouterInputDevices v) = mset (drop 1 ?N @ drop 1 ?S @ ?E)"
    "mset (iv_leftRouterOutputDevices v) = mset (drop 1 ?N @ drop 1 ?S @ ?W)"
    using h unfolding irvine_holds_def Let_def by blast+
  have once: "distinct xs \<and> set xs = set (filter (irvine_device w) ds)" if "mset xs = mset (filter (irvine_device w) ds)" for xs
    using that assms by (metis distinct_filter mset_eq_imp_distinct_iff mset_eq_setD)
  have inputs: "mset (iv_leftRouterInputDevices v @ iv_rightRouterInputDevices v) = mset (filter (irvine_device w) ds)"
    unfolding mset_irvine_devices mset_append lists
    by (simp only: mset_take_drop [of 1 ?N, symmetric] mset_take_drop [of 1 ?S, symmetric] ac_simps)
  have outputs: "mset (iv_leftRouterOutputDevices v @ iv_rightRouterOutputDevices v) = mset (filter (irvine_device w) ds)"
    unfolding mset_irvine_devices mset_append lists
    by (simp only: mset_take_drop [of 1 ?N, symmetric] mset_take_drop [of 1 ?S, symmetric] ac_simps)
  note sides = lists [THEN facing_mset]
  show ?thesis
    using Some irvine_holds_fits [OF h] once [OF inputs] once [OF outputs] small
    by (simp add: sides facing_append facing_part dir_defs)
qed

text \<open>An Irvine router of node 0 with all six devices, numbered from 10.\<close>

definition irvine_sample :: world where
  "irvine_sample = put_device 10 (facing_device 0 dir_FORWARD 1) (put_device 11 (facing_device 0 dir_FORWARD 1)
     (put_device 12 (facing_device 0 dir_FORWARD 0) (put_device 13 (facing_device 0 dir_BACK 1)
     (put_device 14 (facing_device 0 dir_BACK 1) (put_device 15 (facing_device 0 dir_BACK 0)
       (blank_world 2))))))"

lemma irvine_sample_facing:
  "facing irvine_sample dir_FORWARD 1 [10, 11, 12, 13, 14, 15] = [10, 11]" "facing irvine_sample dir_BACK 1 [10, 11, 12, 13, 14, 15] = [13, 14]"
  "facing irvine_sample dir_FORWARD 0 [10, 11, 12, 13, 14, 15] = [12]" "facing irvine_sample dir_BACK 0 [10, 11, 12, 13, 14, 15] = [15]"
  by (simp_all add: facing_def irvine_sample_def device_matches_def dir_defs)

theorem irvine_sides_witness:
  "\<exists>v. irvine_add_all irvine_sample [10, 11, 12, 13, 14, 15] (IrvineRouter_Init 1 2 3) = Some v \<and>
     facing irvine_sample dir_FORWARD 1 (iv_rightRouterInputDevices v) = [10] \<and>
     facing irvine_sample dir_FORWARD 1 (iv_leftRouterOutputDevices v) = [11] \<and>
     facing irvine_sample dir_FORWARD 0 (iv_leftRouterInputDevices v) = [12] \<and>
     facing irvine_sample dir_BACK 0 (iv_leftRouterOutputDevices v) = [15]"
proof -
  have f: "irvine_fits irvine_sample [10, 11, 12, 13, 14, 15]" by (simp add: irvine_fits_def irvine_sample_facing)
  show ?thesis
    using irvine_sides [of "[10, 11, 12, 13, 14, 15]" irvine_sample 1 2 3] f
    by (auto simp: irvine_sample_facing split: option.splits)
qed

end
