(* ===== verification/Dim_Order_Routing.thy ===== *)
theory Dim_Order_Routing
  imports Noc_Routers
begin

text \<open>
  Dimension order routing: XY (\<^verbatim>\<open>routing/dor/xy-routing.cc\<close>), XYZ (\<^verbatim>\<open>xyz-routing.cc\<close>) and the
  general DOR (\<^verbatim>\<open>dor-routing.cc\<close>). A head flit carries the remaining offsets in its header; a
  router takes one hop off the first dimension of its order that has any left, and looks up
  the devices of that hop. The first half of \<^verbatim>\<open>RequestNewRoute\<close> is a function on the header
  (\<open>xy_header\<close>, \<open>xyz_header\<close>, \<open>dor_header\<close>), the second half is \<open>select_devices\<close>.
\<close>

section \<open>Routes\<close>

record route =
  rt_routedPacket :: packet_ref
  rt_sourceDevice :: device_ref
  rt_destinationDevice :: device_ref

text \<open>
  One \<^verbatim>\<open>switch\<close> on a direction: the output device at the router of the source, the input
  device at the destination node that faces it; a null result fails the assertion.
\<close>

definition select_devices ::
    "world \<Rightarrow> device_ref \<Rightarrow> node_ref \<Rightarrow> packet_ref \<Rightarrow> int \<Rightarrow> int \<Rightarrow> route option \<times> routing_base
       \<Rightarrow> (route option \<times> routing_base) option" where
  "select_devices w source destination p direction dimension st =
     (if direction = dir_FORWARD \<or> direction = dir_BACK then do {
        r \<leftarrow> device_router w source;
        found \<leftarrow> router_GetOutputNetDevice w r source direction dimension;
        s \<leftarrow> found;
        r' \<leftarrow> node_router w destination;
        found' \<leftarrow> router_GetInputNetDevice w r' s
          (if direction = dir_FORWARD then dir_BACK else dir_FORWARD) dimension;
        d \<leftarrow> found';
        Some (Some \<lparr>rt_routedPacket = p, rt_sourceDevice = s, rt_destinationDevice = d\<rparr>,
          (snd st)\<lparr>rp_sourceNetDevice := Some s, rp_destinationNetDevice := Some d\<rparr>)
      }
      else Some st)"

text \<open>The header of a head flit, taken off it, and put back on.\<close>

definition take_header :: "u32 \<Rightarrow> packet \<Rightarrow> (noc_header \<times> packet) option" where
  "take_header dims x = do {
     tag \<leftarrow> peeked_tag x;
     _ \<leftarrow> ns_assert (HEAD = tag_type tag);
     Packet_RemoveHeader dims x (NocHeader_new dims)
   }"

section \<open>XY\<close>

text \<open>The block that takes a hop off a dimension, for the offset read at the beginning.\<close>

definition step_x :: "bool \<Rightarrow> u8 \<Rightarrow> noc_header \<Rightarrow> (noc_header \<times> int) option" where
  "step_x isEast xOffset h = do {
     let xOffset' = uint xOffset - 1;
     _ \<leftarrow> ns_assert (xOffset' \<ge> 0);
     h \<leftarrow> NocHeader_SetXOffset h (word_of_int xOffset');
     Some (h, if isEast then dir_FORWARD else dir_BACK)
   }"

definition step_y :: "bool \<Rightarrow> u8 \<Rightarrow> noc_header \<Rightarrow> (noc_header \<times> int) option" where
  "step_y isNorth yOffset h = do {
     let yOffset' = uint yOffset - 1;
     _ \<leftarrow> ns_assert (yOffset' \<ge> 0);
     h \<leftarrow> NocHeader_SetYOffset h (word_of_int yOffset');
     Some (h, if isNorth then dir_FORWARD else dir_BACK)
   }"

definition step_z :: "bool \<Rightarrow> u8 \<Rightarrow> noc_header \<Rightarrow> (noc_header \<times> int) option" where
  "step_z isUp zOffset h = do {
     let zOffset' = uint zOffset - 1;
     _ \<leftarrow> ns_assert (zOffset' \<ge> 0);
     h \<leftarrow> NocHeader_SetZOffset h (word_of_int zOffset');
     Some (h, if isUp then dir_FORWARD else dir_BACK)
   }"

text \<open>The new header and the directions of X and Y.\<close>

definition xy_header :: "bool \<Rightarrow> noc_header \<Rightarrow> (noc_header \<times> int \<times> int) option" where
  "xy_header routeXFirst h = do {
     isEast \<leftarrow> NocHeader_HasEastDirection h;
     xOffset \<leftarrow> NocHeader_GetXOffset h;
     isNorth \<leftarrow> NocHeader_HasNorthDirection h;
     yOffset \<leftarrow> NocHeader_GetYOffset h;
     if routeXFirst then
       if xOffset \<noteq> 0 then map_option (\<lambda>(h, d). (h, d, dir_NONE)) (step_x isEast xOffset h)
       else if yOffset \<noteq> 0 then map_option (\<lambda>(h, d). (h, dir_NONE, d)) (step_y isNorth yOffset h)
       else Some (h, dir_NONE, dir_NONE)
     else
       if yOffset \<noteq> 0 then map_option (\<lambda>(h, d). (h, dir_NONE, d)) (step_y isNorth yOffset h)
       else if xOffset \<noteq> 0 then map_option (\<lambda>(h, d). (h, d, dir_NONE)) (step_x isEast xOffset h)
       else Some (h, dir_NONE, dir_NONE)
   }"

definition XyRouting_RequestNewRoute ::
    "bool \<Rightarrow> device_ref \<Rightarrow> node_ref \<Rightarrow> packet_ref \<Rightarrow> routing_base \<Rightarrow> world
       \<Rightarrow> (route option \<times> routing_base \<times> world) option" where
  "XyRouting_RequestNewRoute routeXFirst source destination p base w = do {
     (h, x) \<leftarrow> take_header (w_dims w) (w_packets w p);
     (h, xDirection, yDirection) \<leftarrow> xy_header routeXFirst h;
     x \<leftarrow> Packet_AddHeader (w_dims w) x h;
     let w = put_packet p x w;
     st \<leftarrow> select_devices w source destination p xDirection 0 (None, base);
     st \<leftarrow> select_devices w source destination p yDirection 1 st;
     Some (fst st, snd st, w)
   }"

section \<open>XYZ\<close>

text \<open>The new header and the directions of X, Y and Z.\<close>

definition xyz_header ::
    "bool \<Rightarrow> bool \<Rightarrow> bool \<Rightarrow> bool \<Rightarrow> noc_header \<Rightarrow> (noc_header \<times> int \<times> int \<times> int) option" where
  "xyz_header routeXFirst routeXSecond routeYFirst routeYSecond h = do {
     isEast \<leftarrow> NocHeader_HasEastDirection h;
     xOffset \<leftarrow> NocHeader_GetXOffset h;
     isNorth \<leftarrow> NocHeader_HasNorthDirection h;
     yOffset \<leftarrow> NocHeader_GetYOffset h;
     isUp \<leftarrow> NocHeader_HasUpDirection h;
     zOffset \<leftarrow> NocHeader_GetZOffset h;
     let goX = map_option (\<lambda>(h, d). (h, d, dir_NONE, dir_NONE)) (step_x isEast xOffset h);
     let goY = map_option (\<lambda>(h, d). (h, dir_NONE, d, dir_NONE)) (step_y isNorth yOffset h);
     let goZ = map_option (\<lambda>(h, d). (h, dir_NONE, dir_NONE, d)) (step_z isUp zOffset h);
     let stay = Some (h, dir_NONE, dir_NONE, dir_NONE);
     if routeXFirst then
       if xOffset \<noteq> 0 then goX
       else if routeYSecond then
         if yOffset \<noteq> 0 then goY else if zOffset \<noteq> 0 then goZ else stay
       else
         if zOffset \<noteq> 0 then goZ else if yOffset \<noteq> 0 then goY else stay
     else if routeYFirst then
       if yOffset \<noteq> 0 then goY
       else if routeXSecond then
         if xOffset \<noteq> 0 then goX else if zOffset \<noteq> 0 then goZ else stay
       else
         if zOffset \<noteq> 0 then goZ else if xOffset \<noteq> 0 then goX else stay
     else
       if zOffset \<noteq> 0 then goZ
       else if routeXSecond then
         if xOffset \<noteq> 0 then goX else if yOffset \<noteq> 0 then goY else stay
       else
         if yOffset \<noteq> 0 then goY else if xOffset \<noteq> 0 then goX else stay
   }"

definition XyzRouting_RequestNewRoute ::
    "bool \<Rightarrow> bool \<Rightarrow> bool \<Rightarrow> bool \<Rightarrow> device_ref \<Rightarrow> node_ref \<Rightarrow> packet_ref \<Rightarrow> routing_base \<Rightarrow> world
       \<Rightarrow> (route option \<times> routing_base \<times> world) option" where
  "XyzRouting_RequestNewRoute xFirst xSecond yFirst ySecond source destination p base w = do {
     (h, x) \<leftarrow> take_header (w_dims w) (w_packets w p);
     (h, xDirection, yDirection, zDirection) \<leftarrow> xyz_header xFirst xSecond yFirst ySecond h;
     x \<leftarrow> Packet_AddHeader (w_dims w) x h;
     let w = put_packet p x w;
     st \<leftarrow> select_devices w source destination p xDirection 0 (None, base);
     st \<leftarrow> select_devices w source destination p yDirection 1 st;
     st \<leftarrow> select_devices w source destination p zDirection 2 st;
     Some (fst st, snd st, w)
   }"

section \<open>DOR\<close>

text \<open>The vectors \<^verbatim>\<open>isForward\<close> and \<^verbatim>\<open>offset\<close>: \<open>n\<close> reads from index \<open>i\<close>.\<close>

fun dor_read :: "noc_header \<Rightarrow> nat \<Rightarrow> nat \<Rightarrow> (bool list \<times> u8 list) option" where
  "dor_read h i 0 = Some ([], [])"
| "dor_read h i (Suc n) = do {
     f \<leftarrow> NocHeader_HasForwardDirection h i;
     v \<leftarrow> vec_at (NocHeader_GetOffset h) i;
     (fs, vs) \<leftarrow> dor_read h (Suc i) n;
     Some (f # fs, v # vs)
   }"

text \<open>
  The loop over the routing order. The inner \<^verbatim>\<open>while\<close> counts \<^verbatim>\<open>dimension\<close> up to the value of the
  entry. \<open>NONE\<close> everywhere is the initial vector of directions.
\<close>

fun dor_scan :: "bool list \<Rightarrow> u8 list \<Rightarrow> u32 list \<Rightarrow> int list \<Rightarrow> noc_header \<Rightarrow> (noc_header \<times> int list) option" where
  "dor_scan isForward offset [] direction h = Some (h, direction)"
| "dor_scan isForward offset (v # vs) direction h = do {
     let dimension = unat v;
     k \<leftarrow> vec_at offset dimension;
     if k \<noteq> 0 then do {
       f \<leftarrow> vec_at isForward dimension;
       _ \<leftarrow> ns_assert (uint k - 1 \<ge> 0);
       direction \<leftarrow> vec_set direction dimension (if f then dir_FORWARD else dir_BACK);
       offset \<leftarrow> vec_set offset dimension (k - 1);
       h \<leftarrow> NocHeader_SetOffset h offset;
       Some (h, direction)
     }
     else dor_scan isForward offset vs direction h
   }"

definition dor_header :: "u32 list \<Rightarrow> noc_header \<Rightarrow> (noc_header \<times> int list) option" where
  "dor_header routingOrder h = do {
     (isForward, offset) \<leftarrow> dor_read h 0 (length routingOrder);
     dor_scan isForward offset routingOrder (replicate (length routingOrder) dir_NONE) h
   }"

fun dor_select ::
    "world \<Rightarrow> device_ref \<Rightarrow> node_ref \<Rightarrow> packet_ref \<Rightarrow> int list \<Rightarrow> int \<Rightarrow> route option \<times> routing_base
       \<Rightarrow> (route option \<times> routing_base) option" where
  "dor_select w source destination p [] i st = Some st"
| "dor_select w source destination p (d # ds) i st = do {
     st \<leftarrow> select_devices w source destination p d i st;
     dor_select w source destination p ds (i + 1) st
   }"

definition DorRouting_RequestNewRoute ::
    "u32 list \<Rightarrow> device_ref \<Rightarrow> node_ref \<Rightarrow> packet_ref \<Rightarrow> routing_base \<Rightarrow> world
       \<Rightarrow> (route option \<times> routing_base \<times> world) option" where
  "DorRouting_RequestNewRoute routingOrder source destination p base w = do {
     (h, x) \<leftarrow> take_header (w_dims w) (w_packets w p);
     (h, direction) \<leftarrow> dor_header routingOrder h;
     x \<leftarrow> Packet_AddHeader (w_dims w) x h;
     let w = put_packet p x w;
     st \<leftarrow> dor_select w source destination p direction 0 (None, base);
     Some (fst st, snd st, w)
   }"

text \<open>The default order, \<^verbatim>\<open>DorRouting ()\<close>.\<close>

definition DorRouting_new :: "u32 \<Rightarrow> u32 list" where
  "DorRouting_new topologyDimension = map of_nat [0 ..< unat topologyDimension]"

section \<open>One hop, abstractly\<close>

text \<open>
  The contract of the three header functions: take one hop off the first dimension of \<open>order\<close>
  that has hops left, in the direction its byte says.
\<close>

definition dir_of :: "u8 \<Rightarrow> int" where
  "dir_of b = (if goes_back b then dir_BACK else dir_FORWARD)"

definition hop :: "nat list \<Rightarrow> noc_header \<Rightarrow> noc_header \<times> (nat \<times> int) option" where
  "hop order h = (case find (\<lambda>i. hops (m_distance h ! i) \<noteq> 0) order of
     None \<Rightarrow> (h, None)
   | Some i \<Rightarrow> (put_offset h i ((m_distance h ! i AND OFFSET_BIT_MASK) - 1),
       Some (i, dir_of (m_distance h ! i))))"

text \<open>The dimension and direction that a vector of directions selects.\<close>

definition move_of :: "int list \<Rightarrow> (nat \<times> int) option" where
  "move_of ds = find (\<lambda>(i, d). d \<noteq> dir_NONE) (zip [0 ..< length ds] ds)"

lemma dir_of_neq [simp]: "dir_of b \<noteq> dir_NONE"
  by (simp add: dir_of_def dir_defs)

lemma unat_masked_pred:
  "hops b \<noteq> 0 \<Longrightarrow> unat ((b AND OFFSET_BIT_MASK) - 1) = hops b - 1"
proof -
  assume "hops b \<noteq> 0"
  then have "b AND OFFSET_BIT_MASK \<noteq> 0" by (simp add: offset_bits_0_iff)
  then have "unat ((b AND OFFSET_BIT_MASK) - 1) = unat (b AND OFFSET_BIT_MASK) - 1"
    using unat_minus_one by blast
  then show ?thesis by (simp add: unat_offset_bits)
qed

lemma with_offset_pred:
  assumes "hops b \<noteq> 0"
  shows "hops (with_offset b ((b AND OFFSET_BIT_MASK) - 1)) = hops b - 1"
    and "goes_back (with_offset b ((b AND OFFSET_BIT_MASK) - 1)) = goes_back b"
proof -
  have "unat ((b AND OFFSET_BIT_MASK) - 1) < 128"
    using unat_masked_pred [OF assms] hops_less [of b] by linarith
  from with_offset_small [OF this] unat_masked_pred [OF assms]
  show "hops (with_offset b ((b AND OFFSET_BIT_MASK) - 1)) = hops b - 1"
    "goes_back (with_offset b ((b AND OFFSET_BIT_MASK) - 1)) = goes_back b"
    by simp_all
qed

lemma less_8_cases: "n < (8::nat) \<longleftrightarrow> n < 7 \<or> n = 7"
  by auto

lemma with_offset_same: "with_offset d (d AND OFFSET_BIT_MASK) = d"
  by (auto simp: with_offset_def goes_back_def bit_7_u8 [symmetric] DIRECTION_BIT_MASK_def
      OFFSET_BIT_MASK_def u8_eq_iff bit_or_iff bit_and_iff bit_128_int bit_127_iff
      less_8_cases)

section \<open>The header functions take a hop\<close>

lemma step_eq:
  assumes "hops (m_distance h ! i) \<noteq> 0" "k = m_distance h ! i AND OFFSET_BIT_MASK"
  shows "i = 0 \<Longrightarrow> 0 < length (m_distance h) \<Longrightarrow>
      step_x f k h = Some (put_offset h i (k - 1), if f then dir_FORWARD else dir_BACK)"
    and "i = 1 \<Longrightarrow> 1 < length (m_distance h) \<Longrightarrow>
      step_y f k h = Some (put_offset h i (k - 1), if f then dir_FORWARD else dir_BACK)"
    and "i = 2 \<Longrightarrow> 2 < length (m_distance h) \<Longrightarrow>
      step_z f k h = Some (put_offset h i (k - 1), if f then dir_FORWARD else dir_BACK)"
proof -
  have "k \<noteq> 0" using assms by (simp add: offset_bits_0_iff)
  then have "1 \<le> uint k" using uint_ge_0 [of k] uint_0_iff [of k] by linarith
  moreover have "word_of_int (uint k - 1) = k - 1" by simp
  ultimately show "i = 0 \<Longrightarrow> 0 < length (m_distance h) \<Longrightarrow>
      step_x f k h = Some (put_offset h i (k - 1), if f then dir_FORWARD else dir_BACK)"
    "i = 1 \<Longrightarrow> 1 < length (m_distance h) \<Longrightarrow>
      step_y f k h = Some (put_offset h i (k - 1), if f then dir_FORWARD else dir_BACK)"
    "i = 2 \<Longrightarrow> 2 < length (m_distance h) \<Longrightarrow>
      step_z f k h = Some (put_offset h i (k - 1), if f then dir_FORWARD else dir_BACK)"
    by (simp_all add: step_x_def step_y_def step_z_def SetOffsets_eq Let_def)
qed

lemmas header_reads = HasEastDirection_eq HasNorthDirection_eq HasUpDirection_eq
  HasForwardDirection_eq GetOffsets_eq offset_bits_0_iff

text \<open>A move as the directions of X, Y and Z.\<close>

definition on_axis :: "nat \<Rightarrow> (nat \<times> int) option \<Rightarrow> int" where
  "on_axis i mv = (case mv of Some (j, d) \<Rightarrow> if i = j then d else dir_NONE | None \<Rightarrow> dir_NONE)"

lemma on_axis_simps [simp]:
  "on_axis i None = dir_NONE" "on_axis i (Some (j, d)) = (if i = j then d else dir_NONE)"
  by (simp_all add: on_axis_def)

definition xy_order :: "bool \<Rightarrow> nat list" where
  "xy_order routeXFirst = (if routeXFirst then [0, 1] else [1, 0])"

lemma xy_header_eq:
  assumes "2 \<le> length (m_distance h)"
  shows "xy_header b h = Some (fst (hop (xy_order b) h),
     on_axis 0 (snd (hop (xy_order b) h)), on_axis 1 (snd (hop (xy_order b) h)))"
proof -
  have "0 < length (m_distance h)" "1 < length (m_distance h)" using assms by auto
  then show ?thesis
    by (auto simp: xy_header_def header_reads hop_def xy_order_def step_eq dir_of_def)
qed

definition xyz_order :: "bool \<Rightarrow> bool \<Rightarrow> bool \<Rightarrow> bool \<Rightarrow> nat list" where
  "xyz_order xFirst xSecond yFirst ySecond =
     (if xFirst then if ySecond then [0, 1, 2] else [0, 2, 1]
      else if yFirst then if xSecond then [1, 0, 2] else [1, 2, 0]
      else if xSecond then [2, 0, 1] else [2, 1, 0])"

lemma xyz_header_eq:
  assumes "3 \<le> length (m_distance h)"
  shows "xyz_header a b c d h = Some (fst (hop (xyz_order a b c d) h),
     on_axis 0 (snd (hop (xyz_order a b c d) h)), on_axis 1 (snd (hop (xyz_order a b c d) h)),
     on_axis 2 (snd (hop (xyz_order a b c d) h)))"
proof -
  have "0 < length (m_distance h)" "1 < length (m_distance h)" "2 < length (m_distance h)"
    using assms by auto
  then show ?thesis
    by (auto simp: xyz_header_def header_reads hop_def xyz_order_def step_eq dir_of_def Let_def)
qed

lemma dor_read_eq:
  "i + n \<le> length (m_distance h) \<Longrightarrow> dor_read h i n =
     Some (map (\<lambda>j. \<not> goes_back (m_distance h ! j)) [i ..< i + n],
       map (\<lambda>j. m_distance h ! j AND OFFSET_BIT_MASK) [i ..< i + n])"
proof (induction n arbitrary: i)
  case 0
  then show ?case by simp
next
  case (Suc n)
  have up: "[i ..< Suc (i + n)] = i # [Suc i ..< Suc (i + n)]" by (simp add: upt_conv_Cons)
  from Suc show ?case
    by (simp add: up HasForwardDirection_eq NocHeader_GetOffset_def del: upt_Suc)
qed

lemma set_offset_one:
  assumes "i < length (m_distance h)"
  shows "NocHeader_SetOffset h
      ((map (\<lambda>j. m_distance h ! j AND OFFSET_BIT_MASK) [0 ..< length (m_distance h)])[i := v])
    = Some (put_offset h i v)"
proof -
  let ?offs = "(map (\<lambda>j. m_distance h ! j AND OFFSET_BIT_MASK) [0 ..< length (m_distance h)])[i := v]"
  obtain h' where h': "NocHeader_SetOffset h ?offs = Some h'" "m_source h' = m_source h"
    "length (m_distance h') = length (m_distance h)"
    "\<forall>k < length (m_distance h). m_distance h' ! k = with_offset (m_distance h ! k) (?offs ! k)"
    using set_offset_loop_spec [of 0 "length (m_distance h)" h ?offs]
    unfolding NocHeader_SetOffset_def by auto
  have "m_distance h' = m_distance (put_offset h i v)"
  proof (rule nth_equalityI)
    fix k assume "k < length (m_distance h')"
    with h' assms show "m_distance h' ! k = m_distance (put_offset h i v) ! k"
      by (cases "k = i") (simp_all add: with_offset_same)
  qed (simp add: h'(3))
  with h'(2) have "h' = put_offset h i v" by (simp add: noc_header.equality)
  with h'(1) show ?thesis by simp
qed

text \<open>The routing order as dimension numbers; it must be a permutation of them.\<close>

definition dor_order :: "u32 list \<Rightarrow> nat list" where
  "dor_order ro = map unat ro"

definition order_ok :: "u32 list \<Rightarrow> bool" where
  "order_ok ro \<longleftrightarrow> distinct (dor_order ro) \<and> set (dor_order ro) = {..< length ro}"

definition axes :: "nat \<Rightarrow> (nat \<times> int) option \<Rightarrow> int list" where
  "axes n mv = map (\<lambda>i. on_axis i mv) [0 ..< n]"

lemma axes_Some: "i < n \<Longrightarrow> (replicate n dir_NONE)[i := d] = axes n (Some (i, d))"
  by (rule nth_equalityI) (auto simp: axes_def nth_list_update)

lemma dor_scan_eq:
  assumes "set (dor_order vs) \<subseteq> {..< n}" "n = length (m_distance h)"
  shows "dor_scan (map (\<lambda>j. \<not> goes_back (m_distance h ! j)) [0 ..< n])
      (map (\<lambda>j. m_distance h ! j AND OFFSET_BIT_MASK) [0 ..< n]) vs (replicate n dir_NONE) h
    = Some (fst (hop (dor_order vs) h), axes n (snd (hop (dor_order vs) h)))"
  using assms(1)
proof (induction vs)
  case Nil
  have "replicate n dir_NONE = axes n None" by (rule nth_equalityI) (simp_all add: axes_def)
  then show ?case by (simp add: hop_def dor_order_def)
next
  case (Cons v vs)
  then have v: "unat v < n" by (simp add: dor_order_def)
  let ?k = "m_distance h ! unat v AND OFFSET_BIT_MASK"
  show ?case
  proof (cases "hops (m_distance h ! unat v) = 0")
    case True
    with Cons v show ?thesis by (simp add: dor_order_def hop_def offset_bits_0_iff Let_def)
  next
    case False
    then have k: "?k \<noteq> 0" by (simp add: offset_bits_0_iff)
    then have "uint ?k - 1 \<ge> 0" using uint_ge_0 [of ?k] uint_0_iff [of ?k] by linarith
    with False v k assms(2) show ?thesis
      by (simp add: dor_order_def hop_def set_offset_one axes_Some dir_of_def Let_def)
  qed
qed

lemma dor_header_eq:
  assumes "order_ok ro" "length (m_distance h) = length ro"
  shows "dor_header ro h =
    Some (fst (hop (dor_order ro) h), axes (length ro) (snd (hop (dor_order ro) h)))"
proof -
  have "dor_read h 0 (length ro) = Some (map (\<lambda>j. \<not> goes_back (m_distance h ! j)) [0 ..< length ro],
      map (\<lambda>j. m_distance h ! j AND OFFSET_BIT_MASK) [0 ..< length ro])"
    using dor_read_eq [of 0 "length ro" h] assms(2) by simp
  moreover have "set (dor_order ro) \<subseteq> {..< length ro}"
    using assms(1) by (simp add: order_ok_def)
  note dor_scan_eq [OF this assms(2) [symmetric]]
  ultimately show ?thesis unfolding dor_header_def by simp
qed

lemma zip_axes: "zip [0 ..< n] (axes n mv) = map (\<lambda>i. (i, on_axis i mv)) [0 ..< n]"
  by (simp add: axes_def zip_map2 zip_same_conv_map)

lemma length_axes [simp]: "length (axes n mv) = n"
  by (simp add: axes_def)

lemma move_of_axes:
  assumes "case mv of None \<Rightarrow> True | Some (i, d) \<Rightarrow> i < n \<and> d \<noteq> dir_NONE"
  shows "move_of (axes n mv) = mv"
proof (cases mv)
  case None
  then show ?thesis by (simp add: move_of_def zip_axes find_None_iff)
next
  case (Some x)
  then obtain i d where mv: "mv = Some (i, d)" "i < n" "d \<noteq> dir_NONE"
    using assms by (cases x) auto
  have "find (\<lambda>(i, d). d \<noteq> dir_NONE) (zip [0 ..< n] (axes n mv)) = Some (i, d)"
    unfolding find_Some_iff zip_axes using mv by (intro exI [of _ i]) auto
  then show ?thesis by (simp add: move_of_def mv(1))
qed

section \<open>The journey of a head flit\<close>

text \<open>
  The header functions applied at router after router, until no direction is chosen: the moves
  made, and the header at the end.
\<close>

fun travel :: "(noc_header \<Rightarrow> (noc_header \<times> int list) option) \<Rightarrow> nat \<Rightarrow> noc_header
    \<Rightarrow> ((nat \<times> int) list \<times> noc_header) option" where
  "travel step 0 h = Some ([], h)"
| "travel step (Suc n) h = do {
     (h, ds) \<leftarrow> step h;
     case move_of ds of
       None \<Rightarrow> Some ([], h)
     | Some m \<Rightarrow> map_option (\<lambda>(ms, h). (m # ms, h)) (travel step n h)
   }"

definition xy_moves :: "bool \<Rightarrow> noc_header \<Rightarrow> (noc_header \<times> int list) option" where
  "xy_moves b h = map_option (\<lambda>(h, x, y). (h, [x, y])) (xy_header b h)"

definition xyz_moves :: "bool \<Rightarrow> bool \<Rightarrow> bool \<Rightarrow> bool \<Rightarrow> noc_header \<Rightarrow> (noc_header \<times> int list) option" where
  "xyz_moves a b c d h = map_option (\<lambda>(h, x, y, z). (h, [x, y, z])) (xyz_header a b c d h)"

text \<open>All hops of a header, dimension by dimension in the given order.\<close>

definition journey :: "nat list \<Rightarrow> noc_header \<Rightarrow> (nat \<times> int) list" where
  "journey order h =
     concat (map (\<lambda>i. replicate (hops (m_distance h ! i)) (i, dir_of (m_distance h ! i))) order)"

lemma hop_None: "snd (hop order h) = None \<Longrightarrow> fst (hop order h) = h \<and> journey order h = []"
proof -
  assume "snd (hop order h) = None"
  then have n: "find (\<lambda>i. hops (m_distance h ! i) \<noteq> 0) order = None"
    by (simp add: hop_def split: option.splits)
  then have "\<forall>i \<in> set order. hops (m_distance h ! i) = 0" by (auto simp: find_None_iff)
  with n show ?thesis by (simp add: hop_def journey_def)
qed

lemma hop_Some:
  assumes "snd (hop order h) = Some m" "distinct order" "set order \<subseteq> {..< length (m_distance h)}"
  shows "journey order h = m # journey order (fst (hop order h))"
    and "length (m_distance (fst (hop order h))) = length (m_distance h)"
    and "map goes_back (m_distance (fst (hop order h))) = map goes_back (m_distance h)"
    and "m_source (fst (hop order h)) = m_source h"
    and "fst m < length (m_distance h) \<and> snd m \<noteq> dir_NONE"
proof -
  from assms(1) obtain i where i: "find (\<lambda>i. hops (m_distance h ! i) \<noteq> 0) order = Some i"
    by (auto simp: hop_def split: option.splits)
  then obtain j where j: "j < length order" "order ! j = i" "hops (m_distance h ! i) \<noteq> 0"
    "\<forall>k < j. hops (m_distance h ! (order ! k)) = 0"
    by (auto simp: find_Some_iff)
  define pre post where "pre = take j order" and "post = drop (Suc j) order"
  have ord: "order = pre @ i # post"
    using id_take_nth_drop [OF j(1)] j(2) by (simp add: pre_def post_def)
  have pre0: "hops (m_distance h ! k) = 0" if "k \<in> set pre" for k
    using that j by (auto simp: pre_def in_set_conv_nth)
  have notin: "i \<notin> set pre" "i \<notin> set post" using assms(2) ord by auto
  have il: "i < length (m_distance h)" using assms(3) ord by auto
  let ?h = "put_offset h i ((m_distance h ! i AND OFFSET_BIT_MASK) - 1)"
  have hp: "hop order h = (?h, Some (i, dir_of (m_distance h ! i)))"
    unfolding hop_def i by simp
  have new: "hops (m_distance ?h ! i) = hops (m_distance h ! i) - 1"
    "goes_back (m_distance ?h ! i) = goes_back (m_distance h ! i)"
    using il j(3) by (simp_all add: with_offset_pred)
  have other: "m_distance ?h ! k = m_distance h ! k" if "k \<noteq> i" for k using that by simp
  define F where "F g k = replicate (hops (m_distance g ! k)) (k, dir_of (m_distance g ! k))" for g :: noc_header and k
  have F: "journey order g = concat (map (F g) pre) @ F g i @ concat (map (F g) post)" for g
    unfolding journey_def ord F_def by simp
  have "F h k = []" "F ?h k = []" if "k \<in> set pre" for k
  proof -
    have "k \<noteq> i" using that notin(1) by blast
    then show "F h k = []" "F ?h k = []" using pre0 [OF that] other by (simp_all add: F_def)
  qed
  then have "concat (map (F h) pre) = []" "concat (map (F ?h) pre) = []" by simp_all
  moreover have "map (F ?h) post = map (F h) post"
    using notin(2) other by (intro map_cong refl) (metis F_def)
  moreover have "F h i = (i, dir_of (m_distance h ! i)) # F ?h i"
    using new j(3) unfolding F_def by (cases "hops (m_distance h ! i)") (simp_all add: dir_of_def)
  ultimately show "journey order h = m # journey order (fst (hop order h))"
    using assms(1) by (simp only: F hp snd_conv fst_conv option.inject append_Nil append_Cons)
  show "length (m_distance (fst (hop order h))) = length (m_distance h)"
    "m_source (fst (hop order h)) = m_source h" by (simp_all add: hp)
  show "map goes_back (m_distance (fst (hop order h))) = map goes_back (m_distance h)"
  proof (rule nth_equalityI)
    fix k assume "k < length (map goes_back (m_distance (fst (hop order h))))"
    then show "map goes_back (m_distance (fst (hop order h))) ! k = map goes_back (m_distance h) ! k"
      using new(2) other [of k] by (cases "k = i") (simp_all add: hp)
  qed (simp add: hp)
  show "fst m < length (m_distance h) \<and> snd m \<noteq> dir_NONE" using assms(1) hp il by auto
qed

locale dimension_order =
  fixes dims :: nat
    and order :: "nat list"
    and step :: "noc_header \<Rightarrow> (noc_header \<times> int list) option"
  assumes order_distinct: "distinct order"
    and order_range: "set order = {..< dims}"
    and step_hop: "length (m_distance h) = dims \<Longrightarrow>
      \<exists>ds. step h = Some (fst (hop order h), ds) \<and> move_of ds = snd (hop order h)"
begin

lemma travel_journey:
  assumes "length (m_distance h) = dims" "length (journey order h) \<le> n"
  shows "\<exists>h'. travel step n h = Some (journey order h, h') \<and> m_source h' = m_source h \<and>
    length (m_distance h') = dims \<and> journey order h' = [] \<and>
    map goes_back (m_distance h') = map goes_back (m_distance h)"
  using assms
proof (induction n arbitrary: h)
  case 0
  then show ?case by simp
next
  case (Suc n)
  obtain ds where ds: "step h = Some (fst (hop order h), ds)" "move_of ds = snd (hop order h)"
    using step_hop [OF Suc.prems(1)] by blast
  show ?case
  proof (cases "snd (hop order h)")
    case None
    with ds hop_None [OF None] Suc.prems show ?thesis by simp
  next
    case (Some m)
    note hp = hop_Some [OF Some order_distinct] order_range Suc.prems
    have sub: "set order \<subseteq> {..< length (m_distance h)}" using order_range Suc.prems(1) by simp
    note hp = hop_Some [OF Some order_distinct sub]
    obtain h' where h': "travel step n (fst (hop order h)) = Some (journey order (fst (hop order h)), h')"
      "m_source h' = m_source h" "length (m_distance h') = dims" "journey order h' = []"
      "map goes_back (m_distance h') = map goes_back (m_distance h)"
      using Suc.IH [of "fst (hop order h)"] hp Suc.prems by auto
    then show ?thesis using ds Some hp(1) by simp
  qed
qed

text \<open>With less fuel, the moves made are the first ones of the journey.\<close>

lemma travel_take:
  assumes "length (m_distance h) = dims"
  shows "\<exists>h'. travel step n h = Some (take n (journey order h), h')"
  using assms
proof (induction n arbitrary: h)
  case 0
  then show ?case by simp
next
  case (Suc n)
  obtain ds where ds: "step h = Some (fst (hop order h), ds)" "move_of ds = snd (hop order h)"
    using step_hop [OF Suc.prems(1)] by blast
  show ?case
  proof (cases "snd (hop order h)")
    case None
    with ds hop_None [OF None] show ?thesis by simp
  next
    case (Some m)
    have sub: "set order \<subseteq> {..< length (m_distance h)}" using order_range Suc.prems(1) by simp
    note hp = hop_Some [OF Some order_distinct sub]
    obtain h' where "travel step n (fst (hop order h)) = Some (take n (journey order (fst (hop order h))), h')"
      using Suc.IH [of "fst (hop order h)"] hp(2) Suc.prems by auto
    then show ?thesis using ds Some hp(1) by simp
  qed
qed

lemma journey_length:
  assumes "length (m_distance h) = dims"
  shows "length (journey order h) = (\<Sum>b\<leftarrow>m_distance h. hops b)"
proof -
  have "length (journey order h) = (\<Sum>i\<leftarrow>order. hops (m_distance h ! i))"
    by (simp add: journey_def length_concat comp_def)
  also have "\<dots> = (\<Sum>i \<in> set order. hops (m_distance h ! i))"
    using order_distinct by (simp add: sum_list_distinct_conv_sum_set)
  also have "\<dots> = (\<Sum>b\<leftarrow>m_distance h. hops b)"
    using assms by (simp add: order_range sum_list_sum_nth atLeast0LessThan)
  finally show ?thesis .
qed

lemma journey_Nil:
  assumes "length (m_distance h) = dims" "journey order h = []"
  shows "\<forall>b \<in> set (m_distance h). hops b = 0"
  using assms by (auto simp: journey_def in_set_conv_nth order_range)

text \<open>The journey is minimal, and it ends with nothing left to go.\<close>

lemma travel_minimal:
  assumes "length (m_distance h) = dims" "(\<Sum>b\<leftarrow>m_distance h. hops b) \<le> n"
  shows "\<exists>h'. travel step n h = Some (journey order h, h') \<and> m_source h' = m_source h \<and>
    length (journey order h) = (\<Sum>b\<leftarrow>m_distance h. hops b) \<and>
    (\<forall>b \<in> set (m_distance h'). hops b = 0) \<and>
    map goes_back (m_distance h') = map goes_back (m_distance h)"
proof -
  from travel_journey [OF assms(1), of n] assms(2) journey_length [OF assms(1)] obtain h' where
    "travel step n h = Some (journey order h, h')" "m_source h' = m_source h"
    "length (m_distance h') = dims" "journey order h' = []"
    "map goes_back (m_distance h') = map goes_back (m_distance h)" by auto
  with journey_Nil [of h'] journey_length [OF assms(1)] show ?thesis by blast
qed

end

section \<open>The three protocols are dimension order routing\<close>

lemma move_of_two: "d = dir_NONE \<or> e = dir_NONE \<Longrightarrow>
    move_of [d, e] = (if d \<noteq> dir_NONE then Some (0, d) else if e \<noteq> dir_NONE then Some (1, e) else None)"
  by (simp add: move_of_def upt_rec)

lemma move_of_hop:
  assumes "distinct order" "set order \<subseteq> {..< length (m_distance h)}"
  shows "move_of (axes (length (m_distance h)) (snd (hop order h))) = snd (hop order h)"
proof (cases "snd (hop order h)")
  case None
  then show ?thesis by (simp add: move_of_axes)
next
  case (Some m)
  with hop_Some(5) [OF Some assms] show ?thesis
    by (cases m) (simp add: move_of_axes)
qed

lemma xy_moves_eq:
  assumes "length (m_distance h) = 2"
  shows "xy_moves b h = Some (fst (hop (xy_order b) h), axes 2 (snd (hop (xy_order b) h)))"
  using assms by (simp add: xy_moves_def xy_header_eq axes_def numeral_2_eq_2)

lemma xyz_moves_eq:
  assumes "length (m_distance h) = 3"
  shows "xyz_moves a b c d h =
    Some (fst (hop (xyz_order a b c d) h), axes 3 (snd (hop (xyz_order a b c d) h)))"
  using assms by (simp add: xyz_moves_def xyz_header_eq axes_def numeral_2_eq_2 numeral_3_eq_3)

interpretation xy: dimension_order 2 "xy_order b" "xy_moves b" for b
proof
  show o: "distinct (xy_order b)" "set (xy_order b) = {..< 2}" by (auto simp: xy_order_def)
  show "\<exists>ds. xy_moves b h = Some (fst (hop (xy_order b) h), ds) \<and> move_of ds = snd (hop (xy_order b) h)"
    if "length (m_distance h) = 2" for h
    using xy_moves_eq [OF that] move_of_hop [of "xy_order b" h] o that by simp
qed

interpretation xyz: dimension_order 3 "xyz_order a b c d" "xyz_moves a b c d" for a b c d
proof
  show o: "distinct (xyz_order a b c d)" "set (xyz_order a b c d) = {..< 3}"
    by (auto simp: xyz_order_def)
  show "\<exists>ds. xyz_moves a b c d h = Some (fst (hop (xyz_order a b c d) h), ds) \<and>
      move_of ds = snd (hop (xyz_order a b c d) h)" if "length (m_distance h) = 3" for h
    using xyz_moves_eq [OF that] move_of_hop [of "xyz_order a b c d" h] o that by simp
qed

lemma dor_dimension_order: "order_ok ro \<Longrightarrow> dimension_order (length ro) (dor_order ro) (dor_header ro)"
proof
  assume ok: "order_ok ro"
  then show "distinct (dor_order ro)" "set (dor_order ro) = {..< length ro}"
    by (simp_all add: order_ok_def)
  show "\<exists>ds. dor_header ro h = Some (fst (hop (dor_order ro) h), ds) \<and>
      move_of ds = snd (hop (dor_order ro) h)" if "length (m_distance h) = length ro" for h
    using dor_header_eq [OF ok that] move_of_hop [of "dor_order ro" h] ok that
    by (simp add: order_ok_def)
qed

lemma order_ok_new: "order_ok (DorRouting_new n)" "dor_order (DorRouting_new n) = [0 ..< unat n]"
proof -
  have "map (\<lambda>i. unat (of_nat i :: u32)) [0 ..< unat n] = [0 ..< unat n]"
    using unat_u32_less [of n] by (intro map_idI) (simp add: unat_of_nat take_bit_nat_eq_self_iff)
  then show "dor_order (DorRouting_new n) = [0 ..< unat n]"
    by (simp add: dor_order_def DorRouting_new_def comp_def)
  then show "order_ok (DorRouting_new n)"
    by (simp add: order_ok_def atLeast0LessThan) (simp add: DorRouting_new_def)
qed

interpretation dor: dimension_order "unat n" "[0 ..< unat n]" "dor_header (DorRouting_new n)" for n
  using dor_dimension_order [OF order_ok_new(1) [of n]] by (simp add: order_ok_new) (simp add: DorRouting_new_def)

section \<open>Properties of dimension order routing\<close>

text \<open>C1: dimension order routing with any permutation of the dimensions delivers. Started on a
  header with \<open>n\<close> hops in all dimensions together, or with more fuel than that, the flit makes
  exactly those hops and no other, dimension by dimension in the configured order and always
  in the direction of its header, and then has no hop left; directions and source stay.\<close>

theorem dor_journey:
  assumes "order_ok ro" "length (m_distance h) = length ro" "(\<Sum>b\<leftarrow>m_distance h. hops b) \<le> n"
  shows "\<exists>h'. travel (dor_header ro) n h = Some (journey (dor_order ro) h, h') \<and>
     length (journey (dor_order ro) h) = (\<Sum>b\<leftarrow>m_distance h. hops b) \<and>
     (\<forall>b \<in> set (m_distance h'). hops b = 0) \<and>
     map goes_back (m_distance h') = map goes_back (m_distance h) \<and> m_source h' = m_source h"
  using dimension_order.travel_minimal [OF dor_dimension_order [OF assms(1)] assms(2,3)] by blast

theorem dor_journey_witness:
  "\<exists>h'. travel (dor_header [1, 0]) 5 \<lparr>m_distance = [0x82, 3], m_source = [4, 0]\<rparr> =
     Some ([(1, dir_FORWARD), (1, dir_FORWARD), (1, dir_FORWARD), (0, dir_BACK), (0, dir_BACK)], h')"
proof -
  let ?h = "\<lparr>m_distance = [0x82, 3], m_source = [4, 0]\<rparr>"
  have o: "order_ok [1, 0]" by (auto simp: order_ok_def dor_order_def)
  have b: "hops 0x82 = 2" "hops 3 = 3" "dir_of 0x82 = dir_BACK" "dir_of 3 = dir_FORWARD"
    by (simp_all add: hops_def dir_of_def goes_back_def)
  have "journey (dor_order [1, 0]) ?h =
      [(1, dir_FORWARD), (1, dir_FORWARD), (1, dir_FORWARD), (0, dir_BACK), (0, dir_BACK)]"
    by (simp add: journey_def dor_order_def b numeral_2_eq_2 numeral_3_eq_3)
  with dor_journey [OF o, of ?h 5] b show ?thesis by auto
qed

text \<open>C21: XY and XYZ routing compute, on headers of their two and three dimensions, the
  header and the directions that DOR computes with the order their flags stand for; so the
  flags of XYZ stand for the six orders of three dimensions.\<close>

theorem xy_xyz_are_dor:
  assumes "length (m_distance h) = 2" "length (m_distance g) = 3"
  shows "xy_moves b h = dor_header (map of_nat (xy_order b)) h \<and>
    xyz_moves xFirst xSecond yFirst ySecond g =
      dor_header (map of_nat (xyz_order xFirst xSecond yFirst ySecond)) g"
proof
  have "order_ok (map of_nat (xy_order b))" "dor_order (map of_nat (xy_order b)) = xy_order b"
    by (auto simp: order_ok_def dor_order_def xy_order_def)
  then show "xy_moves b h = dor_header (map of_nat (xy_order b)) h"
    using dor_header_eq [of "map of_nat (xy_order b)" h] xy_moves_eq [of h b] assms(1)
    by (simp add: xy_order_def)
  let ?o = "xyz_order xFirst xSecond yFirst ySecond"
  have l: "length ?o = 3" by (simp add: xyz_order_def)
  have "order_ok (map of_nat ?o)" "dor_order (map of_nat ?o) = ?o"
    by (auto simp: order_ok_def dor_order_def xyz_order_def)
  then show "xyz_moves xFirst xSecond yFirst ySecond g = dor_header (map of_nat ?o) g"
    using dor_header_eq [of "map of_nat ?o" g] xyz_moves_eq [of g xFirst xSecond yFirst ySecond] l assms(2)
    by simp
qed

theorem xy_xyz_are_dor_witness:
  "xy_moves True \<lparr>m_distance = [0x82, 3], m_source = [4, 0]\<rparr>
      = dor_header [0, 1] \<lparr>m_distance = [0x82, 3], m_source = [4, 0]\<rparr> \<and>
   xyz_moves False False True True \<lparr>m_distance = [0, 0, 7], m_source = [1, 2, 3]\<rparr>
      = dor_header [1, 2, 0] \<lparr>m_distance = [0, 0, 7], m_source = [1, 2, 3]\<rparr>"
  using xy_xyz_are_dor [of "\<lparr>m_distance = [0x82, 3], m_source = [4, 0]\<rparr>"
    "\<lparr>m_distance = [0, 0, 7], m_source = [1, 2, 3]\<rparr>" True False False True True]
  by (simp add: xy_order_def xyz_order_def)

section \<open>Deadlock freedom on meshes\<close>

text \<open>
  A channel is a node, given by its coordinates, with the dimension and direction of a device
  of it. In a mesh a move changes one coordinate by one. A flit that holds a channel while it
  waits for the next one of its journey makes the first depend on the second.
\<close>

definition coord_move :: "int list \<Rightarrow> nat \<times> int \<Rightarrow> int list" where
  "coord_move pos m = pos[fst m := pos ! fst m + (if snd m = dir_FORWARD then 1 else - 1)]"

fun channels :: "int list \<Rightarrow> (nat \<times> int) list \<Rightarrow> (int list \<times> nat \<times> int) list" where
  "channels pos [] = []"
| "channels pos (m # ms) = (pos, m) # channels (coord_move pos m) ms"

definition channel_dependency :: "u32 list \<Rightarrow> ((int list \<times> nat \<times> int) \<times> (int list \<times> nat \<times> int)) set" where
  "channel_dependency ro = {(c, c'). \<exists>h pos n ms h' xs ys.
     length (m_distance h) = length ro \<and> length pos = length ro \<and>
     travel (dor_header ro) n h = Some (ms, h') \<and> channels pos ms = xs @ c # c' # ys}"

fun index_in :: "nat list \<Rightarrow> nat \<Rightarrow> nat" where
  "index_in [] i = 0"
| "index_in (x # xs) i = (if x = i then 0 else Suc (index_in xs i))"

text \<open>The number of a channel: the place of its dimension in the order, then its progress.\<close>

definition channel_rank :: "nat list \<Rightarrow> int list \<times> nat \<times> int \<Rightarrow> nat \<times> int" where
  "channel_rank order c = (case c of (pos, i, d) \<Rightarrow>
     (index_in order i, if d = dir_FORWARD then pos ! i else - (pos ! i)))"

definition rank_less :: "(nat \<times> int) rel" where
  "rank_less = {((a, x), (b, y)). a < b \<or> (a = b \<and> x < y)}"

lemma sorted_index: "distinct order \<Longrightarrow> sorted_wrt (\<lambda>i j. index_in order i < index_in order j) order"
proof (induction order)
  case Nil
  then show ?case by simp
next
  case (Cons x xs)
  have "sorted_wrt (\<lambda>i j. index_in (x # xs) i < index_in (x # xs) j) xs"
    by (rule sorted_wrt_mono_rel [OF _ Cons.IH]) (use Cons.prems in auto)
  with Cons.prems show ?case by auto
qed

lemma sorted_journey:
  assumes "sorted_wrt (\<lambda>i j. idx i < (idx j :: nat)) order"
  shows "sorted_wrt (\<lambda>m m'. m = m' \<or> idx (fst m) < idx (fst m')) (journey order h)"
proof -
  have rep: "sorted_wrt (\<lambda>m m'. m = m' \<or> idx (fst m) < idx (fst m')) (replicate k x)" for k and x :: "nat \<times> int"
    by (induction k) auto
  show ?thesis using assms
    by (induction order) (auto simp: journey_def sorted_wrt_append rep)
qed

lemma channels_adjacent:
  "channels pos ms = xs @ c # c' # ys \<Longrightarrow> \<exists>ms1 ms2. ms = ms1 @ snd c # snd c' # ms2 \<and>
     fst c' = coord_move (fst c) (snd c) \<and> length (fst c) = length pos"
proof (induction pos ms arbitrary: xs rule: channels.induct)
  case (1 pos)
  then show ?case by simp
next
  case (2 pos m ms)
  show ?case
  proof (cases xs)
    case Nil
    with 2(2) obtain m' ms' where "ms = m' # ms'" "c = (pos, m)" "c' = (coord_move pos m, m')"
      by (cases ms) auto
    then show ?thesis by (intro exI [of _ "[]"] exI [of _ ms']) simp
  next
    case (Cons x xs')
    with 2(2) have "channels (coord_move pos m) ms = xs' @ c # c' # ys" by simp
    from 2(1) [OF this] obtain ms1 ms2 where "ms = ms1 @ snd c # snd c' # ms2"
      "fst c' = coord_move (fst c) (snd c)" "length (fst c) = length (coord_move pos m)" by blast
    then show ?thesis by (intro exI [of _ "m # ms1"] exI [of _ ms2]) (simp add: coord_move_def)
  qed
qed

lemma journey_moves:
  "m \<in> set (journey order h) \<Longrightarrow> fst m \<in> set order \<and> (snd m = dir_FORWARD \<or> snd m = dir_BACK)"
  by (auto simp: journey_def dir_of_def)

lemma dependency_rank:
  assumes "order_ok ro" "(c, c') \<in> channel_dependency ro"
  shows "(channel_rank (dor_order ro) c, channel_rank (dor_order ro) c') \<in> rank_less"
proof -
  let ?o = "dor_order ro"
  have o: "distinct ?o" "set ?o = {..< length ro}" using assms(1) by (simp_all add: order_ok_def)
  from assms(2) obtain h pos n ms h' xs ys where h: "length (m_distance h) = length ro"
    "length pos = length ro" "travel (dor_header ro) n h = Some (ms, h')"
    "channels pos ms = xs @ c # c' # ys"
    unfolding channel_dependency_def by blast
  from dimension_order.travel_take [OF dor_dimension_order [OF assms(1)] h(1), of n] h(3)
  have ms: "ms = take n (journey ?o h)" by auto
  obtain ms1 ms2 where adj: "ms = ms1 @ snd c # snd c' # ms2"
    "fst c' = coord_move (fst c) (snd c)" "length (fst c) = length ro"
    using channels_adjacent [OF h(4)] h(2) by auto
  have "sorted_wrt (\<lambda>m m'. m = m' \<or> index_in ?o (fst m) < index_in ?o (fst m')) ms"
    unfolding ms using sorted_journey [OF sorted_index [OF o(1)]] by (rule sorted_wrt_take)
  then have step: "snd c = snd c' \<or> index_in ?o (fst (snd c)) < index_in ?o (fst (snd c'))"
    by (simp add: adj(1) sorted_wrt_append)
  have "snd c \<in> set (journey ?o h)"
    using adj(1) ms by (metis in_set_conv_decomp in_set_takeD)
  from journey_moves [OF this] o(2) have m: "fst (snd c) < length ro"
    "snd (snd c) = dir_FORWARD \<or> snd (snd c) = dir_BACK" by auto
  obtain q i d where c: "c = (q, i, d)" by (cases c)
  obtain q' i' d' where c': "c' = (q', i', d')" by (cases c')
  show ?thesis
    using step m adj(2,3) unfolding c c' channel_rank_def rank_less_def
    by (auto simp: coord_move_def dir_defs)
qed

lemma rank_less_acyclic: "acyclic rank_less"
proof -
  have "trans rank_less" by (auto simp: trans_def rank_less_def)
  moreover have "irrefl rank_less" by (auto simp: irrefl_def rank_less_def)
  ultimately show ?thesis by (metis acyclic_irrefl trancl_id)
qed

lemma acyclic_by_rank:
  assumes "acyclic s" "\<And>c c'. (c, c') \<in> r \<Longrightarrow> (f c, f c') \<in> s"
  shows "acyclic r"
proof (rule acyclicI, intro allI notI)
  fix x assume "(x, x) \<in> r\<^sup>+"
  then have "(f x, f x) \<in> s\<^sup>+"
    by (rule trancl_induct [where P = "\<lambda>y. (f x, f y) \<in> s\<^sup>+"])
      (auto intro: assms(2) trancl_into_trancl)
  with assms(1) show False by (auto simp: acyclic_def)
qed

text \<open>C2: dimension order routing is free of deadlock on a mesh. Over all headers, all
  starting nodes and all stages of a journey, the relation "a flit may hold this channel while
  it asks for that one" has no cycle, for every permutation of the dimensions.\<close>

theorem dor_deadlock_free:
  assumes "order_ok ro"
  shows "acyclic (channel_dependency ro)"
  using acyclic_by_rank [OF rank_less_acyclic] dependency_rank [OF assms] by blast

theorem dor_deadlock_free_witness: "acyclic (channel_dependency [0, 1, 2])"
  by (rule dor_deadlock_free) (auto simp: order_ok_def dor_order_def)

section \<open>The header points to the destination\<close>

text \<open>The coordinates a header points to, seen from the node at \<open>pos\<close>.\<close>

definition points_to :: "int list \<Rightarrow> noc_header \<Rightarrow> int list" where
  "points_to pos h = map2 (+) pos (map displacement (m_distance h))"

lemma points_to_nth:
  "length pos = length (m_distance h) \<Longrightarrow> i < length pos \<Longrightarrow>
     points_to pos h ! i = pos ! i + displacement (m_distance h ! i)"
  by (simp add: points_to_def)

lemma length_points_to [simp]:
  "length (points_to pos h) = min (length pos) (length (m_distance h))"
  by (simp add: points_to_def)

lemma displacement_pred:
  "hops b \<noteq> 0 \<Longrightarrow> displacement (with_offset b ((b AND OFFSET_BIT_MASK) - 1)) =
     displacement b - (if dir_of b = dir_FORWARD then 1 else - 1)"
  using with_offset_pred [of b]
  by (auto simp: displacement_def hop_sign_def dir_of_def dir_defs of_nat_diff)

lemma points_to_cong:
  assumes "length pos = length (m_distance h)" "i < length pos"
  shows "points_to (coord_move pos (i, d)) (put_offset h i v) = points_to pos h \<longleftrightarrow>
    displacement (with_offset (m_distance h ! i) v) =
      displacement (m_distance h ! i) - (if d = dir_FORWARD then 1 else - 1)"
    (is "?l = ?r \<longleftrightarrow> ?e")
proof -
  have nth: "?l ! k = ?r ! k \<longleftrightarrow> k \<noteq> i \<or> ?e" if "k < length pos" for k
    using assms that by (cases "k = i") (auto simp: points_to_nth coord_move_def)
  have "?l = ?r \<longleftrightarrow> (\<forall>k < length pos. ?l ! k = ?r ! k)"
    using assms by (auto simp: list_eq_iff_nth_eq coord_move_def)
  also have "\<dots> \<longleftrightarrow> ?e" using nth assms(2) by auto
  finally show ?thesis .
qed

text \<open>C4: every hop of dimension order routing keeps the header right. If the flit at
  \<open>pos\<close> makes the move that DOR chose, the new header points from the node it gets to to the
  same coordinates as before; so a header set to the offset of a destination leads there.\<close>

theorem dor_points_home:
  assumes "order_ok ro" "length (m_distance h) = length ro" "length pos = length ro"
    and "dor_header ro h = Some (h', ds)" "move_of ds = Some m"
  shows "points_to (coord_move pos m) h' = points_to pos h"
proof -
  let ?o = "dor_order ro"
  have o: "distinct ?o" "set ?o \<subseteq> {..< length (m_distance h)}"
    using assms(1,2) by (simp_all add: order_ok_def)
  have h: "h' = fst (hop ?o h)" "snd (hop ?o h) = Some m"
    using dor_header_eq [OF assms(1,2)] assms(2,4,5) move_of_hop [OF o] by auto
  then obtain i where i: "find (\<lambda>i. hops (m_distance h ! i) \<noteq> 0) ?o = Some i"
    by (auto simp: hop_def split: option.splits)
  then have e: "h' = put_offset h i ((m_distance h ! i AND OFFSET_BIT_MASK) - 1)"
    "m = (i, dir_of (m_distance h ! i))" using h unfolding hop_def i by simp_all
  have "i < length pos" "hops (m_distance h ! i) \<noteq> 0"
    using i hop_Some(5) [OF h(2) o] assms(2,3) e(2) by (auto simp: find_Some_iff)
  then show ?thesis
    using points_to_cong [of pos h i] assms(2,3) displacement_pred by (simp add: e)
qed

theorem dor_points_home_witness:
  "\<exists>h' ds. dor_header [0, 1] \<lparr>m_distance = [0x82, 3], m_source = [4, 0]\<rparr> = Some (h', ds) \<and>
     points_to [3, 0] h' = points_to [4, 0] \<lparr>m_distance = [0x82, 3], m_source = [4, 0]\<rparr>"
proof -
  let ?h = "\<lparr>m_distance = [0x82, 3], m_source = [4, 0]\<rparr>"
  have o: "order_ok [0, 1]" by (auto simp: order_ok_def dor_order_def)
  have b: "hops 0x82 = 2" "dir_of 0x82 = dir_BACK" by (simp_all add: hops_def dir_of_def goes_back_def)
  have m: "snd (hop (dor_order [0, 1]) ?h) = Some (0, dir_BACK)"
    by (simp add: hop_def dor_order_def b)
  then have mo: "move_of (axes 2 (snd (hop (dor_order [0, 1]) ?h))) = Some (0, dir_BACK)"
    by (simp add: move_of_axes dir_defs)
  have d: "dor_header [0, 1] ?h =
      Some (fst (hop (dor_order [0, 1]) ?h), axes 2 (snd (hop (dor_order [0, 1]) ?h)))"
    using dor_header_eq [OF o, of ?h] by (simp add: numeral_2_eq_2)
  from dor_points_home [OF o, of ?h "[4, 0]", OF _ _ d mo] d show ?thesis
    by (auto simp: coord_move_def dir_defs)
qed

section \<open>A whole request\<close>

lemma take_header_flit:
  assumes "head_flit dims x t h"
  shows "take_header dims x = Some (h, x\<lparr>pk_bytes := []\<rparr>)"
proof -
  have "header_fits dims h" "unat dims < 2 ^ 31" "pk_bytes x = NocHeader_Serialize h @ []" "HEAD = tag_type t"
    using assms by (auto simp: head_flit_def header_fits_def)
  then show ?thesis
    using head_flit_reads(1) [OF assms] RemoveHeader_front [of dims h "NocHeader_new dims" x "[]"]
    by (simp add: take_header_def)
qed

lemma hop_fits:
  assumes "header_fits dims h" "distinct order" "set order \<subseteq> {..< length (m_distance h)}"
  shows "header_fits dims (fst (hop order h))"
proof (cases "snd (hop order h)")
  case None
  then show ?thesis using assms(1) hop_None [of order h] by simp
next
  case (Some m)
  from hop_Some(2,4) [OF Some assms(2,3)] assms(1) show ?thesis by (simp add: header_fits_def)
qed

lemma opposite_simps [simp]:
  "NocRoutingProtocol_GetOpositeRoutingDirection dir_FORWARD = dir_BACK"
  "NocRoutingProtocol_GetOpositeRoutingDirection dir_BACK = dir_FORWARD"
  by (simp_all add: NocRoutingProtocol_GetOpositeRoutingDirection_def dir_defs)

lemma hop_direction: "snd (hop order h) = Some (i, d) \<Longrightarrow> d = dir_FORWARD \<or> d = dir_BACK"
  by (auto simp: hop_def dir_of_def split: option.splits)

text \<open>The devices that are selected once the header has its move, in dimension \<open>i\<close> to direction \<open>d\<close>.\<close>

lemma xy_finish:
  assumes "w_dims w = 2" "head_flit 2 (w_packets w p) t h" "header_fits 2 h'"
    and "xy_header b h = Some (h', if i = 0 then d else dir_NONE, if i = 1 then d else dir_NONE)"
    and "i = 0 \<or> i = 1" "d = dir_FORWARD \<or> d = dir_BACK"
    and "device_router w source = Some r" "irvine_of (r_class (w_routers w r)) = None"
    and "find (device_matches w d (int i)) (r_devices (w_routers w r)) = Some s"
    and "node_router w destination = Some r'" "irvine_of (r_class (w_routers w r')) = None"
    and "find (device_matches w (NocRoutingProtocol_GetOpositeRoutingDirection d) (int i))
      (r_devices (w_routers w r')) = Some e"
  shows "XyRouting_RequestNewRoute b source destination p base w = Some
    (Some \<lparr>rt_routedPacket = p, rt_sourceDevice = s, rt_destinationDevice = e\<rparr>,
     base\<lparr>rp_sourceNetDevice := Some s, rp_destinationNetDevice := Some e\<rparr>,
     put_packet p ((w_packets w p)\<lparr>pk_bytes := NocHeader_Serialize h'\<rparr>) w)"
proof -
  let ?w' = "put_packet p ((w_packets w p)\<lparr>pk_bytes := NocHeader_Serialize h'\<rparr>) w"
  have add: "Packet_AddHeader 2 ((w_packets w p)\<lparr>pk_bytes := []\<rparr>) h' =
      Some ((w_packets w p)\<lparr>pk_bytes := NocHeader_Serialize h'\<rparr>)"
    using AddHeader_fits [OF assms(3)] by simp
  have m: "device_matches ?w' = device_matches w" "device_router ?w' = device_router w"
    "node_router ?w' = node_router w"
    by simp_all
  have sel: "select_devices ?w' source destination p d (int i) (rt, base) = Some
    (Some \<lparr>rt_routedPacket = p, rt_sourceDevice = s, rt_destinationDevice = e\<rparr>,
     base\<lparr>rp_sourceNetDevice := Some s, rp_destinationNetDevice := Some e\<rparr>)" for rt base
    using assms(6-12)
    by (auto simp: select_devices_def m router_GetOutputNetDevice_def router_GetInputNetDevice_def
        FourWayRouter_GetInputNetDevice_def FourWayRouter_GetOutputNetDevice_def)
  have none: "select_devices ?w' source destination p dir_NONE j st = Some st" for j st
    by (simp add: select_devices_def dir_defs)
  from assms(5) show ?thesis
    using sel [of None base] assms(4)
    by (elim disjE) (simp_all add: XyRouting_RequestNewRoute_def assms(1) take_header_flit [OF assms(2)] add none Let_def)
qed

text \<open>A request to XY routing, between four-way routers. For a head flit with hops left,
  the route leads through the first device of the router of the source that faces the
  direction of the hop, to the first device of the destination node that faces the opposite
  direction in the same dimension; the packet now carries the header after the hop, and the
  protocol keeps both devices.\<close>

theorem xy_route:
  assumes "w_dims w = 2" "head_flit 2 (w_packets w p) t h" "snd (hop (xy_order b) h) = Some (i, d)"
    and "device_router w source = Some r" "irvine_of (r_class (w_routers w r)) = None"
    and "find (device_matches w d (int i)) (r_devices (w_routers w r)) = Some s"
    and "node_router w destination = Some r'" "irvine_of (r_class (w_routers w r')) = None"
    and "find (device_matches w (NocRoutingProtocol_GetOpositeRoutingDirection d) (int i))
      (r_devices (w_routers w r')) = Some e"
  shows "XyRouting_RequestNewRoute b source destination p base w = Some
    (Some \<lparr>rt_routedPacket = p, rt_sourceDevice = s, rt_destinationDevice = e\<rparr>,
     base\<lparr>rp_sourceNetDevice := Some s, rp_destinationNetDevice := Some e\<rparr>,
     put_packet p ((w_packets w p)\<lparr>pk_bytes := NocHeader_Serialize (fst (hop (xy_order b) h))\<rparr>) w)"
proof -
  have len: "length (m_distance h) = 2" and fits: "header_fits 2 h"
    using assms(2) by (simp_all add: head_flit_def header_fits_def)
  have o: "distinct (xy_order b)" "set (xy_order b) \<subseteq> {..< length (m_distance h)}"
    using len by (auto simp: xy_order_def)
  have i: "i = 0 \<or> i = 1" using hop_Some(5) [OF assms(3) o] len by auto
  have "xy_header b h = Some (fst (hop (xy_order b) h), if i = 0 then d else dir_NONE, if i = 1 then d else dir_NONE)"
    using xy_header_eq [of h b] len assms(3) by auto
  then show ?thesis
    using xy_finish [OF assms(1,2) hop_fits [OF fits o] _ i hop_direction [OF assms(3)] assms(4-9)] by blast
qed

end
