(* ===== verification/Adaptive_Routing.thy ===== *)
theory Adaptive_Routing
  imports Dim_Order_Routing
begin

text \<open>
  The two adaptive protocols, \<^verbatim>\<open>routing/so/so-routing.cc\<close> (self optimized) and
  \<^verbatim>\<open>routing/slb/slb-routing.cc\<close> (static load bound), and the load components that they ask,
  \<^verbatim>\<open>router/load-router-component.cc\<close>, \<^verbatim>\<open>so-load/\<close> and \<^verbatim>\<open>slb-load/\<close>. A protocol lists the
  output devices it may use (\<open>DoRoutingFunction\<close>), picks one of the best
  (\<open>DoSelectionFunction\<close>) and counts the hop in the header (\<open>UpdateHeader\<close>). The random index
  \<^verbatim>\<open>(int) GetValue (0, n)\<close> is an argument \<open>pick\<close>. Integers are not bounded in the evaluation:
  the weights are small.
\<close>

section \<open>Load components\<close>

definition LoadRouterComponent_IncreaseLoad :: "load_component \<Rightarrow> load_component" where
  "LoadRouterComponent_IncreaseLoad l = (case l of
     SoLoadRouterComponent m_load \<Rightarrow> SoLoadRouterComponent (m_load + 1)
   | SlbLoadRouterComponent m_load len \<Rightarrow> SlbLoadRouterComponent (m_load + 1) len)"

text \<open>The occupancy is converted to \<^verbatim>\<open>int\<close> before it is multiplied.\<close>

definition SoLoadRouterComponent_GetLocalLoad :: "world \<Rightarrow> device_ref \<Rightarrow> int option" where
  "SoLoadRouterComponent_GetLocalLoad w source = do {
     router \<leftarrow> device_router w source;
     occupancy \<leftarrow> router_GetInChannelsOccupancy w router source;
     let load = trunc_int occupancy * 100;
     _ \<leftarrow> ns_assert (load \<ge> 0 \<and> load \<le> 100);
     Some load
   }"

text \<open>The load and the data length that is remembered.\<close>

definition SlbLoadRouterComponent_GetLocalLoad :: "world \<Rightarrow> packet_ref \<Rightarrow> int \<Rightarrow> int \<Rightarrow> (int \<times> int) option" where
  "SlbLoadRouterComponent_GetLocalLoad w p m_load m_dataLength = do {
     let speedup = reg_DataPacketSpeedup (w_registry w);
     tag \<leftarrow> peeked_tag (w_packets w p);
     header \<leftarrow> head_header (w_dims w) (w_packets w p) tag;
     let m_dataLength = (if HEAD = tag_type tag \<and> \<not> NocHeader_IsEmpty header
       then int (unat (tag_dataFlitCount tag)) else m_dataLength);
     _ \<leftarrow> ns_assert (m_dataLength \<ge> 0);
     let denominator = 8 * (6 * rat_of_int speedup + rat_of_int m_dataLength);
     let load = trunc_int (round64 (round64 (rat_of_int m_load / denominator) * 100));
     let load = (if load > 100 then 100 else load);
     _ \<leftarrow> ns_assert (load \<ge> 0 \<and> load \<le> 100);
     Some (load, m_dataLength)
   }"

text \<open>
  The part of \<^verbatim>\<open>GetLoadForDirection\<close> that both components share: the mean of the neighbours'
  loads in the directions that pass the tests, and the weighted sum with the local load.
\<close>

definition neighbour_load ::
    "world \<Rightarrow> router_ref \<Rightarrow> device_ref \<Rightarrow> bool \<Rightarrow> int \<Rightarrow> int \<Rightarrow> int \<times> int \<Rightarrow> (int \<times> int) option" where
  "neighbour_load w router source ask direction dimension s =
     (if ask then do {
        l \<leftarrow> router_GetNeighborLoad3 w router source direction dimension;
        Some (fst s + l, snd s + 1)
      }
      else Some s)"

definition weighted_load :: "world \<Rightarrow> device_ref \<Rightarrow> device_ref \<Rightarrow> int \<Rightarrow> int option" where
  "weighted_load w source selected load = do {
     router \<leftarrow> device_router w source;
     let dir = nd_routingDirection (w_devices w selected);
     let dm = nd_routingDimension (w_devices w selected);
     s \<leftarrow> neighbour_load w router source (dir \<noteq> dir_FORWARD \<and> dm \<noteq> 1) dir_FORWARD 1 (0, 0);
     s \<leftarrow> neighbour_load w router source (dir \<noteq> dir_FORWARD \<and> dm \<noteq> 0) dir_FORWARD 0 s;
     s \<leftarrow> neighbour_load w router source (dir \<noteq> dir_BACK \<and> dm \<noteq> 1) dir_BACK 1 s;
     s \<leftarrow> neighbour_load w router source (dir \<noteq> dir_BACK \<and> dm \<noteq> 0) dir_BACK 0 s;
     Some (if snd s \<noteq> 0
       then trunc_div (2 * load + trunc_int (round64 (rat_of_int (fst s) / rat_of_int (snd s)))) 3
       else load)
   }"

text \<open>\<^verbatim>\<open>GetLoadForDirection\<close> resets the load of the component.\<close>

definition load_GetLoadForDirection ::
    "world \<Rightarrow> packet_ref \<Rightarrow> device_ref \<Rightarrow> device_ref \<Rightarrow> load_component \<Rightarrow> (int \<times> load_component) option" where
  "load_GetLoadForDirection w p source selected c = (case c of
     SoLoadRouterComponent m_load \<Rightarrow> do {
       load \<leftarrow> SoLoadRouterComponent_GetLocalLoad w source;
       load \<leftarrow> weighted_load w source selected load;
       Some (load, SoLoadRouterComponent 0)
     }
   | SlbLoadRouterComponent m_load m_dataLength \<Rightarrow> do {
       (load, m_dataLength) \<leftarrow> SlbLoadRouterComponent_GetLocalLoad w p m_load m_dataLength;
       load \<leftarrow> weighted_load w source selected load;
       Some (load, SlbLoadRouterComponent 0 m_dataLength)
     })"

section \<open>What both protocols share\<close>

text \<open>The header of a head packet, which must not be all zero.\<close>

definition routed_header :: "world \<Rightarrow> packet_ref \<Rightarrow> noc_header option" where
  "routed_header w p = do {
     tag \<leftarrow> peeked_tag (w_packets w p);
     header \<leftarrow> head_header (w_dims w) (w_packets w p) tag;
     _ \<leftarrow> ns_assert (\<not> NocHeader_IsEmpty header);
     Some header
   }"

definition progressive :: "noc_header \<Rightarrow> int \<Rightarrow> int \<Rightarrow> bool option" where
  "progressive header dir dm = do {
     east \<leftarrow> NocHeader_HasEastDirection header;
     x \<leftarrow> NocHeader_GetXOffset header;
     if (east \<and> x > 0) \<and> dir = dir_FORWARD \<and> dm = 0 then Some True
     else if (\<not> east \<and> x > 0) \<and> dir = dir_BACK \<and> dm = 0 then Some True
     else do {
       north \<leftarrow> NocHeader_HasNorthDirection header;
       y \<leftarrow> NocHeader_GetYOffset header;
       Some ((north \<and> y > 0) \<and> dir = dir_FORWARD \<and> dm = 1
         \<or> (\<not> north \<and> y > 0) \<and> dir = dir_BACK \<and> dm = 1)
     }
   }"

definition SoRouting_IsProgressiveDirection :: "world \<Rightarrow> packet_ref \<Rightarrow> device_ref \<Rightarrow> bool option" where
  "SoRouting_IsProgressiveDirection w p d = do {
     header \<leftarrow> routed_header w p;
     progressive header (nd_routingDirection (w_devices w d)) (nd_routingDimension (w_devices w d))
   }"

definition SlbRouting_IsProgressiveDirection :: "world \<Rightarrow> packet_ref \<Rightarrow> device_ref \<Rightarrow> bool option" where
  "SlbRouting_IsProgressiveDirection w p d = do {
     header \<leftarrow> routed_header w p;
     progressive header (nd_routingDirection (w_devices w d)) (nd_routingDimension (w_devices w d))
   }"

text \<open>
  \<^verbatim>\<open>UpdateHeader\<close>: one hop less in the dimension of the chosen device, whatever its direction;
  the load goes into a copy of the tag that is dropped. The header is \<open>x\<close> when the packet is
  not a head packet: the assertion fails.
\<close>

definition update_offset :: "noc_header \<Rightarrow> int \<Rightarrow> int \<Rightarrow> noc_header option" where
  "update_offset h dir dm = do {
     xOffset \<leftarrow> NocHeader_GetXOffset h;
     yOffset \<leftarrow> NocHeader_GetYOffset h;
     if dir = dir_FORWARD \<or> dir = dir_BACK then
       if dm = 0 then NocHeader_SetXOffset h (word_of_int (uint xOffset - 1))
       else if dm = 1 then NocHeader_SetYOffset h (word_of_int (uint yOffset - 1))
       else Some h
     else Some h
   }"

definition UpdateHeader :: "packet_ref \<Rightarrow> device_ref \<Rightarrow> device_ref \<Rightarrow> world \<Rightarrow> world option" where
  "UpdateHeader p device source w = do {
     let dims = w_dims w;
     let x = w_packets w p;
     tag \<leftarrow> peeked_tag x;
     (h, x) \<leftarrow> (if HEAD = tag_type tag then Packet_RemoveHeader dims x (NocHeader_new dims)
                else Some (NocHeader_new dims, x));
     _ \<leftarrow> ns_assert (\<not> NocHeader_IsEmpty h);
     h \<leftarrow> update_offset h (nd_routingDirection (w_devices w device)) (nd_routingDimension (w_devices w device));
     x \<leftarrow> Packet_AddHeader dims x h;
     let w = put_packet p x w;
     router \<leftarrow> device_router w source;
     w \<leftarrow> (case r_loadComponent (w_routers w router) of
        None \<Rightarrow> Some w
      | Some c \<Rightarrow> do {
          (load, c) \<leftarrow> load_GetLoadForDirection w p source device c;
          _ \<leftarrow> ns_assert (load \<ge> 0 \<and> load \<le> 100);
          Some (put_router router ((w_routers w router)\<lparr>r_loadComponent := Some c\<rparr>) w)
        });
     (h, x) \<leftarrow> Packet_RemoveHeader dims x h;
     x \<leftarrow> Packet_AddHeader dims x h;
     Some (put_packet p x w)
   }"

text \<open>
  The loop that keeps the devices of the best value so far, the newest first; the evaluation
  may update the state of the protocol.
\<close>

fun best_devices ::
    "(device_ref \<Rightarrow> 's \<Rightarrow> (int \<times> 's) option) \<Rightarrow> device_ref list \<Rightarrow> int \<Rightarrow> device_ref list \<Rightarrow> 's
       \<Rightarrow> (device_ref list \<times> 's) option" where
  "best_devices eval [] best selected s = Some (selected, s)"
| "best_devices eval (d # ds) best selected s = do {
     (v, s) \<leftarrow> eval d s;
     let selected = (if v = best then d # selected else selected);
     if v > best then best_devices eval ds v [d] s else best_devices eval ds best selected s
   }"

text \<open>The end of \<^verbatim>\<open>RequestNewRoute\<close>: the devices of the hop, with the fallbacks of the source.\<close>

fun first_input :: "world \<Rightarrow> router_ref \<Rightarrow> device_ref \<Rightarrow> (int \<times> int) list \<Rightarrow> device_ref option option" where
  "first_input w r s [] = Some None"
| "first_input w r s ((dir, dm) # rest) = do {
     found \<leftarrow> router_GetInputNetDevice w r s
       (NocRoutingProtocol_GetOpositeRoutingDirection dir) dm;
     case found of Some d \<Rightarrow> Some (Some d) | None \<Rightarrow> first_input w r s rest
   }"

definition hop_devices ::
    "world \<Rightarrow> device_ref \<Rightarrow> node_ref \<Rightarrow> device_ref \<Rightarrow> (device_ref \<times> device_ref) option" where
  "hop_devices w source destination selected = do {
     let dir = nd_routingDirection (w_devices w selected);
     let dm = nd_routingDimension (w_devices w selected);
     r \<leftarrow> device_router w source;
     found \<leftarrow> router_GetOutputNetDevice w r source dir dm;
     s \<leftarrow> found;
     r' \<leftarrow> node_router w destination;
     found' \<leftarrow> first_input w r' s
       [(dir, dm), (dir_FORWARD, 1), (dir_FORWARD, 0), (dir_BACK, 1), (dir_BACK, 0)];
     d \<leftarrow> found';
     Some (s, d)
   }"

definition finish_route ::
    "packet_ref \<Rightarrow> device_ref \<times> device_ref \<Rightarrow> routing_base \<Rightarrow> route \<times> routing_base" where
  "finish_route p sd base =
     (\<lparr>rt_routedPacket = p, rt_sourceDevice = fst sd, rt_destinationDevice = snd sd\<rparr>,
      base\<lparr>rp_sourceNetDevice := Some (fst sd), rp_destinationNetDevice := Some (snd sd)\<rparr>)"

section \<open>Self optimized routing\<close>

text \<open>The loop of \<^verbatim>\<open>DoRoutingFunction\<close>; a device that may be used goes to the front.\<close>

fun so_valid :: "world \<Rightarrow> packet_ref \<Rightarrow> device_ref \<Rightarrow> device_ref list \<Rightarrow> device_ref list \<Rightarrow> device_ref list option" where
  "so_valid w p source [] valid = Some valid"
| "so_valid w p source (d # ds) valid =
     (if nd_routingDirection (w_devices w d) \<noteq> nd_routingDirection (w_devices w source) then do {
        header \<leftarrow> routed_header w p;
        x \<leftarrow> NocHeader_GetXOffset header;
        valid \<leftarrow>
          (if x = 0 then
             if nd_routingDimension (w_devices w d) = 1 then do {
               prog \<leftarrow> SoRouting_IsProgressiveDirection w p d;
               Some (if prog then d # valid else valid)
             }
             else Some valid
           else do {
             y \<leftarrow> NocHeader_GetYOffset header;
             if y = 0 then
               if nd_routingDimension (w_devices w d) = 0 then do {
                 prog \<leftarrow> SoRouting_IsProgressiveDirection w p d;
                 Some (if prog then d # valid else valid)
               }
               else Some valid
             else Some (d # valid)
           });
        so_valid w p source ds valid
      }
      else so_valid w p source ds valid)"

definition SoRouting_DoRoutingFunction ::
    "world \<Rightarrow> device_ref \<Rightarrow> packet_ref \<Rightarrow> device_ref list option" where
  "SoRouting_DoRoutingFunction w source p = do {
     router \<leftarrow> device_router w source;
     devices \<leftarrow> router_GetOutputNetDevices w router (w_packets w p) source;
     so_valid w p source devices []
   }"

text \<open>The part of the evaluation for a busy channel, and the division by the weights.\<close>

definition so_add_busy ::
    "world \<Rightarrow> packet_ref \<Rightarrow> device_ref \<Rightarrow> int \<Rightarrow> so_params \<Rightarrow> (int \<times> so_params) option" where
  "so_add_busy w p device v s = do {
     tag \<leftarrow> peeked_tag (w_packets w p);
     header \<leftarrow> head_header (w_dims w) (w_packets w p) tag;
     let s = (if \<not> NocHeader_IsEmpty header
       then s\<lparr>so_dataLength := int (unat (tag_dataFlitCount tag))\<rparr> else s);
     _ \<leftarrow> ns_assert (so_dataLength s \<ge> 0);
     let n = sint (NocNetDevice_GetInQueueNPacktes (w_devices w device));
     let n = (if n > so_dataLength s + 1 then so_dataLength s + 1 else n);
     let addValue = so_remainingWeight s * (100 - trunc_div (n * 100) (so_dataLength s + 1));
     Some (v + addValue, s)
   }"

definition so_scale :: "so_params \<Rightarrow> int \<Rightarrow> int option" where
  "so_scale s v = do {
     let weights = so_loadWeight s + so_remainingWeight s + so_progressiveWeight s;
     _ \<leftarrow> ns_assert (v \<noteq> 0 \<longrightarrow> weights \<noteq> 0);
     let v = (if v \<noteq> 0 then trunc_div v weights else v);
     _ \<leftarrow> ns_assert (0 \<le> v \<and> v \<le> 100);
     Some v
   }"

definition SoRouting_Evaluate ::
    "world \<Rightarrow> packet_ref \<Rightarrow> device_ref \<Rightarrow> so_params \<Rightarrow> (int \<times> so_params) option" where
  "SoRouting_Evaluate w p device s = do {
     router \<leftarrow> device_router w device;
     neighbor \<leftarrow> router_GetNeighborLoad w router device;
     prog \<leftarrow> SoRouting_IsProgressiveDirection w p device;
     channel \<leftarrow> nd_channel (w_devices w device);
     busy \<leftarrow> NocChannel_IsBusy (w_channels w channel) device;
     let v = so_loadWeight s * (100 - neighbor) + (if prog then so_progressiveWeight s * 100 else 0);
     (v, s) \<leftarrow> (if busy then so_add_busy w p device v s else Some (v, s));
     v \<leftarrow> so_scale s v;
     Some (v, s)
   }"

text \<open>The selected devices that are progressive, asked only when there are several.\<close>

fun progressive_devices :: "world \<Rightarrow> packet_ref \<Rightarrow> device_ref list \<Rightarrow> device_ref list \<Rightarrow> device_ref list option" where
  "progressive_devices w p [] acc = Some acc"
| "progressive_devices w p (d # ds) acc = do {
     prog \<leftarrow> SoRouting_IsProgressiveDirection w p d;
     progressive_devices w p ds (if prog then d # acc else acc)
   }"

definition SoRouting_DoSelectionFunction ::
    "(nat \<Rightarrow> nat) \<Rightarrow> world \<Rightarrow> device_ref list \<Rightarrow> packet_ref \<Rightarrow> so_params \<Rightarrow> (device_ref \<times> so_params) option" where
  "SoRouting_DoSelectionFunction pick w devices p s = do {
     (selected, s) \<leftarrow> best_devices (SoRouting_Evaluate w p) devices (- 1) [] s;
     progs \<leftarrow> (if length selected > 1 then progressive_devices w p selected [] else Some []);
     device \<leftarrow> (if length progs > 0 then vec_at progs (pick (length progs))
                else vec_at selected (pick (length selected)));
     Some (device, s)
   }"

definition SoRouting_RequestNewRoute ::
    "(nat \<Rightarrow> nat) \<Rightarrow> device_ref \<Rightarrow> node_ref \<Rightarrow> packet_ref \<Rightarrow> so_params \<Rightarrow> routing_base \<Rightarrow> world
       \<Rightarrow> (route \<times> so_params \<times> routing_base \<times> world) option" where
  "SoRouting_RequestNewRoute pick source destination p s base w = do {
     _ \<leftarrow> routed_header w p;
     devices \<leftarrow> SoRouting_DoRoutingFunction w source p;
     (selected, s) \<leftarrow> SoRouting_DoSelectionFunction pick w devices p s;
     w \<leftarrow> UpdateHeader p selected source w;
     sd \<leftarrow> hop_devices w source destination selected;
     let (route, base) = finish_route p sd base;
     Some (route, s, base, w)
   }"

section \<open>Static load bound routing\<close>

definition SlbRouting_DoRoutingFunction ::
    "world \<Rightarrow> device_ref \<Rightarrow> packet_ref \<Rightarrow> device_ref list option" where
  "SlbRouting_DoRoutingFunction w source p = do {
     router \<leftarrow> device_router w source;
     devices \<leftarrow> router_GetOutputNetDevices w router (w_packets w p) source;
     Some (rev (filter (\<lambda>d. nd_routingDirection (w_devices w d)
       \<noteq> nd_routingDirection (w_devices w source)) devices))
   }"

definition SlbRouting_Evaluate :: "world \<Rightarrow> packet_ref \<Rightarrow> device_ref \<Rightarrow> slb_params \<Rightarrow> (int \<times> slb_params) option" where
  "SlbRouting_Evaluate w p device s = do {
     prog \<leftarrow> SlbRouting_IsProgressiveDirection w p device;
     let v = (if prog then slb_progressiveWeight s else 0);
     router \<leftarrow> device_router w device;
     neighbor \<leftarrow> router_GetNeighborLoad w router device;
     let v = (if neighbor > slb_loadThreshold s then v + slb_loadWeight s else v);
     channel \<leftarrow> nd_channel (w_devices w device);
     busy \<leftarrow> NocChannel_IsBusy (w_channels w channel) device;
     let v = (if busy then v + slb_remainingWeight s else v);
     Some (v, s)
   }"

definition SlbRouting_DoSelectionFunction ::
    "(nat \<Rightarrow> nat) \<Rightarrow> world \<Rightarrow> device_ref list \<Rightarrow> packet_ref \<Rightarrow> slb_params \<Rightarrow> (device_ref \<times> slb_params) option" where
  "SlbRouting_DoSelectionFunction pick w devices p s = do {
     (selected, s) \<leftarrow> best_devices (SlbRouting_Evaluate w p) devices (- 1) [] s;
     device \<leftarrow> vec_at selected (pick (length selected));
     Some (device, s)
   }"

definition SlbRouting_RequestNewRoute ::
    "(nat \<Rightarrow> nat) \<Rightarrow> device_ref \<Rightarrow> node_ref \<Rightarrow> packet_ref \<Rightarrow> slb_params \<Rightarrow> routing_base \<Rightarrow> world
       \<Rightarrow> (route \<times> slb_params \<times> routing_base \<times> world) option" where
  "SlbRouting_RequestNewRoute pick source destination p s base w = do {
     _ \<leftarrow> routed_header w p;
     devices \<leftarrow> SlbRouting_DoRoutingFunction w source p;
     (selected, s) \<leftarrow> SlbRouting_DoSelectionFunction pick w devices p s;
     w \<leftarrow> UpdateHeader p selected source w;
     sd \<leftarrow> hop_devices w source destination selected;
     let (route, base) = finish_route p sd base;
     Some (route, s, base, w)
   }"

section \<open>The selection keeps the best devices\<close>

text \<open>
  What the selection loop needs of an evaluation: on the devices it is asked about it returns
  a value that does not depend on the changing part of the state.
\<close>

locale evaluation =
  fixes eval :: "device_ref \<Rightarrow> 's \<Rightarrow> (int \<times> 's) option"
    and val :: "device_ref \<Rightarrow> int"
    and good :: "'s \<Rightarrow> bool"
    and asked :: "device_ref set"
  assumes eval_val: "d \<in> asked \<Longrightarrow> good s \<Longrightarrow> \<exists>s'. eval d s = Some (val d, s') \<and> good s'"
begin

lemma best_devices_eq:
  assumes "set ds \<subseteq> asked" "good s"
  shows "\<exists>s'. good s' \<and> best_devices eval ds best sel s =
    (let m = foldr max (map val ds) best
     in Some (rev (filter (\<lambda>d. val d = m) ds) @ (if m = best then sel else []), s'))"
  using assms
proof (induction ds arbitrary: best sel s)
  case Nil
  then show ?case by auto
next
  case (Cons d ds)
  then obtain s1 where s1: "eval d s = Some (val d, s1)" "good s1"
    using eval_val [of d s] by auto
  have sub: "set ds \<subseteq> asked" using Cons.prems by simp
  have ge: "b \<le> foldr max xs b" for b :: int and xs by (induction xs) auto
  have mono: "foldr max xs b = max (foldr max xs c) b" if "c \<le> b" for b c :: int and xs
    using that by (induction xs) auto
  show ?case
  proof (cases "val d > best")
    case True
    obtain s2 where s2: "good s2" "best_devices eval ds (val d) [d] s1 =
      (let m = foldr max (map val ds) (val d)
       in Some (rev (filter (\<lambda>d. val d = m) ds) @ (if m = val d then [d] else []), s2))"
      using Cons.IH [OF sub s1(2), of "val d" "[d]"] by blast
    have m: "foldr max (map val (d # ds)) best = foldr max (map val ds) (val d)"
      using mono [of best "val d" "map val ds"] True by (simp add: max.commute)
    have "foldr max (map val ds) (val d) \<noteq> best" using ge [of "val d" "map val ds"] True by linarith
    with True s1 s2 m show ?thesis by (intro exI [of _ s2]) (auto simp: Let_def)
  next
    case False
    obtain s2 where s2: "good s2"
      "best_devices eval ds best (if val d = best then d # sel else sel) s1 =
      (let m = foldr max (map val ds) best
       in Some (rev (filter (\<lambda>d. val d = m) ds) @
         (if m = best then (if val d = best then d # sel else sel) else []), s2))"
      using Cons.IH [OF sub s1(2), of best] by blast
    have m: "foldr max (map val (d # ds)) best = foldr max (map val ds) best"
      using ge [of best "map val ds"] False by simp
    have ne: "val d = foldr max (map val ds) best \<longleftrightarrow>
        val d = best \<and> foldr max (map val ds) best = best"
      using ge [of best "map val ds"] False by linarith
    have "best_devices eval (d # ds) best sel s = Some (let m = foldr max (map val ds) best
       in (rev (filter (\<lambda>d. val d = m) ds) @
         (if m = best then (if val d = best then d # sel else sel) else []), s2))"
      using False s1 s2(2) by (simp add: Let_def)
    with m ne s2(1) show ?thesis by (intro exI [of _ s2]) (auto simp: Let_def)
  qed
qed

lemma foldr_max_int: "foldr max xs (b :: int) = Max (insert b (set xs))"
  by (induction xs) (simp_all add: insert_commute Max_insert)

lemma best_devices_max:
  assumes "set ds \<subseteq> asked" "good s"
  shows "\<exists>sel s'. best_devices eval ds (- 1) [] s = Some (sel, s') \<and> good s' \<and>
    set sel = {d \<in> set ds. val d \<ge> - 1 \<and> (\<forall>d' \<in> set ds. val d' \<le> val d)}"
proof -
  let ?m = "foldr max (map val ds) (- 1)"
  obtain s' where s': "good s'"
    "best_devices eval ds (- 1) [] s = Some (rev (filter (\<lambda>d. val d = ?m) ds), s')"
    using best_devices_eq [OF assms, of "- 1" "[]"] by (auto simp: Let_def)
  have "?m = Max (insert (- 1) (val ` set ds))" by (simp add: foldr_max_int)
  then have "val d = ?m \<longleftrightarrow> val d \<ge> - 1 \<and> (\<forall>d' \<in> set ds. val d' \<le> val d)" if "d \<in> set ds" for d
    using that Max_eq_iff [of "insert (- 1) (val ` set ds)" "val d"] by auto
  with s' show ?thesis by auto
qed

end

lemma slb_Evaluate_state: "SlbRouting_Evaluate w p d s = Some (v, s') \<Longrightarrow> s' = s"
  by (auto simp: SlbRouting_Evaluate_def Option.bind_eq_Some_conv Let_def)

interpretation slb: evaluation "SlbRouting_Evaluate w p" "\<lambda>d. fst (the (SlbRouting_Evaluate w p d s0))"
    "\<lambda>s. s = s0" "{d. SlbRouting_Evaluate w p d s0 \<noteq> None}" for w p s0
  by unfold_locales (auto dest: slb_Evaluate_state)

lemma head_header_routed:
  "routed_header w p = Some h \<Longrightarrow> peeked_tag (w_packets w p) = Some t \<Longrightarrow>
     head_header (w_dims w) (w_packets w p) t = Some h \<and> \<not> NocHeader_IsEmpty h"
  by (auto simp: routed_header_def Option.bind_eq_Some_conv split: if_splits)

lemma so_scale_weights [simp]: "so_scale (s\<lparr>so_dataLength := n\<rparr>) v = so_scale s v"
  by (simp add: so_scale_def)

lemma so_scale_range: "so_scale s v = Some v' \<Longrightarrow> 0 \<le> v' \<and> v' \<le> 100"
  unfolding so_scale_def Let_def bind_ns_assert by (simp split: if_splits)

lemma so_add_busy_weights:
  assumes "routed_header w p = Some h"
  shows "\<exists>v' m. \<forall>n. so_add_busy w p d v (s\<lparr>so_dataLength := n\<rparr>) = Some (v', s\<lparr>so_dataLength := m\<rparr>)"
proof -
  from assms obtain t where t: "peeked_tag (w_packets w p) = Some t"
    by (auto simp: routed_header_def Option.bind_eq_Some_conv)
  note hd = head_header_routed [OF assms t]
  have "so_add_busy w p d v (s\<lparr>so_dataLength := n\<rparr>) = so_add_busy w p d v s" for n
    using hd by (simp add: so_add_busy_def t Let_def)
  moreover have "\<exists>v' m. so_add_busy w p d v s = Some (v', s\<lparr>so_dataLength := m\<rparr>)"
    using hd by (simp add: so_add_busy_def t Let_def split del: if_split) blast
  ultimately show ?thesis by metis
qed

lemma so_Evaluate_weights:
  assumes "SoRouting_Evaluate w p d s0 = Some (v, s1)"
  shows "\<exists>m. SoRouting_Evaluate w p d (s0\<lparr>so_dataLength := n\<rparr>) = Some (v, s0\<lparr>so_dataLength := m\<rparr>)"
proof -
  from assms obtain router neighbor prog channel busy where r: "device_router w d = Some router"
    "router_GetNeighborLoad w router d = Some neighbor"
    "SoRouting_IsProgressiveDirection w p d = Some prog"
    "nd_channel (w_devices w d) = Some channel"
    "NocChannel_IsBusy (w_channels w channel) d = Some busy"
    unfolding SoRouting_Evaluate_def Option.bind_eq_Some_conv by blast
  from r(3) obtain h where h: "routed_header w p = Some h"
    unfolding SoRouting_IsProgressiveDirection_def Option.bind_eq_Some_conv by blast
  let ?v = "so_loadWeight s0 * (100 - neighbor) + (if prog then so_progressiveWeight s0 * 100 else 0)"
  obtain v' m where b: "\<forall>n. so_add_busy w p d ?v (s0\<lparr>so_dataLength := n\<rparr>) = Some (v', s0\<lparr>so_dataLength := m\<rparr>)"
    using so_add_busy_weights [OF h] by blast
  have "so_add_busy w p d ?v s0 = Some (v', s0\<lparr>so_dataLength := m\<rparr>)"
    using b [rule_format, of "so_dataLength s0"] by simp
  with assms b show ?thesis
    by (cases busy) (auto simp: SoRouting_Evaluate_def r Option.bind_eq_Some_conv)
qed

interpretation so: evaluation "SoRouting_Evaluate w p" "\<lambda>d. fst (the (SoRouting_Evaluate w p d s0))"
    "\<lambda>s. \<exists>n. s = s0\<lparr>so_dataLength := n\<rparr>" "{d. SoRouting_Evaluate w p d s0 \<noteq> None}" for w p s0
proof
  fix d s assume "d \<in> {d. SoRouting_Evaluate w p d s0 \<noteq> None}" "\<exists>n. s = s0\<lparr>so_dataLength := n\<rparr>"
  then obtain v s1 n where "SoRouting_Evaluate w p d s0 = Some (v, s1)" "s = s0\<lparr>so_dataLength := n\<rparr>"
    by auto
  with so_Evaluate_weights [of w p d s0 v s1 n]
  show "\<exists>s'. SoRouting_Evaluate w p d s = Some (fst (the (SoRouting_Evaluate w p d s0)), s') \<and>
      (\<exists>n. s' = s0\<lparr>so_dataLength := n\<rparr>)" by auto
qed

lemma progressive_devices_eq:
  "progressive_devices w p ds acc = Some sel \<Longrightarrow>
     set sel = set acc \<union> {d \<in> set ds. SoRouting_IsProgressiveDirection w p d = Some True}"
proof (induction ds arbitrary: acc)
  case Nil
  then show ?case by simp
next
  case (Cons d ds)
  then obtain prog where "SoRouting_IsProgressiveDirection w p d = Some prog"
    "progressive_devices w p ds (if prog then d # acc else acc) = Some sel"
    by (auto simp: Option.bind_eq_Some_conv)
  with Cons.IH show ?case by (cases prog) auto
qed

section \<open>Properties of adaptive routing\<close>

text \<open>If every device can be evaluated, the SLB selection returns a device of the
  list whose value is at least that of every other and at least \<open>-1\<close>; it does not return at all
  exactly when every value is below \<open>-1\<close>, as it may be with the default weights.\<close>

theorem slb_selects_best:
  assumes "\<forall>d \<in> set devices. SlbRouting_Evaluate w p d s = Some (v d, s)"
    and "\<And>n. 0 < n \<Longrightarrow> pick n < n"
  shows "case SlbRouting_DoSelectionFunction pick w devices p s of
     Some (d, s') \<Rightarrow> s' = s \<and> d \<in> set devices \<and> (\<forall>d' \<in> set devices. v d' \<le> v d) \<and> v d \<ge> - 1
   | None \<Rightarrow> \<forall>d \<in> set devices. v d < - 1"
proof -
  have "set devices \<subseteq> {d. SlbRouting_Evaluate w p d s \<noteq> None}" using assms(1) by auto
  from slb.best_devices_max [OF this refl] obtain sel where
    "best_devices (SlbRouting_Evaluate w p) devices (- 1) [] s = Some (sel, s)"
    "set sel = {d \<in> set devices. fst (the (SlbRouting_Evaluate w p d s)) \<ge> - 1 \<and>
      (\<forall>d' \<in> set devices. fst (the (SlbRouting_Evaluate w p d' s)) \<le> fst (the (SlbRouting_Evaluate w p d s)))}"
    by auto
  then have sel: "best_devices (SlbRouting_Evaluate w p) devices (- 1) [] s = Some (sel, s)"
    "set sel = {d \<in> set devices. v d \<ge> - 1 \<and> (\<forall>d' \<in> set devices. v d' \<le> v d)}"
    using assms(1) by auto
  show ?thesis
  proof (cases "sel = []")
    case True
    have "v d < - 1" if "d \<in> set devices" for d
    proof -
      have "Max (v ` set devices) \<in> v ` set devices" using that by (intro Max_in) auto
      then obtain m where "m \<in> set devices" "v m = Max (v ` set devices)" by auto
      then have m: "m \<in> set devices" "\<forall>d' \<in> set devices. v d' \<le> v m" by simp_all
      have "m \<notin> set sel" using True by simp
      then have "v m < - 1" using m unfolding sel(2) by simp
      with m that show ?thesis by force
    qed
    then show ?thesis by (simp add: SlbRouting_DoSelectionFunction_def sel(1) True)
  next
    case False
    then have "sel ! pick (length sel) \<in> set sel" "pick (length sel) < length sel"
      using assms(2) by auto
    then show ?thesis using sel by (auto simp: SlbRouting_DoSelectionFunction_def)
  qed
qed

lemma so_Evaluate_nonneg: "SoRouting_Evaluate w p d s = Some (v, s') \<Longrightarrow> 0 \<le> v"
  unfolding SoRouting_Evaluate_def Option.bind_eq_Some_conv Let_def
  by (auto simp: Option.bind_eq_Some_conv dest: so_scale_range)

lemma so_Evaluate_progressive:
  "SoRouting_Evaluate w p d s = Some (v, s') \<Longrightarrow> SoRouting_IsProgressiveDirection w p d \<noteq> None"
  unfolding SoRouting_Evaluate_def Option.bind_eq_Some_conv by auto

lemma progressive_devices_defined:
  "\<forall>d \<in> set ds. SoRouting_IsProgressiveDirection w p d \<noteq> None \<Longrightarrow>
     \<exists>sel. progressive_devices w p ds acc = Some sel"
  by (induction ds arbitrary: acc) auto

text \<open>C29: if every device can be evaluated, the SO selection returns a device of the
  list whose value is the greatest, and a progressive one when any of the best is
  progressive; it leaves the weights alone. It stops exactly when there is no device.\<close>

theorem so_selects_best:
  assumes "\<forall>d \<in> set devices. \<exists>s'. SoRouting_Evaluate w p d s = Some (v d, s')"
    and "\<And>n. 0 < n \<Longrightarrow> pick n < n"
  shows "case SoRouting_DoSelectionFunction pick w devices p s of
     Some (d, s') \<Rightarrow> d \<in> set devices \<and> (\<forall>d' \<in> set devices. v d' \<le> v d) \<and>
       (\<forall>d' \<in> set devices. v d' = v d \<longrightarrow> SoRouting_IsProgressiveDirection w p d' = Some True \<longrightarrow>
          SoRouting_IsProgressiveDirection w p d = Some True) \<and>
       (\<exists>n. s' = s\<lparr>so_dataLength := n\<rparr>)
   | None \<Rightarrow> devices = []"
proof -
  let ?best = "{d \<in> set devices. \<forall>d' \<in> set devices. v d' \<le> v d}"
  have s0: "\<exists>n. s = s\<lparr>so_dataLength := n\<rparr>" by (intro exI [of _ "so_dataLength s"]) simp
  have "set devices \<subseteq> {d. SoRouting_Evaluate w p d s \<noteq> None}" using assms(1) by auto
  from so.best_devices_max [OF this s0] obtain sel s' n where
    b: "best_devices (SoRouting_Evaluate w p) devices (- 1) [] s = Some (sel, s')"
      "s' = s\<lparr>so_dataLength := n\<rparr>" and
    sel0: "set sel = {d \<in> set devices. fst (the (SoRouting_Evaluate w p d s)) \<ge> - 1 \<and>
      (\<forall>d' \<in> set devices. fst (the (SoRouting_Evaluate w p d' s)) \<le> fst (the (SoRouting_Evaluate w p d s)))}"
    by auto
  have val: "fst (the (SoRouting_Evaluate w p d s)) = v d" "0 \<le> v d" if "d \<in> set devices" for d
    using assms(1) that by (auto dest: so_Evaluate_nonneg)
  have sel: "set sel = ?best" unfolding sel0 using val by fastforce
  have prog: "\<forall>d \<in> set sel. SoRouting_IsProgressiveDirection w p d \<noteq> None"
    using assms(1) sel by (auto dest!: so_Evaluate_progressive)
  show ?thesis
  proof (cases "sel = []")
    case True
    have "devices = []"
    proof (rule ccontr)
      assume "devices \<noteq> []"
      then have "Max (v ` set devices) \<in> v ` set devices" by (intro Max_in) auto
      then obtain m where "m \<in> set devices" "v m = Max (v ` set devices)" by auto
      then have "m \<in> ?best" by simp
      then show False using True unfolding sel [symmetric] by simp
    qed
    then show ?thesis by (simp add: SoRouting_DoSelectionFunction_def b)
  next
    case False
    obtain progs where progs: "progressive_devices w p sel [] = Some progs"
      using progressive_devices_defined [OF prog] by blast
    then have mem: "set progs = {d \<in> ?best. SoRouting_IsProgressiveDirection w p d = Some True}"
      using progressive_devices_eq [OF progs] sel by simp
    define chosen where "chosen = (if length sel > 1 then progs else [])"
    define d where "d = (if chosen \<noteq> [] then chosen ! pick (length chosen) else sel ! pick (length sel))"
    have res: "SoRouting_DoSelectionFunction pick w devices p s = Some (d, s')"
      using False assms(2) by (auto simp: SoRouting_DoSelectionFunction_def b(1) progs chosen_def d_def)
    have d_sel: "d \<in> ?best"
      using False assms(2) sel mem nth_mem [of "pick (length chosen)" chosen] nth_mem [of "pick (length sel)" sel]
      unfolding d_def chosen_def by (auto split: if_splits)
    have "SoRouting_IsProgressiveDirection w p d = Some True"
      if "d' \<in> ?best" "SoRouting_IsProgressiveDirection w p d' = Some True" for d'
    proof (cases "length sel > 1")
      case True
      then have c: "chosen = progs" by (simp add: chosen_def)
      have "d' \<in> set progs" using that unfolding mem by blast
      then have ne: "progs \<noteq> []" by auto
      then have "d \<in> set progs" using assms(2) [of "length progs"] by (simp add: d_def c)
      then show ?thesis unfolding mem by blast
    next
      case f: False
      then have "length sel = 1" using False by (cases sel) auto
      then obtain x where x: "sel = [x]" by (cases sel) auto
      have "d = x" "d' = x" using d_sel that(1) unfolding sel [symmetric] x by simp_all
      with that(2) show ?thesis by simp
    qed
    with d_sel b(2) res show ?thesis by fastforce
  qed
qed

text \<open>
  A four-way router of node 0 with its four devices, each alone on an idle channel, and a head
  flit that has two hops to go to the east and one to the north.
\<close>

definition adaptive_channel :: "device_ref \<Rightarrow> noc_channel" where
  "adaptive_channel d = (w_channels (blank_world 2) 0)\<lparr>c_devices := [d]\<rparr>"

definition adaptive_sample :: world where
  "adaptive_sample = (let dev = (\<lambda>a b c. (facing_device 0 a b)\<lparr>nd_channel := Some c\<rparr>) in
     put_packet 0 (sample_head 7 2 False)
     (put_node 0 \<lparr>n_id = 0, n_router = Some 0, n_devices = []\<rparr>
     (put_router 0 ((w_routers (blank_world 2) 0)\<lparr>r_devices := [10, 11, 12, 13]\<rparr>)
     (put_channel 20 (adaptive_channel 10) (put_channel 21 (adaptive_channel 11)
     (put_channel 22 (adaptive_channel 12) (put_channel 23 (adaptive_channel 13)
     (put_device 10 (dev dir_FORWARD 1 20) (put_device 11 (dev dir_FORWARD 0 21)
     (put_device 12 (dev dir_BACK 1 22) (put_device 13 (dev dir_BACK 0 23)
       (blank_world 2))))))))))))"

definition slb_defaults :: slb_params where
  "slb_defaults = \<lparr>slb_progressiveWeight = 2, slb_remainingWeight = - 1, slb_loadWeight = - 4,
     slb_loadThreshold = 50\<rparr>"

definition so_defaults :: so_params where
  "so_defaults = \<lparr>so_progressiveWeight = 1, so_remainingWeight = 1, so_loadWeight = 1, so_dataLength = - 1\<rparr>"

lemma adaptive_sample_simps [simp]:
  "w_packets adaptive_sample 0 = sample_head 7 2 False"
  "w_dims adaptive_sample = 2"
  "w_routers adaptive_sample 0 = (w_routers (blank_world 2) 0)\<lparr>r_devices := [10, 11, 12, 13]\<rparr>"
  "n_router (w_nodes adaptive_sample 0) = Some 0"
  "w_devices adaptive_sample 10 = (facing_device 0 dir_FORWARD 1)\<lparr>nd_channel := Some 20\<rparr>"
  "w_devices adaptive_sample 11 = (facing_device 0 dir_FORWARD 0)\<lparr>nd_channel := Some 21\<rparr>"
  "w_devices adaptive_sample 12 = (facing_device 0 dir_BACK 1)\<lparr>nd_channel := Some 22\<rparr>"
  "w_devices adaptive_sample 13 = (facing_device 0 dir_BACK 0)\<lparr>nd_channel := Some 23\<rparr>"
  "w_channels adaptive_sample 20 = adaptive_channel 10" "w_channels adaptive_sample 21 = adaptive_channel 11"
  "w_channels adaptive_sample 22 = adaptive_channel 12" "w_channels adaptive_sample 23 = adaptive_channel 13"
  by (simp_all add: adaptive_sample_def Let_def) (simp add: blank_world_def)

lemma adaptive_channel_idle [simp]: "NocChannel_IsBusy (adaptive_channel d) d = Some False"
  by (simp add: NocChannel_IsBusy_def adaptive_channel_def blank_world_def channel_link_def)

lemma adaptive_routed_header [simp]:
  "routed_header adaptive_sample 0 = Some \<lparr>m_distance = [2, 1], m_source = [0, 0]\<rparr>"
  using head_flit_reads [OF head_flit_sample [of 7 2 False]] by (simp add: routed_header_def)

lemma blank_four_way [simp]:
  "r_class (w_routers (blank_world n) r) = FourWayRouter \<lparr>fw_internalInputDevice = 0, fw_internalOutputDevice = 1\<rparr>"
  by (simp add: blank_world_def)

lemma adaptive_progressive [simp]:
  "SoRouting_IsProgressiveDirection adaptive_sample 0 d = SlbRouting_IsProgressiveDirection adaptive_sample 0 d"
  "SlbRouting_IsProgressiveDirection adaptive_sample 0 10 = Some True"
  "SlbRouting_IsProgressiveDirection adaptive_sample 0 11 = Some True"
  "SlbRouting_IsProgressiveDirection adaptive_sample 0 12 = Some False"
  "SlbRouting_IsProgressiveDirection adaptive_sample 0 13 = Some False"
  by (simp_all add: SoRouting_IsProgressiveDirection_def SlbRouting_IsProgressiveDirection_def
      progressive_def header_reads HasForwardDirection_eq goes_back_def dir_defs word_gt_0 hops_def
      offset_bits_0_iff)

lemma adaptive_router [simp]: "d \<in> {10, 11, 12, 13} \<Longrightarrow> device_router adaptive_sample d = Some 0"
  by (auto simp: device_router_def node_router_def)

lemma slb_sample_values:
  "\<forall>d \<in> set [12, 13]. SlbRouting_Evaluate adaptive_sample 0 d slb_defaults = Some (0, slb_defaults)"
  by (simp add: SlbRouting_Evaluate_def router_GetNeighborLoad_def slb_defaults_def)

lemma so_sample_values:
  "\<forall>d \<in> set [11, 13]. \<exists>s'. SoRouting_Evaluate adaptive_sample 0 d so_defaults =
     Some (if d = 11 then 66 else 33, s')"
  by (simp add: SoRouting_Evaluate_def router_GetNeighborLoad_def so_defaults_def so_scale_def
      trunc_div_def)

theorem slb_selects_best_witness:
  "case SlbRouting_DoSelectionFunction (\<lambda>n. n - 1) adaptive_sample [12, 13] 0 slb_defaults of
     Some (d, s') \<Rightarrow> s' = slb_defaults \<and> d \<in> {12, 13} | None \<Rightarrow> False"
  using slb_selects_best [OF slb_sample_values, of "\<lambda>n. n - 1"]
  by (auto split: option.splits)

theorem so_selects_best_witness:
  "\<exists>s'. SoRouting_DoSelectionFunction (\<lambda>n. 0) adaptive_sample [11, 13] 0 so_defaults = Some (11, s')"
  using so_selects_best [OF so_sample_values, of "\<lambda>n. 0"]
  by (auto split: option.splits if_splits)

section \<open>What the header tells after an adaptive hop\<close>

lemma displacement_wrap:
  "hops b = 0 \<Longrightarrow> displacement (with_offset b ((b AND OFFSET_BIT_MASK) - 1)) = - 127"
proof -
  assume "hops b = 0"
  then have z: "b AND OFFSET_BIT_MASK = 0" by (simp add: offset_bits_0_iff)
  have "displacement 0xFF = - 127" "displacement (0xFF OR DIRECTION_BIT_MASK) = - 127"
    by (simp_all add: displacement_def hop_sign_def goes_back_def hops_def DIRECTION_BIT_MASK_def)
  moreover have "(b AND OFFSET_BIT_MASK) - 1 = 0xFF" unfolding z by simp
  ultimately show ?thesis by (simp add: with_offset_def)
qed

lemma update_offset_eq:
  assumes "length (m_distance h) = 2" "dir = dir_FORWARD \<or> dir = dir_BACK" "i < 2"
  shows "update_offset h dir (int i) =
    Some (put_offset h i ((m_distance h ! i AND OFFSET_BIT_MASK) - 1))"
proof -
  have "i = 0 \<or> i = 1" using assms(3) by auto
  then show ?thesis
    using assms(1,2) by (auto simp: update_offset_def GetOffsets_eq SetOffsets_eq)
qed

lemma progressive_eq:
  assumes "length (m_distance h) = 2" "dir = dir_FORWARD \<or> dir = dir_BACK" "i < 2"
  shows "progressive h dir (int i) =
    Some (hops (m_distance h ! i) \<noteq> 0 \<and> dir = dir_of (m_distance h ! i))"
proof -
  have "i = 0 \<or> i = 1" using assms(3) by auto
  then show ?thesis
    using assms(1,2) by (auto simp: progressive_def header_reads word_gt_0 dir_of_def dir_defs)
qed

text \<open>C30: after an adaptive hop through a device of a two-dimensional router the
  header points to the same coordinates as before exactly when the device was progressive. A
  hop in any other direction is counted as if it had been one towards the destination, so the
  flit then looks for its destination in the wrong place.\<close>

theorem adaptive_hop_points_home:
  assumes "length (m_distance h) = 2" "length pos = 2" "dir = dir_FORWARD \<or> dir = dir_BACK" "i < 2"
  shows "\<exists>h'. update_offset h dir (int i) = Some h' \<and>
    (points_to (coord_move pos (i, dir)) h' = points_to pos h \<longleftrightarrow>
      progressive h dir (int i) = Some True)"
proof (cases "hops (m_distance h ! i) = 0")
  case True
  then have "displacement (m_distance h ! i) = 0" by (simp add: displacement_0_iff)
  with True show ?thesis
    using points_to_cong [of pos h i dir] assms
    by (simp add: update_offset_eq progressive_eq displacement_wrap)
next
  case False
  have "displacement (m_distance h ! i) - (if dir_of (m_distance h ! i) = dir_FORWARD then 1 else - 1)
      = displacement (m_distance h ! i) - (if dir = dir_FORWARD then 1 else - 1)
    \<longleftrightarrow> dir = dir_of (m_distance h ! i)"
    using assms(3) by (auto simp: dir_of_def dir_defs)
  with False show ?thesis
    using points_to_cong [of pos h i dir] assms
    by (simp add: update_offset_eq progressive_eq displacement_pred)
qed

theorem adaptive_hop_points_home_witness:
  "\<exists>h'. update_offset \<lparr>m_distance = [2, 1], m_source = [0, 0]\<rparr> dir_BACK 0 = Some h' \<and>
     points_to [4, 5] h' \<noteq> points_to [5, 5] \<lparr>m_distance = [2, 1], m_source = [0, 0]\<rparr>"
proof -
  let ?h = "\<lparr>m_distance = [2, 1], m_source = [0, 0]\<rparr>"
  have "progressive ?h dir_BACK 0 = Some False"
    using progressive_eq [of ?h dir_BACK 0] by (simp add: dir_of_def goes_back_def dir_defs)
  with adaptive_hop_points_home [of ?h "[5, 5]" dir_BACK 0] show ?thesis
    by (auto simp: coord_move_def dir_defs)
qed

lemma so_valid_Nil:
  assumes "routed_header w p = Some h" "NocHeader_GetXOffset h = Some 0"
    and "\<forall>d \<in> set ds. nd_routingDirection (w_devices w d) \<noteq> nd_routingDirection (w_devices w source) \<longrightarrow>
      nd_routingDimension (w_devices w d) = 1 \<longrightarrow> SoRouting_IsProgressiveDirection w p d = Some False"
  shows "so_valid w p source ds valid = Some valid"
  using assms(3) by (induction ds) (auto simp: assms(1,2))

text \<open>C33: SO routing cannot turn into the direction constant of the device a flit entered
  by. A head flit that has reached its column, that still has to go north (or south), and that
  entered a four-way router through the device of the same direction constant, the east (or
  west) one, finds no valid output device: the selection indexes an empty vector.\<close>

theorem so_turn_stuck:
  assumes "device_router w source = Some r" "irvine_of (r_class (w_routers w r)) = None"
    and "routed_header w p = Some h" "length (m_distance h) = 2"
    and "hops (m_distance h ! 0) = 0" "hops (m_distance h ! 1) \<noteq> 0"
    and "nd_routingDirection (w_devices w source) = dir_of (m_distance h ! 1)"
  shows "SoRouting_DoRoutingFunction w source p = Some [] \<and>
    SoRouting_RequestNewRoute pick source destination p s base w = None"
proof -
  have x: "NocHeader_GetXOffset h = Some 0"
    using assms(4,5) by (simp add: GetOffsets_eq offset_bits_0_iff)
  have "SoRouting_IsProgressiveDirection w p d = Some False"
    if "nd_routingDirection (w_devices w d) \<noteq> dir_of (m_distance h ! 1)"
      "nd_routingDimension (w_devices w d) = 1" for d
    using that assms(3-6) unfolding SoRouting_IsProgressiveDirection_def
    by (auto simp: progressive_def header_reads dir_of_def)
  then have "SoRouting_DoRoutingFunction w source p = Some []"
    using assms(1,2,7)
    by (auto simp: SoRouting_DoRoutingFunction_def router_GetOutputNetDevices_def
        intro!: so_valid_Nil [OF assms(3) x])
  then show ?thesis
    using assms(3) by (simp add: SoRouting_RequestNewRoute_def SoRouting_DoSelectionFunction_def)
qed

theorem so_turn_stuck_witness:
  "SoRouting_DoRoutingFunction (put_packet 0 ((sample_head 7 2 False)\<lparr>pk_bytes := [0, 1, 0, 0]\<rparr>) adaptive_sample) 11 0
     = Some []"
proof -
  let ?x = "(sample_head 7 2 False)\<lparr>pk_bytes := [0, 1, 0, 0]\<rparr>"
  let ?w = "put_packet 0 ?x adaptive_sample"
  let ?h = "\<lparr>m_distance = [0, 1], m_source = [0, 0]\<rparr>"
  have "head_flit 2 ?x (sample_tag HEAD 0 2 False) ?h"
    by (simp add: head_flit_def header_fits_def NocHeader_IsEmpty_def NocHeader_Serialize_def)
      (simp add: sample_tag_def sample_head_def)
  note r = head_flit_reads [OF this]
  have rh: "routed_header ?w 0 = Some ?h" using r by (simp add: routed_header_def)
  have "device_router ?w 11 = Some 0" by (simp add: device_router_def node_router_def)
  from so_turn_stuck [OF this _ rh, of "\<lambda>n. 0" 0 so_defaults] show ?thesis
    by (simp add: irvine_of_def hops_def dir_of_def goes_back_def)
qed

end
