(* ===== verification/Noc_Flits.thy ===== *)
theory Noc_Flits
  imports Adaptive_Routing
begin

text \<open>
  The way of a flit through a router: \<^verbatim>\<open>NocRoutingProtocol::RequestRoute\<close>
  (\<^verbatim>\<open>routing/noc-routing-protocol.cc\<close>), which asks the protocol for a route of a head flit and
  repeats it for the flits that follow, and \<^verbatim>\<open>NocRouter::ManageFlit\<close>
  (\<^verbatim>\<open>router/noc-router.cc\<close>), which also counts the flits of a clock cycle. Of the power
  measurement only the assertion on the load is modelled.
\<close>

section \<open>Routes for head flits and for those that follow\<close>

text \<open>The virtual call \<^verbatim>\<open>RequestNewRoute\<close>.\<close>

definition RequestNewRoute ::
    "(nat \<Rightarrow> nat) \<Rightarrow> device_ref \<Rightarrow> node_ref \<Rightarrow> packet_ref \<Rightarrow> routing_class \<Rightarrow> routing_base \<Rightarrow> world
       \<Rightarrow> (route option \<times> routing_class \<times> routing_base \<times> world) option" where
  "RequestNewRoute pick source destination p c base w = (case c of
     XyRouting xFirst \<Rightarrow>
       map_option (\<lambda>(route, base, w). (route, c, base, w))
         (XyRouting_RequestNewRoute xFirst source destination p base w)
   | XyzRouting xFirst xSecond yFirst ySecond \<Rightarrow>
       map_option (\<lambda>(route, base, w). (route, c, base, w))
         (XyzRouting_RequestNewRoute xFirst xSecond yFirst ySecond source destination p base w)
   | DorRouting order \<Rightarrow>
       map_option (\<lambda>(route, base, w). (route, c, base, w))
         (DorRouting_RequestNewRoute order source destination p base w)
   | SoRouting s \<Rightarrow>
       map_option (\<lambda>(route, s, base, w). (Some route, SoRouting s, base, w))
         (SoRouting_RequestNewRoute pick source destination p s base w)
   | SlbRouting s \<Rightarrow>
       map_option (\<lambda>(route, s, base, w). (Some route, SlbRouting s, base, w))
         (SlbRouting_RequestNewRoute pick source destination p s base w))"

text \<open>
  \<^verbatim>\<open>RequestRoute\<close>, over the virtual call it makes. The assertions refuse a null device in the
  maps.
\<close>

definition RequestRoute_with ::
    "(device_ref \<Rightarrow> node_ref \<Rightarrow> packet_ref \<Rightarrow> 'c \<Rightarrow> routing_base \<Rightarrow> world
       \<Rightarrow> (route option \<times> 'c \<times> routing_base \<times> world) option) \<Rightarrow>
     device_ref \<Rightarrow> node_ref \<Rightarrow> packet_ref \<Rightarrow> 'c \<Rightarrow> routing_base \<Rightarrow> world
       \<Rightarrow> (route option \<times> 'c \<times> routing_base \<times> world) option" where
  "RequestRoute_with new_route source destination p c base w = do {
     tag \<leftarrow> peeked_tag (w_packets w p);
     if HEAD = tag_type tag then do {
       (route, c, base, w) \<leftarrow> new_route source destination p c base w;
       let uid = pk_uid (w_packets w p);
       s \<leftarrow> rp_sourceNetDevice base;
       d \<leftarrow> rp_destinationNetDevice base;
       Some (route, c,
         base\<lparr>rp_packetSourceNetDevices := (rp_packetSourceNetDevices base)(uid \<mapsto> s),
           rp_packetDestinationNetDevices := (rp_packetDestinationNetDevices base)(uid \<mapsto> d)\<rparr>, w)
     }
     else do {
       s \<leftarrow> rp_packetSourceNetDevices base (tag_headPacketUid tag);
       d \<leftarrow> rp_packetDestinationNetDevices base (tag_headPacketUid tag);
       Some (Some \<lparr>rt_routedPacket = p, rt_sourceDevice = s, rt_destinationDevice = d\<rparr>, c, base, w)
     }
   }"

definition NocRoutingProtocol_RequestRoute ::
    "(nat \<Rightarrow> nat) \<Rightarrow> device_ref \<Rightarrow> node_ref \<Rightarrow> packet_ref \<Rightarrow> routing_class \<Rightarrow> routing_base \<Rightarrow> world
       \<Rightarrow> (route option \<times> routing_class \<times> routing_base \<times> world) option" where
  "NocRoutingProtocol_RequestRoute pick = RequestRoute_with (RequestNewRoute pick)"

section \<open>What a routing protocol promises\<close>

text \<open>
  The contract that \<^verbatim>\<open>RequestRoute\<close> relies on: a protocol does not touch the maps of the base
  class nor the UID of the packet, and the devices it leaves in the members of the base class
  are those of the route.
\<close>

lemma select_devices_keeps:
  assumes "select_devices w source destination p dir i st = Some st'"
  shows "rp_packetSourceNetDevices (snd st') = rp_packetSourceNetDevices (snd st)"
    and "rp_packetDestinationNetDevices (snd st') = rp_packetDestinationNetDevices (snd st)"
    and "(case fst st of None \<Rightarrow> True | Some rt \<Rightarrow>
        rp_sourceNetDevice (snd st) = Some (rt_sourceDevice rt) \<and>
        rp_destinationNetDevice (snd st) = Some (rt_destinationDevice rt)) \<Longrightarrow>
      (case fst st' of None \<Rightarrow> True | Some rt \<Rightarrow>
        rp_sourceNetDevice (snd st') = Some (rt_sourceDevice rt) \<and>
        rp_destinationNetDevice (snd st') = Some (rt_destinationDevice rt))"
  using assms by (auto simp: select_devices_def Option.bind_eq_Some_conv split: if_splits)

definition route_agrees :: "route option \<times> routing_base \<Rightarrow> bool" where
  "route_agrees st \<longleftrightarrow> (case fst st of None \<Rightarrow> True | Some rt \<Rightarrow>
     rp_sourceNetDevice (snd st) = Some (rt_sourceDevice rt) \<and>
     rp_destinationNetDevice (snd st) = Some (rt_destinationDevice rt))"

definition same_maps :: "routing_base \<Rightarrow> routing_base \<Rightarrow> bool" where
  "same_maps b b' \<longleftrightarrow> rp_packetSourceNetDevices b' = rp_packetSourceNetDevices b \<and>
     rp_packetDestinationNetDevices b' = rp_packetDestinationNetDevices b"

lemma select_devices_contract:
  assumes "select_devices w source destination p dir i st = Some st'" "route_agrees st" "same_maps b (snd st)"
  shows "route_agrees st' \<and> same_maps b (snd st')"
  using select_devices_keeps [OF assms(1)] assms(2,3) by (auto simp: route_agrees_def same_maps_def)

lemma dor_select_contract:
  "dor_select w source destination p ds i st = Some st' \<Longrightarrow> route_agrees st \<Longrightarrow> same_maps b (snd st) \<Longrightarrow>
     route_agrees st' \<and> same_maps b (snd st')"
proof (induction ds arbitrary: i st)
  case Nil
  then show ?case by simp
next
  case (Cons d ds)
  then obtain st1 where "select_devices w source destination p d i st = Some st1"
    "dor_select w source destination p ds (i + 1) st1 = Some st'"
    by (auto simp: Option.bind_eq_Some_conv)
  with Cons select_devices_contract show ?case by blast
qed

lemma new_route_agrees: "route_agrees (None, base)" "same_maps base base"
  by (simp_all add: route_agrees_def same_maps_def)

lemma RemoveHeader_uid: "Packet_RemoveHeader dims x h0 = Some (h, x') \<Longrightarrow> pk_uid x' = pk_uid x"
  by (auto simp: Packet_RemoveHeader_def Buffer_RemoveAtStart_def Option.bind_eq_Some_conv)

lemma AddHeader_uid: "Packet_AddHeader dims x h = Some x' \<Longrightarrow> pk_uid x' = pk_uid x"
  by (auto simp: Packet_AddHeader_def Let_def split: if_splits)

lemma take_header_uid: "take_header dims x = Some (h, x') \<Longrightarrow> pk_uid x' = pk_uid x"
  by (auto simp: take_header_def Option.bind_eq_Some_conv dest: RemoveHeader_uid split: if_splits)

lemma UpdateHeader_uid: "UpdateHeader p d source w = Some w' \<Longrightarrow> pk_uid (w_packets w' p) = pk_uid (w_packets w p)"
  unfolding UpdateHeader_def Let_def
  by (auto simp: Option.bind_eq_Some_conv split: if_splits option.splits dest!: RemoveHeader_uid AddHeader_uid)

text \<open>
  Requests after that of the head flit \<open>u\<close>, none of them for a head flit of the same UID; the
  rest of the network may do anything to the world between two requests.
\<close>

inductive later_requests ::
    "(device_ref \<Rightarrow> node_ref \<Rightarrow> packet_ref \<Rightarrow> 'c \<Rightarrow> routing_base \<Rightarrow> world
       \<Rightarrow> (route option \<times> 'c \<times> routing_base \<times> world) option) \<Rightarrow> u32 \<Rightarrow>
     'c \<times> routing_base \<Rightarrow> 'c \<times> routing_base \<Rightarrow> bool" for new_route u where
  no_request: "later_requests new_route u s s"
| one_request: "later_requests new_route u s (c, base) \<Longrightarrow>
    RequestRoute_with new_route source destination p c base w = Some (rt, c', base', w') \<Longrightarrow>
    \<not> (\<exists>t. peeked_tag (w_packets w p) = Some t \<and> tag_type t = HEAD \<and> pk_uid (w_packets w p) = u) \<Longrightarrow>
    later_requests new_route u s (c', base')"

definition remembers :: "routing_base \<Rightarrow> u32 \<Rightarrow> device_ref \<Rightarrow> device_ref \<Rightarrow> bool" where
  "remembers base u s d \<longleftrightarrow> rp_packetSourceNetDevices base u = Some s \<and>
     rp_packetDestinationNetDevices base u = Some d"

text \<open>The contract as an interface, and its client.\<close>

locale routing_protocol =
  fixes new_route :: "device_ref \<Rightarrow> node_ref \<Rightarrow> packet_ref \<Rightarrow> 'c \<Rightarrow> routing_base \<Rightarrow> world
      \<Rightarrow> (route option \<times> 'c \<times> routing_base \<times> world) option"
  assumes keeps: "new_route source destination p c base w = Some (rt, c', base', w') \<Longrightarrow>
      same_maps base base' \<and> route_agrees (rt, base') \<and> pk_uid (w_packets w' p) = pk_uid (w_packets w p)"
begin

lemma head_remembered:
  assumes "RequestRoute_with new_route source destination p c base w = Some (Some rt, c', base', w')"
    and "peeked_tag (w_packets w p) = Some t" "tag_type t = HEAD"
  shows "remembers base' (pk_uid (w_packets w p)) (rt_sourceDevice rt) (rt_destinationDevice rt)"
proof -
  from assms obtain b where nr: "new_route source destination p c base w = Some (Some rt, c', b, w')"
    and base': "base' = b\<lparr>rp_packetSourceNetDevices := (rp_packetSourceNetDevices b)
         (pk_uid (w_packets w' p) \<mapsto> the (rp_sourceNetDevice b)),
       rp_packetDestinationNetDevices := (rp_packetDestinationNetDevices b)
         (pk_uid (w_packets w' p) \<mapsto> the (rp_destinationNetDevice b))\<rparr>"
    by (auto simp: RequestRoute_with_def Option.bind_eq_Some_conv Let_def)
  from keeps [OF nr] show ?thesis
    by (simp add: base' remembers_def route_agrees_def)
qed

lemma request_remembers:
  assumes "RequestRoute_with new_route source destination p c base w = Some (rt, c', base', w')"
    and "\<not> (\<exists>t. peeked_tag (w_packets w p) = Some t \<and> tag_type t = HEAD \<and> pk_uid (w_packets w p) = u)"
    and "remembers base u s d"
  shows "remembers base' u s d"
proof -
  from assms(1) obtain t where t: "peeked_tag (w_packets w p) = Some t"
    by (auto simp: RequestRoute_with_def Option.bind_eq_Some_conv)
  show ?thesis
  proof (cases "tag_type t = HEAD")
    case False
    then have "HEAD \<noteq> tag_type t" by simp
    with assms(1,3) t show ?thesis
      by (auto simp: RequestRoute_with_def Option.bind_eq_Some_conv)
  next
    case True
    then have ne: "pk_uid (w_packets w p) \<noteq> u" using assms(2) t by blast
    from assms(1) t True obtain b where nr: "new_route source destination p c base w = Some (rt, c', b, w')"
      and base': "base' = b\<lparr>rp_packetSourceNetDevices := (rp_packetSourceNetDevices b)
           (pk_uid (w_packets w' p) \<mapsto> the (rp_sourceNetDevice b)),
         rp_packetDestinationNetDevices := (rp_packetDestinationNetDevices b)
           (pk_uid (w_packets w' p) \<mapsto> the (rp_destinationNetDevice b))\<rparr>"
      by (auto simp: RequestRoute_with_def Option.bind_eq_Some_conv Let_def)
    from keeps [OF nr] ne assms(3) show ?thesis
      by (auto simp: base' remembers_def same_maps_def)
  qed
qed

lemma later_remembers:
  "later_requests new_route u s0 s1 \<Longrightarrow> remembers (snd s0) u s d \<Longrightarrow> remembers (snd s1) u s d"
proof (induction rule: later_requests.induct)
  case (no_request s)
  then show ?case by simp
next
  case (one_request s c base source destination p w rt c' base' w')
  then show ?case using request_remembers by auto
qed

lemma body_follows:
  assumes "RequestRoute_with new_route source destination p c base w = Some (Some rt, c1, base1, w1)"
    and "peeked_tag (w_packets w p) = Some t" "tag_type t = HEAD"
    and "later_requests new_route (pk_uid (w_packets w p)) (c1, base1) (c2, base2)"
    and "peeked_tag (w_packets w2 q) = Some t2" "tag_type t2 \<noteq> HEAD"
    and "tag_headPacketUid t2 = pk_uid (w_packets w p)"
  shows "RequestRoute_with new_route source2 destination2 q c2 base2 w2 =
    Some (Some \<lparr>rt_routedPacket = q, rt_sourceDevice = rt_sourceDevice rt,
      rt_destinationDevice = rt_destinationDevice rt\<rparr>, c2, base2, w2)"
proof -
  have "remembers base2 (pk_uid (w_packets w p)) (rt_sourceDevice rt) (rt_destinationDevice rt)"
    using later_remembers [OF assms(4)] head_remembered [OF assms(1-3)] by simp
  moreover have "HEAD \<noteq> tag_type t2" using assms(6) by simp
  ultimately show ?thesis
    using assms(5,7) by (simp add: RequestRoute_with_def remembers_def)
qed

end

section \<open>All five protocols keep the contract\<close>

lemma xy_keeps:
  assumes "XyRouting_RequestNewRoute b source destination p base w = Some (rt, base', w')"
  shows "same_maps base base' \<and> route_agrees (rt, base') \<and> pk_uid (w_packets w' p) = pk_uid (w_packets w p)"
proof -
  from assms obtain h x h' xd yd x' st1 st2 where s:
    "take_header (w_dims w) (w_packets w p) = Some (h, x)"
    "Packet_AddHeader (w_dims w) x h' = Some x'" "w' = put_packet p x' w"
    "select_devices w' source destination p xd 0 (None, base) = Some st1"
    "select_devices w' source destination p yd 1 st1 = Some st2" "(rt, base') = st2"
    by (auto simp: XyRouting_RequestNewRoute_def Option.bind_eq_Some_conv Let_def)
  then show ?thesis
    using select_devices_contract [OF s(5), of base] select_devices_contract [OF s(4), of base]
      take_header_uid [OF s(1)] AddHeader_uid [OF s(2)] new_route_agrees [of base]
    by (auto dest: sym)
qed

lemma xyz_keeps:
  assumes "XyzRouting_RequestNewRoute a b c d source destination p base w = Some (rt, base', w')"
  shows "same_maps base base' \<and> route_agrees (rt, base') \<and> pk_uid (w_packets w' p) = pk_uid (w_packets w p)"
proof -
  from assms obtain h x h' xd yd zd x' st1 st2 st3 where s:
    "take_header (w_dims w) (w_packets w p) = Some (h, x)"
    "Packet_AddHeader (w_dims w) x h' = Some x'" "w' = put_packet p x' w"
    "select_devices w' source destination p xd 0 (None, base) = Some st1"
    "select_devices w' source destination p yd 1 st1 = Some st2"
    "select_devices w' source destination p zd 2 st2 = Some st3" "(rt, base') = st3"
    by (auto simp: XyzRouting_RequestNewRoute_def Option.bind_eq_Some_conv Let_def)
  then show ?thesis
    using select_devices_contract [OF s(6), of base] select_devices_contract [OF s(5), of base]
      select_devices_contract [OF s(4), of base] take_header_uid [OF s(1)] AddHeader_uid [OF s(2)]
      new_route_agrees [of base]
    by (auto dest: sym)
qed

lemma dor_keeps:
  assumes "DorRouting_RequestNewRoute ro source destination p base w = Some (rt, base', w')"
  shows "same_maps base base' \<and> route_agrees (rt, base') \<and> pk_uid (w_packets w' p) = pk_uid (w_packets w p)"
proof -
  from assms obtain h x h' ds x' st where s:
    "take_header (w_dims w) (w_packets w p) = Some (h, x)"
    "Packet_AddHeader (w_dims w) x h' = Some x'" "w' = put_packet p x' w"
    "dor_select w' source destination p ds 0 (None, base) = Some st" "(rt, base') = st"
    by (auto simp: DorRouting_RequestNewRoute_def Option.bind_eq_Some_conv Let_def)
  then show ?thesis
    using dor_select_contract [OF s(4), of base] take_header_uid [OF s(1)] AddHeader_uid [OF s(2)]
      new_route_agrees [of base]
    by (auto dest: sym)
qed

interpretation noc: routing_protocol "RequestNewRoute pick" for pick
proof
  fix source destination p c base w rt c' base' w'
  assume a: "RequestNewRoute pick source destination p c base w = Some (rt, c', base', w')"
  show "same_maps base base' \<and> route_agrees (rt, base') \<and> pk_uid (w_packets w' p) = pk_uid (w_packets w p)"
  proof (cases c)
    case (SoRouting s)
    with a show ?thesis
      by (auto simp: RequestNewRoute_def SoRouting_RequestNewRoute_def Option.bind_eq_Some_conv
          finish_route_def same_maps_def route_agrees_def dest!: UpdateHeader_uid)
  next
    case (SlbRouting s)
    with a show ?thesis
      by (auto simp: RequestNewRoute_def SlbRouting_RequestNewRoute_def Option.bind_eq_Some_conv
          finish_route_def same_maps_def route_agrees_def dest!: UpdateHeader_uid)
  qed (use a in \<open>auto simp: RequestNewRoute_def dest!: xy_keeps xyz_keeps dor_keeps\<close>)
qed

section \<open>Managing a flit\<close>

text \<open>The assertion of \<^verbatim>\<open>MeasurePowerAndEnergy\<close>: the load, flits by input ports, is at most 1.\<close>

definition load_in_range :: "noc_router \<Rightarrow> bool" where
  "load_in_range r \<longleftrightarrow> unat (r_arrivedFlits r) \<le> unat (router_GetNumberOfInputPorts r)"

text \<open>\<^verbatim>\<open>Simulator::Now ().GetPicoSeconds () / globalClock.GetPicoSeconds () + 1\<close>, where a division by
  zero stops the program.\<close>

definition clock_number :: "world \<Rightarrow> u64 option" where
  "clock_number w = do {
     now \<leftarrow> Time_GetPicoSeconds resolution (TimeStep (w_now w));
     globalClock \<leftarrow> Time_GetPicoSeconds resolution (reg_GlobalClock (w_registry w));
     _ \<leftarrow> ns_assert (globalClock \<noteq> 0);
     Some (word_of_int (trunc_div (sint now) (sint globalClock) + 1))
   }"

lemma picoseconds_of_steps: "Time_GetPicoSeconds resolution (TimeStep n) = Some (n * 1000)"
proof -
  obtain info where i: "Time_PeekInformation Unit_NS Unit_PS = Some info" "ti_toMul info" "unat (ti_factor info) = unit_factor Unit_NS Unit_PS"
    by (rule PeekInformation_fine [of Unit_PS Unit_NS]) simp
  then have "unat (ti_factor info) = unat (1000 :: u64)" by (simp add: unit_factor_def)
  then have "ti_factor info = 1000" by (rule unsigned_word_eqI)
  with i show ?thesis by (simp add: Time_GetPicoSeconds_def Time_ToInteger_def TimeStep_def GetInteger_int Let_def)
qed

lemma short_clock:
  "\<bar>sint t\<bar> < 2 ^ 64 \<Longrightarrow> Time_GetPicoSeconds resolution t = Some v \<Longrightarrow> v = 0"
proof -
  assume t: "\<bar>sint t\<bar> < 2 ^ 64" and v: "Time_GetPicoSeconds resolution t = Some v"
  have "sint (HighPrecision_GetInteger t) = 0" unfolding GetInteger_value using t by (simp add: trunc_div_def)
  then have "sint (HighPrecision_GetInteger t) = sint (0 :: u64)" by simp
  then have z: "HighPrecision_GetInteger t = 0" by (rule signed_word_eqI)
  with v show "v = 0"
    by (auto simp: Time_GetPicoSeconds_def Time_ToInteger_def Option.bind_eq_Some_conv Let_def)
qed

definition count_flit :: "world \<Rightarrow> packet_ref \<Rightarrow> noc_router \<Rightarrow> noc_router option" where
  "count_flit w p r = do {
     let r = r\<lparr>r_powerCounter := r_powerCounter r + 1\<rparr>;
     clockNumber \<leftarrow> clock_number w;
     r \<leftarrow>
       (if clockNumber > r_lastClock r then do {
          _ \<leftarrow> ns_assert (r_flitsFromLastClock r \<noteq> [] \<longrightarrow> load_in_range r);
          Some (r\<lparr>r_flitsFromLastClock := [], r_arrivedFlits := 1, r_lastClock := clockNumber\<rparr>)
        }
        else Some (r\<lparr>r_arrivedFlits := r_arrivedFlits r + 1\<rparr>));
     Some (r\<lparr>r_flitsFromLastClock := r_flitsFromLastClock r @ [p]\<rparr>)
   }"

definition NocRouter_ManageFlit ::
    "(nat \<Rightarrow> nat) \<Rightarrow> router_ref \<Rightarrow> device_ref \<Rightarrow> node_ref \<Rightarrow> packet_ref \<Rightarrow> world \<Rightarrow> (route option \<times> world) option" where
  "NocRouter_ManageFlit pick r source destination p w = do {
     n \<leftarrow> nd_node (w_devices w source);
     if n_id (w_nodes w n) = n_id (w_nodes w destination) then Some (None, w)
     else do {
       r1 \<leftarrow> count_flit w p (w_routers w r);
       let w = put_router r r1 w;
       (c, base) \<leftarrow> r_routingProtocol (w_routers w r);
       (route, c, base, w) \<leftarrow> NocRoutingProtocol_RequestRoute pick source destination p c base w;
       Some (route, put_router r ((w_routers w r)\<lparr>r_routingProtocol := Some (c, base)\<rparr>) w)
     }
   }"

definition NocRouter_MeasurePowerAndEnergyForLastClock :: "world \<Rightarrow> noc_router \<Rightarrow> noc_router option" where
  "NocRouter_MeasurePowerAndEnergyForLastClock w r = do {
     clockNumber \<leftarrow> clock_number w;
     _ \<leftarrow> ns_assert (r_flitsFromLastClock r \<noteq> [] \<longrightarrow> load_in_range r);
     Some (r\<lparr>r_flitsFromLastClock := [], r_arrivedFlits := 0, r_lastClock := clockNumber\<rparr>)
   }"

text \<open>The flits counted are the flits kept.\<close>

definition flits_counted :: "noc_router \<Rightarrow> bool" where
  "flits_counted r \<longleftrightarrow> r_arrivedFlits r = of_nat (length (r_flitsFromLastClock r))"

section \<open>Properties of the way through a router\<close>

text \<open>C3: every flit of a message takes the way of its head flit. Once a route was found
  for a head flit, a body flit that names it gets the same two devices, under all five
  protocols, whatever other requests came between, as long as none was for a head flit of the
  same UID, and whatever happened in the network; asking changes nothing.\<close>

theorem body_follows_head:
  assumes "NocRoutingProtocol_RequestRoute pick source destination p c base w = Some (Some rt, c1, base1, w1)"
    and "peeked_tag (w_packets w p) = Some t" "tag_type t = HEAD"
    and "later_requests (RequestNewRoute pick) (pk_uid (w_packets w p)) (c1, base1) (c2, base2)"
    and "peeked_tag (w_packets w2 q) = Some t2" "tag_type t2 \<noteq> HEAD"
    and "tag_headPacketUid t2 = pk_uid (w_packets w p)"
  shows "NocRoutingProtocol_RequestRoute pick source2 destination2 q c2 base2 w2 =
    Some (Some \<lparr>rt_routedPacket = q, rt_sourceDevice = rt_sourceDevice rt,
      rt_destinationDevice = rt_destinationDevice rt\<rparr>, c2, base2, w2)"
  using noc.body_follows [OF assms(1) [unfolded NocRoutingProtocol_RequestRoute_def] assms(2-7)]
  by (simp add: NocRoutingProtocol_RequestRoute_def)

text \<open>The count of a router. Counting a flit keeps the flits kept and the flits
  counted equal; in the same clock cycle the flit is added, in a later one it is the only one,
  and that step stops the program exactly when the last cycle had more flits than the router
  has input ports. A global clock of less than a time step, a nanosecond, reads as zero
  picoseconds and always stops it.\<close>

theorem flits_of_a_clock:
  assumes "flits_counted r"
  shows "(case (count_flit w p r, clock_number w) of
     (Some r', Some n) \<Rightarrow> flits_counted r' \<and> r_powerCounter r' = r_powerCounter r + 1 \<and>
       (if n > r_lastClock r
        then r_flitsFromLastClock r' = [p] \<and> r_lastClock r' = n
        else r_flitsFromLastClock r' = r_flitsFromLastClock r @ [p] \<and> r_lastClock r' = r_lastClock r)
   | (None, Some n) \<Rightarrow> n > r_lastClock r \<and> r_flitsFromLastClock r \<noteq> [] \<and>
       unat (router_GetNumberOfInputPorts r) < unat (r_arrivedFlits r)
   | (r', None) \<Rightarrow> r' = None) \<and>
   (\<bar>sint (reg_GlobalClock (w_registry w))\<bar> < 2 ^ 64 \<longrightarrow> count_flit w p r = None)"
proof -
  have "clock_number w = None" if "\<bar>sint (reg_GlobalClock (w_registry w))\<bar> < 2 ^ 64"
        using short_clock [OF that] by (auto simp: clock_number_def Option.bind_eq_None_conv)
  then show ?thesis
    using assms
    by (auto simp: count_flit_def flits_counted_def load_in_range_def router_GetNumberOfInputPorts_def Let_def
        split: option.split)
qed

theorem flits_of_a_clock_witness:
  "\<exists>r'. count_flit adaptive_sample 3 (w_routers adaptive_sample 0) = Some r' \<and> r_flitsFromLastClock r' = [3]"
proof -
  have c: "clock_number adaptive_sample = clock_number (blank_world 2)"
    by (simp add: clock_number_def adaptive_sample_def Let_def)
  have n: "clock_number (blank_world 2) = Some 1"
    by (simp add: clock_number_def blank_world_def picoseconds_of_steps trunc_div_def)
  have "flits_counted (w_routers adaptive_sample 0)" "r_lastClock (w_routers adaptive_sample 0) = 0"
    "r_flitsFromLastClock (w_routers adaptive_sample 0) = []"
    by (simp_all add: flits_counted_def blank_world_def)
  with flits_of_a_clock [of "w_routers adaptive_sample 0" 3 adaptive_sample] c n show ?thesis
    by (auto split: option.splits)
qed

text \<open>
  The sample router joined to that of node 1, to which it sends eastwards; XY routing.
\<close>

definition route_sample :: world where
  "route_sample = put_node 1 \<lparr>n_id = 1, n_router = Some 1, n_devices = []\<rparr>
     (put_device 14 (facing_device 1 dir_BACK 0)
     (put_router 1 ((w_routers (blank_world 2) 1)\<lparr>r_devices := [14]\<rparr>) adaptive_sample))"

definition base_sample :: routing_base where
  "base_sample = \<lparr>rp_packetSourceNetDevices = Map.empty, rp_packetDestinationNetDevices = Map.empty,
     rp_sourceNetDevice = None, rp_destinationNetDevice = None\<rparr>"

theorem xy_route_witness:
  "\<exists>w'. XyRouting_RequestNewRoute True 13 1 0 base_sample route_sample = Some
     (Some \<lparr>rt_routedPacket = 0, rt_sourceDevice = 11, rt_destinationDevice = 14\<rparr>,
      base_sample\<lparr>rp_sourceNetDevice := Some 11, rp_destinationNetDevice := Some 14\<rparr>, w')"
proof -
  let ?h = "\<lparr>m_distance = [2, 1], m_source = [0, 0]\<rparr>"
  have hf: "head_flit 2 (w_packets route_sample 0) (sample_tag HEAD 0 2 False) ?h"
    using head_flit_sample [of 7 2 False] by (simp add: route_sample_def)
  have hp: "snd (hop (xy_order True) ?h) = Some (0, dir_FORWARD)"
    by (simp add: hop_def xy_order_def hops_def dir_of_def goes_back_def)
  show ?thesis
    using xy_route [OF _ hf hp, of 13 0 11 1 1 14 base_sample]
    by (auto simp: route_sample_def irvine_of_def device_matches_def device_router_def
        node_router_def dir_defs NocRoutingProtocol_GetOpositeRoutingDirection_def)
qed

lemma route_sample_east:
  "\<exists>w'. XyRouting_RequestNewRoute True 13 1 0 base_sample route_sample = Some
     (Some \<lparr>rt_routedPacket = 0, rt_sourceDevice = 11, rt_destinationDevice = 14\<rparr>,
      base_sample\<lparr>rp_sourceNetDevice := Some 11, rp_destinationNetDevice := Some 14\<rparr>, w')"
proof -
  let ?h = "\<lparr>m_distance = [2, 1], m_source = [0, 0]\<rparr>"
  let ?h' = "\<lparr>m_distance = [1, 1], m_source = [0, 0]\<rparr>"
  have hf: "head_flit 2 (w_packets route_sample 0) (sample_tag HEAD 0 2 False) ?h"
    using head_flit_sample [of 7 2 False] by (simp add: route_sample_def)
  have x: "xy_header True ?h = Some (?h', if (0::nat) = 0 then dir_FORWARD else dir_NONE,
      if (0::nat) = 1 then dir_FORWARD else dir_NONE)" by code_simp
  show ?thesis
    using xy_finish [OF _ hf _ x, of 13 0 11 1 1 14 base_sample]
    by (auto simp: route_sample_def irvine_of_def device_matches_def device_router_def header_fits_def
        node_router_def dir_defs NocRoutingProtocol_GetOpositeRoutingDirection_def)
qed

theorem body_follows_head_witness:
  "\<exists>c base w. NocRoutingProtocol_RequestRoute (\<lambda>n. 0) 13 1 5 (XyRouting True) base w =
     Some (Some \<lparr>rt_routedPacket = 5, rt_sourceDevice = 11, rt_destinationDevice = 14\<rparr>, c, base, w)"
proof -
  obtain w' where r: "XyRouting_RequestNewRoute True 13 1 0 base_sample route_sample = Some
     (Some \<lparr>rt_routedPacket = 0, rt_sourceDevice = 11, rt_destinationDevice = 14\<rparr>,
      base_sample\<lparr>rp_sourceNetDevice := Some 11, rp_destinationNetDevice := Some 14\<rparr>, w')"
    using route_sample_east by blast
  have hf: "head_flit 2 (w_packets route_sample 0) (sample_tag HEAD 0 2 False)
      \<lparr>m_distance = [2, 1], m_source = [0, 0]\<rparr>"
    using head_flit_sample [of 7 2 False] by (simp add: route_sample_def)
  note t = head_flit_reads(1) [OF hf]
  have uid: "pk_uid (w_packets route_sample 0) = 7" by (simp add: route_sample_def)
  obtain base1 where rq: "NocRoutingProtocol_RequestRoute (\<lambda>n. 0) 13 1 0 (XyRouting True) base_sample route_sample
      = Some (Some \<lparr>rt_routedPacket = 0, rt_sourceDevice = 11, rt_destinationDevice = 14\<rparr>,
          XyRouting True, base1, w')"
    using t r by (auto simp: NocRoutingProtocol_RequestRoute_def RequestRoute_with_def RequestNewRoute_def
        sample_tag_def Let_def)
  let ?w2 = "put_packet 5 (sample_body 8 7) w'"
  have t2: "peeked_tag (w_packets ?w2 5) = Some (sample_tag DATA 7 0 False)"
    using body_flit_reads(1) [OF body_flit_sample [of 8 7]] by simp
  have "NocRoutingProtocol_RequestRoute (\<lambda>n. 0) 13 1 5 (XyRouting True) base1 ?w2 =
     Some (Some \<lparr>rt_routedPacket = 5, rt_sourceDevice = 11, rt_destinationDevice = 14\<rparr>, XyRouting True, base1, ?w2)"
    using body_follows_head [OF rq t _ later_requests.no_request t2] uid
    by (simp add: sample_tag_def)
  then show ?thesis by blast
qed

end
