(* ===== verification/Event_Schedulers.thy ===== *)
theory Event_Schedulers
  imports Noc_Prelude "HOL-Library.Multiset"
begin

text \<open>
  The event queues of the simulator: \<^verbatim>\<open>simulator/scheduler.h\<close> (events and their order),
  \<^verbatim>\<open>list-scheduler.cc\<close>, \<^verbatim>\<open>map-scheduler.cc\<close> and \<^verbatim>\<open>heap-scheduler.cc\<close>. An event holds what it
  runs (\<open>'e\<close>, the pointer \<^verbatim>\<open>impl\<close>) and its key. Indices into the heap are natural numbers: a
  vector never has \<open>2 ^ 31\<close> entries.
\<close>

section \<open>Events and their order\<close>

record event_key =
  k_ts :: u64
  k_uid :: u32
  k_context :: u32

record 'e event =
  ev_impl :: 'e
  ev_key :: event_key

text \<open>\<^verbatim>\<open>operator <\<close> on keys.\<close>

definition key_less :: "event_key \<Rightarrow> event_key \<Rightarrow> bool" where
  "key_less a b =
     (if k_ts a < k_ts b then True
      else if k_ts a = k_ts b \<and> k_uid a < k_uid b then True
      else False)"

text \<open>The same order as one number.\<close>

definition rank :: "'e event \<Rightarrow> nat" where
  "rank e = unat (k_ts (ev_key e)) * 2 ^ 32 + unat (k_uid (ev_key e))"

lemma pair_less_iff:
  "(x::nat) < K \<Longrightarrow> y < K \<Longrightarrow> a * K + x < b * K + y \<longleftrightarrow> a < b \<or> a = b \<and> x < y"
proof -
  assume xy: "x < K" "y < K"
  have "a * K + x < b * K + y" if "a < b"
  proof -
    from that have "Suc a * K \<le> b * K" by (intro mult_le_mono1) simp
    with xy show ?thesis by simp
  qed
  moreover have "b * K + y < a * K + x" if "b < a"
  proof -
    from that have "Suc b * K \<le> a * K" by (intro mult_le_mono1) simp
    with xy show ?thesis by simp
  qed
  ultimately show ?thesis by (metis add_less_cancel_left linorder_neqE_nat not_less_iff_gr_or_eq)
qed

lemma key_less_iff: "key_less (ev_key a) (ev_key b) \<longleftrightarrow> rank a < rank b"
  unfolding rank_def by (subst pair_less_iff)
    (auto simp: key_less_def word_less_nat_alt unat_u32_less [simplified] word_unat_eq_iff)

lemma rank_uid: "rank a = rank b \<Longrightarrow> k_uid (ev_key a) = k_uid (ev_key b)"
proof -
  assume "rank a = rank b"
  then have "rank a mod 2 ^ 32 = rank b mod 2 ^ 32" by simp
  moreover have "rank e mod 2 ^ 32 = unat (k_uid (ev_key e))" for e :: "'c event"
    using unat_u32_less [of "k_uid (ev_key e)"] by (simp add: rank_def)
  ultimately show ?thesis
    using unat_u32_less [of "k_uid (ev_key a)"] unat_u32_less [of "k_uid (ev_key b)"]
    by (simp add: rank_def word_unat_eq_iff)
qed

section \<open>The list scheduler\<close>

fun ListScheduler_Insert :: "'e event \<Rightarrow> 'e event list \<Rightarrow> 'e event list" where
  "ListScheduler_Insert ev [] = [ev]"
| "ListScheduler_Insert ev (i # is) =
     (if key_less (ev_key ev) (ev_key i) then ev # i # is else i # ListScheduler_Insert ev is)"

definition ListScheduler_IsEmpty :: "'e event list \<Rightarrow> bool" where
  "ListScheduler_IsEmpty es = (es = [])"

definition ListScheduler_PeekNext :: "'e event list \<Rightarrow> 'e event option" where
  "ListScheduler_PeekNext es = (case es of [] \<Rightarrow> None | e # es \<Rightarrow> Some e)"

definition ListScheduler_RemoveNext :: "'e event list \<Rightarrow> ('e event \<times> 'e event list) option" where
  "ListScheduler_RemoveNext es = (case es of [] \<Rightarrow> None | e # es \<Rightarrow> Some (e, es))"

fun ListScheduler_Remove :: "'e event \<Rightarrow> 'e event list \<Rightarrow> 'e event list option" where
  "ListScheduler_Remove ev [] = None"
| "ListScheduler_Remove ev (i # is) =
     (if k_uid (ev_key i) = k_uid (ev_key ev) then do {
        _ \<leftarrow> ns_assert (ev_impl ev = ev_impl i);
        Some is
      }
      else map_option (\<lambda>is. i # is) (ListScheduler_Remove ev is))"

section \<open>The map scheduler\<close>

text \<open>
  The \<^verbatim>\<open>std::map\<close> is the list of its entries in key order. Two keys are the same entry when
  neither is less; an insertion where there is one leaves the map alone and fails the
  assertion.
\<close>

fun MapScheduler_Insert :: "'e event \<Rightarrow> 'e event list \<Rightarrow> 'e event list option" where
  "MapScheduler_Insert ev [] = Some [ev]"
| "MapScheduler_Insert ev (i # is) =
     (if key_less (ev_key ev) (ev_key i) then Some (ev # i # is)
      else if key_less (ev_key i) (ev_key ev) then map_option (\<lambda>is. i # is) (MapScheduler_Insert ev is)
      else None)"

definition MapScheduler_IsEmpty :: "'e event list \<Rightarrow> bool" where
  "MapScheduler_IsEmpty es = (es = [])"

definition MapScheduler_PeekNext :: "'e event list \<Rightarrow> 'e event option" where
  "MapScheduler_PeekNext es = do { _ \<leftarrow> ns_assert (es \<noteq> []); Some (hd es) }"

definition MapScheduler_RemoveNext :: "'e event list \<Rightarrow> ('e event \<times> 'e event list) option" where
  "MapScheduler_RemoveNext es = do { _ \<leftarrow> ns_assert (es \<noteq> []); Some (hd es, tl es) }"

text \<open>A key that is not there leads to a dereference of the end.\<close>

fun MapScheduler_Remove :: "'e event \<Rightarrow> 'e event list \<Rightarrow> 'e event list option" where
  "MapScheduler_Remove ev [] = None"
| "MapScheduler_Remove ev (i # is) =
     (if \<not> key_less (ev_key ev) (ev_key i) \<and> \<not> key_less (ev_key i) (ev_key ev) then do {
        _ \<leftarrow> ns_assert (ev_impl i = ev_impl ev);
        Some is
      }
      else map_option (\<lambda>is. i # is) (MapScheduler_Remove ev is))"

section \<open>The heap scheduler\<close>

text \<open>The array wastes its first entry. \<open>dummy\<close> is what the constructor puts there.\<close>

definition HeapScheduler_new :: "'e event \<Rightarrow> 'e event list" where
  "HeapScheduler_new dummy = [dummy]"

definition HeapScheduler_Parent :: "nat \<Rightarrow> nat" where "HeapScheduler_Parent i = i div 2"
definition HeapScheduler_LeftChild :: "nat \<Rightarrow> nat" where "HeapScheduler_LeftChild i = i * 2"
definition HeapScheduler_RightChild :: "nat \<Rightarrow> nat" where "HeapScheduler_RightChild i = i * 2 + 1"
definition HeapScheduler_Root :: nat where "HeapScheduler_Root = 1"

definition HeapScheduler_IsRoot :: "nat \<Rightarrow> bool" where
  "HeapScheduler_IsRoot i = (i = HeapScheduler_Root)"

definition HeapScheduler_Last :: "'e event list \<Rightarrow> nat" where
  "HeapScheduler_Last h = length h - 1"

definition HeapScheduler_IsBottom :: "'e event list \<Rightarrow> nat \<Rightarrow> bool" where
  "HeapScheduler_IsBottom h i = (i \<ge> length h)"

definition HeapScheduler_Exch :: "'e event list \<Rightarrow> nat \<Rightarrow> nat \<Rightarrow> 'e event list option" where
  "HeapScheduler_Exch h a b = do {
     _ \<leftarrow> ns_assert (b < length h \<and> a < length h);
     Some (h[a := h ! b, b := h ! a])
   }"

definition HeapScheduler_IsLessStrictly :: "'e event list \<Rightarrow> nat \<Rightarrow> nat \<Rightarrow> bool option" where
  "HeapScheduler_IsLessStrictly h a b = do {
     x \<leftarrow> vec_at h a;
     y \<leftarrow> vec_at h b;
     Some (key_less (ev_key x) (ev_key y))
   }"

definition HeapScheduler_Smallest :: "'e event list \<Rightarrow> nat \<Rightarrow> nat \<Rightarrow> nat option" where
  "HeapScheduler_Smallest h a b = map_option (\<lambda>c. if c then a else b) (HeapScheduler_IsLessStrictly h a b)"

definition HeapScheduler_IsEmpty :: "'e event list \<Rightarrow> bool" where
  "HeapScheduler_IsEmpty h = (length h = 1)"

text \<open>The loops; \<open>None\<close> is also a loop that does not end.\<close>

partial_function (option) bottom_up_loop :: "'e event list \<Rightarrow> nat \<Rightarrow> 'e event list option" where
  "bottom_up_loop h index =
     (if HeapScheduler_IsRoot index then Some h
      else Option.bind (HeapScheduler_IsLessStrictly h index (HeapScheduler_Parent index)) (\<lambda>c.
        if c then Option.bind (HeapScheduler_Exch h index (HeapScheduler_Parent index)) (\<lambda>h.
          bottom_up_loop h (HeapScheduler_Parent index))
        else Some h))"

definition HeapScheduler_BottomUp :: "'e event list \<Rightarrow> 'e event list option" where
  "HeapScheduler_BottomUp h = bottom_up_loop h (HeapScheduler_Last h)"

definition top_down_end :: "'e event list \<Rightarrow> nat \<Rightarrow> 'e event list option" where
  "top_down_end h index =
     (if HeapScheduler_IsBottom h index then Some h
      else let left = HeapScheduler_LeftChild index in
        if HeapScheduler_IsBottom h left then Some h
        else Option.bind (HeapScheduler_IsLessStrictly h index left) (\<lambda>c.
          if c then Some h else HeapScheduler_Exch h index left))"

partial_function (option) HeapScheduler_TopDown :: "'e event list \<Rightarrow> nat \<Rightarrow> 'e event list option" where
  "HeapScheduler_TopDown h index =
     (if \<not> HeapScheduler_IsBottom h (HeapScheduler_RightChild index) then
        Option.bind (HeapScheduler_Smallest h (HeapScheduler_LeftChild index) (HeapScheduler_RightChild index)) (\<lambda>tmp.
          Option.bind (HeapScheduler_IsLessStrictly h index tmp) (\<lambda>c.
            if c then Some h
            else Option.bind (HeapScheduler_Exch h index tmp) (\<lambda>h. HeapScheduler_TopDown h tmp)))
      else top_down_end h index)"

declare bottom_up_loop.simps [code] HeapScheduler_TopDown.simps [code]

definition HeapScheduler_Insert :: "'e event \<Rightarrow> 'e event list \<Rightarrow> 'e event list option" where
  "HeapScheduler_Insert ev h = HeapScheduler_BottomUp (h @ [ev])"

definition HeapScheduler_PeekNext :: "'e event list \<Rightarrow> 'e event option" where
  "HeapScheduler_PeekNext h = vec_at h HeapScheduler_Root"

definition HeapScheduler_RemoveNext :: "'e event list \<Rightarrow> ('e event \<times> 'e event list) option" where
  "HeapScheduler_RemoveNext h = do {
     next \<leftarrow> vec_at h HeapScheduler_Root;
     h \<leftarrow> HeapScheduler_Exch h HeapScheduler_Root (HeapScheduler_Last h);
     h \<leftarrow> HeapScheduler_TopDown (butlast h) HeapScheduler_Root;
     Some (next, h)
   }"

text \<open>The index of the first entry with the UID, from 1 on.\<close>

definition HeapScheduler_Remove :: "'e event \<Rightarrow> 'e event list \<Rightarrow> 'e event list option" where
  "HeapScheduler_Remove ev h = do {
     i \<leftarrow> find (\<lambda>i. k_uid (ev_key (h ! i)) = k_uid (ev_key ev)) [1 ..< length h];
     _ \<leftarrow> ns_assert (ev_impl (h ! i) = ev_impl ev);
     h \<leftarrow> HeapScheduler_Exch h i (HeapScheduler_Last h);
     HeapScheduler_TopDown (butlast h) i
   }"

section \<open>The contract of an event queue\<close>

definition fresh_uid :: "'e event \<Rightarrow> 'e event multiset \<Rightarrow> bool" where
  "fresh_uid e m \<longleftrightarrow> (\<forall>x \<in># m. k_uid (ev_key x) \<noteq> k_uid (ev_key e))"

text \<open>A client that inserts a list of events, and one that takes out \<open>n\<close> of them.\<close>

fun insert_all :: "('e event \<Rightarrow> 's \<Rightarrow> 's option) \<Rightarrow> 'e event list \<Rightarrow> 's \<Rightarrow> 's option" where
  "insert_all ins [] s = Some s"
| "insert_all ins (e # es) s = Option.bind (ins e s) (insert_all ins es)"

fun drain :: "('s \<Rightarrow> ('e event \<times> 's) option) \<Rightarrow> nat \<Rightarrow> 's \<Rightarrow> ('e event list \<times> 's) option" where
  "drain rem 0 s = Some ([], s)"
| "drain rem (Suc n) s = do {
     (e, s) \<leftarrow> rem s;
     (es, s) \<leftarrow> drain rem n s;
     Some (e # es, s)
   }"

locale event_scheduler =
  fixes ins :: "'e event \<Rightarrow> 's \<Rightarrow> 's option"
    and is_empty :: "'s \<Rightarrow> bool"
    and peek :: "'s \<Rightarrow> 'e event option"
    and rem :: "'s \<Rightarrow> ('e event \<times> 's) option"
    and pending :: "'s \<Rightarrow> 'e event multiset"
    and inv :: "'s \<Rightarrow> bool"
  assumes ins_ok: "inv s \<Longrightarrow> fresh_uid e (pending s) \<Longrightarrow>
      \<exists>s'. ins e s = Some s' \<and> inv s' \<and> pending s' = add_mset e (pending s)"
    and is_empty_iff: "inv s \<Longrightarrow> is_empty s \<longleftrightarrow> pending s = {#}"
    and next_ok: "inv s \<Longrightarrow> pending s \<noteq> {#} \<Longrightarrow>
      \<exists>e s'. rem s = Some (e, s') \<and> peek s = Some e \<and> inv s' \<and>
        pending s = add_mset e (pending s') \<and> (\<forall>x \<in># pending s'. rank e \<le> rank x)"
begin

lemma insert_all_ok:
  "inv s \<Longrightarrow> distinct (map (\<lambda>e. k_uid (ev_key e)) es) \<Longrightarrow> \<forall>e \<in> set es. fresh_uid e (pending s) \<Longrightarrow>
    \<exists>s'. insert_all ins es s = Some s' \<and> inv s' \<and> pending s' = pending s + mset es"
proof (induction es arbitrary: s)
  case Nil
  then show ?case by simp
next
  case (Cons e es)
  then obtain s1 where s1: "ins e s = Some s1" "inv s1" "pending s1 = add_mset e (pending s)"
    using ins_ok [of s e] by auto
  have "\<forall>x \<in> set es. fresh_uid x (pending s1)"
  proof
    fix x assume x: "x \<in> set es"
    then have "k_uid (ev_key e) \<noteq> k_uid (ev_key x)" using Cons.prems(2) by force
    with x Cons.prems(3) s1(3) show "fresh_uid x (pending s1)" by (simp add: fresh_uid_def)
  qed
  with Cons.IH [OF s1(2)] Cons.prems(2) s1 show ?case by auto
qed

lemma drain_ok:
  "inv s \<Longrightarrow> n \<le> size (pending s) \<Longrightarrow>
    \<exists>es s'. drain rem n s = Some (es, s') \<and> inv s' \<and> pending s = mset es + pending s' \<and>
      length es = n \<and> sorted (map rank es) \<and> (\<forall>e \<in> set es. \<forall>x \<in># pending s'. rank e \<le> rank x)"
proof (induction n arbitrary: s)
  case 0
  then show ?case by simp
next
  case (Suc n)
  then have "pending s \<noteq> {#}" by auto
  then obtain e s1 where s1: "rem s = Some (e, s1)" "inv s1" "pending s = add_mset e (pending s1)"
    "\<forall>x \<in># pending s1. rank e \<le> rank x" using next_ok [OF Suc.prems(1)] by blast
  then have "n \<le> size (pending s1)" using Suc.prems(2) by simp
  from Suc.IH [OF s1(2) this] obtain es s2 where s2: "drain rem n s1 = Some (es, s2)" "inv s2"
    "pending s1 = mset es + pending s2" "length es = n" "sorted (map rank es)"
    "\<forall>e \<in> set es. \<forall>x \<in># pending s2. rank e \<le> rank x" by blast
  with s1 show ?case by (intro exI [of _ "e # es"] exI [of _ s2]) auto
qed

text \<open>Inserting events with distinct UIDs and taking them all out again sorts them.\<close>

lemma sorts:
  assumes "inv s" "pending s = {#}" "distinct (map (\<lambda>e. k_uid (ev_key e)) es)"
  shows "\<exists>s1 s2 es'. insert_all ins es s = Some s1 \<and> drain rem (length es) s1 = Some (es', s2) \<and>
    mset es' = mset es \<and> sorted (map rank es') \<and> is_empty s2"
proof -
  obtain s1 where s1: "insert_all ins es s = Some s1" "inv s1" "pending s1 = mset es"
    using insert_all_ok [OF assms(1,3)] assms(2) by (auto simp: fresh_uid_def)
  have "length es \<le> size (pending s1)" using s1(3) by simp
  from drain_ok [OF s1(2) this] obtain es' s2 where s2: "drain rem (length es) s1 = Some (es', s2)"
    "inv s2" "mset es = mset es' + pending s2" "length es' = length es" "sorted (map rank es')"
    using s1(3) by auto
  then have "pending s2 = {#}" by (metis add_cancel_right_right size_eq_0_iff_empty size_mset size_union)
  with s1 s2 is_empty_iff show ?thesis by auto
qed

end

text \<open>A queue from which an event can be taken back.\<close>

locale removing_scheduler = event_scheduler ins is_empty peek rem pending inv
  for ins :: "'e event \<Rightarrow> 's \<Rightarrow> 's option" and is_empty peek rem pending inv +
  fixes remove :: "'e event \<Rightarrow> 's \<Rightarrow> 's option"
  assumes remove_ok: "inv s \<Longrightarrow> pending s = add_mset e m \<Longrightarrow> fresh_uid e m \<Longrightarrow>
      \<exists>s'. remove e s = Some s' \<and> inv s' \<and> pending s' = m"
begin

lemma remove_insert:
  assumes "inv s" "fresh_uid e (pending s)"
  shows "\<exists>s1 s2. ins e s = Some s1 \<and> remove e s1 = Some s2 \<and> inv s2 \<and> pending s2 = pending s"
  using ins_ok [OF assms] remove_ok assms(2) by blast

end

section \<open>The list and the map keep the contract\<close>

definition in_order :: "'e event list \<Rightarrow> bool" where
  "in_order es \<longleftrightarrow> sorted (map rank es)"

lemma list_Insert:
  "in_order es \<Longrightarrow> in_order (ListScheduler_Insert ev es) \<and>
     mset (ListScheduler_Insert ev es) = add_mset ev (mset es)"
proof (induction es)
  case Nil
  then show ?case by (simp add: in_order_def)
next
  case (Cons i js)
  then have ih: "in_order (ListScheduler_Insert ev js)"
    "mset (ListScheduler_Insert ev js) = add_mset ev (mset js)" by (simp_all add: in_order_def)
  then have "set (ListScheduler_Insert ev js) = insert ev (set js)"
    by (metis set_mset_add_mset_insert set_mset_mset)
  with Cons.prems ih show ?case by (auto simp: in_order_def key_less_iff)
qed

lemma list_Remove:
  "in_order es \<Longrightarrow> mset es = add_mset ev m \<Longrightarrow> fresh_uid ev m \<Longrightarrow>
    \<exists>es'. ListScheduler_Remove ev es = Some es' \<and> in_order es' \<and> mset es' = m \<and> set es' \<subseteq> set es"
proof (induction es arbitrary: m)
  case Nil
  then show ?case by simp
next
  case (Cons i js)
  show ?case
  proof (cases "k_uid (ev_key i) = k_uid (ev_key ev)")
    case True
    then have "i \<notin># m" using Cons.prems(3) by (auto simp: fresh_uid_def)
    then have "i = ev" using Cons.prems(2) by (metis insert_noteq_member mset.simps(2))
    with True Cons.prems show ?thesis by (auto simp: in_order_def)
  next
    case False
    then have "i \<noteq> ev" by auto
    then obtain m' where m': "m = add_mset i m'" "mset js = add_mset ev m'"
      using Cons.prems(2) by (metis add_eq_conv_ex mset.simps(2))
    with Cons.IH [of m'] Cons.prems obtain es' where "ListScheduler_Remove ev js = Some es'"
      "in_order es'" "mset es' = m'" "set es' \<subseteq> set js" by (auto simp: in_order_def fresh_uid_def)
    with False m' Cons.prems(1) show ?thesis by (auto simp: in_order_def)
  qed
qed

interpretation list_sched: removing_scheduler "\<lambda>e es. Some (ListScheduler_Insert e es)" ListScheduler_IsEmpty
    ListScheduler_PeekNext ListScheduler_RemoveNext mset in_order ListScheduler_Remove
proof
  fix s :: "'a event list" and e
  assume "in_order s" "fresh_uid e (mset s)"
  then show "\<exists>s'. Some (ListScheduler_Insert e s) = Some s' \<and> in_order s' \<and> mset s' = add_mset e (mset s)"
    using list_Insert by blast
next
  fix s :: "'a event list"
  show "ListScheduler_IsEmpty s = (mset s = {#})" by (simp add: ListScheduler_IsEmpty_def)
next
  fix s :: "'a event list"
  assume "in_order s" "mset s \<noteq> {#}"
  then show "\<exists>e s'. ListScheduler_RemoveNext s = Some (e, s') \<and> ListScheduler_PeekNext s = Some e \<and>
      in_order s' \<and> mset s = add_mset e (mset s') \<and> (\<forall>x \<in># mset s'. rank e \<le> rank x)"
    by (cases s) (auto simp: ListScheduler_RemoveNext_def ListScheduler_PeekNext_def in_order_def)
next
  fix s :: "'a event list" and e m
  assume "in_order s" "mset s = add_mset e m" "fresh_uid e m"
  then show "\<exists>s'. ListScheduler_Remove e s = Some s' \<and> in_order s' \<and> mset s' = m"
    using list_Remove by blast
qed

text \<open>With distinct UIDs the map is the list.\<close>

lemma map_Insert: "fresh_uid ev (mset es) \<Longrightarrow> MapScheduler_Insert ev es = Some (ListScheduler_Insert ev es)"
proof (induction es)
  case Nil
  then show ?case by simp
next
  case (Cons i js)
  then have "rank i \<noteq> rank ev" using rank_uid [of i ev] by (auto simp: fresh_uid_def)
  with Cons show ?case by (auto simp: key_less_iff fresh_uid_def)
qed

lemma map_Remove:
  "fresh_uid ev m \<Longrightarrow> mset es = add_mset ev m \<Longrightarrow> MapScheduler_Remove ev es = ListScheduler_Remove ev es"
proof (induction es arbitrary: m)
  case Nil
  then show ?case by simp
next
  case (Cons i js)
  show ?case
  proof (cases "i = ev")
    case True
    then show ?thesis by (simp add: key_less_iff)
  next
    case False
    then obtain m' where m': "m = add_mset i m'" "mset js = add_mset ev m'"
      using Cons.prems(2) by (metis add_eq_conv_ex mset.simps(2))
    then have u: "k_uid (ev_key i) \<noteq> k_uid (ev_key ev)" using Cons.prems(1) by (simp add: fresh_uid_def)
    then have "rank i \<noteq> rank ev" using rank_uid [of i ev] by auto
    with u m' Cons.IH [of m'] Cons.prems(1) show ?thesis by (auto simp: key_less_iff fresh_uid_def)
  qed
qed

interpretation map_sched: removing_scheduler MapScheduler_Insert MapScheduler_IsEmpty
    MapScheduler_PeekNext MapScheduler_RemoveNext mset in_order MapScheduler_Remove
proof
  fix s :: "'a event list" and e
  assume "in_order s" "fresh_uid e (mset s)"
  then show "\<exists>s'. MapScheduler_Insert e s = Some s' \<and> in_order s' \<and> mset s' = add_mset e (mset s)"
    using list_Insert map_Insert by blast
next
  fix s :: "'a event list"
  show "MapScheduler_IsEmpty s = (mset s = {#})" by (simp add: MapScheduler_IsEmpty_def)
next
  fix s :: "'a event list"
  assume "in_order s" "mset s \<noteq> {#}"
  then show "\<exists>e s'. MapScheduler_RemoveNext s = Some (e, s') \<and> MapScheduler_PeekNext s = Some e \<and>
      in_order s' \<and> mset s = add_mset e (mset s') \<and> (\<forall>x \<in># mset s'. rank e \<le> rank x)"
    by (cases s) (auto simp: MapScheduler_RemoveNext_def MapScheduler_PeekNext_def in_order_def)
next
  fix s :: "'a event list" and e m
  assume "in_order s" "mset s = add_mset e m" "fresh_uid e m"
  then show "\<exists>s'. MapScheduler_Remove e s = Some s' \<and> in_order s' \<and> mset s' = m"
    using list_Remove map_Remove by metis
qed

section \<open>The heap keeps the contract of a queue\<close>

definition heap_events :: "'e event list \<Rightarrow> 'e event multiset" where
  "heap_events h = mset (tl h)"

definition heap_ok :: "'e event list \<Rightarrow> bool" where
  "heap_ok h \<longleftrightarrow> 1 \<le> length h \<and>
     (\<forall>j. 2 \<le> j \<longrightarrow> j < length h \<longrightarrow> rank (h ! (j div 2)) \<le> rank (h ! j))"

lemma heap_ok_code [code]:
  "heap_ok h \<longleftrightarrow> 1 \<le> length h \<and>
     list_all (\<lambda>j. \<not> key_less (ev_key (h ! j)) (ev_key (h ! (j div 2)))) [2 ..< length h]"
  by (auto simp: heap_ok_def list_all_iff key_less_iff not_less)

text \<open>In order but for the entry \<open>i\<close>, which may be too small, or too great.\<close>

definition up_ok :: "'e event list \<Rightarrow> nat \<Rightarrow> bool" where
  "up_ok h i \<longleftrightarrow> 1 \<le> i \<and> i < length h \<and>
     (\<forall>j. 2 \<le> j \<longrightarrow> j < length h \<longrightarrow> j \<noteq> i \<longrightarrow> rank (h ! (j div 2)) \<le> rank (h ! j)) \<and>
     (2 \<le> i \<longrightarrow> (\<forall>j < length h. j div 2 = i \<longrightarrow> rank (h ! (i div 2)) \<le> rank (h ! j)))"

definition down_ok :: "'e event list \<Rightarrow> nat \<Rightarrow> bool" where
  "down_ok h i \<longleftrightarrow> 1 \<le> i \<and> 1 \<le> length h \<and>
     (\<forall>j. 2 \<le> j \<longrightarrow> j < length h \<longrightarrow> j div 2 \<noteq> i \<longrightarrow> rank (h ! (j div 2)) \<le> rank (h ! j)) \<and>
     (2 \<le> i \<longrightarrow> (\<forall>j < length h. j div 2 = i \<longrightarrow> rank (h ! (i div 2)) \<le> rank (h ! j)))"

lemmas heap_defs = HeapScheduler_IsRoot_def HeapScheduler_Root_def HeapScheduler_Parent_def
  HeapScheduler_LeftChild_def HeapScheduler_RightChild_def HeapScheduler_IsBottom_def
  HeapScheduler_Smallest_def HeapScheduler_IsLessStrictly_def HeapScheduler_Last_def

lemma mset_tl: "h \<noteq> [] \<Longrightarrow> mset h = add_mset (h ! 0) (mset (tl h))"
  by (cases h) simp_all

lemma Exch_ok:
  assumes "a < length h" "b < length h"
  obtains h' where "HeapScheduler_Exch h a b = Some h'" "length h' = length h"
    "\<And>i. h' ! i = (if i = a then h ! b else if i = b then h ! a else h ! i)"
    "1 \<le> a \<Longrightarrow> 1 \<le> b \<Longrightarrow> heap_events h' = heap_events h"
proof -
  let ?h = "h[a := h ! b, b := h ! a]"
  have n: "?h ! i = (if i = a then h ! b else if i = b then h ! a else h ! i)" for i
    using assms by (cases "i = b"; cases "i = a") auto
  have "heap_events ?h = heap_events h" if "1 \<le> a" "1 \<le> b"
  proof -
    have "mset ?h = mset h" using assms by (simp add: mset_swap)
    moreover have "h \<noteq> []" "?h \<noteq> []" using assms by auto
    moreover have "?h ! 0 = h ! 0" using that n [of 0] by simp
    ultimately show ?thesis unfolding heap_events_def by (metis add_mset_add_mset_same_iff mset_tl)
  qed
  with n assms that show ?thesis by (simp add: HeapScheduler_Exch_def)
qed

lemma bottom_up_ok:
  "up_ok h i \<Longrightarrow> \<exists>h'. bottom_up_loop h i = Some h' \<and> heap_ok h' \<and> heap_events h' = heap_events h \<and>
     length h' = length h"
proof (induction i arbitrary: h rule: less_induct)
  case (less i)
  then have i: "1 \<le> i" "i < length h" by (simp_all add: up_ok_def)
  show ?case
  proof (cases "i = 1")
    case True
    with less.prems show ?thesis
      by (subst bottom_up_loop.simps) (auto simp: heap_defs heap_ok_def up_ok_def)
  next
    case False
    let ?p = "i div 2"
    have p: "1 \<le> ?p" "?p < i" using False i by auto
    have cmp: "HeapScheduler_IsLessStrictly h i ?p = Some (rank (h ! i) < rank (h ! ?p))"
      using i p by (simp add: heap_defs key_less_iff)
    show ?thesis
    proof (cases "rank (h ! i) < rank (h ! ?p)")
      case c: False
      then have "heap_ok h" using less.prems i by (auto simp: heap_ok_def up_ok_def)
      with False c cmp show ?thesis
        by (subst bottom_up_loop.simps) (auto simp: HeapScheduler_IsRoot_def HeapScheduler_Root_def HeapScheduler_Parent_def)
    next
      case c: True
      obtain h' where h': "HeapScheduler_Exch h i ?p = Some h'" "length h' = length h"
        "\<And>k. h' ! k = (if k = i then h ! ?p else if k = ?p then h ! i else h ! k)"
        "heap_events h' = heap_events h"
        using Exch_ok [of i h ?p] i p order.strict_trans [OF p(2) i(2)] by blast
      have o: "\<forall>j. 2 \<le> j \<longrightarrow> j < length h \<longrightarrow> j \<noteq> i \<longrightarrow> rank (h ! (j div 2)) \<le> rank (h ! j)"
        "\<forall>j < length h. j div 2 = i \<longrightarrow> rank (h ! ?p) \<le> rank (h ! j)"
        using less.prems False i by (auto simp: up_ok_def)
      have "up_ok h' ?p"
        unfolding up_ok_def
      proof (intro conjI allI impI)
        show "1 \<le> ?p" "?p < length h'" using p i h'(2) by simp_all
      next
        fix j assume j: "2 \<le> j" "j < length h'" "j \<noteq> ?p"
        have "j div 2 < j" using j(1) by simp
        then consider "j = i" | "j \<noteq> i" "j div 2 = i" | "j \<noteq> i" "j div 2 = ?p" | "j \<noteq> i" "j div 2 \<noteq> i" "j div 2 \<noteq> ?p"
          by blast
        then show "rank (h' ! (j div 2)) \<le> rank (h' ! j)"
          using j o c p h'(2,3) by cases (auto intro: order_trans less_imp_le)
      next
        fix j assume j: "2 \<le> ?p" "j < length h'" "j div 2 = ?p"
        have q: "?p div 2 < ?p" using j(1) by simp
        have "rank (h ! (?p div 2)) \<le> rank (h ! ?p)" using o(1) j p i by auto
        moreover have "2 \<le> j" using j(1,3) by (cases "j < 2") auto
        then have "rank (h ! ?p) \<le> rank (h ! j)" if "j \<noteq> i" using o(1) j that h'(2) by auto
        ultimately show "rank (h' ! (?p div 2)) \<le> rank (h' ! j)"
          using q p j h'(3) by (auto intro: order_trans)
      qed
      from less.IH [OF p(2) this] obtain h'' where "bottom_up_loop h' ?p = Some h''" "heap_ok h''"
        "heap_events h'' = heap_events h'" "length h'' = length h'" by blast
      with False c cmp h' show ?thesis
        by (subst bottom_up_loop.simps) (auto simp: HeapScheduler_IsRoot_def HeapScheduler_Root_def HeapScheduler_Parent_def)
    qed
  qed
qed

lemma down_leaf: "down_ok h i \<Longrightarrow> length h \<le> i * 2 \<Longrightarrow> heap_ok h"
  unfolding down_ok_def heap_ok_def by (metis div_less_iff_less_mult nat_neq_iff not_le order_less_le_trans zero_less_numeral)

lemma down_less:
  "down_ok h i \<Longrightarrow> \<forall>j. j < length h \<longrightarrow> j div 2 = i \<longrightarrow> rank (h ! i) \<le> rank (h ! j) \<Longrightarrow> heap_ok h"
  unfolding down_ok_def heap_ok_def by blast

lemma top_down_end_ok:
  assumes "down_ok h i" "length h \<le> i * 2 + 1"
  shows "\<exists>h'. top_down_end h i = Some h' \<and> heap_ok h' \<and> heap_events h' = heap_events h \<and> length h' = length h"
proof (cases "length h \<le> i * 2")
  case True
  with down_leaf [OF assms(1) True] show ?thesis by (auto simp: top_down_end_def heap_defs)
next
  case False
  then have n: "length h = i * 2 + 1" using assms(2) by simp
  have i: "1 \<le> i" using assms(1) by (simp add: down_ok_def)
  then have only: "j = i * 2" if "j < length h" "j div 2 = i" for j using that n by auto
  have cmp: "HeapScheduler_IsLessStrictly h i (i * 2) = Some (rank (h ! i) < rank (h ! (i * 2)))"
    using n i by (simp add: heap_defs key_less_iff)
  show ?thesis
  proof (cases "rank (h ! i) < rank (h ! (i * 2))")
    case True
    then have "heap_ok h" using down_less [OF assms(1)] only by (metis less_imp_le)
    with True cmp n show ?thesis
      by (auto simp: top_down_end_def HeapScheduler_IsBottom_def HeapScheduler_LeftChild_def Let_def)
  next
    case c: False
    have il: "i < length h" "i * 2 < length h" "1 \<le> i * 2" using n i by auto
    obtain h' where h': "HeapScheduler_Exch h i (i * 2) = Some h'" "length h' = length h"
      "\<And>k. h' ! k = (if k = i then h ! (i * 2) else if k = i * 2 then h ! i else h ! k)"
      "heap_events h' = heap_events h"
      using Exch_ok [OF il(1,2)] il(3) i by blast
    have "heap_ok h'"
      unfolding heap_ok_def
    proof (intro conjI allI impI)
      show "1 \<le> length h'" using h'(2) n by simp
    next
      fix j assume j: "2 \<le> j" "j < length h'"
      have ne: "j div 2 \<noteq> i * 2" using j(2) h'(2) n i by auto
      have d: "\<forall>j. 2 \<le> j \<longrightarrow> j < length h \<longrightarrow> j div 2 \<noteq> i \<longrightarrow> rank (h ! (j div 2)) \<le> rank (h ! j)"
        "2 \<le> i \<longrightarrow> (\<forall>j < length h. j div 2 = i \<longrightarrow> rank (h ! (i div 2)) \<le> rank (h ! j))"
        using assms(1) by (simp_all add: down_ok_def)
      have "j div 2 < j" using j(1) by simp
      have "j div 2 = i \<Longrightarrow> j = i * 2" using only [of j] j(2) unfolding h'(2) by blast
      then consider "j = i" | "j = i * 2" | "j \<noteq> i" "j \<noteq> i * 2" "j div 2 \<noteq> i" by blast
      then show "rank (h' ! (j div 2)) \<le> rank (h' ! j)"
      proof cases
        case 1
        have "rank (h ! (i div 2)) \<le> rank (h ! (i * 2))" using d(2) 1 j(1) n by simp
        with 1 ne h'(3) j(1) show ?thesis by auto
      next
        case 2
        with c i h'(3) show ?thesis by auto
      next
        case 3
        with d(1) j h'(2,3) ne show ?thesis by auto
      qed
    qed
    with c cmp n h' show ?thesis
      by (auto simp: top_down_end_def HeapScheduler_IsBottom_def HeapScheduler_LeftChild_def Let_def)
  qed
qed

lemma swap_child_down:
  assumes d: "down_ok h i" and t: "t div 2 = i" "t < length h" "rank (h ! t) \<le> rank (h ! i)"
    and small: "\<And>j. j < length h \<Longrightarrow> j div 2 = i \<Longrightarrow> rank (h ! t) \<le> rank (h ! j)"
    and h': "length h' = length h" "\<And>k. h' ! k = (if k = i then h ! t else if k = t then h ! i else h ! k)"
  shows "down_ok h' t"
  unfolding down_ok_def
proof (intro conjI allI impI)
  have i: "1 \<le> i" using d by (simp add: down_ok_def)
  have it: "i < t" "2 \<le> t" using i t(1) by auto
  show "1 \<le> t" "1 \<le> length h'" using it t(2) h'(1) by auto
  have o: "\<And>j. 2 \<le> j \<Longrightarrow> j < length h \<Longrightarrow> j div 2 \<noteq> i \<Longrightarrow> rank (h ! (j div 2)) \<le> rank (h ! j)"
    "\<And>j. 2 \<le> i \<Longrightarrow> j < length h \<Longrightarrow> j div 2 = i \<Longrightarrow> rank (h ! (i div 2)) \<le> rank (h ! j)"
    using d by (simp_all add: down_ok_def)
  {
    fix j assume j: "2 \<le> j" "j < length h'" "j div 2 \<noteq> t"
    have lt: "j div 2 < j" using j(1) by simp
    consider "j = i" | "j = t" | "j \<noteq> i" "j \<noteq> t" "j div 2 = i" | "j \<noteq> i" "j \<noteq> t" "j div 2 \<noteq> i" by blast
    then show "rank (h' ! (j div 2)) \<le> rank (h' ! j)"
    proof cases
      case 1
      with o(2) [of t] j t lt it show ?thesis by (simp add: h'(2))
    next
      case 2
      with t it show ?thesis by (simp add: h'(2))
    next
      case 3
      with small [of j] j(2) h'(1) show ?thesis by (simp add: h'(2))
    next
      case 4
      with o(1) [of j] j h'(1) show ?thesis by (simp add: h'(2))
    qed
  }
  {
    fix j assume j: "2 \<le> t" "j < length h'" "j div 2 = t"
    then have "t < j" by auto
    with o(1) [of j] j h'(1) it t(1) show "rank (h' ! (t div 2)) \<le> rank (h' ! j)" by (simp add: h'(2))
  }
qed

lemma smaller_child:
  assumes "i * 2 + 1 < length h"
  obtains t where "HeapScheduler_Smallest h (HeapScheduler_LeftChild i) (HeapScheduler_RightChild i) = Some t"
    "t div 2 = i" "t < length h" "\<And>j. j < length h \<Longrightarrow> j div 2 = i \<Longrightarrow> rank (h ! t) \<le> rank (h ! j)"
proof -
  let ?t = "if rank (h ! (i * 2)) < rank (h ! (i * 2 + 1)) then i * 2 else i * 2 + 1"
  have "HeapScheduler_Smallest h (HeapScheduler_LeftChild i) (HeapScheduler_RightChild i) = Some ?t"
    using assms by (simp add: heap_defs key_less_iff)
  moreover have "?t div 2 = i" "?t < length h" using assms by auto
  moreover have "rank (h ! ?t) \<le> rank (h ! j)" if "j div 2 = i" for j
  proof -
    have "j = i * 2 \<or> j = i * 2 + 1" using that by auto
    then show ?thesis by auto
  qed
  ultimately show ?thesis using that by blast
qed

lemma top_down_ok:
  "down_ok h i \<Longrightarrow> \<exists>h'. HeapScheduler_TopDown h i = Some h' \<and> heap_ok h' \<and>
     heap_events h' = heap_events h \<and> length h' = length h"
proof (induction "length h - i" arbitrary: h i rule: less_induct)
  case less
  have i: "1 \<le> i" using less.prems by (simp add: down_ok_def)
  show ?case
  proof (cases "i * 2 + 1 < length h")
    case False
    then have n: "length h \<le> i * 2 + 1" by simp
    then have "HeapScheduler_TopDown h i = top_down_end h i"
      by (subst HeapScheduler_TopDown.simps) (simp add: HeapScheduler_IsBottom_def HeapScheduler_RightChild_def)
    with top_down_end_ok [OF less.prems n] show ?thesis by simp
  next
    case True
    obtain t where t: "HeapScheduler_Smallest h (HeapScheduler_LeftChild i) (HeapScheduler_RightChild i) = Some t"
      "t div 2 = i" "t < length h" "\<And>j. j < length h \<Longrightarrow> j div 2 = i \<Longrightarrow> rank (h ! t) \<le> rank (h ! j)"
      using smaller_child [OF True] by blast
    have cmp: "HeapScheduler_IsLessStrictly h i t = Some (rank (h ! i) < rank (h ! t))"
      using t(3) True by (simp add: HeapScheduler_IsLessStrictly_def key_less_iff)
    have nb: "\<not> HeapScheduler_IsBottom h (HeapScheduler_RightChild i)"
      using True by (simp add: HeapScheduler_IsBottom_def HeapScheduler_RightChild_def)
    show ?thesis
    proof (cases "rank (h ! i) < rank (h ! t)")
      case c: True
      then have "heap_ok h" using down_less [OF less.prems] t(4) by (meson order.trans less_imp_le)
      with c cmp nb t(1) show ?thesis by (subst HeapScheduler_TopDown.simps) simp
    next
      case c: False
      have il: "i < length h" "i < t" "1 \<le> t" using True t(2) i by auto
      obtain h' where h': "HeapScheduler_Exch h i t = Some h'" "length h' = length h"
        "\<And>k. h' ! k = (if k = i then h ! t else if k = t then h ! i else h ! k)"
        "heap_events h' = heap_events h"
        using Exch_ok [OF il(1) t(3)] il(3) i by blast
      have "rank (h ! t) \<le> rank (h ! i)" using c by simp
      then have "down_ok h' t" using t(4) h'(2,3) by (rule swap_child_down [OF less.prems t(2,3)])
      moreover have "length h' - t < length h - i" using il t(3) h'(2) by simp
      ultimately obtain h'' where "HeapScheduler_TopDown h' t = Some h''" "heap_ok h''"
        "heap_events h'' = heap_events h'" "length h'' = length h'" using less.hyps by blast
      with c cmp nb t(1) h' show ?thesis by (subst HeapScheduler_TopDown.simps) simp
    qed
  qed
qed

lemma heap_root_least: "heap_ok h \<Longrightarrow> 1 \<le> j \<Longrightarrow> j < length h \<Longrightarrow> rank (h ! 1) \<le> rank (h ! j)"
proof (induction j rule: less_induct)
  case (less j)
  show ?case
  proof (cases "j = 1")
    case True
    then show ?thesis by simp
  next
    case False
    then have "rank (h ! 1) \<le> rank (h ! (j div 2))" using less by auto
    also have "\<dots> \<le> rank (h ! j)" using less.prems False by (simp add: heap_ok_def)
    finally show ?thesis .
  qed
qed

lemma heap_Insert:
  assumes "heap_ok h"
  shows "\<exists>h'. HeapScheduler_Insert ev h = Some h' \<and> heap_ok h' \<and> heap_events h' = add_mset ev (heap_events h)"
proof -
  have n: "h \<noteq> []" using assms by (auto simp: heap_ok_def)
  have "up_ok (h @ [ev]) (length h)"
    unfolding up_ok_def
  proof (intro conjI allI impI)
    show "1 \<le> length h" "length h < length (h @ [ev])" using assms by (simp_all add: heap_ok_def)
  next
    fix j assume j: "2 \<le> j" "j < length (h @ [ev])" "j \<noteq> length h"
    then have "j div 2 < length h" by auto
    with j assms show "rank ((h @ [ev]) ! (j div 2)) \<le> rank ((h @ [ev]) ! j)"
      by (simp add: nth_append heap_ok_def)
  next
    fix j assume "2 \<le> length h" "j < length (h @ [ev])" "j div 2 = length h"
    then show "rank ((h @ [ev]) ! (length h div 2)) \<le> rank ((h @ [ev]) ! j)" by simp
  qed
  from bottom_up_ok [OF this] n show ?thesis
    by (auto simp: HeapScheduler_Insert_def HeapScheduler_BottomUp_def HeapScheduler_Last_def heap_events_def)
qed

lemma heap_RemoveNext:
  assumes "heap_ok h" "heap_events h \<noteq> {#}"
  shows "\<exists>e h'. HeapScheduler_RemoveNext h = Some (e, h') \<and> HeapScheduler_PeekNext h = Some e \<and> heap_ok h' \<and>
    heap_events h = add_mset e (heap_events h') \<and> (\<forall>x \<in># heap_events h'. rank e \<le> rank x)"
proof -
  have n: "2 \<le> length h" using assms by (cases h; cases "tl h") (auto simp: heap_events_def)
  let ?L = "length h - 1"
  have l: "1 < length h" "?L < length h" "1 \<le> ?L" using n by auto
  obtain h1 where h1: "HeapScheduler_Exch h 1 ?L = Some h1" "length h1 = length h"
    "\<And>k. h1 ! k = (if k = 1 then h ! ?L else if k = ?L then h ! 1 else h ! k)"
    "heap_events h1 = heap_events h"
    using Exch_ok [OF l(1,2)] l(3) by blast
  have "down_ok (butlast h1) 1"
    unfolding down_ok_def
  proof (intro conjI allI impI)
    show "1 \<le> length (butlast h1)" using n h1(2) by simp
    fix j assume j: "2 \<le> j" "j < length (butlast h1)" "j div 2 \<noteq> 1"
    have b: "j < length h" "j \<noteq> ?L" "j \<noteq> 1" "j div 2 \<noteq> ?L" "j div 2 < length (butlast h1)" using j h1(2) by auto
    then have "h1 ! (j div 2) = h ! (j div 2)" "h1 ! j = h ! j" using j(3) h1(3) by simp_all
    then show "rank (butlast h1 ! (j div 2)) \<le> rank (butlast h1 ! j)"
      using j b(1,5) assms(1) by (simp add: nth_butlast heap_ok_def)
  qed simp_all
  from top_down_ok [OF this] obtain h' where h': "HeapScheduler_TopDown (butlast h1) 1 = Some h'" "heap_ok h'"
    "heap_events h' = heap_events (butlast h1)" by blast
  have "length (tl h1) = ?L" using h1(2) by simp
  with l(3) have "tl h1 \<noteq> []" by (cases "tl h1") auto
  moreover from this have "last (tl h1) = h1 ! ?L"
    using h1(2) n by (simp add: last_conv_nth nth_tl Suc_diff_Suc numeral_2_eq_2)
  ultimately have "mset (tl h1) = add_mset (h1 ! ?L) (mset (butlast (tl h1)))"
    by (metis append_butlast_last_id mset_append add_mset_add_single mset_single_iff_right mset.simps)
  moreover have "h1 ! ?L = h ! 1" using h1(3) [of ?L] by simp
  ultimately have e: "heap_events h = add_mset (h ! 1) (heap_events h')"
    using h'(3) h1(4) by (simp add: heap_events_def butlast_tl)
  have "rank (h ! 1) \<le> rank x" if "x \<in># heap_events h" for x
  proof -
    from that obtain k where "k < length (tl h)" "x = tl h ! k" by (auto simp: heap_events_def in_set_conv_nth)
    then show ?thesis using heap_root_least [OF assms(1), of "Suc k"] by (simp add: nth_tl)
  qed
  then have "\<forall>x \<in># heap_events h'. rank (h ! 1) \<le> rank x" using e by simp
  with e h1(1) h' n show ?thesis
    by (auto simp: HeapScheduler_RemoveNext_def HeapScheduler_PeekNext_def HeapScheduler_Root_def HeapScheduler_Last_def)
qed

interpretation heap_sched: event_scheduler HeapScheduler_Insert HeapScheduler_IsEmpty HeapScheduler_PeekNext
    HeapScheduler_RemoveNext heap_events heap_ok
proof
  fix s :: "'a event list" and e
  assume "heap_ok s"
  then show "\<exists>s'. HeapScheduler_Insert e s = Some s' \<and> heap_ok s' \<and> heap_events s' = add_mset e (heap_events s)"
    by (rule heap_Insert)
next
  fix s :: "'a event list"
  assume "heap_ok s"
  then show "HeapScheduler_IsEmpty s = (heap_events s = {#})"
    by (cases s) (auto simp: HeapScheduler_IsEmpty_def heap_events_def heap_ok_def)
next
  fix s :: "'a event list"
  assume "heap_ok s" "heap_events s \<noteq> {#}"
  then show "\<exists>e s'. HeapScheduler_RemoveNext s = Some (e, s') \<and> HeapScheduler_PeekNext s = Some e \<and>
      heap_ok s' \<and> heap_events s = add_mset e (heap_events s') \<and> (\<forall>x \<in># heap_events s'. rank e \<le> rank x)"
    by (rule heap_RemoveNext)
qed

section \<open>Properties\<close>

text \<open>Events with distinct UIDs inserted into a new heap come out of it
  sorted by time and UID, all of them and only them, and leave it empty; no index leaves the
  array and the loops end.\<close>

theorem heap_schedules:
  assumes "distinct (map (\<lambda>e. k_uid (ev_key e)) es)"
  shows "\<exists>h es' h'. insert_all HeapScheduler_Insert es (HeapScheduler_new dummy) = Some h \<and>
    drain HeapScheduler_RemoveNext (length es) h = Some (es', h') \<and>
    mset es' = mset es \<and> sorted (map rank es') \<and> HeapScheduler_IsEmpty h'"
proof -
  have "heap_ok (HeapScheduler_new dummy)" "heap_events (HeapScheduler_new dummy) = {#}"
    by (simp_all add: HeapScheduler_new_def heap_ok_def heap_events_def)
  from heap_sched.sorts [OF this assms] show ?thesis by blast
qed

lemma sorted_rank_unique:
  assumes "mset xs = mset ys" "sorted (map rank xs)" "sorted (map rank ys)"
    "distinct (map (\<lambda>e. k_uid (ev_key e)) xs)"
  shows "xs = ys"
proof -
  have "inj_on rank (set xs)"
    using assms(4) by (auto simp: inj_on_def distinct_map dest: rank_uid)
  moreover have "set ys = set xs" using assms(1) by (metis set_mset_mset)
  moreover have "map rank xs = map rank ys"
    using assms(1-3) by (metis mset_map properties_for_sort)
  ultimately show ?thesis by (metis inj_on_map_eq_map sup.idem)
qed

definition event_at :: "u64 \<Rightarrow> u32 \<Rightarrow> unit event" where
  "event_at ts uid = \<lparr>ev_impl = (), ev_key = \<lparr>k_ts = ts, k_uid = uid, k_context = 0\<rparr>\<rparr>"

lemma heap_schedules_witness:
  "\<exists>h es' h'. insert_all HeapScheduler_Insert [event_at 9 1, event_at 3 2] (HeapScheduler_new (event_at 0 0)) = Some h \<and>
    drain HeapScheduler_RemoveNext (length [event_at 9 1, event_at 3 2]) h = Some (es', h') \<and>
    mset es' = mset [event_at 9 1, event_at 3 2] \<and> sorted (map rank es') \<and> HeapScheduler_IsEmpty h'"
  by (rule heap_schedules) (simp add: event_at_def)

text \<open>C5: the three queues order the events alike: with distinct UIDs they
  hand out the same sequence, sorted by time and UID.\<close>

theorem schedulers_agree:
  assumes "distinct (map (\<lambda>e. k_uid (ev_key e)) es)"
  shows "\<exists>l m h l' m' h' out. insert_all (\<lambda>e s. Some (ListScheduler_Insert e s)) es [] = Some l \<and>
    insert_all MapScheduler_Insert es [] = Some m \<and>
    insert_all HeapScheduler_Insert es (HeapScheduler_new dummy) = Some h \<and>
    drain ListScheduler_RemoveNext (length es) l = Some (out, l') \<and>
    drain MapScheduler_RemoveNext (length es) m = Some (out, m') \<and>
    drain HeapScheduler_RemoveNext (length es) h = Some (out, h') \<and>
    mset out = mset es \<and> sorted (map rank out)"
proof -
  have i: "in_order []" "mset [] = {#}" "heap_ok (HeapScheduler_new dummy)" "heap_events (HeapScheduler_new dummy) = {#}"
    by (simp_all add: in_order_def HeapScheduler_new_def heap_ok_def heap_events_def)
  obtain l l' lo where l: "insert_all (\<lambda>e s. Some (ListScheduler_Insert e s)) es [] = Some l"
    "drain ListScheduler_RemoveNext (length es) l = Some (lo, l')" "mset lo = mset es" "sorted (map rank lo)"
    using list_sched.sorts [OF i(1,2) assms] by blast
  obtain m m' mo where m: "insert_all MapScheduler_Insert es [] = Some m"
    "drain MapScheduler_RemoveNext (length es) m = Some (mo, m')" "mset mo = mset es" "sorted (map rank mo)"
    using map_sched.sorts [OF i(1,2) assms] by blast
  obtain h h' ho where h: "insert_all HeapScheduler_Insert es (HeapScheduler_new dummy) = Some h"
    "drain HeapScheduler_RemoveNext (length es) h = Some (ho, h')" "mset ho = mset es" "sorted (map rank ho)"
    using heap_sched.sorts [OF i(3,4) assms] by blast
  have "distinct (map (\<lambda>e. k_uid (ev_key e)) lo)" using l(3) assms by (metis mset_eq_imp_distinct_iff mset_map)
  then have "lo = mo" "lo = ho" using l m h by (metis sorted_rank_unique)+
  with l m h show ?thesis by blast
qed

lemma schedulers_agree_witness:
  "\<exists>l m h l' m' h' out.
    insert_all (\<lambda>e s. Some (ListScheduler_Insert e s)) [event_at 9 1, event_at 3 2] [] = Some l \<and>
    insert_all MapScheduler_Insert [event_at 9 1, event_at 3 2] [] = Some m \<and>
    insert_all HeapScheduler_Insert [event_at 9 1, event_at 3 2] (HeapScheduler_new (event_at 0 0)) = Some h \<and>
    drain ListScheduler_RemoveNext (length [event_at 9 1, event_at 3 2]) l = Some (out, l') \<and>
    drain MapScheduler_RemoveNext (length [event_at 9 1, event_at 3 2]) m = Some (out, m') \<and>
    drain HeapScheduler_RemoveNext (length [event_at 9 1, event_at 3 2]) h = Some (out, h') \<and>
    mset out = mset [event_at 9 1, event_at 3 2] \<and> sorted (map rank out)"
  by (rule schedulers_agree) (simp add: event_at_def)

text \<open>C34: removing an event from the middle of the heap can lose its
  order. The last event takes its place and only moves down, so where it is earlier than its
  new parent the parent is run first: here the event at time 10 before the one at time 4.\<close>

theorem heap_remove_disorders:
  "\<exists>h h' h''.
    insert_all HeapScheduler_Insert
      [event_at 1 1, event_at 10 2, event_at 2 3, event_at 11 4, event_at 12 5, event_at 20 6, event_at 4 7]
      (HeapScheduler_new (event_at 0 0)) = Some h \<and>
    heap_ok h \<and> HeapScheduler_Remove (event_at 11 4) h = Some h' \<and> \<not> heap_ok h' \<and>
    drain HeapScheduler_RemoveNext 3 h' = Some ([event_at 1 1, event_at 2 3, event_at 10 2], h'') \<and>
    event_at 4 7 \<in># heap_events h''"
proof -
  let ?e = event_at
  let ?h = "[?e 0 0, ?e 1 1, ?e 10 2, ?e 2 3, ?e 11 4, ?e 12 5, ?e 20 6, ?e 4 7]"
  let ?h' = "[?e 0 0, ?e 1 1, ?e 10 2, ?e 2 3, ?e 4 7, ?e 12 5, ?e 20 6]"
  let ?h'' = "[?e 0 0, ?e 4 7, ?e 12 5, ?e 20 6]"
  have "insert_all HeapScheduler_Insert
      [?e 1 1, ?e 10 2, ?e 2 3, ?e 11 4, ?e 12 5, ?e 20 6, ?e 4 7] (HeapScheduler_new (?e 0 0)) = Some ?h"
    by code_simp
  moreover have "HeapScheduler_Remove (?e 11 4) ?h = Some ?h'" by code_simp
  moreover have "drain HeapScheduler_RemoveNext 3 ?h' = Some ([?e 1 1, ?e 2 3, ?e 10 2], ?h'')" by code_simp
  moreover have "\<not> heap_ok ?h'"
    by code_simp
  moreover have "heap_ok ?h"
    by code_simp
  moreover have "?e 4 7 \<in># heap_events ?h''" by (simp add: heap_events_def)
  ultimately show ?thesis by blast
qed

end
