(* ===== verification/Default_Simulator.thy ===== *)
theory Default_Simulator
  imports Event_Schedulers Sim_Time
begin

text \<open>
  The sequential simulator: \<^verbatim>\<open>simulator/default-simulator-impl.cc\<close>, with \<^verbatim>\<open>event-impl.cc\<close> and
  \<^verbatim>\<open>event-id.cc\<close>. An event implementation is a reference; the model keeps the set of those
  whose \<^verbatim>\<open>m_cancel\<close> is set. What an event does when it is invoked is a script: a tree of calls to
  the simulator, each continuing with what the call answered. The scheduler is a record of its
  virtual functions. Reference counts and the memory they free are not modelled.
\<close>

section \<open>State\<close>

type_synonym event_impl = nat

record 's scheduler =
  sch_Insert :: "event_impl event \<Rightarrow> 's \<Rightarrow> 's option"
  sch_IsEmpty :: "'s \<Rightarrow> bool"
  sch_PeekNext :: "'s \<Rightarrow> event_impl event option"
  sch_RemoveNext :: "'s \<Rightarrow> (event_impl event \<times> 's) option"
  sch_Remove :: "event_impl event \<Rightarrow> 's \<Rightarrow> 's option"

definition ListScheduler :: "event_impl event list scheduler" where
  "ListScheduler = \<lparr>sch_Insert = (\<lambda>e s. Some (ListScheduler_Insert e s)), sch_IsEmpty = ListScheduler_IsEmpty,
     sch_PeekNext = ListScheduler_PeekNext, sch_RemoveNext = ListScheduler_RemoveNext,
     sch_Remove = ListScheduler_Remove\<rparr>"

definition MapScheduler :: "event_impl event list scheduler" where
  "MapScheduler = \<lparr>sch_Insert = MapScheduler_Insert, sch_IsEmpty = MapScheduler_IsEmpty,
     sch_PeekNext = MapScheduler_PeekNext, sch_RemoveNext = MapScheduler_RemoveNext,
     sch_Remove = MapScheduler_Remove\<rparr>"

record event_id =
  id_eventImpl :: "event_impl option"
  id_ts :: u64
  id_context :: u32
  id_uid :: u32

text \<open>The counter \<open>m_unscheduledEvents\<close> is an \<^verbatim>\<open>int\<close> of 32 bits in the code and an integer here; they differ only beyond
  \<open>2 ^ 31\<close> pending events, where the counter of the code overflows.\<close>

record 's simulator =
  m_events :: 's
  m_destroyEvents :: "event_id list"
  m_stop :: bool
  m_uid :: u32
  m_currentUid :: u32
  m_currentTs :: u64
  m_currentContext :: u32
  m_unscheduledEvents :: int
  m_cancelled :: "event_impl set"

definition DefaultSimulatorImpl_new :: "'s \<Rightarrow> 's simulator" where
  "DefaultSimulatorImpl_new events = \<lparr>m_events = events, m_destroyEvents = [], m_stop = False, m_uid = 4,
     m_currentUid = 0, m_currentTs = 0, m_currentContext = 0xffffffff, m_unscheduledEvents = 0,
     m_cancelled = {}\<rparr>"

definition EventImpl_Cancel :: "event_impl \<Rightarrow> 's simulator \<Rightarrow> 's simulator" where
  "EventImpl_Cancel i st = st\<lparr>m_cancelled := insert i (m_cancelled st)\<rparr>"

definition EventImpl_IsCancelled :: "event_impl \<Rightarrow> 's simulator \<Rightarrow> bool" where
  "EventImpl_IsCancelled i st \<longleftrightarrow> i \<in> m_cancelled st"

section \<open>Scheduling\<close>

definition DefaultSimulatorImpl_GetContext :: "'s simulator \<Rightarrow> u32" where
  "DefaultSimulatorImpl_GetContext st = m_currentContext st"

definition DefaultSimulatorImpl_Now :: "'s simulator \<Rightarrow> u128" where
  "DefaultSimulatorImpl_Now st = TimeStep (m_currentTs st)"

text \<open>The end that the three operations share: the event gets the next UID and is inserted.\<close>

definition post_event ::
    "'s scheduler \<Rightarrow> u64 \<Rightarrow> u32 \<Rightarrow> event_impl \<Rightarrow> 's simulator \<Rightarrow> (event_id \<times> 's simulator) option" where
  "post_event S ts context event st = do {
     let ev = \<lparr>ev_impl = event, ev_key = \<lparr>k_ts = ts, k_uid = m_uid st, k_context = context\<rparr>\<rparr>;
     events \<leftarrow> sch_Insert S ev (m_events st);
     Some (\<lparr>id_eventImpl = Some event, id_ts = ts, id_context = context, id_uid = m_uid st\<rparr>,
       st\<lparr>m_uid := m_uid st + 1, m_unscheduledEvents := m_unscheduledEvents st + 1, m_events := events\<rparr>)
   }"

definition DefaultSimulatorImpl_Schedule ::
    "'s scheduler \<Rightarrow> u128 \<Rightarrow> event_impl \<Rightarrow> 's simulator \<Rightarrow> (event_id \<times> 's simulator) option" where
  "DefaultSimulatorImpl_Schedule S time event st = do {
     let tAbsolute = time_add time (TimeStep (m_currentTs st));
     _ \<leftarrow> ns_assert (Time_IsPositive tAbsolute);
     _ \<leftarrow> ns_assert (time_less_eq (TimeStep (m_currentTs st)) tAbsolute);
     post_event S (Time_GetTimeStep tAbsolute) (DefaultSimulatorImpl_GetContext st) event st
   }"

definition DefaultSimulatorImpl_ScheduleWithContext ::
    "'s scheduler \<Rightarrow> u32 \<Rightarrow> u128 \<Rightarrow> event_impl \<Rightarrow> 's simulator \<Rightarrow> 's simulator option" where
  "DefaultSimulatorImpl_ScheduleWithContext S context time event st =
     map_option snd (post_event S (m_currentTs st + Time_GetTimeStep time) context event st)"

definition DefaultSimulatorImpl_ScheduleNow ::
    "'s scheduler \<Rightarrow> event_impl \<Rightarrow> 's simulator \<Rightarrow> (event_id \<times> 's simulator) option" where
  "DefaultSimulatorImpl_ScheduleNow S event st =
     post_event S (m_currentTs st) (DefaultSimulatorImpl_GetContext st) event st"

definition DefaultSimulatorImpl_ScheduleDestroy :: "event_impl \<Rightarrow> 's simulator \<Rightarrow> event_id \<times> 's simulator" where
  "DefaultSimulatorImpl_ScheduleDestroy event st = (let
     newId = \<lparr>id_eventImpl = Some event, id_ts = m_currentTs st, id_context = 0xffffffff, id_uid = 2\<rparr>
   in (newId, st\<lparr>m_destroyEvents := m_destroyEvents st @ [newId], m_uid := m_uid st + 1\<rparr>))"

definition DefaultSimulatorImpl_Stop :: "'s simulator \<Rightarrow> 's simulator" where
  "DefaultSimulatorImpl_Stop st = st\<lparr>m_stop := True\<rparr>"

definition DefaultSimulatorImpl_IsFinished :: "'s scheduler \<Rightarrow> 's simulator \<Rightarrow> bool" where
  "DefaultSimulatorImpl_IsFinished S st \<longleftrightarrow> sch_IsEmpty S (m_events st) \<or> m_stop st"

definition DefaultSimulatorImpl_NextTs :: "'s scheduler \<Rightarrow> 's simulator \<Rightarrow> u64 option" where
  "DefaultSimulatorImpl_NextTs S st = do {
     _ \<leftarrow> ns_assert (\<not> sch_IsEmpty S (m_events st));
     ev \<leftarrow> sch_PeekNext S (m_events st);
     Some (k_ts (ev_key ev))
   }"

section \<open>Expiry, cancellation and removal\<close>

definition DefaultSimulatorImpl_IsExpired :: "event_id \<Rightarrow> 's simulator \<Rightarrow> bool" where
  "DefaultSimulatorImpl_IsExpired ev st =
     (if id_uid ev = 2 then
        (case id_eventImpl ev of None \<Rightarrow> True
         | Some i \<Rightarrow> if EventImpl_IsCancelled i st then True else ev \<notin> set (m_destroyEvents st))
      else (case id_eventImpl ev of None \<Rightarrow> True
         | Some i \<Rightarrow> id_ts ev < m_currentTs st \<or>
             (id_ts ev = m_currentTs st \<and> id_uid ev \<le> m_currentUid st) \<or>
             EventImpl_IsCancelled i st))"

definition DefaultSimulatorImpl_GetDelayLeft :: "event_id \<Rightarrow> 's simulator \<Rightarrow> u128" where
  "DefaultSimulatorImpl_GetDelayLeft ev st =
     (if DefaultSimulatorImpl_IsExpired ev st then TimeStep 0 else TimeStep (id_ts ev - m_currentTs st))"

text \<open>The event that an ID names; its implementation must not be null.\<close>

definition event_of :: "event_id \<Rightarrow> event_impl event" where
  "event_of ev = \<lparr>ev_impl = the (id_eventImpl ev),
     ev_key = \<lparr>k_ts = id_ts ev, k_uid = id_uid ev, k_context = id_context ev\<rparr>\<rparr>"

definition DefaultSimulatorImpl_Remove :: "'s scheduler \<Rightarrow> event_id \<Rightarrow> 's simulator \<Rightarrow> 's simulator option" where
  "DefaultSimulatorImpl_Remove S ev st =
     (if id_uid ev = 2 then Some (st\<lparr>m_destroyEvents := remove1 ev (m_destroyEvents st)\<rparr>)
      else if DefaultSimulatorImpl_IsExpired ev st then Some st
      else do {
        i \<leftarrow> id_eventImpl ev;
        events \<leftarrow> sch_Remove S (event_of ev) (m_events st);
        let st = EventImpl_Cancel i (st\<lparr>m_events := events\<rparr>);
        Some (st\<lparr>m_unscheduledEvents := m_unscheduledEvents st - 1\<rparr>)
      })"

definition DefaultSimulatorImpl_Cancel :: "event_id \<Rightarrow> 's simulator \<Rightarrow> 's simulator option" where
  "DefaultSimulatorImpl_Cancel ev st =
     (if \<not> DefaultSimulatorImpl_IsExpired ev st then do {
        i \<leftarrow> id_eventImpl ev;
        Some (EventImpl_Cancel i st)
      }
      else Some st)"

section \<open>Running\<close>

datatype sim_call =
    Call_Schedule u128 event_impl
  | Call_ScheduleWithContext u32 u128 event_impl
  | Call_ScheduleNow event_impl
  | Call_ScheduleDestroy event_impl
  | Call_Remove event_id
  | Call_Cancel event_id
  | Call_Stop
  | Call_IsExpired event_id
  | Call_Now

datatype sim_answer = No_Answer | Id_Answer event_id | Bool_Answer bool | Time_Answer u128

datatype script = Return | Call sim_call "sim_answer \<Rightarrow> script"

definition simulator_call :: "'s scheduler \<Rightarrow> sim_call \<Rightarrow> 's simulator \<Rightarrow> (sim_answer \<times> 's simulator) option" where
  "simulator_call S c st = (case c of
     Call_Schedule t e \<Rightarrow> map_option (\<lambda>(i, st). (Id_Answer i, st)) (DefaultSimulatorImpl_Schedule S t e st)
   | Call_ScheduleWithContext x t e \<Rightarrow>
       map_option (\<lambda>st. (No_Answer, st)) (DefaultSimulatorImpl_ScheduleWithContext S x t e st)
   | Call_ScheduleNow e \<Rightarrow> map_option (\<lambda>(i, st). (Id_Answer i, st)) (DefaultSimulatorImpl_ScheduleNow S e st)
   | Call_ScheduleDestroy e \<Rightarrow> (let (i, st) = DefaultSimulatorImpl_ScheduleDestroy e st in Some (Id_Answer i, st))
   | Call_Remove i \<Rightarrow> map_option (\<lambda>st. (No_Answer, st)) (DefaultSimulatorImpl_Remove S i st)
   | Call_Cancel i \<Rightarrow> map_option (\<lambda>st. (No_Answer, st)) (DefaultSimulatorImpl_Cancel i st)
   | Call_Stop \<Rightarrow> Some (No_Answer, DefaultSimulatorImpl_Stop st)
   | Call_IsExpired i \<Rightarrow> Some (Bool_Answer (DefaultSimulatorImpl_IsExpired i st), st)
   | Call_Now \<Rightarrow> Some (Time_Answer (DefaultSimulatorImpl_Now st), st))"

primrec run_script :: "'s scheduler \<Rightarrow> script \<Rightarrow> 's simulator \<Rightarrow> 's simulator option" where
  "run_script S Return = (\<lambda>st. Some st)"
| "run_script S (Call c k) = (\<lambda>st. case simulator_call S c st of
     None \<Rightarrow> None | Some (a, st') \<Rightarrow> run_script S (k a) st')"

text \<open>\<^verbatim>\<open>EventImpl::Invoke\<close>; \<open>prog\<close> gives the script of every event implementation.\<close>

definition EventImpl_Invoke ::
    "'s scheduler \<Rightarrow> (event_impl \<Rightarrow> script) \<Rightarrow> event_impl \<Rightarrow> 's simulator \<Rightarrow> 's simulator option" where
  "EventImpl_Invoke S prog i st =
     (if \<not> EventImpl_IsCancelled i st then run_script S (prog i) st else Some st)"

text \<open>The state in which the event that was taken out is invoked.\<close>

definition enter_event :: "event_impl event \<Rightarrow> 's \<Rightarrow> 's simulator \<Rightarrow> 's simulator" where
  "enter_event ev events st = st\<lparr>m_events := events, m_unscheduledEvents := m_unscheduledEvents st - 1,
     m_currentTs := k_ts (ev_key ev), m_currentContext := k_context (ev_key ev),
     m_currentUid := k_uid (ev_key ev)\<rparr>"

definition DefaultSimulatorImpl_ProcessOneEvent ::
    "'s scheduler \<Rightarrow> (event_impl \<Rightarrow> script) \<Rightarrow> 's simulator \<Rightarrow> 's simulator option" where
  "DefaultSimulatorImpl_ProcessOneEvent S prog st = do {
     (ev, events) \<leftarrow> sch_RemoveNext S (m_events st);
     _ \<leftarrow> ns_assert (m_currentTs st \<le> k_ts (ev_key ev));
     EventImpl_Invoke S prog (ev_impl ev) (enter_event ev events st)
   }"

partial_function (option) run_loop ::
    "'s scheduler \<Rightarrow> (event_impl \<Rightarrow> script) \<Rightarrow> 's simulator \<Rightarrow> 's simulator option" where
  "run_loop S prog st =
     (if \<not> sch_IsEmpty S (m_events st) \<and> \<not> m_stop st
      then Option.bind (DefaultSimulatorImpl_ProcessOneEvent S prog st) (run_loop S prog)
      else Some st)"

definition DefaultSimulatorImpl_Run ::
    "'s scheduler \<Rightarrow> (event_impl \<Rightarrow> script) \<Rightarrow> 's simulator \<Rightarrow> 's simulator option" where
  "DefaultSimulatorImpl_Run S prog st = do {
     st \<leftarrow> run_loop S prog (st\<lparr>m_stop := False\<rparr>);
     _ \<leftarrow> ns_assert (\<not> sch_IsEmpty S (m_events st) \<or> m_unscheduledEvents st = 0);
     Some st
   }"

text \<open>\<^verbatim>\<open>Destroy\<close> runs the destroy events in the order in which they were scheduled.\<close>

partial_function (option) DefaultSimulatorImpl_Destroy ::
    "'s scheduler \<Rightarrow> (event_impl \<Rightarrow> script) \<Rightarrow> 's simulator \<Rightarrow> 's simulator option" where
  "DefaultSimulatorImpl_Destroy S prog st = (case m_destroyEvents st of
     [] \<Rightarrow> Some st
   | ev # rest \<Rightarrow> Option.bind (id_eventImpl ev) (\<lambda>i.
       Option.bind (EventImpl_Invoke S prog i (st\<lparr>m_destroyEvents := rest\<rparr>))
         (DefaultSimulatorImpl_Destroy S prog)))"

text \<open>\<^verbatim>\<open>SetScheduler\<close> moves the events into the new scheduler.\<close>

partial_function (option) move_events :: "'s scheduler \<Rightarrow> 't scheduler \<Rightarrow> 's \<Rightarrow> 't \<Rightarrow> 't option" where
  "move_events S T s t =
     (if sch_IsEmpty S s then Some t
      else Option.bind (sch_RemoveNext S s) (\<lambda>r.
        Option.bind (sch_Insert T (fst r) t) (move_events S T (snd r))))"

definition DefaultSimulatorImpl_SetScheduler ::
    "'s scheduler \<Rightarrow> 't scheduler \<Rightarrow> 't \<Rightarrow> 's simulator \<Rightarrow> 't simulator option" where
  "DefaultSimulatorImpl_SetScheduler S T events0 st = do {
     events \<leftarrow> move_events S T (m_events st) events0;
     Some \<lparr>m_events = events, m_destroyEvents = m_destroyEvents st, m_stop = m_stop st, m_uid = m_uid st,
       m_currentUid = m_currentUid st, m_currentTs = m_currentTs st, m_currentContext = m_currentContext st,
       m_unscheduledEvents = m_unscheduledEvents st, m_cancelled = m_cancelled st\<rparr>
   }"

section \<open>The invariant\<close>

text \<open>The place in the order of events that the simulator has reached.\<close>

definition now_rank :: "'s simulator \<Rightarrow> nat" where
  "now_rank st = unat (m_currentTs st) * 2 ^ 32 + unat (m_currentUid st)"

definition uid_of :: "'e event \<Rightarrow> nat" where
  "uid_of e = unat (k_uid (ev_key e))"

definition distinct_uids :: "'e event multiset \<Rightarrow> bool" where
  "distinct_uids m \<longleftrightarrow> (\<forall>e m'. m = add_mset e m' \<longrightarrow> fresh_uid e m')"

lemma distinct_uids_empty: "distinct_uids {#}"
  by (simp add: distinct_uids_def)

lemma distinct_uids_add: "distinct_uids (add_mset e m) \<longleftrightarrow> distinct_uids m \<and> fresh_uid e m"
proof
  assume d: "distinct_uids (add_mset e m)"
  have "fresh_uid x m'" if "m = add_mset x m'" for x m'
  proof -
    have "add_mset e m = add_mset x (add_mset e m')" using that by (simp add: add_mset_commute)
    with d have "fresh_uid x (add_mset e m')" unfolding distinct_uids_def by blast
    then show ?thesis by (simp add: fresh_uid_def)
  qed
  then show "distinct_uids m \<and> fresh_uid e m" using d by (simp add: distinct_uids_def)
next
  assume d: "distinct_uids m \<and> fresh_uid e m"
  show "distinct_uids (add_mset e m)"
    unfolding distinct_uids_def
  proof (intro allI impI)
    fix x m' assume "add_mset e m = add_mset x m'"
    then consider "e = x" "m = m'" | m'' where "m = add_mset x m''" "m' = add_mset e m''"
      by (auto simp: add_eq_conv_ex)
    then show "fresh_uid x m'"
    proof cases
      case 2
      then show ?thesis using d by (auto simp: distinct_uids_def fresh_uid_def)
    qed (use d in simp)
  qed
qed

definition sim_ok :: "('s \<Rightarrow> event_impl event multiset) \<Rightarrow> ('s \<Rightarrow> bool) \<Rightarrow> 's simulator \<Rightarrow> bool" where
  "sim_ok pending good st \<longleftrightarrow> good (m_events st) \<and> distinct_uids (pending (m_events st)) \<and>
     4 \<le> unat (m_uid st) \<and> unat (m_currentUid st) < unat (m_uid st) \<and> unat (m_currentTs st) < 2 ^ 63 \<and>
     (\<forall>e \<in># pending (m_events st). now_rank st < rank e \<and> 4 \<le> uid_of e \<and> uid_of e < unat (m_uid st) \<and>
        unat (k_ts (ev_key e)) < 2 ^ 63) \<and>
     m_unscheduledEvents st = int (size (pending (m_events st)))"

text \<open>What a client must observe: no negative delay, no overflow of time or of the UIDs, and only
  events that are in the queue are removed from it.\<close>

fun call_ok :: "('s \<Rightarrow> event_impl event multiset) \<Rightarrow> 's simulator \<Rightarrow> sim_call \<Rightarrow> bool" where
  "call_ok pending st (Call_Schedule t e) \<longleftrightarrow> uint (m_uid st) + 1 < 2 ^ 32 \<and>
     0 \<le> sint t \<and> sint t + uint (m_currentTs st) * 2 ^ 64 < 2 ^ 127"
| "call_ok pending st (Call_ScheduleWithContext x t e) \<longleftrightarrow> uint (m_uid st) + 1 < 2 ^ 32 \<and>
     0 \<le> sint t \<and> sint t + uint (m_currentTs st) * 2 ^ 64 < 2 ^ 127"
| "call_ok pending st (Call_ScheduleNow e) \<longleftrightarrow> uint (m_uid st) + 1 < 2 ^ 32"
| "call_ok pending st (Call_ScheduleDestroy e) \<longleftrightarrow> uint (m_uid st) + 1 < 2 ^ 32"
| "call_ok pending st (Call_Remove i) \<longleftrightarrow>
     id_uid i = 2 \<or> DefaultSimulatorImpl_IsExpired i st \<or> event_of i \<in># pending (m_events st)"
| "call_ok pending st _ \<longleftrightarrow> True"

lemma uid_room: "uint (u :: u32) + 1 < 2 ^ 32 \<Longrightarrow> Suc (unat u) < 2 ^ 32"
proof -
  assume "uint u + 1 < 2 ^ 32"
  then have "int (Suc (unat u)) < int (2 ^ 32)" by simp
  then show ?thesis by (simp only: of_nat_less_iff)
qed

primrec script_ok :: "'s scheduler \<Rightarrow> ('s \<Rightarrow> event_impl event multiset) \<Rightarrow> script \<Rightarrow> 's simulator \<Rightarrow> bool" where
  "script_ok S pending Return = (\<lambda>st. True)"
| "script_ok S pending (Call c k) = (\<lambda>st. call_ok pending st c \<and>
     (case simulator_call S c st of None \<Rightarrow> True | Some (a, st') \<Rightarrow> script_ok S pending (k a) st'))"

text \<open>The loop of \<^verbatim>\<open>Run\<close> for at most \<open>n\<close> events, with the events it took, and the condition
  that all they call is allowed.\<close>

fun run_events ::
    "'s scheduler \<Rightarrow> (event_impl \<Rightarrow> script) \<Rightarrow> nat \<Rightarrow> 's simulator \<Rightarrow> (event_impl event list \<times> 's simulator) option" where
  "run_events S prog 0 st = Some ([], st)"
| "run_events S prog (Suc n) st =
     (if DefaultSimulatorImpl_IsFinished S st then Some ([], st)
      else do {
        ev \<leftarrow> sch_PeekNext S (m_events st);
        st \<leftarrow> DefaultSimulatorImpl_ProcessOneEvent S prog st;
        (evs, st) \<leftarrow> run_events S prog n st;
        Some (ev # evs, st)
      })"

fun run_ok ::
    "'s scheduler \<Rightarrow> ('s \<Rightarrow> event_impl event multiset) \<Rightarrow> (event_impl \<Rightarrow> script) \<Rightarrow> nat \<Rightarrow> 's simulator \<Rightarrow> bool" where
  "run_ok S pending prog 0 st \<longleftrightarrow> True"
| "run_ok S pending prog (Suc n) st \<longleftrightarrow> DefaultSimulatorImpl_IsFinished S st \<or>
     (case sch_RemoveNext S (m_events st) of None \<Rightarrow> True
      | Some (ev, events) \<Rightarrow> EventImpl_IsCancelled (ev_impl ev) st \<or>
          script_ok S pending (prog (ev_impl ev)) (enter_event ev events st)) \<and>
     (case DefaultSimulatorImpl_ProcessOneEvent S prog st of None \<Rightarrow> True
      | Some st' \<Rightarrow> run_ok S pending prog n st')"

text \<open>A program that comes to an end: every event has a weight, and the events that its script
  schedules weigh less in total, whatever the simulator answers.\<close>

fun posted :: "sim_call \<Rightarrow> event_impl multiset" where
  "posted (Call_Schedule t e) = {#e#}"
| "posted (Call_ScheduleWithContext x t e) = {#e#}"
| "posted (Call_ScheduleNow e) = {#e#}"
| "posted _ = {#}"

definition call_weight :: "(event_impl \<Rightarrow> nat) \<Rightarrow> sim_call \<Rightarrow> nat" where
  "call_weight w c = sum_mset (image_mset w (posted c))"

primrec script_within :: "(event_impl \<Rightarrow> nat) \<Rightarrow> script \<Rightarrow> nat \<Rightarrow> bool" where
  "script_within w Return = (\<lambda>b. True)"
| "script_within w (Call c k) = (\<lambda>b. call_weight w c \<le> b \<and> (\<forall>a. script_within w (k a) (b - call_weight w c)))"

definition ending_program :: "(event_impl \<Rightarrow> nat) \<Rightarrow> (event_impl \<Rightarrow> script) \<Rightarrow> bool" where
  "ending_program w prog \<longleftrightarrow> (\<forall>i. 0 < w i \<and> script_within w (prog i) (w i - 1))"

definition weight :: "(event_impl \<Rightarrow> nat) \<Rightarrow> event_impl event multiset \<Rightarrow> nat" where
  "weight w m = sum_mset (image_mset (\<lambda>e. w (ev_impl e)) m)"

lemma weight_mono:
  assumes "image_mset ev_impl m' \<subseteq># image_mset ev_impl m + new"
  shows "weight w m' \<le> weight w m + sum_mset (image_mset w new)"
proof -
  have "image_mset w (image_mset ev_impl m') \<subseteq># image_mset w (image_mset ev_impl m + new)"
    using assms by (rule image_mset_subseteq_mono)
  then obtain k where "image_mset w (image_mset ev_impl m + new) = image_mset w (image_mset ev_impl m') + k"
    unfolding subset_mset.le_iff_add by blast
  then have "sum_mset (image_mset w (image_mset ev_impl m + new)) = sum_mset (image_mset w (image_mset ev_impl m')) + sum_mset k"
    by (simp only: sum_mset.union)
  then show ?thesis by (simp add: weight_def multiset.map_comp comp_def)
qed

section \<open>What the operations do to the invariant\<close>

lemma sint_u128_add:
  "- (2 ^ 127) \<le> sint a + sint b \<Longrightarrow> sint a + sint b < 2 ^ 127 \<Longrightarrow> sint (a + b :: u128) = sint a + sint b"
proof -
  assume b: "- (2 ^ 127) \<le> sint a + sint b" "sint a + sint b < 2 ^ 127"
  have "a + b = word_of_int (sint a + sint b)" by simp
  then have "sint (a + b) = sint (word_of_int (sint a + sint b) :: u128)" by simp
  also have "\<dots> = sint a + sint b" unfolding int_word_sint using b by (simp add: mod_pos_pos_trivial)
  finally show ?thesis .
qed

lemma TimeStep_value: "unat ts < 2 ^ 63 \<Longrightarrow> sint (TimeStep ts) = int (unat ts) * 2 ^ 64"
  by (simp only: TimeStep_def HighPrecision_int_value sint_small_u64)

lemma GetTimeStep_value: "0 \<le> sint t \<Longrightarrow> int (unat (Time_GetTimeStep t)) = sint t div 2 ^ 64"
proof -
  assume t: "0 \<le> sint t"
  then have "sint (Time_GetTimeStep t) = sint t div 2 ^ 64"
    by (simp only: Time_GetTimeStep_def GetInteger_value) (simp add: trunc_div_pos)
  moreover have "0 \<le> sint t div 2 ^ 64" using t by (simp add: pos_imp_zdiv_nonneg_iff)
  ultimately have "sint (Time_GetTimeStep t) = int (nat (sint t div 2 ^ 64))" by simp
  then have "unat (Time_GetTimeStep t) = nat (sint t div 2 ^ 64)" by (rule sint_nonneg_unat)
  with \<open>0 \<le> sint t div 2 ^ 64\<close> show ?thesis by simp
qed

text \<open>An absolute time that a delay leads to.\<close>

lemma delay_ok:
  assumes "0 \<le> sint t" "sint t + uint cur * 2 ^ 64 < 2 ^ 127" "unat cur < 2 ^ 63"
  shows "sint (time_add t (TimeStep cur)) = sint t + int (unat cur) * 2 ^ 64"
    "Time_IsPositive (time_add t (TimeStep cur))" "time_less_eq (TimeStep cur) (time_add t (TimeStep cur))"
    "unat (Time_GetTimeStep (time_add t (TimeStep cur))) = unat (Time_GetTimeStep t) + unat cur"
    "unat (Time_GetTimeStep t) + unat cur < 2 ^ 63"
proof -
  have c: "sint (TimeStep cur) = int (unat cur) * 2 ^ 64" by (rule TimeStep_value [OF assms(3)])
  have b: "sint t + int (unat cur) * 2 ^ 64 < 2 ^ 127" using assms(2) by simp
  show s: "sint (time_add t (TimeStep cur)) = sint t + int (unat cur) * 2 ^ 64"
  proof -
    have "0 \<le> sint t + int (unat cur) * 2 ^ 64" by (intro add_nonneg_nonneg assms(1)) simp
    moreover have "- (2 ^ 127) \<le> (0 :: int)" by simp
    ultimately have "- (2 ^ 127) \<le> sint t + sint (TimeStep cur)" unfolding c by (rule order_trans [rotated])
    then show ?thesis unfolding time_add_def HighPrecision_Add_def using sint_u128_add [of t "TimeStep cur"] b c by simp
  qed
  have pos: "0 \<le> sint (time_add t (TimeStep cur))" unfolding s using assms(1) by simp
  then show "Time_IsPositive (time_add t (TimeStep cur))"
    by (simp add: Time_IsPositive_def HighPrecision_Compare_def)
  show "time_less_eq (TimeStep cur) (time_add t (TimeStep cur))"
  proof -
    have "time_add t (TimeStep cur) = TimeStep cur" if "sint t = 0"
    proof -
      have "sint (time_add t (TimeStep cur)) = sint (TimeStep cur)" by (simp only: s c that add_0)
      then show ?thesis by (rule signed_word_eqI)
    qed
    then show ?thesis using assms(1) by (simp only: time_less_eq_def HighPrecision_Compare_def s c) auto
  qed
  have "int (unat (Time_GetTimeStep (time_add t (TimeStep cur)))) = int (unat (Time_GetTimeStep t) + unat cur)"
    unfolding GetTimeStep_value [OF pos] of_nat_add GetTimeStep_value [OF assms(1)] s by simp
  then show g: "unat (Time_GetTimeStep (time_add t (TimeStep cur))) = unat (Time_GetTimeStep t) + unat cur"
    by (simp only: of_nat_eq_iff)
  have "(sint t + int (unat cur) * 2 ^ 64) div 2 ^ 64 \<le> (2 ^ 127 - 1) div 2 ^ 64" using b by (intro zdiv_mono1) simp_all
  also have "(2 ^ 127 - 1) div 2 ^ 64 < (2 ^ 63 :: int)" by simp
  finally have "int (unat (Time_GetTimeStep t) + unat cur) < int (2 ^ 63)"
    unfolding g [symmetric] GetTimeStep_value [OF pos] s by simp
  then show "unat (Time_GetTimeStep t) + unat cur < 2 ^ 63" by (simp only: of_nat_less_iff)
qed

text \<open>From one state to a later one: time does not go back, nothing is uncancelled, and an event
  that was pending still is, or its time has come, or it is cancelled.\<close>

definition keeps :: "('s \<Rightarrow> event_impl event multiset) \<Rightarrow> 's simulator \<Rightarrow> 's simulator \<Rightarrow> bool" where
  "keeps pending st st' \<longleftrightarrow> now_rank st \<le> now_rank st' \<and> m_cancelled st \<subseteq> m_cancelled st' \<and>
     (\<forall>e \<in># pending (m_events st).
        e \<in># pending (m_events st') \<or> rank e \<le> now_rank st' \<or> ev_impl e \<in> m_cancelled st')"

lemma keeps_refl: "keeps pending st st"
  by (simp add: keeps_def)

lemma keeps_trans: "keeps pending a b \<Longrightarrow> keeps pending b c \<Longrightarrow> keeps pending a c"
  unfolding keeps_def by (meson order_trans subset_iff)

text \<open>An ID that was handed out is accounted for.\<close>

definition accounted :: "('s \<Rightarrow> event_impl event multiset) \<Rightarrow> 's simulator \<Rightarrow> event_id \<Rightarrow> bool" where
  "accounted pending st i \<longleftrightarrow> id_uid i \<noteq> 2 \<and> id_eventImpl i \<noteq> None \<and>
     (event_of i \<in># pending (m_events st) \<or> rank (event_of i) \<le> now_rank st \<or> the (id_eventImpl i) \<in> m_cancelled st)"

lemma keeps_accounted: "keeps pending st st' \<Longrightarrow> accounted pending st i \<Longrightarrow> accounted pending st' i"
  unfolding keeps_def accounted_def by (auto simp: event_of_def)

text \<open>The test of \<^verbatim>\<open>IsExpired\<close> compares ranks.\<close>

lemma expired_rank:
  "id_ts i < m_currentTs st \<or> (id_ts i = m_currentTs st \<and> id_uid i \<le> m_currentUid st) \<longleftrightarrow>
     rank (event_of i) \<le> now_rank st"
proof -
  have "now_rank st < rank (event_of i) \<longleftrightarrow> m_currentTs st < id_ts i \<or> m_currentTs st = id_ts i \<and> m_currentUid st < id_uid i"
    unfolding now_rank_def rank_def event_of_def
    by (subst pair_less_iff) (auto simp: word_less_nat_alt unat_u32_less [simplified] word_unat_eq_iff)
  then show ?thesis by (auto simp: not_less [symmetric])
qed

lemma now_rank_ts: "now_rank st \<le> now_rank st' \<Longrightarrow> m_currentTs st \<le> m_currentTs st'"
proof -
  assume le: "now_rank st \<le> now_rank st'"
  have "now_rank st' < now_rank st" if "unat (m_currentTs st') < unat (m_currentTs st)"
    unfolding now_rank_def using that by (subst pair_less_iff) (auto simp: unat_u32_less [simplified])
  with le show ?thesis by (auto simp: word_le_nat_alt not_less [symmetric])
qed

lemma rank_ts: "now_rank st < rank e \<Longrightarrow> m_currentTs st \<le> k_ts (ev_key e)"
  unfolding now_rank_def rank_def
  by (subst (asm) pair_less_iff) (auto simp: unat_u32_less [simplified] word_le_nat_alt)

locale simulation = removing_scheduler "sch_Insert S" "sch_IsEmpty S" "sch_PeekNext S" "sch_RemoveNext S"
    pending inv "sch_Remove S"
  for S :: "'s scheduler" and pending inv
begin

abbreviation "ok \<equiv> sim_ok pending inv"

lemma post_event_ok:
  assumes "ok st" "Suc (unat (m_uid st)) < 2 ^ 32" "m_currentTs st \<le> ts" "unat ts < 2 ^ 63"
  obtains i st' where "post_event S ts x e st = Some (i, st')" "ok st'" "now_rank st' = now_rank st"
    "pending (m_events st') = add_mset (event_of i) (pending (m_events st))"
    "m_cancelled st' = m_cancelled st" "rank (event_of i) > now_rank st"
    "id_eventImpl i = Some e" "id_uid i = m_uid st" "m_stop st' = m_stop st"
proof -
  let ?ev = "\<lparr>ev_impl = e, ev_key = \<lparr>k_ts = ts, k_uid = m_uid st, k_context = x\<rparr>\<rparr>"
  have f: "fresh_uid ?ev (pending (m_events st))"
    using assms(1) by (auto simp: fresh_uid_def sim_ok_def uid_of_def)
  obtain s' where s': "sch_Insert S ?ev (m_events st) = Some s'" "inv s'" "pending s' = add_mset ?ev (pending (m_events st))"
    using ins_ok [OF _ f] assms(1) by (auto simp: sim_ok_def)
  let ?i = "\<lparr>id_eventImpl = Some e, id_ts = ts, id_context = x, id_uid = m_uid st\<rparr>"
  let ?st = "st\<lparr>m_uid := m_uid st + 1, m_unscheduledEvents := m_unscheduledEvents st + 1, m_events := s'\<rparr>"
  have ev: "event_of ?i = ?ev" by (simp add: event_of_def)
  have uid: "unat (m_uid st + 1) = Suc (unat (m_uid st))" using assms(2) by (rule unat_u32_Suc)
  have "unat (m_currentTs st) \<le> unat ts" using assms(3) by (simp add: word_le_nat_alt)
  then have r: "now_rank st < rank ?ev"
    using assms(1) by (auto simp: now_rank_def rank_def sim_ok_def intro: add_le_less_mono)
  have "ok ?st"
    using assms(1,4) s' f r uid by (auto simp: sim_ok_def distinct_uids_add now_rank_def uid_of_def)
  with s' ev r show ?thesis by (intro that [of ?i ?st]) (simp_all add: post_event_def now_rank_def)
qed

text \<open>What a call leaves behind: the invariant, the clock, every ID accounted for, and in the queue
  nothing new but the events it posted.\<close>

definition answered :: "'s simulator \<Rightarrow> event_impl multiset \<Rightarrow> sim_answer \<Rightarrow> 's simulator \<Rightarrow> bool" where
  "answered st new a st' \<longleftrightarrow> ok st' \<and> now_rank st' = now_rank st \<and> keeps pending st st' \<and>
     image_mset ev_impl (pending (m_events st')) \<subseteq># image_mset ev_impl (pending (m_events st)) + new \<and>
     (\<forall>i. a = Id_Answer i \<longrightarrow> id_uid i = 2 \<or> accounted pending st' i)"

lemma post_answered:
  assumes "ok st" "Suc (unat (m_uid st)) < 2 ^ 32" "m_currentTs st \<le> ts" "unat ts < 2 ^ 63"
  obtains i st' where "post_event S ts x e st = Some (i, st')" "answered st {#e#} (Id_Answer i) st'"
proof -
  obtain i st' where p: "post_event S ts x e st = Some (i, st')" "ok st'" "now_rank st' = now_rank st"
    "pending (m_events st') = add_mset (event_of i) (pending (m_events st))"
    "m_cancelled st' = m_cancelled st" "id_eventImpl i = Some e" "id_uid i = m_uid st"
    using post_event_ok [OF assms, of x e] by blast
  have "id_uid i \<noteq> 2" using p(7) assms(1) by (auto simp: sim_ok_def)
  with p show ?thesis by (intro that [of i st']) (simp_all add: answered_def keeps_def accounted_def event_of_def)
qed

lemma schedule_times:
  assumes "ok st" "0 \<le> sint t" "sint t + uint (m_currentTs st) * 2 ^ 64 < 2 ^ 127"
  shows "m_currentTs st \<le> Time_GetTimeStep (time_add t (TimeStep (m_currentTs st)))"
    "unat (Time_GetTimeStep (time_add t (TimeStep (m_currentTs st)))) < 2 ^ 63"
    "m_currentTs st + Time_GetTimeStep t = Time_GetTimeStep (time_add t (TimeStep (m_currentTs st)))"
proof -
  have c: "unat (m_currentTs st) < 2 ^ 63" using assms(1) by (simp add: sim_ok_def)
  note d = delay_ok [OF assms(2,3) c]
  show "m_currentTs st \<le> Time_GetTimeStep (time_add t (TimeStep (m_currentTs st)))"
    "unat (Time_GetTimeStep (time_add t (TimeStep (m_currentTs st)))) < 2 ^ 63"
    using d(4,5) by (simp_all add: word_le_nat_alt)
  have "unat (m_currentTs st) + unat (Time_GetTimeStep t) < 2 ^ 64" using d(5) by simp
  then have "unat (m_currentTs st + Time_GetTimeStep t) = unat (m_currentTs st) + unat (Time_GetTimeStep t)"
    by (simp add: unat_word_ariths)
  then show "m_currentTs st + Time_GetTimeStep t = Time_GetTimeStep (time_add t (TimeStep (m_currentTs st)))"
    using d(4) by (simp add: word_unat_eq_iff)
qed

lemma Schedule_answered:
  assumes "ok st" "call_ok pending st (Call_Schedule t e)"
  obtains i st' where "DefaultSimulatorImpl_Schedule S t e st = Some (i, st')" "answered st {#e#} (Id_Answer i) st'"
proof -
  have a: "Suc (unat (m_uid st)) < 2 ^ 32" "0 \<le> sint t" "sint t + uint (m_currentTs st) * 2 ^ 64 < 2 ^ 127"
    using assms(2) uid_room by simp_all
  have c: "unat (m_currentTs st) < 2 ^ 63" using assms(1) by (simp add: sim_ok_def)
  show ?thesis
    using post_answered [OF assms(1) a(1) schedule_times(1,2) [OF assms(1) a(2,3)]] that delay_ok(2,3) [OF a(2,3) c]
    by (simp add: DefaultSimulatorImpl_Schedule_def) blast
qed

lemma Remove_answered:
  assumes "ok st" "call_ok pending st (Call_Remove i)"
  obtains st' where "DefaultSimulatorImpl_Remove S i st = Some st'" "answered st {#} No_Answer st'"
proof -
  consider "id_uid i = 2" | "id_uid i \<noteq> 2" "DefaultSimulatorImpl_IsExpired i st"
    | "id_uid i \<noteq> 2" "\<not> DefaultSimulatorImpl_IsExpired i st" "event_of i \<in># pending (m_events st)"
    using assms(2) by auto
  then show ?thesis
  proof cases
    case 1
    with assms(1) show ?thesis
      by (intro that) (auto simp: DefaultSimulatorImpl_Remove_def answered_def sim_ok_def keeps_def now_rank_def)
  next
    case 2
    with assms(1) show ?thesis
      by (intro that) (auto simp: DefaultSimulatorImpl_Remove_def answered_def keeps_refl)
  next
    case 3
    obtain e where e: "id_eventImpl i = Some e"
      using 3(1,2) by (auto simp: DefaultSimulatorImpl_IsExpired_def split: option.splits)
    obtain m where m: "pending (m_events st) = add_mset (event_of i) m" using multi_member_split [OF 3(3)] by blast
    have inv: "inv (m_events st)" and d: "distinct_uids m" "fresh_uid (event_of i) m"
      using assms(1) m by (auto simp: sim_ok_def distinct_uids_add)
    obtain s' where s': "sch_Remove S (event_of i) (m_events st) = Some s'" "inv s'" "pending s' = m"
      using remove_ok [OF inv m d(2)] by blast
    let ?st = "EventImpl_Cancel e (st\<lparr>m_events := s', m_unscheduledEvents := m_unscheduledEvents st - 1\<rparr>)"
    have r: "DefaultSimulatorImpl_Remove S i st = Some ?st"
      using 3 s' e by (simp add: DefaultSimulatorImpl_Remove_def EventImpl_Cancel_def)
    have "ok ?st" using assms(1) m s' d by (auto simp: sim_ok_def EventImpl_Cancel_def now_rank_def)
    moreover have "keeps pending st ?st"
      using m s' e by (auto simp: keeps_def EventImpl_Cancel_def now_rank_def event_of_def)
    ultimately show ?thesis by (intro that [OF r]) (simp add: answered_def EventImpl_Cancel_def now_rank_def m s'(3))
  qed
qed

lemma Cancel_answered:
  assumes "ok st"
  obtains st' where "DefaultSimulatorImpl_Cancel i st = Some st'" "answered st {#} No_Answer st'"
proof (cases "DefaultSimulatorImpl_IsExpired i st")
  case True
  with assms show ?thesis by (intro that) (auto simp: DefaultSimulatorImpl_Cancel_def answered_def keeps_refl)
next
  case False
  then obtain e where "id_eventImpl i = Some e"
    by (auto simp: DefaultSimulatorImpl_IsExpired_def split: option.splits if_splits)
  with False assms show ?thesis
    by (intro that) (auto simp: DefaultSimulatorImpl_Cancel_def EventImpl_Cancel_def answered_def sim_ok_def keeps_def now_rank_def)
qed

lemma call_answered:
  assumes "ok st" "call_ok pending st c"
  obtains a st' where "simulator_call S c st = Some (a, st')" "answered st (posted c) a st'"
proof (cases c)
  case (Call_Schedule t e)
  then obtain i st' where "DefaultSimulatorImpl_Schedule S t e st = Some (i, st')" "answered st {#e#} (Id_Answer i) st'"
    using Schedule_answered [OF assms(1)] assms(2) by metis
  with Call_Schedule show ?thesis by (intro that [of "Id_Answer i" st']) (simp_all add: simulator_call_def)
next
  case (Call_ScheduleWithContext x t e)
  then have a: "Suc (unat (m_uid st)) < 2 ^ 32" "0 \<le> sint t" "sint t + uint (m_currentTs st) * 2 ^ 64 < 2 ^ 127"
    using assms(2) uid_room by simp_all
  note ts = schedule_times [OF assms(1) a(2,3)]
  obtain i st' where "post_event S (m_currentTs st + Time_GetTimeStep t) x e st = Some (i, st')"
    "answered st {#e#} (Id_Answer i) st'"
    using post_answered [OF assms(1) a(1) ts(1,2)] unfolding ts(3) by blast
  with Call_ScheduleWithContext show ?thesis
    by (intro that [of No_Answer st'])
      (simp_all add: simulator_call_def DefaultSimulatorImpl_ScheduleWithContext_def answered_def)
next
  case (Call_ScheduleNow e)
  have "m_currentTs st \<le> m_currentTs st" "unat (m_currentTs st) < 2 ^ 63" using assms(1) by (simp_all add: sim_ok_def)
  moreover have "Suc (unat (m_uid st)) < 2 ^ 32" using assms(2) Call_ScheduleNow uid_room by simp
  ultimately obtain i st' where "post_event S (m_currentTs st) (m_currentContext st) e st = Some (i, st')"
    "answered st {#e#} (Id_Answer i) st'" using post_answered [OF assms(1)] by blast
  with Call_ScheduleNow show ?thesis
    by (intro that [of "Id_Answer i" st'])
      (simp_all add: simulator_call_def DefaultSimulatorImpl_ScheduleNow_def DefaultSimulatorImpl_GetContext_def)
next
  case (Call_ScheduleDestroy e)
  let ?r = "DefaultSimulatorImpl_ScheduleDestroy e st"
  have "unat (m_uid st + 1) = Suc (unat (m_uid st))" using assms(2) Call_ScheduleDestroy by (intro unat_u32_Suc uid_room) simp
  then have "answered st {#} (Id_Answer (fst ?r)) (snd ?r)"
    using assms(1) by (auto simp: DefaultSimulatorImpl_ScheduleDestroy_def Let_def answered_def sim_ok_def keeps_def now_rank_def)
  with Call_ScheduleDestroy show ?thesis
    by (intro that [of "Id_Answer (fst ?r)" "snd ?r"]) (simp_all add: simulator_call_def case_prod_beta)
next
  case (Call_Remove i)
  then obtain st' where "DefaultSimulatorImpl_Remove S i st = Some st'" "answered st {#} No_Answer st'"
    using Remove_answered [OF assms(1)] assms(2) by metis
  with Call_Remove show ?thesis by (intro that [of No_Answer st']) (simp_all add: simulator_call_def)
next
  case (Call_Cancel i)
  obtain st' where "DefaultSimulatorImpl_Cancel i st = Some st'" "answered st {#} No_Answer st'"
    using Cancel_answered [OF assms(1)] by metis
  with Call_Cancel show ?thesis by (intro that [of No_Answer st']) (simp_all add: simulator_call_def)
next
  case Call_Stop
  with assms that show ?thesis
    by (auto simp: simulator_call_def DefaultSimulatorImpl_Stop_def answered_def sim_ok_def keeps_def now_rank_def)
qed (use assms that in \<open>auto simp: simulator_call_def answered_def keeps_refl\<close>)

lemma script_answered:
  assumes "ok st" "script_ok S pending p st"
  obtains st' where "run_script S p st = Some st'" "ok st'" "now_rank st' = now_rank st" "keeps pending st st'"
  using assms
proof (induction p arbitrary: st thesis)
  case Return
  then show ?case by (simp add: keeps_refl)
next
  case (Call c k)
  obtain a st1 where 1: "simulator_call S c st = Some (a, st1)" "answered st (posted c) a st1"
    using call_answered [of st c] Call.prems(2,3) by auto
  then have "ok st1" "script_ok S pending (k a) st1" using Call.prems(3) by (simp_all add: answered_def)
  then obtain st2 where 2: "run_script S (k a) st1 = Some st2" "ok st2" "now_rank st2 = now_rank st1" "keeps pending st1 st2"
    using Call.IH [OF rangeI] by blast
  show ?case
  proof (rule Call.prems(1))
    show "run_script S (Call c k) st = Some st2" using 1 2 by simp
    show "ok st2" by fact
    show "now_rank st2 = now_rank st" using 1 2 by (simp add: answered_def)
    show "keeps pending st st2" using 1(2) 2(4) keeps_trans unfolding answered_def by blast
  qed
qed

lemma script_weight:
  assumes "ok st" "script_ok S pending p st" "run_script S p st = Some st'" "script_within w p b"
  shows "weight w (pending (m_events st')) \<le> weight w (pending (m_events st)) + b"
  using assms
proof (induction p arbitrary: st b)
  case Return
  then show ?case by simp
next
  case (Call c k)
  obtain a st1 where 1: "simulator_call S c st = Some (a, st1)" "answered st (posted c) a st1"
    using call_answered [of st c] Call.prems(1,2) by auto
  have w: "weight w (pending (m_events st1)) \<le> weight w (pending (m_events st)) + call_weight w c"
    using 1(2) weight_mono unfolding answered_def call_weight_def by blast
  have "weight w (pending (m_events st')) \<le> weight w (pending (m_events st1)) + (b - call_weight w c)"
    using 1 Call.prems by (intro Call.IH [OF rangeI]) (simp_all add: answered_def)
  with w Call.prems(4) show ?case by simp
qed

text \<open>Taking the next event out and entering it.\<close>

lemma enter_ok:
  assumes "ok st" "pending (m_events st) \<noteq> {#}"
  obtains ev events where "sch_RemoveNext S (m_events st) = Some (ev, events)"
    "sch_PeekNext S (m_events st) = Some ev" "ok (enter_event ev events st)"
    "pending (m_events st) = add_mset ev (pending events)" "m_currentTs st \<le> k_ts (ev_key ev)"
    "now_rank st < rank ev" "now_rank (enter_event ev events st) = rank ev" "keeps pending st (enter_event ev events st)"
proof -
  have "inv (m_events st)" using assms(1) by (simp add: sim_ok_def)
  from next_ok [OF this assms(2)] obtain ev events where e: "sch_RemoveNext S (m_events st) = Some (ev, events)"
    "sch_PeekNext S (m_events st) = Some ev" "inv events" "pending (m_events st) = add_mset ev (pending events)"
    "\<forall>x \<in># pending events. rank ev \<le> rank x" by blast
  let ?st = "enter_event ev events st"
  have d: "distinct_uids (pending events)" "fresh_uid ev (pending events)"
    using assms(1) e(4) by (simp_all add: sim_ok_def distinct_uids_add)
  have n: "now_rank ?st = rank ev" by (simp add: now_rank_def enter_event_def rank_def)
  have lt: "now_rank st < rank ev" "4 \<le> uid_of ev" "uid_of ev < unat (m_uid st)" "unat (k_ts (ev_key ev)) < 2 ^ 63"
    using assms(1) e(4) by (simp_all add: sim_ok_def)
  have "rank ev < rank x" if "x \<in># pending events" for x
    using that d(2) e(5) rank_uid [of ev x] by (fastforce simp: fresh_uid_def le_less)
  then have ok': "ok ?st"
    using assms(1) e(3,4) d(1) lt(3,4) unfolding sim_ok_def n by (auto simp: enter_event_def uid_of_def)
  have "m_currentTs st \<le> k_ts (ev_key ev)"
    using lt(1) unfolding now_rank_def rank_def
    by (subst (asm) pair_less_iff) (auto simp: unat_u32_less [simplified] word_le_nat_alt)
  with e ok' lt(1) n show ?thesis by (intro that) (auto simp: keeps_def enter_event_def)
qed

lemma process_ok:
  assumes "ok st" "\<not> DefaultSimulatorImpl_IsFinished S st" "run_ok S pending prog (Suc n) st"
  obtains ev st' where "sch_PeekNext S (m_events st) = Some ev" "ev \<in># pending (m_events st)"
    "DefaultSimulatorImpl_ProcessOneEvent S prog st = Some st'" "ok st'" "now_rank st < rank ev" "now_rank st' = rank ev"
    "keeps pending st st'" "run_ok S pending prog n st'"
proof -
  have "inv (m_events st)" using assms(1) by (simp add: sim_ok_def)
  then have "pending (m_events st) \<noteq> {#}"
    using assms(2) is_empty_iff by (simp add: DefaultSimulatorImpl_IsFinished_def)
  from enter_ok [OF assms(1) this] obtain ev events where e: "sch_RemoveNext S (m_events st) = Some (ev, events)"
    "sch_PeekNext S (m_events st) = Some ev" "ok (enter_event ev events st)"
    "pending (m_events st) = add_mset ev (pending events)" "m_currentTs st \<le> k_ts (ev_key ev)"
    "now_rank st < rank ev" "now_rank (enter_event ev events st) = rank ev"
    "keeps pending st (enter_event ev events st)" by metis
  let ?st = "enter_event ev events st"
  obtain st' where st': "EventImpl_Invoke S prog (ev_impl ev) ?st = Some st'" "ok st'" "now_rank st' = now_rank ?st"
    "keeps pending ?st st'"
  proof (cases "EventImpl_IsCancelled (ev_impl ev) ?st")
    case True
    then show ?thesis using that [of ?st] e(3) by (simp add: EventImpl_Invoke_def keeps_refl)
  next
    case False
    then have "script_ok S pending (prog (ev_impl ev)) ?st"
      using assms(2,3) e(1) by (simp add: EventImpl_IsCancelled_def enter_event_def)
    from script_answered [OF e(3) this] show ?thesis using that False by (metis EventImpl_Invoke_def)
  qed
  have p: "DefaultSimulatorImpl_ProcessOneEvent S prog st = Some st'"
    using e(1,5) st'(1) by (simp add: DefaultSimulatorImpl_ProcessOneEvent_def)
  have "run_ok S pending prog n st'" using assms(2,3) p by simp
  with e p st' show ?thesis by (intro that [of ev st']) (auto intro: keeps_trans)
qed

text \<open>A run never stops on an assertion, and its events are strictly in order.\<close>

lemma run_events_ok:
  "ok st \<Longrightarrow> run_ok S pending prog n st \<Longrightarrow>
    \<exists>evs st'. run_events S prog n st = Some (evs, st') \<and> ok st' \<and> keeps pending st st' \<and>
      sorted_wrt (<) (map rank evs) \<and> (\<forall>e \<in> set evs. now_rank st < rank e \<and> rank e \<le> now_rank st')"
proof (induction n arbitrary: st)
  case 0
  then show ?case by (simp add: keeps_refl)
next
  case (Suc n)
  show ?case
  proof (cases "DefaultSimulatorImpl_IsFinished S st")
    case True
    with Suc.prems show ?thesis by (simp add: keeps_refl)
  next
    case False
    obtain ev st1 where p: "sch_PeekNext S (m_events st) = Some ev"
      "DefaultSimulatorImpl_ProcessOneEvent S prog st = Some st1" "ok st1" "now_rank st < rank ev"
      "now_rank st1 = rank ev" "keeps pending st st1" "run_ok S pending prog n st1"
      using process_ok [OF Suc.prems(1) False Suc.prems(2)] by metis
    obtain evs st' where r: "run_events S prog n st1 = Some (evs, st')" "ok st'" "keeps pending st1 st'"
      "sorted_wrt (<) (map rank evs)" "\<forall>e \<in> set evs. now_rank st1 < rank e \<and> rank e \<le> now_rank st'"
      using Suc.IH [OF p(3,7)] by blast
    have le: "now_rank st1 \<le> now_rank st'" using r(3) by (simp add: keeps_def)
    have lt: "now_rank st < rank e" if "e \<in> set evs" for e
      using r(5) that p(4,5) by (metis less_trans)
    have k: "keeps pending st st'" by (rule keeps_trans [OF p(6) r(3)])
    have s: "sorted_wrt (<) (map rank (ev # evs))" using r(4,5) p(5) by simp
    have a: "\<forall>e \<in> set (ev # evs). now_rank st < rank e \<and> rank e \<le> now_rank st'"
      using lt p(4,5) le r(5) by auto
    have "run_events S prog (Suc n) st = Some (ev # evs, st')" using False p(1,2) r(1) by simp
    with r(2) k s a show ?thesis by blast
  qed
qed

text \<open>\<^verbatim>\<open>IsExpired\<close> is right about every ID that was handed out.\<close>

lemma IsExpired_iff:
  assumes "ok st" "accounted pending st i"
  shows "DefaultSimulatorImpl_IsExpired i st \<longleftrightarrow>
    \<not> (event_of i \<in># pending (m_events st) \<and> the (id_eventImpl i) \<notin> m_cancelled st)"
proof -
  obtain e where e: "id_eventImpl i = Some e" "id_uid i \<noteq> 2" using assms(2) by (auto simp: accounted_def)
  have "DefaultSimulatorImpl_IsExpired i st \<longleftrightarrow> rank (event_of i) \<le> now_rank st \<or> e \<in> m_cancelled st"
    using e expired_rank [of i st] by (auto simp: DefaultSimulatorImpl_IsExpired_def EventImpl_IsCancelled_def)
  moreover have "now_rank st < rank (event_of i)" if "event_of i \<in># pending (m_events st)"
    using assms(1) that by (simp add: sim_ok_def)
  ultimately show ?thesis using assms(2) e by (auto simp: accounted_def not_le)
qed

text \<open>A program that comes to an end empties the queue or stops.\<close>

lemma process_weight:
  assumes "ok st" "\<not> DefaultSimulatorImpl_IsFinished S st" "run_ok S pending prog (Suc n) st"
    "ending_program w prog" "DefaultSimulatorImpl_ProcessOneEvent S prog st = Some st'"
  shows "weight w (pending (m_events st')) < weight w (pending (m_events st))"
proof -
  have "inv (m_events st)" using assms(1) by (simp add: sim_ok_def)
  then have "pending (m_events st) \<noteq> {#}"
    using assms(2) is_empty_iff by (simp add: DefaultSimulatorImpl_IsFinished_def)
  from enter_ok [OF assms(1) this] obtain ev events where e: "sch_RemoveNext S (m_events st) = Some (ev, events)"
    "ok (enter_event ev events st)" "pending (m_events st) = add_mset ev (pending events)" by metis
  let ?st = "enter_event ev events st"
  have i: "EventImpl_Invoke S prog (ev_impl ev) ?st = Some st'"
    using assms(5) e(1) by (simp add: DefaultSimulatorImpl_ProcessOneEvent_def split: if_splits)
  have w: "0 < w (ev_impl ev)" "script_within w (prog (ev_impl ev)) (w (ev_impl ev) - 1)"
    using assms(4) by (simp_all add: ending_program_def)
  have "weight w (pending (m_events st')) \<le> weight w (pending events) + (w (ev_impl ev) - 1)"
  proof (cases "EventImpl_IsCancelled (ev_impl ev) ?st")
    case True
    then have "st' = ?st" using i by (simp add: EventImpl_Invoke_def)
    then show ?thesis by (simp add: enter_event_def)
  next
    case False
    then have s: "script_ok S pending (prog (ev_impl ev)) ?st" "run_script S (prog (ev_impl ev)) ?st = Some st'"
      using assms(2,3) e(1) i by (simp_all add: EventImpl_IsCancelled_def enter_event_def EventImpl_Invoke_def)
    from script_weight [OF e(2) this w(2)] show ?thesis by (simp add: enter_event_def)
  qed
  with w(1) e(3) show ?thesis by (simp add: weight_def)
qed

lemma run_ends:
  "ok st \<Longrightarrow> ending_program w prog \<Longrightarrow> weight w (pending (m_events st)) \<le> n \<Longrightarrow> run_ok S pending prog n st \<Longrightarrow>
    \<exists>evs st'. run_events S prog n st = Some (evs, st') \<and> run_loop S prog st = Some st' \<and>
      DefaultSimulatorImpl_IsFinished S st'"
proof (induction n arbitrary: st)
  case 0
  have "pending (m_events st) = {#}"
  proof (rule ccontr)
    assume "pending (m_events st) \<noteq> {#}"
    then obtain e m where "pending (m_events st) = add_mset e m" by (metis multiset_nonemptyE multi_member_split)
    moreover have "0 < w (ev_impl e)" using "0.prems"(2) by (simp add: ending_program_def)
    ultimately show False using "0.prems"(3) by (simp add: weight_def)
  qed
  then have "sch_IsEmpty S (m_events st)" using "0.prems"(1) is_empty_iff by (simp add: sim_ok_def)
  then show ?case by (subst run_loop.simps) (simp add: DefaultSimulatorImpl_IsFinished_def)
next
  case (Suc n)
  show ?case
  proof (cases "DefaultSimulatorImpl_IsFinished S st")
    case True
    then show ?thesis by (subst run_loop.simps) (auto simp: DefaultSimulatorImpl_IsFinished_def)
  next
    case False
    obtain ev st1 where p: "sch_PeekNext S (m_events st) = Some ev"
      "DefaultSimulatorImpl_ProcessOneEvent S prog st = Some st1" "ok st1" "run_ok S pending prog n st1"
      using process_ok [OF Suc.prems(1) False Suc.prems(4)] by metis
    have "weight w (pending (m_events st1)) \<le> n"
      using process_weight [OF Suc.prems(1) False Suc.prems(4,2) p(2)] Suc.prems(3) by simp
    from Suc.IH [OF p(3) Suc.prems(2) this p(4)] obtain evs st' where
      r: "run_events S prog n st1 = Some (evs, st')" "run_loop S prog st1 = Some st'"
      "DefaultSimulatorImpl_IsFinished S st'" by blast
    have "run_loop S prog st = Some st'"
      using False p(2) r(2) by (subst run_loop.simps) (simp add: DefaultSimulatorImpl_IsFinished_def)
    with False p(1,2) r show ?thesis by simp
  qed
qed

lemma Run_returns:
  assumes "ok st" "ending_program w prog" "run_ok S pending prog (weight w (pending (m_events st))) (st\<lparr>m_stop := False\<rparr>)"
  obtains evs st' where "DefaultSimulatorImpl_Run S prog st = Some st'" "ok st'" "keeps pending st st'"
    "run_events S prog (weight w (pending (m_events st))) (st\<lparr>m_stop := False\<rparr>) = Some (evs, st')"
    "sorted_wrt (<) (map rank evs)" "DefaultSimulatorImpl_IsFinished S st'"
proof -
  let ?st = "st\<lparr>m_stop := False\<rparr>"
  have o: "ok ?st" "keeps pending st ?st" using assms(1) by (auto simp: sim_ok_def keeps_def now_rank_def)
  have "weight w (pending (m_events ?st)) \<le> weight w (pending (m_events st))" by simp
  from run_ends [OF o(1) assms(2) this assms(3)] obtain evs st' where
    r: "run_events S prog (weight w (pending (m_events st))) ?st = Some (evs, st')"
    "run_loop S prog ?st = Some st'" "DefaultSimulatorImpl_IsFinished S st'" by blast
  from run_events_ok [OF o(1) assms(3)] r(1) have k: "ok st'" "keeps pending ?st st'" "sorted_wrt (<) (map rank evs)"
    by auto
  have "sch_IsEmpty S (m_events st') \<Longrightarrow> m_unscheduledEvents st' = 0"
    using k(1) is_empty_iff by (simp add: sim_ok_def)
  then have "DefaultSimulatorImpl_Run S prog st = Some st'"
    using r(2) by (auto simp: DefaultSimulatorImpl_Run_def)
  with r k o(2) show ?thesis by (intro that) (auto intro: keeps_trans)
qed

text \<open>The ID that \<^verbatim>\<open>Schedule\<close> hands out, and the end of an event that is removed.\<close>

lemma Schedule_id:
  assumes "ok st" "call_ok pending st (Call_Schedule t e)" "DefaultSimulatorImpl_Schedule S t e st = Some (i, st')"
  shows "ok st'" "accounted pending st' i" "id_eventImpl i = Some e"
proof -
  obtain j st1 where "DefaultSimulatorImpl_Schedule S t e st = Some (j, st1)" "answered st {#e#} (Id_Answer j) st1"
    using Schedule_answered [OF assms(1,2)] by metis
  then have a: "answered st {#e#} (Id_Answer i) st'" using assms(3) by simp
  then show "ok st'" by (simp add: answered_def)
  have i: "id_eventImpl i = Some e" "id_uid i = m_uid st"
    using assms(3) by (auto simp: DefaultSimulatorImpl_Schedule_def Let_def post_event_def Option.bind_eq_Some_conv split: if_splits)
  then show "id_eventImpl i = Some e" by simp
  show "accounted pending st' i" using a i assms(1) by (auto simp: answered_def sim_ok_def)
qed

lemma Remove_expires:
  assumes "ok st" "accounted pending st i" "call_ok pending st (Call_Remove i)"
  shows "\<exists>st'. DefaultSimulatorImpl_Remove S i st = Some st' \<and> DefaultSimulatorImpl_IsExpired i st' \<and>
    (the (id_eventImpl i) \<notin> m_cancelled st \<longrightarrow> event_of i \<notin># pending (m_events st'))"
proof -
  obtain st' where st': "DefaultSimulatorImpl_Remove S i st = Some st'" "answered st {#} No_Answer st'"
    using Remove_answered [OF assms(1,3)] by metis
  obtain e where e: "id_eventImpl i = Some e" "id_uid i \<noteq> 2" using assms(2) by (auto simp: accounted_def)
  show ?thesis
  proof (cases "DefaultSimulatorImpl_IsExpired i st")
    case True
    then have "st' = st" using st'(1) e by (simp add: DefaultSimulatorImpl_Remove_def)
    with True st'(1) IsExpired_iff [OF assms(1,2)] e show ?thesis by auto
  next
    case False
    then have p: "event_of i \<in># pending (m_events st)" using IsExpired_iff [OF assms(1,2)] by simp
    then obtain m where m: "pending (m_events st) = add_mset (event_of i) m" by (metis multi_member_split)
    have f: "inv (m_events st)" "fresh_uid (event_of i) m" using assms(1) m by (simp_all add: sim_ok_def distinct_uids_add)
    obtain s' where s': "sch_Remove S (event_of i) (m_events st) = Some s'" "pending s' = m"
      using remove_ok [OF f(1) m f(2)] by blast
    have x: "e \<in> m_cancelled st'" "m_events st' = s'"
      using st'(1) False e s' by (auto simp: DefaultSimulatorImpl_Remove_def EventImpl_Cancel_def)
    have "event_of i \<notin># m" using f(2) by (auto simp: fresh_uid_def)
    moreover have "DefaultSimulatorImpl_IsExpired i st'"
      using x(1) e by (simp add: DefaultSimulatorImpl_IsExpired_def EventImpl_IsCancelled_def)
    ultimately show ?thesis using st'(1) x(2) s'(2) by blast
  qed
qed

end

section \<open>The simulator on the map and on the list\<close>

interpretation map_sim: simulation MapScheduler mset in_order
  by (simp add: simulation_def MapScheduler_def map_sched.removing_scheduler_axioms)

interpretation list_sim: simulation ListScheduler mset in_order
  by (simp add: simulation_def ListScheduler_def list_sched.removing_scheduler_axioms)

text \<open>C35: as long as the scripts of the events make only allowed calls (no negative delay, no
  overflow of the 32-bit UIDs or of time, no removal of an event that was never in the queue),
  the loop of the simulator on the default map scheduler never fails an assertion, it processes events in strictly
  increasing order of time and UID, never an event before the current one, its clock never goes back,
  and its count of unprocessed events is the size of the queue.\<close>

theorem events_in_order:
  assumes "sim_ok mset in_order st" "run_ok MapScheduler mset prog n st"
  shows "\<exists>evs st'. run_events MapScheduler prog n st = Some (evs, st') \<and> sim_ok mset in_order st' \<and>
    sorted_wrt (\<lambda>a b. key_less (ev_key a) (ev_key b)) evs \<and> (\<forall>e \<in> set evs. m_currentTs st \<le> k_ts (ev_key e)) \<and>
    m_currentTs st \<le> m_currentTs st' \<and> m_unscheduledEvents st' = int (length (m_events st'))"
proof -
  obtain evs st' where r: "run_events MapScheduler prog n st = Some (evs, st')" "sim_ok mset in_order st'"
    "keeps mset st st'" "sorted_wrt (<) (map rank evs)" "\<forall>e \<in> set evs. now_rank st < rank e"
    using map_sim.run_events_ok [OF assms] by blast
  have "now_rank st \<le> now_rank st'" using r(3) by (simp add: keeps_def)
  then have "m_currentTs st \<le> m_currentTs st'" by (rule now_rank_ts)
  moreover have "\<forall>e \<in> set evs. m_currentTs st \<le> k_ts (ev_key e)"
    using r(5) rank_ts less_imp_le by blast
  moreover have "sorted_wrt (\<lambda>a b. key_less (ev_key a) (ev_key b)) evs"
    using r(4) by (simp add: key_less_iff sorted_wrt_map)
  ultimately show ?thesis using r(1,2) by (auto simp: sim_ok_def)
qed

text \<open>C36: take the ID that \<^verbatim>\<open>Schedule\<close> handed out and run the simulator for any
  number of events. Then \<^verbatim>\<open>IsExpired\<close> holds of it exactly when the event has left the queue or is
  cancelled; and \<^verbatim>\<open>Remove\<close> of it succeeds, after which the event is not in the queue and expired.\<close>

theorem isexpired_correct:
  assumes "sim_ok mset in_order st" "call_ok mset st (Call_Schedule t e)"
    "DefaultSimulatorImpl_Schedule MapScheduler t e st = Some (i, st1)"
    "run_ok MapScheduler mset prog n st1" "run_events MapScheduler prog n st1 = Some (evs, st2)"
  shows "(DefaultSimulatorImpl_IsExpired i st2 \<longleftrightarrow> event_of i \<notin> set (m_events st2) \<or> e \<in> m_cancelled st2) \<and>
    (\<exists>st3. DefaultSimulatorImpl_Remove MapScheduler i st2 = Some st3 \<and> DefaultSimulatorImpl_IsExpired i st3 \<and>
      (e \<notin> m_cancelled st2 \<longrightarrow> event_of i \<notin> set (m_events st3)))"
proof -
  have s: "sim_ok mset in_order st1" "accounted mset st1 i" "id_eventImpl i = Some e"
    using map_sim.Schedule_id [OF assms(1-3)] by simp_all
  have r: "sim_ok mset in_order st2" "keeps mset st1 st2"
    using map_sim.run_events_ok [OF s(1) assms(4)] assms(5) by auto
  note a = keeps_accounted [OF r(2) s(2)]
  have x: "DefaultSimulatorImpl_IsExpired i st2 \<longleftrightarrow> event_of i \<notin> set (m_events st2) \<or> e \<in> m_cancelled st2"
    using map_sim.IsExpired_iff [OF r(1) a] s(3) by simp
  then have "call_ok mset st2 (Call_Remove i)" by auto
  from map_sim.Remove_expires [OF r(1) a this] s(3) x show ?thesis by auto
qed

text \<open>C37: a program whose events carry weights such that the script of an event schedules less than its own
  weight ends: \<^verbatim>\<open>Run\<close> returns, with the queue empty or stopped, and the consistency assertion at
  its end holds.\<close>

theorem run_returns:
  assumes "sim_ok mset in_order st" "ending_program w prog"
    "run_ok MapScheduler mset prog (weight w (mset (m_events st))) (st\<lparr>m_stop := False\<rparr>)"
  shows "\<exists>st'. DefaultSimulatorImpl_Run MapScheduler prog st = Some st' \<and> sim_ok mset in_order st' \<and>
    (m_events st' = [] \<or> m_stop st') \<and>
    (\<forall>e \<in> set (m_events st). e \<in> set (m_events st') \<or> rank e \<le> now_rank st' \<or> ev_impl e \<in> m_cancelled st')"
proof -
  obtain evs st' where r: "DefaultSimulatorImpl_Run MapScheduler prog st = Some st'" "sim_ok mset in_order st'"
    "keeps mset st st'" "DefaultSimulatorImpl_IsFinished MapScheduler st'"
    using map_sim.Run_returns [OF assms] by metis
  then show ?thesis
    by (auto simp: keeps_def DefaultSimulatorImpl_IsFinished_def MapScheduler_def MapScheduler_IsEmpty_def)
qed

section \<open>A concrete program\<close>

text \<open>Event 2 schedules event 1 one second later and event 0 at once; event 1 schedules event 0; event 0
  does nothing. The simulator starts with event 2.\<close>

definition countdown :: "event_impl \<Rightarrow> script" where
  "countdown i = (if i = 2 then Call (Call_Schedule (TimeStep 1) 1) (\<lambda>_. Call (Call_ScheduleNow 0) (\<lambda>_. Return))
     else if i = 1 then Call (Call_ScheduleNow 0) (\<lambda>_. Return) else Return)"

definition countdown_weight :: "event_impl \<Rightarrow> nat" where
  "countdown_weight i = (if i = 2 then 4 else if i = 1 then 2 else 1)"

definition countdown_start :: "event_impl event list simulator" where
  "countdown_start = (DefaultSimulatorImpl_new
     [\<lparr>ev_impl = 2, ev_key = \<lparr>k_ts = 5, k_uid = 4, k_context = 0\<rparr>\<rparr>])\<lparr>m_uid := 5, m_unscheduledEvents := 1\<rparr>"

lemma countdown_ok:
  "sim_ok mset in_order countdown_start" "run_ok MapScheduler mset countdown 4 (countdown_start\<lparr>m_stop := False\<rparr>)"
  "run_ok MapScheduler mset countdown 4 countdown_start"
proof -
  show "sim_ok mset in_order countdown_start"
    by (simp add: sim_ok_def countdown_start_def DefaultSimulatorImpl_new_def in_order_def distinct_uids_add
        distinct_uids_empty fresh_uid_def now_rank_def rank_def uid_of_def)
  show "run_ok MapScheduler mset countdown 4 (countdown_start\<lparr>m_stop := False\<rparr>)"
    "run_ok MapScheduler mset countdown 4 countdown_start" by code_simp+
qed

lemma countdown_ends: "ending_program countdown_weight countdown"
  by (simp add: ending_program_def countdown_def countdown_weight_def call_weight_def)

lemma events_in_order_witness:
  "\<exists>evs st'. run_events MapScheduler countdown 4 countdown_start = Some (evs, st') \<and> sim_ok mset in_order st' \<and>
    sorted_wrt (\<lambda>a b. key_less (ev_key a) (ev_key b)) evs \<and>
    (\<forall>e \<in> set evs. m_currentTs countdown_start \<le> k_ts (ev_key e)) \<and>
    m_currentTs countdown_start \<le> m_currentTs st' \<and> m_unscheduledEvents st' = int (length (m_events st'))"
  by (rule events_in_order [OF countdown_ok(1,3)])

lemma run_returns_witness:
  "(\<exists>st'. DefaultSimulatorImpl_Run MapScheduler countdown countdown_start = Some st' \<and> sim_ok mset in_order st' \<and>
    (m_events st' = [] \<or> m_stop st') \<and>
    (\<forall>e \<in> set (m_events countdown_start). e \<in> set (m_events st') \<or> rank e \<le> now_rank st' \<or> ev_impl e \<in> m_cancelled st')) \<and>
   map_option (\<lambda>(evs, st). (map (\<lambda>e. (ev_impl e, k_ts (ev_key e))) evs, m_currentTs st, m_uid st))
     (run_events MapScheduler countdown 9 countdown_start) = Some ([(2, 5), (0, 5), (1, 6), (0, 6)], 6, 8)"
proof (intro conjI run_returns [OF countdown_ok(1) countdown_ends])
  have "weight countdown_weight (mset (m_events countdown_start)) = 4"
    by (simp add: weight_def countdown_start_def DefaultSimulatorImpl_new_def countdown_weight_def)
  then show "run_ok MapScheduler mset countdown (weight countdown_weight (mset (m_events countdown_start)))
      (countdown_start\<lparr>m_stop := False\<rparr>)" using countdown_ok(2) by simp
qed code_simp

lemma isexpired_correct_witness:
  "let (i, st1) = the (DefaultSimulatorImpl_Schedule MapScheduler (TimeStep 3) 1 countdown_start);
       (evs, st2) = the (run_events MapScheduler countdown 2 st1) in
   (DefaultSimulatorImpl_IsExpired i st2 \<longleftrightarrow> event_of i \<notin> set (m_events st2) \<or> 1 \<in> m_cancelled st2) \<and>
    (\<exists>st3. DefaultSimulatorImpl_Remove MapScheduler i st2 = Some st3 \<and> DefaultSimulatorImpl_IsExpired i st3 \<and>
      (1 \<notin> m_cancelled st2 \<longrightarrow> event_of i \<notin> set (m_events st3)))"
proof -
  define i where "i = fst (the (DefaultSimulatorImpl_Schedule MapScheduler (TimeStep 3) 1 countdown_start))"
  define st1 where "st1 = snd (the (DefaultSimulatorImpl_Schedule MapScheduler (TimeStep 3) 1 countdown_start))"
  define evs where "evs = fst (the (run_events MapScheduler countdown 2 st1))"
  define st2 where "st2 = snd (the (run_events MapScheduler countdown 2 st1))"
  have "DefaultSimulatorImpl_Schedule MapScheduler (TimeStep 3) 1 countdown_start \<noteq> None" by code_simp
  then have s: "DefaultSimulatorImpl_Schedule MapScheduler (TimeStep 3) 1 countdown_start = Some (i, st1)"
    by (auto simp: i_def st1_def)
  have r: "run_ok MapScheduler mset countdown 2 st1" unfolding st1_def by code_simp
  have "run_events MapScheduler countdown 2 st1 \<noteq> None" unfolding st1_def by code_simp
  then have e: "run_events MapScheduler countdown 2 st1 = Some (evs, st2)" by (auto simp: evs_def st2_def)
  have c: "call_ok mset countdown_start (Call_Schedule (TimeStep 3) 1)" by code_simp
  from isexpired_correct [OF countdown_ok(1) c s r e] s e show ?thesis by simp
qed

end
