(* ===== verification/Noc_Transport.thy ===== *)
theory Noc_Transport
  imports Noc_Flits Sim_Time
begin

text \<open>
  The way of a flit between two routers: \<^verbatim>\<open>channel/noc-channel.cc\<close>,
  \<^verbatim>\<open>netdevice/noc-net-device.cc\<close> and \<^verbatim>\<open>node/noc-node.cc\<close>. A node injects or forwards a flit, a
  net device buffers it in its input queue and offers it to the channel of the net device that
  routing chose, the channel schedules the end of the transmission, which takes the flit out of
  the queue and hands a copy of it to the net device at the other end.

  The receive callbacks lead to protocol handlers of \<^verbatim>\<open>Node\<close>, of which the network registers none; they
  are not modelled. The power of a channel is a sum that nothing else reads; only the assertion on
  its load is modelled.
\<close>

section \<open>The simulator and the packets as the network uses them\<close>

definition Simulator_Schedule :: "u128 \<Rightarrow> net_event \<Rightarrow> world \<Rightarrow> world option" where
  "Simulator_Schedule time ev w = do {
     let tAbsolute = time_add time (TimeStep (w_now w));
     _ \<leftarrow> ns_assert (Time_IsPositive tAbsolute);
     _ \<leftarrow> ns_assert (time_less_eq (TimeStep (w_now w)) tAbsolute);
     Some (w\<lparr>w_events := w_events w @ [(Time_GetTimeStep tAbsolute, ev)]\<rparr>)
   }"

definition packet_size :: "world \<Rightarrow> packet_ref \<Rightarrow> u32" where
  "packet_size w p = Packet_GetSize (w_packets w p)"

definition Packet_Copy :: "packet_ref \<Rightarrow> world \<Rightarrow> packet_ref \<times> world" where
  "Packet_Copy p w = (w_nextPacket w,
     w\<lparr>w_packets := (w_packets w)(w_nextPacket w := w_packets w p), w_nextPacket := w_nextPacket w + 1\<rparr>)"

definition Mac48Address_IsBroadcast :: "mac48 \<Rightarrow> bool" where
  "Mac48Address_IsBroadcast a \<longleftrightarrow> a = - 1"

text \<open>The lowest bit of the first byte.\<close>

definition Mac48Address_IsGroup :: "mac48 \<Rightarrow> bool" where
  "Mac48Address_IsGroup a \<longleftrightarrow> bit a 40"

text \<open>Seconds, as a double; a data rate of zero leads to no number.\<close>

definition DataRate_CalculateTxTime :: "u64 \<Rightarrow> u32 \<Rightarrow> rat option" where
  "DataRate_CalculateTxTime bps bytes = do {
     _ \<leftarrow> ns_assert (bps \<noteq> 0);
     Some (round64 (rat_of_int (uint bytes) * 8 / round64 (rat_of_int (uint bps))))
   }"

section \<open>The channel\<close>

definition NocChannel_Add :: "device_ref \<Rightarrow> noc_channel \<Rightarrow> (u32 \<times> noc_channel) option" where
  "NocChannel_Add device ch = do {
     let devices = c_devices ch @ [device];
     _ \<leftarrow> ns_assert (length devices \<le> 2);
     Some (of_nat (length devices - 1), ch\<lparr>c_devices := devices\<rparr>)
   }"

definition NocChannel_GetNDevices :: "noc_channel \<Rightarrow> u32 option" where
  "NocChannel_GetNDevices ch = do {
     _ \<leftarrow> ns_assert (length (c_devices ch) \<le> 2);
     Some (of_nat (length (c_devices ch)))
   }"

definition NocChannel_GetDevice :: "noc_channel \<Rightarrow> u32 \<Rightarrow> device_ref option" where
  "NocChannel_GetDevice ch i = vec_at (c_devices ch) (unat i)"

text \<open>\<^verbatim>\<open>std::map::insert\<close> leaves an entry that is there.\<close>

definition map_insert :: "'k \<Rightarrow> 'v \<Rightarrow> ('k \<Rightarrow> 'v option) \<Rightarrow> 'k \<Rightarrow> 'v option" where
  "map_insert k v m = (case m k of None \<Rightarrow> m(k \<mapsto> v) | Some _ \<Rightarrow> m)"

definition NocChannel_TransmitStart ::
    "channel_ref \<Rightarrow> device_ref \<Rightarrow> packet_ref \<Rightarrow> u32 \<Rightarrow> world \<Rightarrow> (bool \<times> world) option" where
  "NocChannel_TransmitStart c originalNetDevice p srcId w = do {
     let ch = w_channels w c;
     _ \<leftarrow> ns_assert (length (c_devices ch) = 2);
     sender \<leftarrow> vec_at (c_devices ch) (unat srcId);
     let link = channel_link ch (unat srcId);
     original \<leftarrow> vec_at (c_packetOriginalDevice ch) link;
     let ch = ch\<lparr>c_packetOriginalDevice := (c_packetOriginalDevice ch)
       [link := map_insert (pk_uid (w_packets w p)) originalNetDevice original]\<rparr>;
     state \<leftarrow> vec_at (c_state ch) link;
     if state \<noteq> IDLE then Some (False, put_channel c ch w)
     else do {
       dest \<leftarrow> find (\<lambda>tmp. tmp \<noteq> sender) (c_devices ch);
       let ch = ch\<lparr>c_currentPkt := (c_currentPkt ch)[link := Some p],
         c_currentDestDevice := (c_currentDestDevice ch)[link := Some dest]\<rparr>;
       if ucast (NocNetDevice_GetInQueueNPacktes (w_devices w dest)) = NocNetDevice_GetInQueueSize (w_devices w dest)
       then Some (False, put_channel c ch w)
       else Some (True, put_channel c (ch\<lparr>c_state := (c_state ch)[link := TRANSMITTING]\<rparr>) w)
     }
   }"

text \<open>\<^verbatim>\<open>(uint64_t) (1e12 * m_bps.CalculateTxTime (size))\<close> picoseconds.\<close>

definition transmission_time :: "u64 \<Rightarrow> u32 \<Rightarrow> u128 option" where
  "transmission_time bps bytes = do {
     seconds \<leftarrow> DataRate_CalculateTxTime bps bytes;
     PicoSeconds resolution (word_of_int (trunc_int (round64 (10 ^ 12 * seconds))))
   }"

definition NocChannel_Send :: "channel_ref \<Rightarrow> mac48 \<Rightarrow> mac48 \<Rightarrow> world \<Rightarrow> world option" where
  "NocChannel_Send c to from w = do {
     let ch = w_channels w c;
     srcId \<leftarrow> index_of from (map (\<lambda>d. nd_address (w_devices w d)) (c_devices ch));
     let sender = c_devices ch ! srcId;
     let link = channel_link ch srcId;
     state \<leftarrow> vec_at (c_state ch) link;
     _ \<leftarrow> ns_assert (state = TRANSMITTING);
     currentPkt \<leftarrow> vec_at (c_currentPkt ch) link;
     p \<leftarrow> currentPkt;
     tag \<leftarrow> peeked_tag (w_packets w p);
     let speedup = (if HEAD = tag_type tag then reg_DataPacketSpeedup (w_registry w) else 1);
     tEvent \<leftarrow> transmission_time (c_bps ch) (packet_size w p);
     currentDestDevice \<leftarrow> vec_at (c_currentDestDevice ch) link;
     dest \<leftarrow> currentDestDevice;
     let w = put_channel c (ch\<lparr>c_state := (c_state ch)[link := PROPAGATING]\<rparr>) w;
     time \<leftarrow> time_div (time_add (c_delay ch) tEvent) (Scalar (rat_of_int speedup));
     Simulator_Schedule time (TransmitEnd c sender to dest from) w
   }"

section \<open>The net device\<close>

definition NocNetDevice_SetChannel :: "channel_ref \<Rightarrow> device_ref \<Rightarrow> world \<Rightarrow> world option" where
  "NocNetDevice_SetChannel c d w = do {
     (i, ch) \<leftarrow> NocChannel_Add d (w_channels w c);
     Some (put_device d ((w_devices w d)\<lparr>nd_channel := Some c, nd_deviceId := i\<rparr>) (put_channel c ch w))
   }"

definition NocNetDevice_SetInQueue :: "packet_ref drop_tail_queue \<Rightarrow> net_device \<Rightarrow> net_device" where
  "NocNetDevice_SetInQueue q d = d\<lparr>nd_inQueue := Some q\<rparr>"

definition NocNetDevice_SetOutQueue :: "packet_ref drop_tail_queue \<Rightarrow> net_device \<Rightarrow> net_device" where
  "NocNetDevice_SetOutQueue q d = d\<lparr>nd_outQueue := Some q\<rparr>"

definition NocNetDevice_SetAddress :: "mac48 \<Rightarrow> net_device \<Rightarrow> net_device" where
  "NocNetDevice_SetAddress a d = d\<lparr>nd_address := a\<rparr>"

definition NocNetDevice_SetNode :: "node_ref option \<Rightarrow> net_device \<Rightarrow> net_device" where
  "NocNetDevice_SetNode n d = d\<lparr>nd_node := n\<rparr>"

definition NocNetDevice_SetViaNetDevice :: "device_ref option \<Rightarrow> net_device \<Rightarrow> net_device" where
  "NocNetDevice_SetViaNetDevice v d = d\<lparr>nd_viaNetDevice := v\<rparr>"

definition NocNetDevice_DequeuePacketFromInQueue :: "device_ref \<Rightarrow> world \<Rightarrow> (packet_ref option \<times> world) option" where
  "NocNetDevice_DequeuePacketFromInQueue d w = (case nd_inQueue (w_devices w d) of
     None \<Rightarrow> Some (None, w)
   | Some q \<Rightarrow>
       if Queue_IsEmpty q then Some (None, w)
       else do {
         (p, q) \<leftarrow> Queue_Dequeue (packet_size w) q;
         let dev = (w_devices w d)\<lparr>nd_inQueue := Some q\<rparr>;
         let dev = (case p of None \<Rightarrow> dev | Some p \<Rightarrow> dev\<lparr>nd_pktSrcDestMap := (nd_pktSrcDestMap dev)(p := None)\<rparr>);
         Some (p, put_device d dev w)
       })"

definition NocNetDevice_BufferPacketInInQueue :: "device_ref \<Rightarrow> packet_ref \<Rightarrow> world \<Rightarrow> bool \<times> world" where
  "NocNetDevice_BufferPacketInInQueue d p w = (case nd_inQueue (w_devices w d) of
     None \<Rightarrow> (False, w)
   | Some q \<Rightarrow> (let (enqueued, q) = Queue_Enqueue (packet_size w) p q
       in (enqueued, put_device d ((w_devices w d)\<lparr>nd_inQueue := Some q\<rparr>) w)))"

text \<open>\<^verbatim>\<open>MarkHeadPacketAsBlocked\<close> and \<^verbatim>\<open>MarkHeadPacketAsUnblocked\<close>: take the tag off, change it and put
  it back; the assertion reads it once more.\<close>

definition mark_head_packet :: "bool \<Rightarrow> packet_ref \<Rightarrow> world \<Rightarrow> world option" where
  "mark_head_packet blocked p w = do {
     tag \<leftarrow> peeked_tag (w_packets w p);
     if HEAD = tag_type tag then do {
       (_, tag, x) \<leftarrow> Packet_RemovePacketTag (w_packets w p) NocPacketTag_new;
       x \<leftarrow> Packet_AddPacketTag x (tag\<lparr>tag_packetBlocked := blocked\<rparr>);
       (_, tag) \<leftarrow> Packet_PeekPacketTag x (tag\<lparr>tag_packetBlocked := blocked\<rparr>);
       _ \<leftarrow> ns_assert (tag_packetBlocked tag = blocked);
       Some (put_packet p x w)
     }
     else Some w
   }"

definition NocNetDevice_MarkHeadPacketAsBlocked :: "packet_ref \<Rightarrow> world \<Rightarrow> world option" where
  "NocNetDevice_MarkHeadPacketAsBlocked p w = mark_head_packet True p w"

definition NocNetDevice_MarkHeadPacketAsUnblocked :: "packet_ref \<Rightarrow> world \<Rightarrow> world option" where
  "NocNetDevice_MarkHeadPacketAsUnblocked p w = mark_head_packet False p w"

text \<open>The virtual call \<^verbatim>\<open>GetSwitchingProtocol ()->ApplyFlowControl (packet, m_inQueue)\<close>.\<close>

definition ApplyFlowControl :: "router_ref \<Rightarrow> packet_ref \<Rightarrow> world \<Rightarrow> (bool \<times> world) option" where
  "ApplyFlowControl r p w = do {
     protocol \<leftarrow> r_switchingProtocol (w_routers w r);
     (b, protocol) \<leftarrow> (case protocol of
        SafSwitching s \<Rightarrow> map_option (\<lambda>(b, s). (b, SafSwitching s)) (SafSwitching_ApplyFlowControl (w_dims w) (w_packets w p) s)
      | VctSwitching s \<Rightarrow> map_option (\<lambda>(b, s). (b, VctSwitching s)) (VctSwitching_ApplyFlowControl (w_dims w) (w_packets w p) s)
      | WormholeSwitching \<Rightarrow> map_option (\<lambda>(b, _). (b, WormholeSwitching)) (WormholeSwitching_ApplyFlowControl (w_packets w p) ()));
     Some (b, put_router r ((w_routers w r)\<lparr>r_switchingProtocol := Some protocol\<rparr>) w)
   }"

text \<open>The channel and the number of the device on it that \<open>d\<close> sends with: those of the via device, if any.\<close>

definition send_device :: "world \<Rightarrow> device_ref \<Rightarrow> device_ref" where
  "send_device w d = (case nd_viaNetDevice (w_devices w d) of None \<Rightarrow> d | Some v \<Rightarrow> v)"

text \<open>The copy that is traced as sent: where both headers carry something, the routed header is
  replaced by the one before routing.\<close>

definition traced_packet :: "u32 \<Rightarrow> noc_header \<Rightarrow> packet \<Rightarrow> packet option" where
  "traced_packet dims originalHeader x = do {
     tag \<leftarrow> peeked_tag x;
     (removedHeader, x) \<leftarrow>
       (if HEAD = tag_type tag then Packet_RemoveHeader dims x (NocHeader_new dims)
        else Some (NocHeader_new dims, x));
     if \<not> NocHeader_IsEmpty removedHeader \<and> \<not> NocHeader_IsEmpty originalHeader
     then Packet_AddHeader dims x originalHeader
     else Some x
   }"

definition trace_event :: "trace_event \<Rightarrow> world \<Rightarrow> world" where
  "trace_event e w = w\<lparr>w_trace := w_trace w @ [e]\<rparr>"

definition set_last_scheduled :: "device_ref \<Rightarrow> u128 \<Rightarrow> world \<Rightarrow> world" where
  "set_last_scheduled d t w = put_device d ((w_devices w d)\<lparr>nd_lastScheduledEvent := t\<rparr>) w"

text \<open>The end of \<^verbatim>\<open>ProcessBufferedPackets\<close>: the next attempt. Without a clock it is made after the
  transmission time, here in whole seconds; with a clock, at a later tick. A clock of zero
  seconds leads to no number of ticks.\<close>

definition schedule_unclocked :: "device_ref \<Rightarrow> noc_header \<Rightarrow> channel_ref \<Rightarrow> packet_ref \<Rightarrow> world \<Rightarrow> world option" where
  "schedule_unclocked d originalHeader c front w = do {
     let ch = w_channels w c;
     seconds \<leftarrow> DataRate_CalculateTxTime (c_bps ch) (packet_size w front);
     tEvent \<leftarrow> PicoSeconds resolution (word_of_int (trunc_int seconds));
     let time = time_add tEvent (c_delay ch);
     if nd_lastScheduledEvent (w_devices w d) \<noteq> time_add (TimeStep (w_now w)) time
     then Simulator_Schedule time (ProcessBufferedPackets d originalHeader) w
     else Some w
   }"

definition schedule_clocked :: "device_ref \<Rightarrow> noc_header \<Rightarrow> packet_ref \<Rightarrow> world \<Rightarrow> world option" where
  "schedule_clocked d originalHeader packetToSend w = do {
     let globalClock = reg_GlobalClock (w_registry w);
     let now = TimeStep (w_now w);
     tag \<leftarrow> peeked_tag (w_packets w packetToSend);
     let speedup = (if HEAD = tag_type tag then reg_DataPacketSpeedup (w_registry w) else 1);
     period \<leftarrow> time_div globalClock (Scalar (rat_of_int speedup));
     if nd_lastScheduledEvent (w_devices w d) \<noteq> time_add now period then do {
       nowSeconds \<leftarrow> Time_GetSeconds resolution now;
       clockSeconds \<leftarrow> Time_GetSeconds resolution globalClock;
       _ \<leftarrow> ns_assert (clockSeconds \<noteq> 0);
       let clockMultiplier = (1 + word_of_int \<lceil>round64 (nowSeconds / clockSeconds)\<rceil> :: u64);
       ticks \<leftarrow> time_mul globalClock (Scalar (round64 (rat_of_int (uint clockMultiplier))));
       let nextClock = time_sub ticks now;
       _ \<leftarrow> ns_assert (Time_IsPositive nextClock);
       let w = set_last_scheduled d (time_add now period) w;
       Simulator_Schedule nextClock (ProcessBufferedPackets d originalHeader) w
     }
     else Some w
   }"

definition schedule_processing ::
    "device_ref \<Rightarrow> noc_header \<Rightarrow> channel_ref \<Rightarrow> packet_ref \<Rightarrow> packet_ref \<Rightarrow> world \<Rightarrow> world option" where
  "schedule_processing d originalHeader c front packetToSend w =
     (if Time_IsZero (reg_GlobalClock (w_registry w)) then schedule_unclocked d originalHeader c front w
      else schedule_clocked d originalHeader packetToSend w)"

text \<open>The middle of it: the flow control of the router, and the attempt to transmit.\<close>

definition process_flow_control :: "device_ref \<Rightarrow> channel_ref \<Rightarrow> packet_ref \<Rightarrow> world \<Rightarrow> (bool \<times> world) option" where
  "process_flow_control d c p w = do {
     via \<leftarrow> nd_viaNetDevice (w_devices w d);
     busy \<leftarrow> NocChannel_IsBusy (w_channels w c) via;
     w \<leftarrow> (if busy then NocNetDevice_MarkHeadPacketAsBlocked p w else Some w);
     router \<leftarrow> device_router w d;
     ApplyFlowControl router p w
   }"

definition process_transmit ::
    "device_ref \<Rightarrow> noc_header \<Rightarrow> channel_ref \<Rightarrow> packet_ref \<Rightarrow> mac48 \<Rightarrow> mac48 \<Rightarrow> world \<Rightarrow> world option" where
  "process_transmit d originalHeader c packetToSend to from w = do {
     (canSend, w) \<leftarrow> NocChannel_TransmitStart c d packetToSend (nd_deviceId (w_devices w (send_device w d))) w;
     if canSend then do {
       w \<leftarrow> NocChannel_Send c to from w;
       tracedPacket \<leftarrow> traced_packet (w_dims w) originalHeader (w_packets w packetToSend);
       Some (trace_event (Sent d tracedPacket) w)
     }
     else Some w
   }"

text \<open>\<^verbatim>\<open>m_pktSrcDestMap[m_inQueue->Peek ()]\<close>, which makes an entry where there is none, and the via
  device that it names.\<close>

definition take_src_dest :: "device_ref \<Rightarrow> packet_ref \<Rightarrow> world \<Rightarrow> src_dest \<times> world" where
  "take_src_dest d p w = (let
     dev = w_devices w d;
     srcDest = (case nd_pktSrcDestMap dev p of None \<Rightarrow> \<lparr>sd_src = 0, sd_dest = 0, sd_via = None\<rparr> | Some s \<Rightarrow> s)
   in (srcDest, put_device d (dev\<lparr>nd_pktSrcDestMap := (nd_pktSrcDestMap dev)(p \<mapsto> srcDest),
        nd_viaNetDevice := sd_via srcDest\<rparr>) w))"

definition NocNetDevice_ProcessBufferedPackets ::
    "device_ref \<Rightarrow> noc_header \<Rightarrow> packet_ref option \<Rightarrow> world \<Rightarrow> world option" where
  "NocNetDevice_ProcessBufferedPackets d originalHeader packet w = (case nd_inQueue (w_devices w d) of
     None \<Rightarrow> Some w
   | Some q \<Rightarrow>
       if Queue_IsEmpty q then Some w
       else do {
         front \<leftarrow> Queue_Peek q;
         let (packetToSend, w) = Packet_Copy front w;
         let (srcDest, w) = take_src_dest d front w;
         c \<leftarrow> nd_channel (w_devices w (send_device w d));
         (canDoRouting, w) \<leftarrow>
           (case packet of None \<Rightarrow> Some (True, w) | Some p \<Rightarrow> process_flow_control d c p w);
         w \<leftarrow>
           (if canDoRouting then process_transmit d originalHeader c packetToSend (sd_dest srcDest) (sd_src srcDest) w
            else Some w);
         schedule_processing d originalHeader c front packetToSend w
       })"

text \<open>\<^verbatim>\<open>SendFrom\<close>. Its result is not read by the node; in the branch with a queue it is not even set.\<close>

definition send_buffered ::
    "device_ref \<Rightarrow> packet_ref \<Rightarrow> packet_ref drop_tail_queue \<Rightarrow> noc_header \<Rightarrow> mac48 \<Rightarrow> mac48 \<Rightarrow> world \<Rightarrow> world option" where
  "send_buffered d p q originalHeader to from w = (let
     (enqueued, q) = Queue_Enqueue (packet_size w) p q;
     dev = (w_devices w d)\<lparr>nd_inQueue := Some q\<rparr>;
     dev = (if enqueued
       then dev\<lparr>nd_pktSrcDestMap := map_insert p \<lparr>sd_src = from, sd_dest = to, sd_via = nd_viaNetDevice dev\<rparr>
              (nd_pktSrcDestMap dev)\<rparr>
       else dev)
   in NocNetDevice_ProcessBufferedPackets d originalHeader (Some p) (put_device d dev w))"

definition send_unbuffered ::
    "device_ref \<Rightarrow> packet_ref \<Rightarrow> noc_header \<Rightarrow> mac48 \<Rightarrow> mac48 \<Rightarrow> world \<Rightarrow> world option" where
  "send_unbuffered d p originalHeader to from w = do {
     tracedPacket \<leftarrow> traced_packet (w_dims w) originalHeader (w_packets w p);
     let w = trace_event (Sent d tracedPacket) w;
     router \<leftarrow> device_router w d;
     (canDoRouting, w) \<leftarrow> ApplyFlowControl router p w;
     if canDoRouting then do {
       c \<leftarrow> nd_channel (w_devices w (send_device w d));
       (canSend, w) \<leftarrow> NocChannel_TransmitStart c d p (nd_deviceId (w_devices w (send_device w d))) w;
       if canSend then NocChannel_Send c to from w else Some w
     }
     else Some w
   }"

definition NocNetDevice_SendFrom :: "device_ref \<Rightarrow> packet_ref \<Rightarrow> mac48 \<Rightarrow> mac48 \<Rightarrow> world \<Rightarrow> world option" where
  "NocNetDevice_SendFrom d p source dest w = do {
     tag \<leftarrow> peeked_tag (w_packets w p);
     (originalHeader, x) \<leftarrow>
       (if HEAD = tag_type tag then Packet_RemoveHeader (w_dims w) (w_packets w p) (NocHeader_new (w_dims w))
        else Some (NocHeader_new (w_dims w), w_packets w p));
     let w = put_packet p x w;
     let from = (case nd_viaNetDevice (w_devices w d) of None \<Rightarrow> source | Some v \<Rightarrow> nd_address (w_devices w v));
     (case nd_inQueue (w_devices w d) of
        Some q \<Rightarrow> send_buffered d p q originalHeader dest from w
      | None \<Rightarrow> send_unbuffered d p originalHeader dest from w)
   }"

definition NocNetDevice_Send :: "device_ref \<Rightarrow> packet_ref \<Rightarrow> mac48 \<Rightarrow> world \<Rightarrow> world option" where
  "NocNetDevice_Send d p dest w = NocNetDevice_SendFrom d p (nd_address (w_devices w d)) dest w"

section \<open>The node\<close>

definition NocNode_SetRouter :: "node_ref \<Rightarrow> router_ref \<Rightarrow> world \<Rightarrow> world option" where
  "NocNode_SetRouter n r w = do {
     _ \<leftarrow> ns_assert (r_nocNode (w_routers w r) = Some n);
     Some (put_node n ((w_nodes w n)\<lparr>n_router := Some r\<rparr>) w)
   }"

definition NocNode_DoSend ::
    "packet_ref \<Rightarrow> device_ref \<Rightarrow> device_ref \<Rightarrow> device_ref \<Rightarrow> world \<Rightarrow> world option" where
  "NocNode_DoSend p source viaNetDevice destination w = (let
     w = put_device source (NocNetDevice_SetViaNetDevice (Some viaNetDevice) (w_devices w source)) w
   in NocNetDevice_Send source p (nd_address (w_devices w destination)) w)"

definition NocNode_Send ::
    "(nat \<Rightarrow> nat) \<Rightarrow> node_ref \<Rightarrow> device_ref \<Rightarrow> packet_ref \<Rightarrow> node_ref \<Rightarrow> world \<Rightarrow> world option" where
  "NocNode_Send pick n source p destination w = do {
     tag \<leftarrow> peeked_tag (w_packets w p);
     header \<leftarrow> head_header (w_dims w) (w_packets w p) tag;
     router \<leftarrow> node_router w n;
     (route, w) \<leftarrow> NocRouter_ManageFlit pick router source destination p w;
     route \<leftarrow> route;
     let routed = rt_routedPacket route;
     x \<leftarrow>
       (if HEAD = tag_type tag \<and> \<not> NocHeader_IsEmpty header
        then Packet_AddHeader (w_dims w) (w_packets w routed) header else Some (w_packets w routed));
     NocNode_DoSend routed source (rt_sourceDevice route) (rt_destinationDevice route) (put_packet routed x w)
   }"

text \<open>The injection and the receive device of a router.\<close>

definition router_GetInjectionNetDevice :: "router_ref \<Rightarrow> packet_ref \<Rightarrow> world \<Rightarrow> (device_ref \<times> world) option" where
  "router_GetInjectionNetDevice r p w = (case r_class (w_routers w r) of
     FourWayRouter f \<Rightarrow> Some (fw_internalInputDevice f, w)
   | FourWayLoadRouter f l \<Rightarrow> Some (fw_internalInputDevice f, w)
   | IrvineRouter v \<Rightarrow> do {
       (d, v) \<leftarrow> IrvineRouter_GetInjectionNetDevice (w_dims w) v (w_packets w p);
       Some (d, put_router r ((w_routers w r)\<lparr>r_class := IrvineRouter v\<rparr>) w)
     }
   | IrvineLoadRouter v l \<Rightarrow> do {
       (d, v) \<leftarrow> IrvineRouter_GetInjectionNetDevice (w_dims w) v (w_packets w p);
       Some (d, put_router r ((w_routers w r)\<lparr>r_class := IrvineLoadRouter v l\<rparr>) w)
     })"

definition router_GetReceiveNetDevice :: "noc_router \<Rightarrow> device_ref" where
  "router_GetReceiveNetDevice r = (case r_class r of
     FourWayRouter f \<Rightarrow> FourWayRouter_GetReceiveNetDevice f
   | FourWayLoadRouter f l \<Rightarrow> FourWayRouter_GetReceiveNetDevice f
   | IrvineRouter v \<Rightarrow> IrvineRouter_GetReceiveNetDevice v
   | IrvineLoadRouter v l \<Rightarrow> IrvineRouter_GetReceiveNetDevice v)"

definition now_picoseconds :: "world \<Rightarrow> int option" where
  "now_picoseconds w = map_option sint (Time_GetPicoSeconds resolution (TimeStep (w_now w)))"

definition NocNode_InjectPacket :: "(nat \<Rightarrow> nat) \<Rightarrow> node_ref \<Rightarrow> packet_ref \<Rightarrow> node_ref \<Rightarrow> world \<Rightarrow> world option" where
  "NocNode_InjectPacket pick n p destination w = do {
     (_, tag, x) \<leftarrow> Packet_RemovePacketTag (w_packets w p) NocPacketTag_new;
     now \<leftarrow> now_picoseconds w;
     x \<leftarrow> Packet_AddPacketTag x (tag\<lparr>tag_injectionTime := now\<rparr>);
     let w = put_packet p x w;
     router \<leftarrow> node_router w n;
     (netDevice, w) \<leftarrow> router_GetInjectionNetDevice router p w;
     NocNode_Send pick n netDevice p destination w
   }"

section \<open>The end of a transmission\<close>

text \<open>The last device with the address; the topology asserts that there is one.\<close>

definition NocTopology_FindNetDeviceByAddress :: "world \<Rightarrow> mac48 \<Rightarrow> device_ref option" where
  "NocTopology_FindNetDeviceByAddress w a = find (\<lambda>d. nd_address (w_devices w d) = a) (rev (w_topology w))"

text \<open>\<^verbatim>\<open>Receive\<close> of a device. It passes a packet for its node to the receive device of the router, which
  calls itself no further; any other packet goes to the node.\<close>

partial_function (option) NocNetDevice_Receive ::
    "(nat \<Rightarrow> nat) \<Rightarrow> device_ref \<Rightarrow> packet_ref \<Rightarrow> mac48 \<Rightarrow> mac48 \<Rightarrow> world \<Rightarrow> world option" where
  "NocNetDevice_Receive pick d p to from w =
     (if to = nd_address (w_devices w d) \<or> Mac48Address_IsBroadcast to \<or> Mac48Address_IsGroup to then
        Option.bind (device_router w d) (\<lambda>router.
          let receiveDevice = router_GetReceiveNetDevice (w_routers w router) in
          if d = receiveDevice then
            Option.bind (Packet_RemovePacketTag (w_packets w p) NocPacketTag_new) (\<lambda>(_, tag, x).
              Option.bind (now_picoseconds w) (\<lambda>now.
                Option.bind (Packet_AddPacketTag x (tag\<lparr>tag_receiveTime := now\<rparr>)) (\<lambda>x.
                  Some (trace_event (Received d x) (put_packet p x w)))))
          else NocNetDevice_Receive pick receiveDevice p (nd_address (w_devices w receiveDevice)) to w)
      else
        Option.bind (nd_node (w_devices w d)) (\<lambda>n.
          Option.bind (NocTopology_FindNetDeviceByAddress w to) (\<lambda>dest.
            Option.bind (nd_node (w_devices w dest)) (\<lambda>destination.
              NocNode_Send pick n d p destination w))))"

declare NocNetDevice_Receive.simps [code]

text \<open>The load that the receiving router learns about.\<close>

definition receive_load :: "router_ref \<Rightarrow> device_ref \<Rightarrow> packet_ref \<Rightarrow> world \<Rightarrow> world option" where
  "receive_load r srcNetDevice p w = (case r_loadComponent (w_routers w r) of
     None \<Rightarrow> Some w
   | Some loadComponent \<Rightarrow> do {
       let w = put_router r ((w_routers w r)\<lparr>r_loadComponent := Some (LoadRouterComponent_IncreaseLoad loadComponent)\<rparr>) w;
       tag \<leftarrow> peeked_tag (w_packets w p);
       if HEAD = tag_type tag then do {
         nocHeader \<leftarrow> Packet_PeekHeader (w_dims w) (w_packets w p) (NocHeader_new (w_dims w));
         if \<not> NocHeader_IsEmpty nocHeader then router_AddNeighborLoad (uint (tag_load tag)) srcNetDevice r w
         else Some w
       }
       else Some w
     })"

text \<open>The flits of the channel per clock cycle; measuring them asserts a load of at most 1.\<close>

definition channel_load_in_range :: "noc_channel \<Rightarrow> bool" where
  "channel_load_in_range ch \<longleftrightarrow> unat (c_trasmittedFlits ch) \<le> length (c_currentPkt ch)"

definition channel_count_flit :: "world \<Rightarrow> packet_ref \<Rightarrow> noc_channel \<Rightarrow> noc_channel option" where
  "channel_count_flit w p ch = do {
     let ch = ch\<lparr>c_powerCounter := c_powerCounter ch + 1\<rparr>;
     clockNumber \<leftarrow> clock_number w;
     ch \<leftarrow>
       (if clockNumber > c_lastClock ch then do {
          _ \<leftarrow> ns_assert (c_flitsFromLastClock ch \<noteq> [] \<longrightarrow> channel_load_in_range ch);
          Some (ch\<lparr>c_flitsFromLastClock := [], c_trasmittedFlits := 1, c_lastClock := clockNumber\<rparr>)
        }
        else Some (ch\<lparr>c_trasmittedFlits := c_trasmittedFlits ch + 1\<rparr>));
     Some (ch\<lparr>c_flitsFromLastClock := c_flitsFromLastClock ch @ [p]\<rparr>)
   }"

definition NocChannel_MeasurePowerForLastClock :: "world \<Rightarrow> noc_channel \<Rightarrow> noc_channel option" where
  "NocChannel_MeasurePowerForLastClock w ch = do {
     clockNumber \<leftarrow> clock_number w;
     _ \<leftarrow> ns_assert (c_flitsFromLastClock ch \<noteq> [] \<longrightarrow> channel_load_in_range ch);
     Some (ch\<lparr>c_flitsFromLastClock := [], c_trasmittedFlits := 0, c_lastClock := clockNumber\<rparr>)
   }"

text \<open>The flit leaves the queue of the device that it was sent from.\<close>

definition take_transmitted :: "channel_ref \<Rightarrow> nat \<Rightarrow> packet_ref \<Rightarrow> world \<Rightarrow> world option" where
  "take_transmitted c link p w = do {
     let ch = w_channels w c;
     let uid = pk_uid (w_packets w p);
     original \<leftarrow> vec_at (c_packetOriginalDevice ch) link;
     originalNetDevice \<leftarrow> original uid;
     (dequeuedPacket, w) \<leftarrow> NocNetDevice_DequeuePacketFromInQueue originalNetDevice w;
     dequeued \<leftarrow> dequeuedPacket;
     _ \<leftarrow> ns_assert (uid = pk_uid (w_packets w dequeued));
     Some (put_channel c (ch\<lparr>c_packetOriginalDevice := (c_packetOriginalDevice ch)[link := original(uid := None)]\<rparr>) w)
   }"

definition NocChannel_TransmitEnd ::
    "(nat \<Rightarrow> nat) \<Rightarrow> channel_ref \<Rightarrow> device_ref \<Rightarrow> mac48 \<Rightarrow> device_ref \<Rightarrow> mac48 \<Rightarrow> world \<Rightarrow> world option" where
  "NocChannel_TransmitEnd pick c src to dest from w = do {
     srcId \<leftarrow> index_of src (c_devices (w_channels w c));
     let link = channel_link (w_channels w c) srcId;
     currentPkt \<leftarrow> vec_at (c_currentPkt (w_channels w c)) link;
     p \<leftarrow> currentPkt;
     state \<leftarrow> vec_at (c_state (w_channels w c)) link;
     _ \<leftarrow> ns_assert (state = PROPAGATING);
     router \<leftarrow> device_router w dest;
     w \<leftarrow> receive_load router src p w;
     w \<leftarrow> take_transmitted c link p w;
     let (packet, w) = Packet_Copy p w;
     w \<leftarrow> NocNetDevice_Receive pick dest packet to from w;
     let ch = w_channels w c;
     flit \<leftarrow> (c_currentPkt ch) ! link;
     ch \<leftarrow> channel_count_flit w flit (ch\<lparr>c_state := (c_state ch)[link := IDLE]\<rparr>);
     Some (put_channel c ch w)
   }"

section \<open>Running the network\<close>

text \<open>The event with the least time, the first scheduled of those. The simulator does this with UIDs.\<close>

fun take_earliest :: "(u64 \<times> net_event) list \<Rightarrow> ((u64 \<times> net_event) \<times> (u64 \<times> net_event) list) option" where
  "take_earliest [] = None"
| "take_earliest (e # es) = (case take_earliest es of
     None \<Rightarrow> Some (e, [])
   | Some (e', es') \<Rightarrow> if fst e \<le> fst e' then Some (e, es) else Some (e', e # es'))"

definition invoke_event :: "(nat \<Rightarrow> nat) \<Rightarrow> net_event \<Rightarrow> world \<Rightarrow> world option" where
  "invoke_event pick ev w = (case ev of
     TransmitEnd c src to dest from \<Rightarrow> NocChannel_TransmitEnd pick c src to dest from w
   | ProcessBufferedPackets d originalHeader \<Rightarrow> NocNetDevice_ProcessBufferedPackets d originalHeader None w)"

definition network_step :: "(nat \<Rightarrow> nat) \<Rightarrow> world \<Rightarrow> world option" where
  "network_step pick w = do {
     ((ts, ev), events) \<leftarrow> take_earliest (w_events w);
     _ \<leftarrow> ns_assert (w_now w \<le> ts);
     invoke_event pick ev (w\<lparr>w_now := ts, w_events := events\<rparr>)
   }"

end
