(* ===== verification/Noc_Links.thy ===== *)
theory Noc_Links
  imports Noc_Transport
begin

text \<open>
  The invariant of the channels and queues of a network: a wire carries one flit at a time, the flit
  stays in the queue it was sent from until its transmission ends, and the queue at the other end has
  room for it. The theory holds the invariant, the operations that do not touch it, and the
  operations that start a transmission.
\<close>

section \<open>Views of the world\<close>

definition in_queue :: "world \<Rightarrow> device_ref \<Rightarrow> packet_ref list" where
  "in_queue w d = (case nd_inQueue (w_devices w d) of None \<Rightarrow> [] | Some q \<Rightarrow> q_packets q)"

abbreviation uid_at :: "world \<Rightarrow> packet_ref \<Rightarrow> u32" where
  "uid_at w p \<equiv> pk_uid (w_packets w p)"

abbreviation devices_of :: "world \<Rightarrow> channel_ref \<Rightarrow> device_ref list" where
  "devices_of w c \<equiv> c_devices (w_channels w c)"

text \<open>The UIDs of the flits that wait in some input queue, and those of the flits delivered so far.\<close>

definition queued_uids :: "world \<Rightarrow> u32 set" where
  "queued_uids w = {uid_at w p |d p. p \<in> set (in_queue w d)}"

definition delivered_uids :: "world \<Rightarrow> u32 list" where
  "delivered_uids w = List.map_filter (\<lambda>e. case e of Received d x \<Rightarrow> Some (pk_uid x) | Sent d x \<Rightarrow> None) (w_trace w)"

text \<open>The transmissions whose end is scheduled: the channel, the sender and the receiver.\<close>

definition flight_of :: "net_event \<Rightarrow> (channel_ref \<times> device_ref \<times> device_ref) option" where
  "flight_of ev = (case ev of TransmitEnd c src to dest from \<Rightarrow> Some (c, src, dest) | ProcessBufferedPackets d h \<Rightarrow> None)"

definition flight_list :: "world \<Rightarrow> (channel_ref \<times> device_ref \<times> device_ref) list" where
  "flight_list w = List.map_filter (\<lambda>e. flight_of (snd e)) (w_events w)"

definition send_link :: "world \<Rightarrow> channel_ref \<Rightarrow> device_ref \<Rightarrow> nat" where
  "send_link w c d = channel_link (w_channels w c) (unat (nd_deviceId (w_devices w d)))"

definition receive_link :: "world \<Rightarrow> channel_ref \<Rightarrow> device_ref \<Rightarrow> nat" where
  "receive_link w c d = channel_link (w_channels w c) (1 - unat (nd_deviceId (w_devices w d)))"

definition flights :: "world \<Rightarrow> channel_ref \<Rightarrow> nat \<Rightarrow> device_ref list" where
  "flights w c l = map (\<lambda>f. snd (snd f)) (filter (\<lambda>f. fst f = c \<and> send_link w c (fst (snd f)) = l) (flight_list w))"

text \<open>The device that a queued flit leaves its node by.\<close>

definition exit_device :: "device_ref \<Rightarrow> src_dest \<Rightarrow> device_ref" where
  "exit_device d sd = (case sd_via sd of None \<Rightarrow> d | Some v \<Rightarrow> v)"

section \<open>The invariant\<close>

definition queue_ok :: "packet_ref drop_tail_queue \<Rightarrow> bool" where
  "queue_ok q \<longleftrightarrow> q_mode q = PACKETS \<and> unat (q_nPackets q) = length (q_packets q) \<and>
     length (q_packets q) \<le> unat (q_maxPackets q)"

text \<open>How the topologies wire up: a device is on the channel it names, with its number, the two
  devices of a channel have different addresses, and the vectors of a channel have two entries.\<close>

definition wiring_ok :: "world \<Rightarrow> bool" where
  "wiring_ok w \<longleftrightarrow>
     (\<forall>c d. d \<in> set (devices_of w c) \<longrightarrow> nd_channel (w_devices w d) = Some c) \<and>
     (\<forall>c d. nd_channel (w_devices w d) = Some c \<longrightarrow> length (devices_of w c) = 2 \<and>
        index_of d (devices_of w c) = Some (unat (nd_deviceId (w_devices w d)))) \<and>
     (\<forall>c. distinct (map (\<lambda>d. nd_address (w_devices w d)) (devices_of w c))) \<and>
     (\<forall>c. length (c_state (w_channels w c)) = 2 \<and> length (c_currentPkt (w_channels w c)) = 2 \<and>
        length (c_packetOriginalDevice (w_channels w c)) = 2 \<and> length (c_currentDestDevice (w_channels w c)) = 2)"

text \<open>Queues count right, a flit is in one place, and the entry that says where it goes is there.\<close>

definition queues_ok :: "world \<Rightarrow> bool" where
  "queues_ok w \<longleftrightarrow>
     (\<forall>d q. nd_inQueue (w_devices w d) = Some q \<longrightarrow> queue_ok q) \<and>
     (\<forall>d. distinct (in_queue w d)) \<and>
     (\<forall>d p. p \<in> set (in_queue w d) \<longrightarrow> p < w_nextPacket w) \<and>
     (\<forall>d p. nd_pktSrcDestMap (w_devices w d) p \<noteq> None \<longleftrightarrow> p \<in> set (in_queue w d)) \<and>
     (\<forall>d p sd. nd_pktSrcDestMap (w_devices w d) p = Some sd \<longrightarrow>
        sd_src sd = nd_address (w_devices w (exit_device d sd))) \<and>
     (\<forall>d p d' p'. p \<in> set (in_queue w d) \<longrightarrow> p' \<in> set (in_queue w d') \<longrightarrow> uid_at w p = uid_at w p' \<longrightarrow> d = d' \<and> p = p')"

text \<open>The entry of a packet in \<^verbatim>\<open>m_packetOriginalDevice\<close> names a device with that packet in front, which
  leaves by this link.\<close>

definition entry_ok :: "world \<Rightarrow> channel_ref \<Rightarrow> nat \<Rightarrow> u32 \<Rightarrow> device_ref \<Rightarrow> bool" where
  "entry_ok w c l u d \<longleftrightarrow> (\<exists>p ps sd. in_queue w d = p # ps \<and> uid_at w p = u \<and>
     nd_pktSrcDestMap (w_devices w d) p = Some sd \<and>
     nd_channel (w_devices w (exit_device d sd)) = Some c \<and> send_link w c (exit_device d sd) = l)"

definition entries_ok :: "world \<Rightarrow> bool" where
  "entries_ok w \<longleftrightarrow> (\<forall>c l u d. l < 2 \<longrightarrow> (c_packetOriginalDevice (w_channels w c) ! l) u = Some d \<longrightarrow> entry_ok w c l u d)"

definition has_room :: "world \<Rightarrow> device_ref \<Rightarrow> bool" where
  "has_room w d \<longleftrightarrow> (\<exists>q. nd_inQueue (w_devices w d) = Some q \<and> length (q_packets q) < unat (q_maxPackets q))"

text \<open>A wire that is on the way: what it carries, who sent it and where to, with room there.\<close>

definition carries :: "world \<Rightarrow> channel_ref \<Rightarrow> nat \<Rightarrow> bool" where
  "carries w c l \<longleftrightarrow> (\<exists>p d dest. c_currentPkt (w_channels w c) ! l = Some p \<and> p < w_nextPacket w \<and>
     (c_packetOriginalDevice (w_channels w c) ! l) (uid_at w p) = Some d \<and>
     c_currentDestDevice (w_channels w c) ! l = Some dest \<and> dest \<in> set (devices_of w c) \<and>
     l = receive_link w c dest \<and> has_room w dest \<and> flights w c l = [dest])"

text \<open>\<open>X\<close> holds the link whose transmission is ending.\<close>

definition links_ok :: "(channel_ref \<times> nat) set \<Rightarrow> world \<Rightarrow> bool" where
  "links_ok X w \<longleftrightarrow>
     (\<forall>f \<in> set (flight_list w). fst (snd f) \<in> set (devices_of w (fst f))) \<and>
     (\<forall>c l. l < 2 \<longrightarrow>
        (if (c, l) \<in> X then c_state (w_channels w c) ! l = PROPAGATING \<and> flights w c l = []
         else c_state (w_channels w c) ! l = IDLE \<and> flights w c l = [] \<or>
              c_state (w_channels w c) ! l = PROPAGATING \<and> carries w c l))"

definition net_ok :: "(channel_ref \<times> nat) set \<Rightarrow> world \<Rightarrow> bool" where
  "net_ok X w \<longleftrightarrow> wiring_ok w \<and> queues_ok w \<and> entries_ok w \<and> links_ok X w"

lemma link_state:
  "net_ok X w \<Longrightarrow> l < 2 \<Longrightarrow>
     (if (c, l) \<in> X then c_state (w_channels w c) ! l = PROPAGATING \<and> flights w c l = []
      else c_state (w_channels w c) ! l = IDLE \<and> flights w c l = [] \<or>
           c_state (w_channels w c) ! l = PROPAGATING \<and> carries w c l)"
  by (simp add: net_ok_def links_ok_def)

section \<open>Operations that the invariant does not notice\<close>

definition inert :: "world \<Rightarrow> world \<Rightarrow> bool" where
  "inert w w' \<longleftrightarrow>
     (\<forall>d. nd_inQueue (w_devices w' d) = nd_inQueue (w_devices w d) \<and>
        nd_pktSrcDestMap (w_devices w' d) = nd_pktSrcDestMap (w_devices w d) \<and>
        nd_channel (w_devices w' d) = nd_channel (w_devices w d) \<and>
        nd_deviceId (w_devices w' d) = nd_deviceId (w_devices w d) \<and>
        nd_address (w_devices w' d) = nd_address (w_devices w d)) \<and>
     w_channels w' = w_channels w \<and> flight_list w' = flight_list w \<and> delivered_uids w' = delivered_uids w \<and>
     w_nextPacket w \<le> w_nextPacket w' \<and> (\<forall>p < w_nextPacket w. uid_at w' p = uid_at w p)"

lemma inert_refl [intro, simp]: "inert w w"
  by (simp add: inert_def)

lemma inert_trans [trans]: "inert a b \<Longrightarrow> inert b c \<Longrightarrow> inert a c"
  unfolding inert_def by (metis order_trans less_le_trans)

lemma inert_views:
  assumes "inert w w'"
  shows "in_queue w' = in_queue w" "devices_of w' c = devices_of w c" "send_link w' = send_link w"
    "receive_link w' = receive_link w" "flights w' = flights w" "has_room w' = has_room w"
  using assms by (simp_all add: inert_def in_queue_def send_link_def receive_link_def flights_def has_room_def fun_eq_iff)

lemma inert_uid: "inert w w' \<Longrightarrow> p < w_nextPacket w \<Longrightarrow> uid_at w' p = uid_at w p"
  by (simp add: inert_def)

lemma queued_ref: "queues_ok w \<Longrightarrow> p \<in> set (in_queue w d) \<Longrightarrow> p < w_nextPacket w"
  by (simp add: queues_ok_def)

lemma inert_queued:
  assumes "inert w w'" "queues_ok w"
  shows "queued_uids w' = queued_uids w"
proof -
  have "uid_at w' p = uid_at w p" if "p \<in> set (in_queue w d)" for d p
    by (rule inert_uid [OF assms(1) queued_ref [OF assms(2) that]])
  then show ?thesis unfolding queued_uids_def inert_views [OF assms(1)] by metis
qed

lemma inert_wiring: "inert w w' \<Longrightarrow> wiring_ok w \<Longrightarrow> wiring_ok w'"
  by (simp add: inert_def wiring_ok_def)

lemma inert_queues:
  assumes "inert w w'" "queues_ok w"
  shows "queues_ok w'"
proof -
  have u: "uid_at w' p = uid_at w p" if "p \<in> set (in_queue w d)" for d p
    by (rule inert_uid [OF assms(1) queued_ref [OF assms(2) that]])
  have n: "p < w_nextPacket w'" if "p \<in> set (in_queue w d)" for d p
    using that assms less_le_trans unfolding queues_ok_def inert_def by blast
  show ?thesis
    unfolding queues_ok_def inert_views [OF assms(1)]
  proof (intro conjI allI impI)
    fix d p d' p' assume "p \<in> set (in_queue w d)" "p' \<in> set (in_queue w d')" "uid_at w' p = uid_at w' p'"
    then show "d = d'" "p = p'" using assms(2) u unfolding queues_ok_def by metis+
  qed (use assms n in \<open>auto simp: queues_ok_def inert_def\<close>)
qed

lemma inert_entries:
  assumes "inert w w'" "queues_ok w" "entries_ok w"
  shows "entries_ok w'"
proof -
  have "entry_ok w' c l u d" if "entry_ok w c l u d" for c l u d
  proof -
    from that obtain p ps sd where p: "in_queue w d = p # ps" "uid_at w p = u"
      "nd_pktSrcDestMap (w_devices w d) p = Some sd" "nd_channel (w_devices w (exit_device d sd)) = Some c"
      "send_link w c (exit_device d sd) = l" by (auto simp: entry_ok_def)
    have "uid_at w' p = u" using p(1,2) inert_uid [OF assms(1) queued_ref [OF assms(2), of p d]] by simp
    then show ?thesis using p assms(1) unfolding entry_ok_def inert_views [OF assms(1)] by (auto simp: inert_def)
  qed
  then show ?thesis using assms(1,3) by (simp add: entries_ok_def inert_def)
qed

lemma inert_carries: "inert w w' \<Longrightarrow> carries w c l \<Longrightarrow> carries w' c l"
proof -
  assume i: "inert w w'" and "carries w c l"
  then obtain p d dest where p: "c_currentPkt (w_channels w c) ! l = Some p" "p < w_nextPacket w"
    "(c_packetOriginalDevice (w_channels w c) ! l) (uid_at w p) = Some d"
    "c_currentDestDevice (w_channels w c) ! l = Some dest" "dest \<in> set (devices_of w c)"
    "l = receive_link w c dest" "has_room w dest" "flights w c l = [dest]" by (auto simp: carries_def)
  have "uid_at w' p = uid_at w p" "w_channels w' = w_channels w" "p < w_nextPacket w'"
    using i p(2) inert_uid [OF i p(2)] by (auto simp: inert_def)
  with p show ?thesis unfolding carries_def inert_views [OF i] by auto
qed

lemma inert_links:
  assumes "inert w w'" "links_ok X w"
  shows "links_ok X w'"
proof -
  have "w_channels w' = w_channels w" "flight_list w' = flight_list w" using assms(1) by (simp_all add: inert_def)
  with assms(2) inert_carries [OF assms(1)] show ?thesis unfolding links_ok_def inert_views [OF assms(1)] by simp metis
qed

lemma inert_ok: "inert w w' \<Longrightarrow> net_ok X w \<Longrightarrow> net_ok X w'"
  unfolding net_ok_def using inert_wiring inert_queues inert_entries inert_links by blast

text \<open>Changes to packets that keep their UIDs, to routers and to nodes.\<close>

definition quiet :: "world \<Rightarrow> world \<Rightarrow> bool" where
  "quiet w w' \<longleftrightarrow> w_devices w' = w_devices w \<and> w_channels w' = w_channels w \<and> w_events w' = w_events w \<and>
     w_trace w' = w_trace w \<and> w_nextPacket w' = w_nextPacket w \<and> (\<forall>q. uid_at w' q = uid_at w q)"

lemma quiet_refl [simp]: "quiet w w"
  by (simp add: quiet_def)

lemma quiet_trans: "quiet a b \<Longrightarrow> quiet b c \<Longrightarrow> quiet a c"
  by (simp add: quiet_def)

lemma quiet_put_packet: "pk_uid x = uid_at w p \<Longrightarrow> quiet w (put_packet p x w)"
  by (simp add: quiet_def)

lemma quiet_put_router [simp]: "quiet w (put_router r x w') \<longleftrightarrow> quiet w w'"
  by (simp add: quiet_def)

lemma quiet_inert: "quiet w w' \<Longrightarrow> inert w w'"
  by (simp add: quiet_def inert_def flight_list_def delivered_uids_def)

lemma quiet_ref: "quiet w w' \<Longrightarrow> uid_at w' q = uid_at w q"
  by (simp add: quiet_def)

text \<open>Routing: a route is for the packet that was asked about, and only packets and routers change.\<close>

definition routes_packet :: "packet_ref \<Rightarrow> route option \<Rightarrow> bool" where
  "routes_packet p rt \<longleftrightarrow> (case rt of None \<Rightarrow> True | Some r \<Rightarrow> rt_routedPacket r = p)"

lemma select_devices_routes:
  "select_devices w source destination p dir i st = Some st' \<Longrightarrow> routes_packet p (fst st) \<Longrightarrow> routes_packet p (fst st')"
  by (auto simp: select_devices_def routes_packet_def Option.bind_eq_Some_conv split: if_splits)

lemma dor_select_routes:
  "dor_select w source destination p ds i st = Some st' \<Longrightarrow> routes_packet p (fst st) \<Longrightarrow> routes_packet p (fst st')"
proof (induction ds arbitrary: i st)
  case (Cons d ds)
  then show ?case by (auto simp: Option.bind_eq_Some_conv dest: select_devices_routes)
qed simp

lemma reheaded_quiet:
  assumes "take_header dims (w_packets w p) = Some (h, x)" "Packet_AddHeader dims x h' = Some x'"
  shows "quiet w (put_packet p x' w)"
  by (rule quiet_put_packet) (simp add: take_header_uid [OF assms(1)] AddHeader_uid [OF assms(2)])

lemma UpdateHeader_quiet: "UpdateHeader p d source w = Some w' \<Longrightarrow> quiet w w'"
proof -
  assume u: "UpdateHeader p d source w = Some w'"
  then have "w_devices w' = w_devices w" "w_channels w' = w_channels w" "w_events w' = w_events w"
    "w_trace w' = w_trace w" "w_nextPacket w' = w_nextPacket w"
    by (auto simp: UpdateHeader_def Let_def Option.bind_eq_Some_conv split: option.splits if_splits)
  moreover have "w_packets w' q = w_packets w q" if "q \<noteq> p" for q
    using u that by (auto simp: UpdateHeader_def Let_def Option.bind_eq_Some_conv split: option.splits if_splits)
  moreover have "uid_at w' p = uid_at w p" by (rule UpdateHeader_uid [OF u])
  ultimately show ?thesis unfolding quiet_def by metis
qed

lemma new_route_quiet:
  assumes "RequestNewRoute pick source destination p c base w = Some (rt, c', base', w')"
  shows "quiet w w' \<and> routes_packet p rt"
proof (cases c)
  case (XyRouting b)
  with assms obtain h x h' xd yd x' st1 st2 where s:
    "take_header (w_dims w) (w_packets w p) = Some (h, x)"
    "Packet_AddHeader (w_dims w) x h' = Some x'" "w' = put_packet p x' w"
    "select_devices w' source destination p xd 0 (None, base) = Some st1"
    "select_devices w' source destination p yd 1 st1 = Some st2" "rt = fst st2"
    by (auto simp: RequestNewRoute_def XyRouting_RequestNewRoute_def Option.bind_eq_Some_conv Let_def)
  then show ?thesis using reheaded_quiet [OF s(1,2)] select_devices_routes [OF s(4)] select_devices_routes [OF s(5)]
    by (simp add: routes_packet_def)
next
  case (XyzRouting b1 b2 b3 b4)
  with assms obtain h x h' xd yd zd x' st1 st2 st3 where s:
    "take_header (w_dims w) (w_packets w p) = Some (h, x)"
    "Packet_AddHeader (w_dims w) x h' = Some x'" "w' = put_packet p x' w"
    "select_devices w' source destination p xd 0 (None, base) = Some st1"
    "select_devices w' source destination p yd 1 st1 = Some st2"
    "select_devices w' source destination p zd 2 st2 = Some st3" "rt = fst st3"
    by (auto simp: RequestNewRoute_def XyzRouting_RequestNewRoute_def Option.bind_eq_Some_conv Let_def)
  then show ?thesis
    using reheaded_quiet [OF s(1,2)] select_devices_routes [OF s(4)] select_devices_routes [OF s(5)]
      select_devices_routes [OF s(6)] by (simp add: routes_packet_def)
next
  case (DorRouting ro)
  with assms obtain h x h' ds x' st where s:
    "take_header (w_dims w) (w_packets w p) = Some (h, x)"
    "Packet_AddHeader (w_dims w) x h' = Some x'" "w' = put_packet p x' w"
    "dor_select w' source destination p ds 0 (None, base) = Some st" "rt = fst st"
    by (auto simp: RequestNewRoute_def DorRouting_RequestNewRoute_def Option.bind_eq_Some_conv Let_def)
  then show ?thesis using reheaded_quiet [OF s(1,2)] dor_select_routes [OF s(4)]
    by (simp add: routes_packet_def)
next
  case (SoRouting s)
  with assms show ?thesis
    by (auto simp: RequestNewRoute_def SoRouting_RequestNewRoute_def Option.bind_eq_Some_conv
        finish_route_def routes_packet_def dest: UpdateHeader_quiet)
next
  case (SlbRouting s)
  with assms show ?thesis
    by (auto simp: RequestNewRoute_def SlbRouting_RequestNewRoute_def Option.bind_eq_Some_conv
        finish_route_def routes_packet_def dest: UpdateHeader_quiet)
qed

lemma RequestRoute_quiet:
  "NocRoutingProtocol_RequestRoute pick source destination p c base w = Some (rt, c', base', w') \<Longrightarrow>
     quiet w w' \<and> routes_packet p rt"
  unfolding NocRoutingProtocol_RequestRoute_def RequestRoute_with_def
  by (auto simp: Option.bind_eq_Some_conv Let_def routes_packet_def split: if_splits dest: new_route_quiet)

lemma ManageFlit_quiet:
  assumes "NocRouter_ManageFlit pick r source destination p w = Some (rt, w')"
  shows "quiet w w' \<and> routes_packet p rt"
proof -
  have t: "quiet (put_router r x w) v \<Longrightarrow> quiet w v" for x v by (rule quiet_trans [of _ "put_router r x w"]) simp_all
  from assms show ?thesis
    by (auto simp: NocRouter_ManageFlit_def Option.bind_eq_Some_conv Let_def routes_packet_def split: if_splits
        dest!: RequestRoute_quiet t)
qed

lemma mark_quiet: "mark_head_packet b p w = Some w' \<Longrightarrow> quiet w w'"
proof -
  assume "mark_head_packet b p w = Some w'"
  then consider "w' = w" | x where "w' = put_packet p x w" "pk_uid x = uid_at w p"
    by (auto simp: mark_head_packet_def Packet_RemovePacketTag_def Packet_AddPacketTag_def Option.bind_eq_Some_conv
        split: option.splits if_splits)
  then show ?thesis by cases (auto intro: quiet_put_packet)
qed

lemma ApplyFlowControl_quiet: "ApplyFlowControl r p w = Some (b, w') \<Longrightarrow> quiet w w'"
  by (auto simp: ApplyFlowControl_def Option.bind_eq_Some_conv)

lemma flow_control_quiet: "process_flow_control d c p w = Some (b, w') \<Longrightarrow> quiet w w'"
  by (auto simp: process_flow_control_def NocNetDevice_MarkHeadPacketAsBlocked_def Option.bind_eq_Some_conv split: if_splits
      dest!: mark_quiet ApplyFlowControl_quiet intro: quiet_trans)

lemma AddNeighborLoad_quiet: "router_AddNeighborLoad load src r w = Some w' \<Longrightarrow> quiet w w'"
  by (auto simp: router_AddNeighborLoad_def split: router_class.splits)

lemma receive_load_quiet: "receive_load r src p w = Some w' \<Longrightarrow> quiet w w'"
proof -
  have t: "quiet (put_router r x w) v \<Longrightarrow> quiet w v" for x v by (rule quiet_trans [of _ "put_router r x w"]) simp_all
  assume "receive_load r src p w = Some w'"
  then show ?thesis
    by (auto simp: receive_load_def Option.bind_eq_Some_conv Let_def split: option.splits if_splits
        dest!: AddNeighborLoad_quiet t)
qed

lemma injection_device_quiet: "router_GetInjectionNetDevice r p w = Some (d, w') \<Longrightarrow> quiet w w'"
  by (auto simp: router_GetInjectionNetDevice_def Option.bind_eq_Some_conv split: router_class.splits)

text \<open>Changes to the other members of a device, to the trace of what was sent, and scheduling an attempt.\<close>

lemma put_device_inert:
  assumes "nd_inQueue x = nd_inQueue (w_devices w d)" "nd_pktSrcDestMap x = nd_pktSrcDestMap (w_devices w d)"
    "nd_channel x = nd_channel (w_devices w d)" "nd_deviceId x = nd_deviceId (w_devices w d)"
    "nd_address x = nd_address (w_devices w d)"
  shows "inert w (put_device d x w)"
  using assms by (simp add: inert_def flight_list_def delivered_uids_def)

lemma sent_inert: "inert w (trace_event (Sent d x) w)"
  by (simp add: inert_def trace_event_def flight_list_def delivered_uids_def List.map_filter_def)

lemma copy_inert: "inert w (snd (Packet_Copy p w))"
  by (simp add: inert_def Packet_Copy_def flight_list_def delivered_uids_def)

lemma schedule_attempt_inert: "Simulator_Schedule t (ProcessBufferedPackets d h) w = Some w' \<Longrightarrow> inert w w'"
  by (auto simp: Simulator_Schedule_def Let_def inert_def flight_list_def delivered_uids_def List.map_filter_def
      flight_of_def split: if_splits)

lemma schedule_processing_inert: "schedule_processing d h c f p w = Some w' \<Longrightarrow> inert w w'"
proof -
  have l: "inert w (set_last_scheduled d t w)" for t
    unfolding set_last_scheduled_def by (rule put_device_inert) simp_all
  assume "schedule_processing d h c f p w = Some w'"
  then show ?thesis
    by (auto simp: schedule_processing_def schedule_unclocked_def schedule_clocked_def Let_def Option.bind_eq_Some_conv
        split: if_splits dest!: schedule_attempt_inert intro: inert_trans [OF l])
qed

lemma take_src_dest_inert:
  assumes "nd_pktSrcDestMap (w_devices w d) p = Some sd"
  shows "take_src_dest d p w = (sd, snd (take_src_dest d p w))" "inert w (snd (take_src_dest d p w))"
    "send_device (snd (take_src_dest d p w)) d = exit_device d sd"
proof -
  have s: "take_src_dest d p w = (sd, put_device d ((w_devices w d)\<lparr>nd_pktSrcDestMap := (nd_pktSrcDestMap (w_devices w d))(p \<mapsto> sd),
      nd_viaNetDevice := sd_via sd\<rparr>) w)" using assms by (simp add: take_src_dest_def Let_def)
  show "take_src_dest d p w = (sd, snd (take_src_dest d p w))" using s by simp
  show "inert w (snd (take_src_dest d p w))"
    unfolding s snd_conv by (rule put_device_inert) (use assms in \<open>auto simp: fun_upd_idem\<close>)
  show "send_device (snd (take_src_dest d p w)) d = exit_device d sd"
    unfolding s by (simp add: send_device_def exit_device_def)
qed

section \<open>Starting a transmission\<close>

text \<open>The views do not see the moving parts of a channel.\<close>

lemma channel_views:
  assumes "c_devices ch = devices_of w c" "c_fullDuplex ch = c_fullDuplex (w_channels w c)"
  shows "in_queue (put_channel c ch w) = in_queue w" "devices_of (put_channel c ch w) = devices_of w"
    "send_link (put_channel c ch w) = send_link w" "receive_link (put_channel c ch w) = receive_link w"
    "has_room (put_channel c ch w) = has_room w" "flight_list (put_channel c ch w) = flight_list w"
    "entry_ok (put_channel c ch w) = entry_ok w" "flights (put_channel c ch w) = flights w"
    "delivered_uids (put_channel c ch w) = delivered_uids w" "queued_uids (put_channel c ch w) = queued_uids w"
proof -
  show q: "in_queue (put_channel c ch w) = in_queue w" by (simp add: in_queue_def fun_eq_iff)
  show "devices_of (put_channel c ch w) = devices_of w" using assms(1) by (simp add: fun_eq_iff)
  show s: "send_link (put_channel c ch w) = send_link w" using assms(2) by (simp add: send_link_def fun_eq_iff channel_link_def)
  show "receive_link (put_channel c ch w) = receive_link w" using assms(2) by (simp add: receive_link_def fun_eq_iff channel_link_def)
  show "has_room (put_channel c ch w) = has_room w" by (simp add: has_room_def fun_eq_iff)
  show f: "flight_list (put_channel c ch w) = flight_list w" by (simp add: flight_list_def)
  show "entry_ok (put_channel c ch w) = entry_ok w" by (simp add: entry_ok_def fun_eq_iff q s)
  show "flights (put_channel c ch w) = flights w" by (simp add: flights_def fun_eq_iff f s)
  show "delivered_uids (put_channel c ch w) = delivered_uids w" by (simp add: delivered_uids_def)
  show "queued_uids (put_channel c ch w) = queued_uids w" by (simp add: queued_uids_def q)
qed

text \<open>A channel with other contents on the link \<open>l\<close> only.\<close>

definition differs_at :: "nat \<Rightarrow> noc_channel \<Rightarrow> noc_channel \<Rightarrow> bool" where
  "differs_at l ch ch' \<longleftrightarrow> c_devices ch' = c_devices ch \<and> c_fullDuplex ch' = c_fullDuplex ch \<and>
     length (c_state ch') = length (c_state ch) \<and> length (c_currentPkt ch') = length (c_currentPkt ch) \<and>
     length (c_packetOriginalDevice ch') = length (c_packetOriginalDevice ch) \<and>
     length (c_currentDestDevice ch') = length (c_currentDestDevice ch) \<and>
     (\<forall>i. i \<noteq> l \<longrightarrow> c_state ch' ! i = c_state ch ! i \<and> c_currentPkt ch' ! i = c_currentPkt ch ! i \<and>
        c_packetOriginalDevice ch' ! i = c_packetOriginalDevice ch ! i \<and>
        c_currentDestDevice ch' ! i = c_currentDestDevice ch ! i)"

lemma relink_ok:
  assumes "net_ok X w" "differs_at l (w_channels w c) ch"
    and "\<And>u d. (c_packetOriginalDevice ch ! l) u = Some d \<Longrightarrow> entry_ok w c l u d"
    and "if (c, l) \<in> Y then c_state ch ! l = PROPAGATING \<and> flights w c l = []
      else c_state ch ! l = IDLE \<and> flights w c l = [] \<or> c_state ch ! l = PROPAGATING \<and> carries (put_channel c ch w) c l"
    and "\<And>c' l'. (c', l') \<noteq> (c, l) \<Longrightarrow> (c', l') \<in> Y \<longleftrightarrow> (c', l') \<in> X"
  shows "net_ok Y (put_channel c ch w)"
proof -
  have d: "c_devices ch = devices_of w c" "c_fullDuplex ch = c_fullDuplex (w_channels w c)"
    using assms(2) by (simp_all add: differs_at_def)
  note v = channel_views [OF d]
  have "wiring_ok (put_channel c ch w)"
    using assms(1,2) by (auto simp: net_ok_def wiring_ok_def differs_at_def)
  moreover have "queues_ok (put_channel c ch w)"
    using assms(1) unfolding net_ok_def queues_ok_def v by simp
  moreover have "entries_ok (put_channel c ch w)"
    unfolding entries_ok_def v
  proof (intro allI impI)
    fix c' l' u e assume "l' < (2::nat)" "(c_packetOriginalDevice (w_channels (put_channel c ch w) c') ! l') u = Some e"
    then show "entry_ok w c' l' u e"
      using assms(1,2,3) by (cases "c' = c \<and> l' = l") (auto simp: net_ok_def entries_ok_def differs_at_def split: if_splits)
  qed
  moreover have "links_ok Y (put_channel c ch w)"
    unfolding links_ok_def
  proof (intro conjI allI impI)
    show "\<forall>f \<in> set (flight_list (put_channel c ch w)). fst (snd f) \<in> set (devices_of (put_channel c ch w) (fst f))"
      using assms(1) unfolding v fun_cong [OF v(2)] by (simp add: net_ok_def links_ok_def)
    fix c' l' assume l': "l' < (2::nat)"
    show "if (c', l') \<in> Y then c_state (w_channels (put_channel c ch w) c') ! l' = PROPAGATING \<and> flights (put_channel c ch w) c' l' = []
         else c_state (w_channels (put_channel c ch w) c') ! l' = IDLE \<and> flights (put_channel c ch w) c' l' = [] \<or>
              c_state (w_channels (put_channel c ch w) c') ! l' = PROPAGATING \<and> carries (put_channel c ch w) c' l'"
    proof (cases "(c', l') = (c, l)")
      case True
      then show ?thesis using assms(4) unfolding v by simp
    next
      case False
      have same: "c_state (w_channels (put_channel c ch w) c') ! l' = c_state (w_channels w c') ! l'"
        "c_currentPkt (w_channels (put_channel c ch w) c') ! l' = c_currentPkt (w_channels w c') ! l'"
        "c_packetOriginalDevice (w_channels (put_channel c ch w) c') ! l' = c_packetOriginalDevice (w_channels w c') ! l'"
        "c_currentDestDevice (w_channels (put_channel c ch w) c') ! l' = c_currentDestDevice (w_channels w c') ! l'"
        using False assms(2) by (auto simp: differs_at_def)
      have "carries (put_channel c ch w) c' l' = carries w c' l'"
        unfolding carries_def v same fun_cong [OF v(2)] by simp
      moreover have "if (c', l') \<in> X then c_state (w_channels w c') ! l' = PROPAGATING \<and> flights w c' l' = []
         else c_state (w_channels w c') ! l' = IDLE \<and> flights w c' l' = [] \<or>
              c_state (w_channels w c') ! l' = PROPAGATING \<and> carries w c' l'"
        using assms(1) l' by (simp add: net_ok_def links_ok_def)
      ultimately show ?thesis unfolding v same using assms(5) [OF False] by simp
    qed
  qed
  ultimately show ?thesis by (simp add: net_ok_def)
qed

text \<open>Entries for one UID are of one device, and entries of one device are one.\<close>

lemma entry_device:
  assumes "queues_ok w" "entry_ok w c l u d" "entry_ok w c' l' u d'"
  shows "d' = d"
proof -
  obtain p ps where p: "in_queue w d = p # ps" "uid_at w p = u" using assms(2) by (auto simp: entry_ok_def)
  obtain p' ps' where p': "in_queue w d' = p' # ps'" "uid_at w p' = u" using assms(3) by (auto simp: entry_ok_def)
  have "p \<in> set (in_queue w d)" "p' \<in> set (in_queue w d')" "uid_at w p = uid_at w p'" using p p' by simp_all
  then show ?thesis using assms(1) unfolding queues_ok_def by metis
qed

lemma entry_link: "entry_ok w c l u d \<Longrightarrow> entry_ok w c' l' u' d \<Longrightarrow> c' = c \<and> l' = l \<and> u' = u"
  by (auto simp: entry_ok_def)

text \<open>A transmission that is refused leaves at most an entry.\<close>

lemma insert_entry_ok:
  assumes "net_ok X w" "l < 2" "entry_ok w c l u d"
    and ch: "ch = (w_channels w c)\<lparr>c_packetOriginalDevice := (c_packetOriginalDevice (w_channels w c))
       [l := map_insert u d (c_packetOriginalDevice (w_channels w c) ! l)]\<rparr>"
  shows "net_ok X (put_channel c ch w)" "(c_packetOriginalDevice ch ! l) u = Some d"
proof -
  let ?o = "c_packetOriginalDevice (w_channels w c) ! l"
  have len: "length (c_packetOriginalDevice (w_channels w c)) = 2" using assms(1) by (simp add: net_ok_def wiring_ok_def)
  then have o: "c_packetOriginalDevice ch ! l = map_insert u d ?o" using assms(2) ch by simp
  have e: "entry_ok w c l u' d'" if "(map_insert u d ?o) u' = Some d'" for u' d'
    using that assms(1-3) by (auto simp: map_insert_def net_ok_def entries_ok_def split: option.splits if_splits)
  have df: "differs_at l (w_channels w c) ch" using ch by (simp add: differs_at_def)
  have dv: "c_devices ch = devices_of w c" "c_fullDuplex ch = c_fullDuplex (w_channels w c)" using ch by simp_all
  note v = channel_views [OF dv]
  have "carries (put_channel c ch w) c l" if "carries w c l"
  proof -
    have "(map_insert u d ?o) u' = Some d'" if "?o u' = Some d'" for u' d'
      using that by (auto simp: map_insert_def split: option.splits)
    then show ?thesis using that assms(2) len unfolding carries_def v fun_cong [OF v(2)] by (auto simp: ch)
  qed
  moreover have "if (c, l) \<in> X then c_state (w_channels w c) ! l = PROPAGATING \<and> flights w c l = []
      else c_state (w_channels w c) ! l = IDLE \<and> flights w c l = [] \<or>
           c_state (w_channels w c) ! l = PROPAGATING \<and> carries w c l"
    using assms(1,2) by (simp add: net_ok_def links_ok_def)
  moreover have "c_state ch = c_state (w_channels w c)" using ch by simp
  ultimately show "net_ok X (put_channel c ch w)"
    by (intro relink_ok [OF assms(1) df]) (simp_all add: o e split: if_splits, blast)
  show "(c_packetOriginalDevice ch ! l) u = Some d"
  proof (cases "?o u")
    case None
    then show ?thesis by (simp add: o map_insert_def)
  next
    case (Some d')
    then have "entry_ok w c l u d'" using assms(1,2) by (simp add: net_ok_def entries_ok_def)
    then have "d' = d" using entry_device assms(1,3) unfolding net_ok_def by blast
    with Some show ?thesis by (simp add: o map_insert_def)
  qed
qed

text \<open>The two devices of a channel.\<close>

lemma index_of_Some: "index_of x ys = Some i \<Longrightarrow> i < length ys \<and> ys ! i = x"
  by (induction ys arbitrary: i) (auto split: if_splits)

lemma wired:
  assumes "wiring_ok w" "nd_channel (w_devices w s) = Some c"
  shows "length (devices_of w c) = 2" "unat (nd_deviceId (w_devices w s)) < 2"
    "devices_of w c ! unat (nd_deviceId (w_devices w s)) = s" "s \<in> set (devices_of w c)" "send_link w c s < 2"
proof -
  have i: "length (devices_of w c) = 2" "index_of s (devices_of w c) = Some (unat (nd_deviceId (w_devices w s)))"
    using assms by (simp_all add: wiring_ok_def)
  note j = index_of_Some [OF i(2)]
  show "length (devices_of w c) = 2" "unat (nd_deviceId (w_devices w s)) < 2"
    "devices_of w c ! unat (nd_deviceId (w_devices w s)) = s" using i j by simp_all
  show "s \<in> set (devices_of w c)" using j nth_mem by metis
  show "send_link w c s < 2" using i j by (simp add: send_link_def channel_link_def)
qed

lemma index_of_in: "index_of x ys = Some i \<Longrightarrow> x \<in> set ys"
  using index_of_Some nth_mem by metis

lemma index_of_map:
  assumes "distinct (map f ys)" "index_of x ys = Some i"
  shows "index_of (f x) (map f ys) = Some i"
  using assms by (induction ys arbitrary: i) (auto split: if_splits dest: index_of_in intro: rev_image_eqI)

lemma put_channel_twice [simp]: "put_channel c x (put_channel c y w) = put_channel c x w"
  by (simp add: put_channel_def)

lemma index_of_two: "index_of x [a, b] = Some i \<longleftrightarrow> x = a \<and> i = 0 \<or> x \<noteq> a \<and> x = b \<and> i = 1"
  by auto

lemma other_device:
  assumes "wiring_ok w" "nd_channel (w_devices w s) = Some c" "find (\<lambda>x. x \<noteq> s) (devices_of w c) = Some dest"
  shows "dest \<in> set (devices_of w c)" "receive_link w c dest = send_link w c s"
proof -
  obtain a b where ab: "devices_of w c = [a, b]"
    using wired(1) [OF assms(1,2)] by (auto simp: length_Suc_conv numeral_2_eq_2)
  have d: "dest \<noteq> s" "dest = a \<or> dest = b" using assms(3) ab by (auto split: if_splits)
  then show "dest \<in> set (devices_of w c)" using ab by auto
  then have "nd_channel (w_devices w dest) = Some c" using assms(1) by (simp add: wiring_ok_def)
  then have "index_of dest (devices_of w c) = Some (unat (nd_deviceId (w_devices w dest)))"
    "index_of s (devices_of w c) = Some (unat (nd_deviceId (w_devices w s)))"
    using assms(1,2) by (simp_all add: wiring_ok_def)
  note this [unfolded ab index_of_two]
  with d(1) have "unat (nd_deviceId (w_devices w s)) = 1 - unat (nd_deviceId (w_devices w dest))"
    by auto
  then show "receive_link w c dest = send_link w c s" by (simp add: receive_link_def send_link_def)
qed

lemma not_full_room:
  assumes "queues_ok w"
    "ucast (NocNetDevice_GetInQueueNPacktes (w_devices w d)) \<noteq> NocNetDevice_GetInQueueSize (w_devices w d)"
  shows "has_room w d"
proof -
  obtain q where q: "nd_inQueue (w_devices w d) = Some q"
    using assms(2) by (cases "nd_inQueue (w_devices w d)")
      (auto simp: NocNetDevice_GetInQueueNPacktes_def NocNetDevice_GetInQueueSize_def)
  then have "queue_ok q" using assms(1) by (simp add: queues_ok_def)
  moreover have "q_nPackets q \<noteq> q_maxPackets q"
    using assms(2) q by (auto simp: NocNetDevice_GetInQueueNPacktes_def NocNetDevice_GetInQueueSize_def Queue_GetNPackets_def)
  ultimately show ?thesis using q by (auto simp: has_room_def queue_ok_def word_unat_eq_iff)
qed

text \<open>What a link holds before and after it is on the way.\<close>

definition loaded :: "world \<Rightarrow> channel_ref \<Rightarrow> nat \<Rightarrow> device_ref \<Rightarrow> bool" where
  "loaded w c l dest \<longleftrightarrow> (\<exists>p d. c_currentPkt (w_channels w c) ! l = Some p \<and> p < w_nextPacket w \<and>
     (c_packetOriginalDevice (w_channels w c) ! l) (uid_at w p) = Some d \<and>
     c_currentDestDevice (w_channels w c) ! l = Some dest \<and> dest \<in> set (devices_of w c) \<and>
     l = receive_link w c dest \<and> has_room w dest)"

lemma carries_loaded: "carries w c l \<longleftrightarrow> (\<exists>dest. loaded w c l dest \<and> flights w c l = [dest])"
  unfolding carries_def loaded_def by blast

lemma loaded_put:
  assumes "c_devices ch = devices_of w c" "c_fullDuplex ch = c_fullDuplex (w_channels w c)"
    "c_currentPkt ch ! l = Some p" "p < w_nextPacket w" "(c_packetOriginalDevice ch ! l) (uid_at w p) = Some d"
    "c_currentDestDevice ch ! l = Some dest" "dest \<in> set (devices_of w c)" "receive_link w c dest = l" "has_room w dest"
  shows "loaded (put_channel c ch w) c l dest"
  unfolding loaded_def channel_views [OF assms(1,2)] using assms fun_cong [OF channel_views(2) [OF assms(1,2)]] by auto

lemma TransmitStart_ok:
  assumes "net_ok X w" "entry_ok w c l (uid_at w p) d" "nd_channel (w_devices w s) = Some c" "l = send_link w c s"
    "p < w_nextPacket w" "NocChannel_TransmitStart c d p (nd_deviceId (w_devices w s)) w = Some (b, w1)"
  shows "\<exists>ch. w1 = put_channel c ch w \<and> c_devices ch = devices_of w c \<and> c_fullDuplex ch = c_fullDuplex (w_channels w c) \<and>
    (if b then (c, l) \<notin> X \<and> c_state ch ! l = TRANSMITTING \<and>
       net_ok (insert (c, l) X) (put_channel c (ch\<lparr>c_state := (c_state ch)[l := PROPAGATING]\<rparr>) w) \<and>
       (\<exists>dest. c_currentDestDevice ch ! l = Some dest \<and>
          loaded (put_channel c (ch\<lparr>c_state := (c_state ch)[l := PROPAGATING]\<rparr>) w) c l dest)
     else net_ok X w1)"
proof -
  let ?ch = "w_channels w c"
  have wi: "wiring_ok w" and qu: "queues_ok w" using assms(1) by (simp_all add: net_ok_def)
  note wd = wired [OF wi assms(3)]
  have l: "l < 2" "channel_link ?ch (unat (nd_deviceId (w_devices w s))) = l" using wd assms(4) by (simp_all add: send_link_def)
  have len: "length (c_state ?ch) = 2" "length (c_currentPkt ?ch) = 2" "length (c_packetOriginalDevice ?ch) = 2"
    "length (c_currentDestDevice ?ch) = 2" using wi by (simp_all add: wiring_ok_def)
  define ch0 where "ch0 = ?ch\<lparr>c_packetOriginalDevice := (c_packetOriginalDevice ?ch)
       [l := map_insert (uid_at w p) d (c_packetOriginalDevice ?ch ! l)]\<rparr>"
  note ins = insert_entry_ok [OF assms(1) l(1) assms(2) ch0_def]
  have T: "NocChannel_TransmitStart c d p (nd_deviceId (w_devices w s)) w =
    (if c_state ?ch ! l \<noteq> IDLE then Some (False, put_channel c ch0 w)
     else do {
       dest \<leftarrow> find (\<lambda>tmp. tmp \<noteq> s) (devices_of w c);
       let ch = ch0\<lparr>c_currentPkt := (c_currentPkt ?ch)[l := Some p],
         c_currentDestDevice := (c_currentDestDevice ?ch)[l := Some dest]\<rparr>;
       if ucast (NocNetDevice_GetInQueueNPacktes (w_devices w dest)) = NocNetDevice_GetInQueueSize (w_devices w dest)
       then Some (False, put_channel c ch w)
       else Some (True, put_channel c (ch\<lparr>c_state := (c_state ?ch)[l := TRANSMITTING]\<rparr>) w)
     })"
    using wd len l unfolding NocChannel_TransmitStart_def ch0_def by (simp add: Let_def cong: if_cong)
  show ?thesis
  proof (cases "c_state ?ch ! l = IDLE")
    case False
    then have "b = False" "w1 = put_channel c ch0 w" using T assms(6) by simp_all
    then show ?thesis using ins(1) by (intro exI [of _ ch0]) (simp add: ch0_def)
  next
    case True
    then have X: "(c, l) \<notin> X" "flights w c l = []" using link_state [OF assms(1) l(1), of c] by (auto split: if_splits)
    obtain dest where dest: "find (\<lambda>tmp. tmp \<noteq> s) (devices_of w c) = Some dest"
      using T True assms(6) by (cases "find (\<lambda>tmp. tmp \<noteq> s) (devices_of w c)") auto
    note od = other_device [OF wi assms(3) dest]
    define ch1 where "ch1 = ch0\<lparr>c_currentPkt := (c_currentPkt ?ch)[l := Some p],
         c_currentDestDevice := (c_currentDestDevice ?ch)[l := Some dest]\<rparr>"
    have en: "entry_ok w c l u e" if "(c_packetOriginalDevice ch1 ! l) u = Some e" for u e
    proof -
      have dv: "c_devices ch0 = devices_of w c" "c_fullDuplex ch0 = c_fullDuplex ?ch" by (simp_all add: ch0_def)
      have "(c_packetOriginalDevice (w_channels (put_channel c ch0 w) c) ! l) u = Some e" using that by (simp add: ch1_def)
      then have "entry_ok (put_channel c ch0 w) c l u e" using ins(1) l(1) by (simp add: net_ok_def entries_ok_def)
      then show ?thesis unfolding channel_views [OF dv] .
    qed
    have df: "differs_at l ?ch ch1" "differs_at l ?ch (ch1\<lparr>c_state := (c_state ?ch)[l := s']\<rparr>)" for s'
      by (simp_all add: differs_at_def ch1_def ch0_def)
    show ?thesis
    proof (cases "ucast (NocNetDevice_GetInQueueNPacktes (w_devices w dest)) = NocNetDevice_GetInQueueSize (w_devices w dest)")
      case full: True
      then have b: "b = False" "w1 = put_channel c ch1 w" using T True assms(6) dest by (simp_all add: ch1_def Let_def)
      have "net_ok X (put_channel c ch1 w)"
        using X True by (intro relink_ok [OF assms(1) df(1)] en) (simp_all add: ch1_def ch0_def)
      with b show ?thesis by (intro exI [of _ ch1]) (simp add: ch1_def ch0_def)
    next
      case False
      define ch2 where "ch2 = ch1\<lparr>c_state := (c_state ?ch)[l := TRANSMITTING]\<rparr>"
      have b: "b = True" "w1 = put_channel c ch2 w" using T True assms(6) dest False by (simp_all add: ch1_def ch2_def Let_def)
      have c3: "ch2\<lparr>c_state := (c_state ch2)[l := PROPAGATING]\<rparr> = ch1\<lparr>c_state := (c_state ?ch)[l := PROPAGATING]\<rparr>"
        by (simp add: ch2_def)
      have "net_ok (insert (c, l) X) (put_channel c (ch1\<lparr>c_state := (c_state ?ch)[l := PROPAGATING]\<rparr>) w)"
        by (intro relink_ok [OF assms(1) df(2)] en) (use X l len in auto)
      moreover have "loaded (put_channel c (ch1\<lparr>c_state := (c_state ?ch)[l := PROPAGATING]\<rparr>) w) c l dest"
        using od assms(4,5) ins(2) l len not_full_room [OF qu False]
        by (intro loaded_put [where p = p and d = d]) (simp_all add: ch1_def ch0_def)
      ultimately show ?thesis using b X l len
        by (intro exI [of _ ch2]) (simp add: c3, simp add: ch2_def ch1_def ch0_def)
    qed
  qed
qed

text \<open>A scheduled end of a transmission more or less.\<close>

lemma events_views:
  "in_queue (w\<lparr>w_events := es\<rparr>) = in_queue w" "send_link (w\<lparr>w_events := es\<rparr>) = send_link w"
  "receive_link (w\<lparr>w_events := es\<rparr>) = receive_link w" "has_room (w\<lparr>w_events := es\<rparr>) = has_room w"
  "loaded (w\<lparr>w_events := es\<rparr>) = loaded w" "entry_ok (w\<lparr>w_events := es\<rparr>) = entry_ok w"
  "wiring_ok (w\<lparr>w_events := es\<rparr>) = wiring_ok w" "queues_ok (w\<lparr>w_events := es\<rparr>) = queues_ok w"
  "entries_ok (w\<lparr>w_events := es\<rparr>) = entries_ok w" "queued_uids (w\<lparr>w_events := es\<rparr>) = queued_uids w"
  "delivered_uids (w\<lparr>w_events := es\<rparr>) = delivered_uids w"
proof -
  show q: "in_queue (w\<lparr>w_events := es\<rparr>) = in_queue w" by (simp add: in_queue_def fun_eq_iff)
  show s: "send_link (w\<lparr>w_events := es\<rparr>) = send_link w" by (simp add: send_link_def fun_eq_iff)
  show r: "receive_link (w\<lparr>w_events := es\<rparr>) = receive_link w" by (simp add: receive_link_def fun_eq_iff)
  show h: "has_room (w\<lparr>w_events := es\<rparr>) = has_room w" by (simp add: has_room_def fun_eq_iff)
  show "loaded (w\<lparr>w_events := es\<rparr>) = loaded w" by (simp add: loaded_def fun_eq_iff r h)
  show e: "entry_ok (w\<lparr>w_events := es\<rparr>) = entry_ok w" by (simp add: entry_ok_def fun_eq_iff q s)
  show "wiring_ok (w\<lparr>w_events := es\<rparr>) = wiring_ok w" by (simp add: wiring_ok_def)
  show "queues_ok (w\<lparr>w_events := es\<rparr>) = queues_ok w" by (simp add: queues_ok_def q)
  show "entries_ok (w\<lparr>w_events := es\<rparr>) = entries_ok w" by (simp add: entries_ok_def e)
  show "queued_uids (w\<lparr>w_events := es\<rparr>) = queued_uids w" by (simp add: queued_uids_def q)
  show "delivered_uids (w\<lparr>w_events := es\<rparr>) = delivered_uids w" by (simp add: delivered_uids_def)
qed

lemma events_ok:
  assumes "net_ok X w"
    and "set (flight_list (w\<lparr>w_events := es\<rparr>)) \<subseteq> insert (c, s, dest) (set (flight_list w))" "s \<in> set (devices_of w c)"
    and "\<And>c' l'. (c', l') \<noteq> (c, l) \<Longrightarrow> flights (w\<lparr>w_events := es\<rparr>) c' l' = flights w c' l' \<and> ((c', l') \<in> Y \<longleftrightarrow> (c', l') \<in> X)"
    and "l < 2 \<Longrightarrow> (if (c, l) \<in> Y then c_state (w_channels w c) ! l = PROPAGATING \<and> flights (w\<lparr>w_events := es\<rparr>) c l = []
      else c_state (w_channels w c) ! l = PROPAGATING \<and> loaded w c l d \<and> flights (w\<lparr>w_events := es\<rparr>) c l = [d])"
  shows "net_ok Y (w\<lparr>w_events := es\<rparr>)"
proof -
  let ?w = "w\<lparr>w_events := es\<rparr>"
  have "links_ok Y ?w"
    unfolding links_ok_def
  proof (intro conjI allI impI)
    have "\<forall>f \<in> set (flight_list w). fst (snd f) \<in> set (devices_of w (fst f))"
      using assms(1) by (simp add: net_ok_def links_ok_def)
    then show "\<forall>f \<in> set (flight_list ?w). fst (snd f) \<in> set (devices_of ?w (fst f))"
      using assms(2,3) by auto
    fix c' l' assume l': "l' < (2::nat)"
    show "if (c', l') \<in> Y then c_state (w_channels ?w c') ! l' = PROPAGATING \<and> flights ?w c' l' = []
        else c_state (w_channels ?w c') ! l' = IDLE \<and> flights ?w c' l' = [] \<or>
             c_state (w_channels ?w c') ! l' = PROPAGATING \<and> carries ?w c' l'"
    proof (cases "(c', l') = (c, l)")
      case True
      then show ?thesis using assms(5) l' by (auto simp: carries_loaded events_views split: if_splits)
    next
      case False
      have "carries ?w c' l' = carries w c' l'" by (simp add: carries_loaded events_views assms(4) [OF False])
      then show ?thesis using link_state [OF assms(1) l', of c'] assms(4) [OF False] by simp
    qed
  qed
  then show ?thesis using assms(1) by (simp add: net_ok_def events_views)
qed

lemma flights_eq:
  "flights w c l = map (\<lambda>f. snd (snd f)) (filter (\<lambda>f. fst f = c \<and> send_link w c (fst (snd f)) = l) (flight_list w))"
  by (rule flights_def)

lemma add_flight_ok:
  assumes "net_ok (insert (c, l) X) w" "(c, l) \<notin> X" "loaded w c l dest" "flight_of ev = Some (c, s, dest)"
    "send_link w c s = l" "s \<in> set (devices_of w c)" "l < 2"
  shows "net_ok X (w\<lparr>w_events := w_events w @ [(t, ev)]\<rparr>)"
proof -
  let ?w = "w\<lparr>w_events := w_events w @ [(t, ev)]\<rparr>"
  have f: "flight_list ?w = flight_list w @ [(c, s, dest)]"
    using assms(4) by (simp add: flight_list_def List.map_filter_def)
  have fl: "flights ?w c' l' = flights w c' l' @ (if (c', l') = (c, l) then [dest] else [])" for c' l'
    using assms(5) by (auto simp: flights_def f events_views)
  have "c_state (w_channels w c) ! l = PROPAGATING" "flights w c l = []"
    using link_state [OF assms(1,7), of c] by simp_all
  then show ?thesis
    by (intro events_ok [OF assms(1), of _ c s dest l]) (use assms f fl in auto)
qed

lemma Send_ok:
  assumes "net_ok (insert (c, l) X) (put_channel c (ch\<lparr>c_state := (c_state ch)[l := PROPAGATING]\<rparr>) w)" "(c, l) \<notin> X"
    "c_devices ch = devices_of w c" "c_fullDuplex ch = c_fullDuplex (w_channels w c)"
    "loaded (put_channel c (ch\<lparr>c_state := (c_state ch)[l := PROPAGATING]\<rparr>) w) c l dest"
    "c_currentDestDevice ch ! l = Some dest" "wiring_ok w"
    "nd_channel (w_devices w s) = Some c" "l = send_link w c s" "from = nd_address (w_devices w s)"
    "NocChannel_Send c to from (put_channel c ch w) = Some w'"
  shows "net_ok X w' \<and> (\<exists>ch es. w' = put_channel c ch w\<lparr>w_events := es\<rparr>)"
proof -
  let ?w = "put_channel c (ch\<lparr>c_state := (c_state ch)[l := PROPAGATING]\<rparr>) w"
  note wd = wired [OF assms(7,8)]
  have dist: "distinct (map (\<lambda>d. nd_address (w_devices w d)) (devices_of w c))"
    and idx: "index_of s (devices_of w c) = Some (unat (nd_deviceId (w_devices w s)))"
    using assms(7,8) by (simp_all add: wiring_ok_def)
  have "index_of (nd_address (w_devices w s)) (map (\<lambda>d. nd_address (w_devices w d)) (devices_of w c)) =
    Some (unat (nd_deviceId (w_devices w s)))"
    using index_of_map [OF dist idx] .
  then have i: "index_of from (map (\<lambda>d. nd_address (w_devices (put_channel c ch w) d)) (c_devices ch)) =
    Some (unat (nd_deviceId (w_devices w s)))" using assms(3,10) by simp
  have l: "channel_link ch (unat (nd_deviceId (w_devices w s))) = l"
    using assms(4,9) by (simp add: send_link_def channel_link_def)
  have "l < 2" using wd(5) assms(9) by simp
  obtain t where w': "w' = ?w\<lparr>w_events := w_events ?w @ [(t, TransmitEnd c s to dest from)]\<rparr>"
    using assms(11) i l assms(3,6) wd(3)
    by (auto simp: NocChannel_Send_def Let_def Option.bind_eq_Some_conv Simulator_Schedule_def vec_at_eq_Some split: if_splits)
  have v: "c_devices (ch\<lparr>c_state := (c_state ch)[l := PROPAGATING]\<rparr>) = devices_of w c"
    "c_fullDuplex (ch\<lparr>c_state := (c_state ch)[l := PROPAGATING]\<rparr>) = c_fullDuplex (w_channels w c)"
    using assms(3,4) by simp_all
  have "net_ok X w'"
    unfolding w'
  proof (rule add_flight_ok [OF assms(1,2,5)])
    show "send_link ?w c s = l" unfolding channel_views [OF v] by (rule assms(9) [symmetric])
  qed (use wd(4) assms(3) \<open>l < 2\<close> in \<open>simp_all add: flight_of_def\<close>)
  with w' show ?thesis by blast
qed

text \<open>An attempt to send the flit in front.\<close>

definition same_flits :: "world \<Rightarrow> world \<Rightarrow> bool" where
  "same_flits w w' \<longleftrightarrow> queued_uids w' = queued_uids w \<and> delivered_uids w' = delivered_uids w"

lemma same_flits_trans: "same_flits a b \<Longrightarrow> same_flits b c \<Longrightarrow> same_flits a c"
  by (simp add: same_flits_def)

lemma inert_same: "inert w w' \<Longrightarrow> net_ok X w \<Longrightarrow> same_flits w w'"
  using inert_queued by (simp add: same_flits_def net_ok_def inert_def)

lemma process_transmit_ok:
  assumes "net_ok X w" "entry_ok w c l (uid_at w p) d" "p < w_nextPacket w" "send_device w d = s"
    "nd_channel (w_devices w s) = Some c" "l = send_link w c s" "from = nd_address (w_devices w s)"
    "process_transmit d h c p to from w = Some w'"
  shows "net_ok X w' \<and> same_flits w w'"
proof -
  obtain b w1 where t: "NocChannel_TransmitStart c d p (nd_deviceId (w_devices w s)) w = Some (b, w1)"
    and r: "if b then \<exists>w2 x. NocChannel_Send c to from w1 = Some w2 \<and> w' = trace_event (Sent d x) w2 else w' = w1"
    using assms(4,8) unfolding process_transmit_def Option.bind_eq_Some_conv
    by (auto split: if_splits simp: Option.bind_eq_Some_conv; blast)
  from TransmitStart_ok [OF assms(1,2,5,6,3) t] obtain ch where ch: "w1 = put_channel c ch w"
    "c_devices ch = devices_of w c" "c_fullDuplex ch = c_fullDuplex (w_channels w c)"
    and b: "if b then (c, l) \<notin> X \<and> c_state ch ! l = TRANSMITTING \<and>
       net_ok (insert (c, l) X) (put_channel c (ch\<lparr>c_state := (c_state ch)[l := PROPAGATING]\<rparr>) w) \<and>
       (\<exists>dest. c_currentDestDevice ch ! l = Some dest \<and>
          loaded (put_channel c (ch\<lparr>c_state := (c_state ch)[l := PROPAGATING]\<rparr>) w) c l dest)
     else net_ok X w1" by blast
  have s1: "same_flits w w1" unfolding ch(1) same_flits_def channel_views [OF ch(2,3)] by simp
  show ?thesis
  proof (cases b)
    case False
    with r b s1 show ?thesis by simp
  next
    case True
    with r obtain w2 x where w2: "NocChannel_Send c to from w1 = Some w2" "w' = trace_event (Sent d x) w2" by auto
    from b True obtain dest where dest: "(c, l) \<notin> X"
      "net_ok (insert (c, l) X) (put_channel c (ch\<lparr>c_state := (c_state ch)[l := PROPAGATING]\<rparr>) w)"
      "c_currentDestDevice ch ! l = Some dest"
      "loaded (put_channel c (ch\<lparr>c_state := (c_state ch)[l := PROPAGATING]\<rparr>) w) c l dest" by auto
    have wi: "wiring_ok w" using assms(1) by (simp add: net_ok_def)
    from Send_ok [OF dest(2,1) ch(2,3) dest(4,3) wi assms(5-7), of to w2] w2(1) ch(1)
    obtain ch' es where s: "net_ok X w2" "w2 = put_channel c ch' w\<lparr>w_events := es\<rparr>" by auto
    have "queued_uids w2 = queued_uids w" unfolding s(2) events_views by (simp add: queued_uids_def in_queue_def)
    moreover have "delivered_uids w2 = delivered_uids w" unfolding s(2) events_views by (simp add: delivered_uids_def)
    ultimately have "same_flits w w2" by (simp add: same_flits_def)
    then show ?thesis
      unfolding w2(2) using inert_ok [OF sent_inert s(1)] inert_same [OF sent_inert s(1)] same_flits_trans by blast
  qed
qed

lemma send_device_quiet: "quiet w w' \<Longrightarrow> send_device w' d = send_device w d"
  by (simp add: quiet_def send_device_def)

lemma entry_inert: "inert w w' \<Longrightarrow> queues_ok w \<Longrightarrow> entry_ok w c l u d \<Longrightarrow> entry_ok w' c l u d"
proof -
  assume i: "inert w w'" and q: "queues_ok w" and "entry_ok w c l u d"
  then obtain p ps sd where p: "in_queue w d = p # ps" "uid_at w p = u"
      "nd_pktSrcDestMap (w_devices w d) p = Some sd" "nd_channel (w_devices w (exit_device d sd)) = Some c"
      "send_link w c (exit_device d sd) = l" by (auto simp: entry_ok_def)
  have "uid_at w' p = u" using p(1,2) inert_uid [OF i queued_ref [OF q, of p d]] by simp
  then show "entry_ok w' c l u d" using p i unfolding entry_ok_def inert_views [OF i] by (auto simp: inert_def)
qed

lemma processing_ok:
  assumes "net_ok X w" "NocNetDevice_ProcessBufferedPackets d h pkt w = Some w'"
  shows "net_ok X w' \<and> same_flits w w'"
proof (cases "nd_inQueue (w_devices w d)")
  case None
  then show ?thesis using assms by (simp add: NocNetDevice_ProcessBufferedPackets_def same_flits_def)
next
  case (Some q)
  show ?thesis
  proof (cases "Queue_IsEmpty q")
    case True
    then show ?thesis using assms Some by (simp add: NocNetDevice_ProcessBufferedPackets_def same_flits_def)
  next
    case False
    obtain front where f: "Queue_Peek q = Some front"
      using assms(2) Some False by (cases "Queue_Peek q") (auto simp: NocNetDevice_ProcessBufferedPackets_def)
    then obtain ps where ps: "in_queue w d = front # ps"
      using Some by (auto simp: in_queue_def Queue_Peek_def DropTailQueue_DoPeek_def split: list.splits)
    have qu: "queues_ok w" using assms(1) by (simp add: net_ok_def)
    obtain sd where sd: "nd_pktSrcDestMap (w_devices w d) front = Some sd"
      using qu ps by (force simp: queues_ok_def)
    have addr: "sd_src sd = nd_address (w_devices w (exit_device d sd))" using qu sd by (simp add: queues_ok_def)
    define w1 where "w1 = snd (Packet_Copy front w)"
    have cp: "Packet_Copy front w = (w_nextPacket w, w1)" "inert w w1" "uid_at w1 (w_nextPacket w) = uid_at w front"
      "w_nextPacket w < w_nextPacket w1"
      using copy_inert by (simp_all add: w1_def Packet_Copy_def)
    have sd1: "nd_pktSrcDestMap (w_devices w1 d) front = Some sd" using sd by (simp add: w1_def Packet_Copy_def)
    define w2 where "w2 = snd (take_src_dest d front w1)"
    note ts = take_src_dest_inert [OF sd1, folded w2_def]
    have i2: "inert w w2" using cp(2) ts(2) by (rule inert_trans)
    have u2: "uid_at w2 (w_nextPacket w) = uid_at w front" "w_nextPacket w < w_nextPacket w2"
      using inert_uid [OF ts(2) cp(4)] cp(3,4) ts(2) by (simp_all add: inert_def)
    let ?s = "exit_device d sd"
    obtain c can w3 w4 where c: "nd_channel (w_devices w2 ?s) = Some c"
      and w3: "(case pkt of None \<Rightarrow> Some (True, w2) | Some p \<Rightarrow> process_flow_control d c p w2) = Some (can, w3)"
      and w4: "(if can then process_transmit d h c (w_nextPacket w) (sd_dest sd) (sd_src sd) w3 else Some w3) = Some w4"
      and w': "schedule_processing d h c front (w_nextPacket w) w4 = Some w'"
      using assms(2) Some False f cp(1) ts(1,3)
      by (auto simp: NocNetDevice_ProcessBufferedPackets_def Let_def Option.bind_eq_Some_conv)
    have q3: "quiet w2 w3" using w3 by (auto split: option.splits dest: flow_control_quiet)
    have i3: "inert w w3" using i2 quiet_inert [OF q3] by (rule inert_trans)
    have ok3: "net_ok X w3" using i3 assms(1) by (rule inert_ok)
    have s3: "send_device w3 d = ?s" using send_device_quiet [OF q3] ts(3) by simp
    have c3: "nd_channel (w_devices w3 ?s) = Some c" "sd_src sd = nd_address (w_devices w3 ?s)"
      using q3 c addr i2 by (simp_all add: quiet_def inert_def)
    have "entry_ok w c (send_link w c ?s) (uid_at w front) d"
      using ps sd c i2 by (simp add: entry_ok_def inert_def)
    then have en: "entry_ok w3 c (send_link w3 c ?s) (uid_at w3 (w_nextPacket w)) d"
      using entry_inert [OF i3 qu] quiet_ref [OF q3] u2(1) inert_views(3) [OF i3] by simp
    have n3: "w_nextPacket w < w_nextPacket w3" using q3 u2(2) by (simp add: quiet_def)
    have ok4: "net_ok X w4 \<and> same_flits w3 w4"
    proof (cases can)
      case True
      then show ?thesis using process_transmit_ok [OF ok3 en n3 s3 c3(1) refl c3(2)] w4 by simp
    next
      case False
      then show ?thesis using w4 ok3 by (simp add: same_flits_def)
    qed
    have i5: "inert w4 w'" by (rule schedule_processing_inert [OF w'])
    show ?thesis
      using ok4 inert_ok [OF i5] inert_same [OF i5] inert_same [OF i3 assms(1)] same_flits_trans by blast
  qed
qed

end
