(* ===== verification/Noc_Conservation.thy ===== *)
theory Noc_Conservation
  imports Noc_Links
begin

text \<open>
  No flit is lost: the operations that buffer, hand over and deliver a flit keep the invariant of
  \<open>Noc_Links\<close>, so along any run the flits accepted are those still queued or delivered.
\<close>

section \<open>Buffering and delivering a flit\<close>

lemma Enqueue_packets:
  assumes "queue_ok q" "Queue_Enqueue sz p q = (e, q')"
  shows "queue_ok q' \<and> (e \<longleftrightarrow> length (q_packets q) < unat (q_maxPackets q)) \<and> q_maxPackets q' = q_maxPackets q \<and>
    q_packets q' = (if e then q_packets q @ [p] else q_packets q)"
proof (cases "length (q_packets q) < unat (q_maxPackets q)")
  case True
  then have "Suc (unat (q_nPackets q)) < 2 ^ 32"
    using assms(1) unat_u32_less [of "q_maxPackets q"] by (simp add: queue_ok_def)
  then have "unat (q_nPackets q + 1) = Suc (length (q_packets q))" using assms(1) unat_u32_Suc by (simp add: queue_ok_def)
  with True assms show ?thesis
    by (auto simp: queue_ok_def Queue_Enqueue_def DropTailQueue_DoEnqueue_def)
next
  case False
  with assms show ?thesis
    by (auto simp: queue_ok_def Queue_Enqueue_def DropTailQueue_DoEnqueue_def Queue_Drop_def)
qed

text \<open>No other flit is on its way into the queue of \<open>d\<close>.\<close>

definition quiet_entrance :: "(channel_ref \<times> nat) set \<Rightarrow> world \<Rightarrow> device_ref \<Rightarrow> bool" where
  "quiet_entrance X w d \<longleftrightarrow> (\<forall>c. nd_channel (w_devices w d) = Some c \<longrightarrow>
     (c, receive_link w c d) \<in> X \<or> c_state (w_channels w c) ! receive_link w c d = IDLE)"

lemma put_device_views:
  assumes "nd_channel x = nd_channel (w_devices w d)" "nd_deviceId x = nd_deviceId (w_devices w d)"
    "nd_address x = nd_address (w_devices w d)"
  shows "in_queue (put_device d x w) = (in_queue w)(d := case nd_inQueue x of None \<Rightarrow> [] | Some q \<Rightarrow> q_packets q)"
    "send_link (put_device d x w) = send_link w" "receive_link (put_device d x w) = receive_link w"
    "flight_list (put_device d x w) = flight_list w" "flights (put_device d x w) = flights w"
    "wiring_ok (put_device d x w) = wiring_ok w" "delivered_uids (put_device d x w) = delivered_uids w"
proof -
  show "in_queue (put_device d x w) = (in_queue w)(d := case nd_inQueue x of None \<Rightarrow> [] | Some q \<Rightarrow> q_packets q)"
    by (simp add: in_queue_def fun_eq_iff)
  show s: "send_link (put_device d x w) = send_link w" using assms by (simp add: send_link_def fun_eq_iff)
  show "receive_link (put_device d x w) = receive_link w" using assms by (simp add: receive_link_def fun_eq_iff)
  show f: "flight_list (put_device d x w) = flight_list w" by (simp add: flight_list_def)
  show "flights (put_device d x w) = flights w" by (simp add: flights_def fun_eq_iff f s)
  have "nd_channel (w_devices (put_device d x w) e) = nd_channel (w_devices w e)"
    "nd_deviceId (w_devices (put_device d x w) e) = nd_deviceId (w_devices w e)"
    "nd_address (w_devices (put_device d x w) e) = nd_address (w_devices w e)" for e using assms by simp_all
  then show "wiring_ok (put_device d x w) = wiring_ok w" by (simp only: wiring_ok_def put_device_simps)
  show "delivered_uids (put_device d x w) = delivered_uids w" by (simp add: delivered_uids_def)
qed

lemma unqueued_ref: "uid_at w p \<notin> queued_uids w \<Longrightarrow> p \<notin> set (in_queue w d)"
  by (auto simp: queued_uids_def)

lemma links_put_device:
  assumes "links_ok X w" "nd_channel x = nd_channel (w_devices w d)" "nd_deviceId x = nd_deviceId (w_devices w d)"
    "nd_address x = nd_address (w_devices w d)"
    and "\<And>c l. c_state (w_channels w c) ! l = PROPAGATING \<Longrightarrow> (c, l) \<notin> X \<Longrightarrow> l = receive_link w c d \<Longrightarrow>
      d \<in> set (devices_of w c) \<Longrightarrow> has_room w d \<Longrightarrow> has_room (put_device d x w) d"
  shows "links_ok X (put_device d x w)"
proof -
  note v = put_device_views [OF assms(2-4)]
  have room: "has_room (put_device d x w) e = has_room w e" if "e \<noteq> d" for e using that by (simp add: has_room_def)
  have "carries (put_device d x w) c l"
    if c: "carries w c l" "c_state (w_channels w c) ! l = PROPAGATING" "(c, l) \<notin> X" for c l
  proof -
    from c(1) obtain p e dest where p: "c_currentPkt (w_channels w c) ! l = Some p" "p < w_nextPacket w"
      "(c_packetOriginalDevice (w_channels w c) ! l) (uid_at w p) = Some e"
      "c_currentDestDevice (w_channels w c) ! l = Some dest" "dest \<in> set (devices_of w c)"
      "l = receive_link w c dest" "has_room w dest" "flights w c l = [dest]" by (auto simp: carries_def)
    have "has_room (put_device d x w) dest"
      using assms(5) [OF c(2,3)] p(5-7) room by (cases "dest = d") auto
    with p show ?thesis unfolding carries_def v by auto
  qed
  then show ?thesis using assms(1) unfolding links_ok_def v put_device_simps by metis
qed

lemma enqueue_ok:
  assumes "net_ok X w" "nd_inQueue (w_devices w d) = Some q" "uid_at w p \<notin> queued_uids w" "p < w_nextPacket w"
    "quiet_entrance X w d" "Queue_Enqueue sz p q = (e, q')" "sd_src sd = nd_address (w_devices w (exit_device d sd))"
    and x: "x = (w_devices w d)\<lparr>nd_inQueue := Some q', nd_pktSrcDestMap :=
      (if e then map_insert p sd (nd_pktSrcDestMap (w_devices w d)) else nd_pktSrcDestMap (w_devices w d))\<rparr>"
  shows "net_ok X (put_device d x w)" "delivered_uids (put_device d x w) = delivered_uids w"
    "queued_uids (put_device d x w) = (if has_room w d then insert (uid_at w p) (queued_uids w) else queued_uids w)"
proof -
  have qo: "queues_ok w" "wiring_ok w" "entries_ok w" "links_ok X w" using assms(1) by (simp_all add: net_ok_def)
  have "queue_ok q" using qo(1) assms(2) by (simp add: queues_ok_def)
  note E = Enqueue_packets [OF this assms(6)]
  have e: "e \<longleftrightarrow> has_room w d" using E assms(2) by (simp add: has_room_def)
  have xs: "nd_channel x = nd_channel (w_devices w d)" "nd_deviceId x = nd_deviceId (w_devices w d)"
    "nd_address x = nd_address (w_devices w d)" using x by simp_all
  note v = put_device_views [OF xs]
  have iq: "in_queue w d = q_packets q" using assms(2) by (simp add: in_queue_def)
  have pn: "p \<notin> set (in_queue w d')" for d' using unqueued_ref [OF assms(3)] .
  have mp: "nd_pktSrcDestMap (w_devices w d) p = None" using qo(1) pn [of d] unfolding queues_ok_def by metis
  have inq: "in_queue (put_device d x w) = (in_queue w)(d := (if e then in_queue w d @ [p] else in_queue w d))"
    unfolding v using E iq x by simp
  have map: "nd_pktSrcDestMap x = (if e then (nd_pktSrcDestMap (w_devices w d))(p \<mapsto> sd) else nd_pktSrcDestMap (w_devices w d))"
    using x mp by (simp add: map_insert_def)
  show "delivered_uids (put_device d x w) = delivered_uids w" by (rule v)
  show "queued_uids (put_device d x w) = (if has_room w d then insert (uid_at w p) (queued_uids w) else queued_uids w)"
    unfolding queued_uids_def inq e [symmetric] by (auto split: if_splits)
  have un: "uid_at w p \<noteq> uid_at w p'" if "p' \<in> set (in_queue w d')" for p' d'
    using assms(3) that by (auto simp: queued_uids_def)
  have "queues_ok (put_device d x w)"
    unfolding queues_ok_def inq
  proof (intro conjI allI impI)
    fix d' q0 assume "nd_inQueue (w_devices (put_device d x w) d') = Some q0"
    then show "queue_ok q0" using qo(1) E x by (auto simp: queues_ok_def split: if_splits)
  next
    fix d' show "distinct (((in_queue w)(d := if e then in_queue w d @ [p] else in_queue w d)) d')"
      using qo(1) pn by (simp add: queues_ok_def)
  next
    fix d' p' assume "p' \<in> set (((in_queue w)(d := if e then in_queue w d @ [p] else in_queue w d)) d')"
    then show "p' < w_nextPacket (put_device d x w)"
      using assms(4) queued_ref [OF qo(1)] by (auto split: if_splits)
  next
    fix d' p'
    show "(nd_pktSrcDestMap (w_devices (put_device d x w) d') p' \<noteq> None) =
      (p' \<in> set (((in_queue w)(d := if e then in_queue w d @ [p] else in_queue w d)) d'))"
      using qo(1) by (auto simp: map queues_ok_def)
  next
    fix d' p' sd' assume "nd_pktSrcDestMap (w_devices (put_device d x w) d') p' = Some sd'"
    then show "sd_src sd' = nd_address (w_devices (put_device d x w) (exit_device d' sd'))"
      using qo(1) assms(7) xs(3) by (auto simp: map queues_ok_def split: if_splits)
  next
    fix d1 p1 d2 p2
    assume "p1 \<in> set (((in_queue w)(d := if e then in_queue w d @ [p] else in_queue w d)) d1)"
      "p2 \<in> set (((in_queue w)(d := if e then in_queue w d @ [p] else in_queue w d)) d2)"
      "uid_at (put_device d x w) p1 = uid_at (put_device d x w) p2"
    then have m: "p1 \<in> set (in_queue w d1) \<or> p1 = p \<and> d1 = d" "p2 \<in> set (in_queue w d2) \<or> p2 = p \<and> d2 = d"
      "uid_at w p1 = uid_at w p2" by (auto split: if_splits)
    show "d1 = d2" "p1 = p2" using m un qo(1) unfolding queues_ok_def by metis+
  qed
  moreover have "entries_ok (put_device d x w)"
  proof -
    have "entry_ok (put_device d x w) c l u d'" if "entry_ok w c l u d'" for c l u d'
    proof -
      from that obtain p0 ps sd0 where p0: "in_queue w d' = p0 # ps" "uid_at w p0 = u"
        "nd_pktSrcDestMap (w_devices w d') p0 = Some sd0" "nd_channel (w_devices w (exit_device d' sd0)) = Some c"
        "send_link w c (exit_device d' sd0) = l" by (auto simp: entry_ok_def)
      have "p0 \<noteq> p" using pn [of d'] p0(1) by auto
      then have "nd_pktSrcDestMap (w_devices (put_device d x w) d') p0 = Some sd0" using p0(3) by (auto simp: map)
      moreover have "nd_channel (w_devices (put_device d x w) (exit_device d' sd0)) = Some c" using p0(4) xs(1) by auto
      moreover have "\<exists>ps. ((in_queue w)(d := if e then in_queue w d @ [p] else in_queue w d)) d' = p0 # ps"
        using p0(1) by auto
      moreover have "uid_at (put_device d x w) p0 = u" using p0(2) by simp
      ultimately show ?thesis unfolding entry_ok_def v(2) inq using p0(5) by blast
    qed
    then show ?thesis using qo(3) by (simp add: entries_ok_def)
  qed
  moreover have "links_ok X (put_device d x w)"
  proof (rule links_put_device [OF qo(4) xs])
    fix c l assume a: "c_state (w_channels w c) ! l = PROPAGATING" "(c, l) \<notin> X" "l = receive_link w c d" "d \<in> set (devices_of w c)"
    then have "nd_channel (w_devices w d) = Some c" using qo(2) by (simp add: wiring_ok_def)
    then show "has_room (put_device d x w) d" using assms(5) a by (auto simp: quiet_entrance_def)
  qed
  ultimately show "net_ok X (put_device d x w)" using qo(2) v(6) by (simp add: net_ok_def)
qed

text \<open>The flit in front leaves the queue, once no link has an entry for it.\<close>

lemma Dequeue_packets:
  assumes "queue_ok q" "q_packets q = p # ps" "Queue_Dequeue sz q = Some (r, q')"
  shows "r = Some p \<and> queue_ok q' \<and> q_packets q' = ps \<and> q_maxPackets q' = q_maxPackets q"
proof -
  have n: "0 < unat (q_nPackets q)" "unat (q_nPackets q - 1) = length ps"
    using assms(1,2) by (simp_all add: queue_ok_def u32_arith)
  have "r = Some p" "q' = q\<lparr>q_packets := ps, q_bytesInQueue := q_bytesInQueue q - sz p,
      q_nBytes := q_nBytes q - sz p, q_nPackets := q_nPackets q - 1\<rparr>"
    using assms(2,3) by (auto simp: Queue_Dequeue_def DropTailQueue_DoDequeue_def Option.bind_eq_Some_conv split: if_splits)
  with n assms(1,2) show ?thesis by (simp add: queue_ok_def)
qed

lemma dequeue_ok:
  assumes "net_ok X w" "nd_inQueue (w_devices w d) = Some q" "in_queue w d = p # ps"
    "\<And>c l u. l < 2 \<Longrightarrow> (c_packetOriginalDevice (w_channels w c) ! l) u \<noteq> Some d"
    "queue_ok q'" "q_packets q' = ps" "q_maxPackets q' = q_maxPackets q"
    and x: "x = (w_devices w d)\<lparr>nd_inQueue := Some q', nd_pktSrcDestMap := (nd_pktSrcDestMap (w_devices w d))(p := None)\<rparr>"
  shows "net_ok X (put_device d x w)" "delivered_uids (put_device d x w) = delivered_uids w"
    "queued_uids (put_device d x w) = queued_uids w - {uid_at w p}" "has_room w e \<Longrightarrow> has_room (put_device d x w) e"
proof -
  have qo: "queues_ok w" "wiring_ok w" "entries_ok w" "links_ok X w" using assms(1) by (simp_all add: net_ok_def)
  have xs: "nd_channel x = nd_channel (w_devices w d)" "nd_deviceId x = nd_deviceId (w_devices w d)"
    "nd_address x = nd_address (w_devices w d)" using x by simp_all
  note v = put_device_views [OF xs]
  have inq: "in_queue (put_device d x w) = (in_queue w)(d := ps)" unfolding v using assms(6) x by simp
  have sub: "p' \<in> set (in_queue w d')" if "p' \<in> set (((in_queue w)(d := ps)) d')" for p' d'
    using that assms(3) by (auto split: if_splits)
  have dist: "distinct (p # ps)" using qo(1) assms(3) unfolding queues_ok_def by metis
  have un: "d' = d \<and> p' = p" if "p' \<in> set (in_queue w d')" "uid_at w p' = uid_at w p" for p' d'
    using that qo(1) assms(3) unfolding queues_ok_def by (metis list.set_intros(1))
  show "delivered_uids (put_device d x w) = delivered_uids w" by (rule v)
  have mem: "p' \<in> set (((in_queue w)(d := ps)) d') \<longleftrightarrow> p' \<in> set (in_queue w d') \<and> \<not> (d' = d \<and> p' = p)" for p' d'
    using assms(3) dist by auto
  show "queued_uids (put_device d x w) = queued_uids w - {uid_at w p}"
    unfolding queued_uids_def inq mem using un by auto
  show room: "has_room (put_device d x w) e" if "has_room w e" for e
    using that assms(2,3,6,7) x by (auto simp: has_room_def in_queue_def)
  have "queues_ok (put_device d x w)"
    unfolding queues_ok_def inq
  proof (intro conjI allI impI)
    fix d' q0 assume "nd_inQueue (w_devices (put_device d x w) d') = Some q0"
    then show "queue_ok q0" using qo(1) assms(5) x by (auto simp: queues_ok_def split: if_splits)
  next
    fix d' show "distinct (((in_queue w)(d := ps)) d')" using qo(1) dist by (simp add: queues_ok_def)
  next
    fix d' p' assume "p' \<in> set (((in_queue w)(d := ps)) d')"
    then show "p' < w_nextPacket (put_device d x w)" using queued_ref [OF qo(1) sub] by simp
  next
    fix d' p'
    have "(nd_pktSrcDestMap (w_devices w d') p' \<noteq> None) = (p' \<in> set (in_queue w d'))" using qo(1) by (simp add: queues_ok_def)
    then show "(nd_pktSrcDestMap (w_devices (put_device d x w) d') p' \<noteq> None) = (p' \<in> set (((in_queue w)(d := ps)) d'))"
      unfolding mem using x by auto
  next
    fix d' p' sd' assume "nd_pktSrcDestMap (w_devices (put_device d x w) d') p' = Some sd'"
    then have "nd_pktSrcDestMap (w_devices w d') p' = Some sd'" using x by (auto split: if_splits)
    then have "sd_src sd' = nd_address (w_devices w (exit_device d' sd'))" using qo(1) by (simp add: queues_ok_def)
    then show "sd_src sd' = nd_address (w_devices (put_device d x w) (exit_device d' sd'))" using xs(3) by auto
  next
    fix d1 p1 d2 p2
    assume "p1 \<in> set (((in_queue w)(d := ps)) d1)" "p2 \<in> set (((in_queue w)(d := ps)) d2)"
      "uid_at (put_device d x w) p1 = uid_at (put_device d x w) p2"
    then have "p1 \<in> set (in_queue w d1)" "p2 \<in> set (in_queue w d2)" "uid_at w p1 = uid_at w p2" using sub by simp_all
    then show "d1 = d2" "p1 = p2" using qo(1) unfolding queues_ok_def by metis+
  qed
  moreover have "entries_ok (put_device d x w)"
    unfolding entries_ok_def
  proof (intro allI impI)
    fix c l u d' assume l: "l < (2::nat)" "(c_packetOriginalDevice (w_channels (put_device d x w) c) ! l) u = Some d'"
    then have "d' \<noteq> d" "entry_ok w c l u d'" using assms(4) [OF l(1)] qo(3) by (auto simp: entries_ok_def)
    then obtain p0 qs sd0 where p0: "in_queue w d' = p0 # qs" "uid_at w p0 = u"
        "nd_pktSrcDestMap (w_devices w d') p0 = Some sd0" "nd_channel (w_devices w (exit_device d' sd0)) = Some c"
        "send_link w c (exit_device d' sd0) = l" by (auto simp: entry_ok_def)
    have "nd_channel (w_devices (put_device d x w) (exit_device d' sd0)) = Some c" using p0(4) xs(1) by auto
    then show "entry_ok (put_device d x w) c l u d'"
      unfolding entry_ok_def v(2) inq using p0(1-3,5) \<open>d' \<noteq> d\<close> by simp
  qed
  moreover have "links_ok X (put_device d x w)" by (rule links_put_device [OF qo(4) xs]) (rule room)
  ultimately show "net_ok X (put_device d x w)" using qo(2) v(6) by (simp add: net_ok_def)
qed

lemma put_channel_device: "put_channel c ch (put_device d x w) = put_device d x (put_channel c ch w)"
  by (simp add: put_channel_def put_device_def)

lemma dequeued:
  assumes "NocNetDevice_DequeuePacketFromInQueue d w = Some (Some r, w1)" "nd_inQueue (w_devices w d) = Some q"
    "\<And>a q'. Queue_Dequeue (packet_size w) q = Some (a, q') \<Longrightarrow> a = Some p \<and> P q'"
  shows "\<exists>q'. Queue_Dequeue (packet_size w) q = Some (Some p, q') \<and> P q' \<and>
    w1 = put_device d ((w_devices w d)\<lparr>nd_inQueue := Some q', nd_pktSrcDestMap := (nd_pktSrcDestMap (w_devices w d))(p := None)\<rparr>) w"
proof -
  obtain a q' where q': "Queue_Dequeue (packet_size w) q = Some (a, q')"
    using assms(1,2) by (auto simp: NocNetDevice_DequeuePacketFromInQueue_def Option.bind_eq_Some_conv split: if_splits)
  with assms(3) have "a = Some p" "P q'" by simp_all
  with q' assms(1,2) show ?thesis
    by (auto simp: NocNetDevice_DequeuePacketFromInQueue_def Let_def split: if_splits)
qed

text \<open>While a transmission ends, its flit leaves the queue that it was sent from.\<close>

lemma take_transmitted_ok:
  assumes "net_ok X w" "(c, l) \<in> X" "l < 2" "take_transmitted c l p w = Some w'"
  shows "net_ok X w'" "delivered_uids w' = delivered_uids w" "uid_at w p \<in> queued_uids w"
    "queued_uids w' = queued_uids w - {uid_at w p}" "has_room w e \<Longrightarrow> has_room w' e"
    "w_packets w' = w_packets w" "w_nextPacket w' = w_nextPacket w" "w_events w' = w_events w"
    "\<And>e. nd_channel (w_devices w' e) = nd_channel (w_devices w e)" "send_link w' = send_link w" "receive_link w' = receive_link w"
    "\<exists>ch. w_channels w' = (w_channels w)(c := ch) \<and> c_devices ch = devices_of w c \<and>
       c_state ch = c_state (w_channels w c) \<and> c_currentPkt ch = c_currentPkt (w_channels w c)"
proof -
  let ?ch = "w_channels w c"
  let ?u = "uid_at w p"
  have qo: "queues_ok w" "entries_ok w" using assms(1) by (simp_all add: net_ok_def)
  have len: "length (c_packetOriginalDevice ?ch) = 2" using assms(1) by (simp add: net_ok_def wiring_ok_def)
  obtain d w1 r where d: "(c_packetOriginalDevice ?ch ! l) ?u = Some d"
    and dq: "NocNetDevice_DequeuePacketFromInQueue d w = Some (Some r, w1)" "?u = uid_at w1 r"
    and w': "w' = put_channel c (?ch\<lparr>c_packetOriginalDevice := (c_packetOriginalDevice ?ch)
         [l := (c_packetOriginalDevice ?ch ! l)(?u := None)]\<rparr>) w1"
    using assms(4) by (auto simp: take_transmitted_def Option.bind_eq_Some_conv Let_def vec_at_eq_Some split: if_splits)
  let ?c1 = "?ch\<lparr>c_packetOriginalDevice := (c_packetOriginalDevice ?ch)[l := (c_packetOriginalDevice ?ch ! l)(?u := None)]\<rparr>"
  have en: "entry_ok w c l ?u d" using qo(2) d assms(3) by (simp add: entries_ok_def)
  then obtain p0 ps where p0: "in_queue w d = p0 # ps" "uid_at w p0 = ?u" by (auto simp: entry_ok_def)
  then obtain q where q: "nd_inQueue (w_devices w d) = Some q" "q_packets q = p0 # ps"
    by (auto simp: in_queue_def split: option.splits)
  have "queue_ok q" using qo(1) q(1) by (simp add: queues_ok_def)
  note D = Dequeue_packets [OF this q(2)]
  obtain q' where q': "Queue_Dequeue (packet_size w) q = Some (Some p0, q')" "queue_ok q'" "q_packets q' = ps"
    "q_maxPackets q' = q_maxPackets q"
    "w1 = put_device d ((w_devices w d)\<lparr>nd_inQueue := Some q', nd_pktSrcDestMap := (nd_pktSrcDestMap (w_devices w d))(p0 := None)\<rparr>) w"
    using dequeued [OF dq(1) q(1), of p0 "\<lambda>q'. queue_ok q' \<and> q_packets q' = ps \<and> q_maxPackets q' = q_maxPackets q"] D by blast
  let ?w = "put_channel c ?c1 w"
  let ?x = "(w_devices w d)\<lparr>nd_inQueue := Some q', nd_pktSrcDestMap := (nd_pktSrcDestMap (w_devices w d))(p0 := None)\<rparr>"
  have w'2: "w' = put_device d ?x ?w" unfolding w' q'(5) put_channel_device by simp
  have dv: "c_devices ?c1 = devices_of w c" "c_fullDuplex ?c1 = c_fullDuplex ?ch" by simp_all
  note v = channel_views [OF dv]
  have sub: "entry_ok w c l u e" if "((c_packetOriginalDevice ?ch ! l)(?u := None)) u = Some e" for u e
    using that qo(2) assms(3) by (auto simp: entries_ok_def split: if_splits)
  have ok: "net_ok X ?w"
  proof (rule relink_ok [OF assms(1), of l])
    show "differs_at l ?ch ?c1" by (simp add: differs_at_def)
    show "entry_ok w c l u e" if "(c_packetOriginalDevice ?c1 ! l) u = Some e" for u e
      using that sub len assms(3) by simp
    show "if (c, l) \<in> X then c_state ?c1 ! l = PROPAGATING \<and> flights w c l = []
      else c_state ?c1 ! l = IDLE \<and> flights w c l = [] \<or> c_state ?c1 ! l = PROPAGATING \<and> carries ?w c l"
      using link_state [OF assms(1,3), of c] assms(2) by simp
  qed simp
  have no: "(c_packetOriginalDevice (w_channels ?w c') ! l') u \<noteq> Some d" if l': "l' < 2" for c' l' u
  proof
    assume a: "(c_packetOriginalDevice (w_channels ?w c') ! l') u = Some d"
    then have "entry_ok ?w c' l' u d" using ok l' by (simp add: net_ok_def entries_ok_def)
    then have "c' = c \<and> l' = l \<and> u = ?u" using entry_link [OF en] unfolding v by blast
    then show False using a assms(3) len by simp
  qed
  have iq: "in_queue ?w d = p0 # ps" unfolding v by (rule p0(1))
  have dev: "nd_inQueue (w_devices ?w d) = Some q" using q(1) by simp
  have x: "?x = (w_devices ?w d)\<lparr>nd_inQueue := Some q', nd_pktSrcDestMap := (nd_pktSrcDestMap (w_devices ?w d))(p0 := None)\<rparr>"
    by simp
  note E = dequeue_ok [OF ok dev iq no q'(2-4) x, folded w'2]
  show "net_ok X w'" by (rule E(1))
  show "delivered_uids w' = delivered_uids w" using E(2) unfolding v .
  show "queued_uids w' = queued_uids w - {?u}" using E(3) p0(2) unfolding v by simp
  show "has_room w' e" if "has_room w e" using E(4) [of e] that unfolding v by blast
  show "?u \<in> queued_uids w" unfolding queued_uids_def using p0 by (metis (mono_tags, lifting) list.set_intros(1) mem_Collect_eq)
  show "w_packets w' = w_packets w" "w_nextPacket w' = w_nextPacket w" "w_events w' = w_events w"
    "nd_channel (w_devices w' e) = nd_channel (w_devices w e)" for e
    unfolding w'2 by simp_all
  have pv: "nd_channel ?x = nd_channel (w_devices ?w d)" "nd_deviceId ?x = nd_deviceId (w_devices ?w d)"
    "nd_address ?x = nd_address (w_devices ?w d)" by simp_all
  show "send_link w' = send_link w" "receive_link w' = receive_link w"
    unfolding w'2 put_device_views [OF pv] v by simp_all
  show "\<exists>ch. w_channels w' = (w_channels w)(c := ch) \<and> c_devices ch = devices_of w c \<and> c_state ch = c_state ?ch \<and>
      c_currentPkt ch = c_currentPkt ?ch"
    unfolding w'2 by (intro exI [of _ ?c1]) simp
qed

text \<open>A flit that is nowhere in the network is buffered by the device that sends it, if there is room.\<close>

definition arrives :: "(channel_ref \<times> nat) set \<Rightarrow> world \<Rightarrow> device_ref \<Rightarrow> packet_ref \<Rightarrow> bool" where
  "arrives X w d p \<longleftrightarrow> net_ok X w \<and> uid_at w p \<notin> queued_uids w \<and> p < w_nextPacket w \<and> quiet_entrance X w d \<and>
     nd_inQueue (w_devices w d) \<noteq> None"

definition buffered :: "(channel_ref \<times> nat) set \<Rightarrow> world \<Rightarrow> device_ref \<Rightarrow> packet_ref \<Rightarrow> world \<Rightarrow> bool" where
  "buffered X w d p w' \<longleftrightarrow> net_ok X w' \<and> delivered_uids w' = delivered_uids w \<and>
     queued_uids w' = (if has_room w d then insert (uid_at w p) (queued_uids w) else queued_uids w)"

lemma inert_arrives: "inert w w' \<Longrightarrow> arrives X w d p \<Longrightarrow> arrives X w' d p"
proof -
  assume i: "inert w w'" and a: "arrives X w d p"
  then have q: "queues_ok w" "p < w_nextPacket w" by (simp_all add: arrives_def net_ok_def)
  have "queued_uids w' = queued_uids w" "uid_at w' p = uid_at w p"
    by (rule inert_queued [OF i q(1)], rule inert_uid [OF i q(2)])
  moreover have "quiet_entrance X w' d"
    using a i unfolding arrives_def quiet_entrance_def inert_views [OF i] by (simp add: inert_def)
  ultimately show ?thesis using a i inert_ok [OF i] unfolding arrives_def by (auto simp: inert_def)
qed

lemma inert_buffered:
  assumes "inert w w1" "arrives X w d p" "buffered X w1 d p w'"
  shows "buffered X w d p w'"
proof -
  have "uid_at w1 p = uid_at w p" "same_flits w w1" "has_room w1 = has_room w"
    using assms(1,2) inert_uid inert_same inert_views(6) by (auto simp: arrives_def)
  with assms(3) show ?thesis by (simp add: buffered_def same_flits_def)
qed

lemma send_buffered_ok:
  assumes "arrives X w d p" "nd_inQueue (w_devices w d) = Some q" "from = nd_address (w_devices w (send_device w d))"
    "send_buffered d p q h to from w = Some w'"
  shows "buffered X w d p w'"
proof -
  obtain e q' where e: "Queue_Enqueue (packet_size w) p q = (e, q')" by (cases "Queue_Enqueue (packet_size w) p q")
  let ?sd = "\<lparr>sd_src = from, sd_dest = to, sd_via = nd_viaNetDevice (w_devices w d)\<rparr>"
  define x where "x = (w_devices w d)\<lparr>nd_inQueue := Some q', nd_pktSrcDestMap :=
      (if e then map_insert p ?sd (nd_pktSrcDestMap (w_devices w d)) else nd_pktSrcDestMap (w_devices w d))\<rparr>"
  have "sd_src ?sd = nd_address (w_devices w (exit_device d ?sd))"
    using assms(3) by (simp add: exit_device_def send_device_def)
  moreover have a: "net_ok X w" "uid_at w p \<notin> queued_uids w" "p < w_nextPacket w" "quiet_entrance X w d"
    using assms(1) by (simp_all add: arrives_def)
  ultimately have E: "net_ok X (put_device d x w)" "delivered_uids (put_device d x w) = delivered_uids w"
    "queued_uids (put_device d x w) = (if has_room w d then insert (uid_at w p) (queued_uids w) else queued_uids w)"
    using enqueue_ok [OF a(1) assms(2) a(2-4) e _ x_def] by simp_all
  have "NocNetDevice_ProcessBufferedPackets d h (Some p) (put_device d x w) = Some w'"
    using assms(4) e by (cases e) (simp_all add: send_buffered_def x_def)
  from processing_ok [OF E(1) this] show ?thesis
    using E(2,3) unfolding buffered_def same_flits_def by simp
qed

lemma SendFrom_ok:
  assumes "arrives X w d p" "NocNetDevice_Send d p to w = Some w'"
  shows "buffered X w d p w'"
proof -
  obtain q where q: "nd_inQueue (w_devices w d) = Some q" using assms(1) by (auto simp: arrives_def)
  obtain h x where x: "pk_uid x = uid_at w p"
    "send_buffered d p q h to (nd_address (w_devices w (send_device w d))) (put_packet p x w) = Some w'"
    using assms(2) q
    by (auto simp: NocNetDevice_Send_def NocNetDevice_SendFrom_def send_device_def Option.bind_eq_Some_conv Let_def
        split: if_splits option.splits dest: RemoveHeader_uid)
  have i: "inert w (put_packet p x w)" by (rule quiet_inert [OF quiet_put_packet [OF x(1)]])
  have "send_device (put_packet p x w) d = send_device w d" by (rule send_device_quiet [OF quiet_put_packet [OF x(1)]])
  then have "buffered X (put_packet p x w) d p w'"
    using q by (intro send_buffered_ok [OF inert_arrives [OF i assms(1)] _ _ x(2)]) simp_all
  then show ?thesis by (rule inert_buffered [OF i assms(1)])
qed

lemma node_send_ok:
  assumes "arrives X w d p" "NocNode_Send pick n d p destination w = Some w'"
  shows "buffered X w d p w'"
proof -
  obtain tag r rt w1 x where s: "NocRouter_ManageFlit pick r d destination p w = Some (Some rt, w1)"
    "pk_uid x = uid_at w1 (rt_routedPacket rt)"
    "NocNode_DoSend (rt_routedPacket rt) d (rt_sourceDevice rt) (rt_destinationDevice rt) (put_packet (rt_routedPacket rt) x w1) = Some w'"
    using assms(2)
    by (auto simp: NocNode_Send_def Option.bind_eq_Some_conv Let_def split: if_splits dest: AddHeader_uid)
  have m: "quiet w w1" "rt_routedPacket rt = p" using ManageFlit_quiet [OF s(1)] by (simp_all add: routes_packet_def)
  have "inert w (put_packet p x w1)"
    using m s(2) quiet_trans [OF m(1) quiet_put_packet] by (simp add: quiet_inert)
  also have "inert (put_packet p x w1) (put_device d (NocNetDevice_SetViaNetDevice (Some (rt_sourceDevice rt))
      (w_devices (put_packet p x w1) d)) (put_packet p x w1))" (is "inert _ ?w")
    by (rule put_device_inert) (simp_all add: NocNetDevice_SetViaNetDevice_def)
  finally have i: "inert w ?w" .
  have "buffered X ?w d p w'"
    using s(3) m(2) by (intro SendFrom_ok [OF inert_arrives [OF i assms(1)]]) (simp add: NocNode_DoSend_def Let_def)
  then show ?thesis by (rule inert_buffered [OF i assms(1)])
qed

text \<open>A flit for this node is delivered; it comes from the receive device of the router.\<close>

abbreviation for_this_device :: "world \<Rightarrow> device_ref \<Rightarrow> mac48 \<Rightarrow> bool" where
  "for_this_device w d to \<equiv> to = nd_address (w_devices w d) \<or> Mac48Address_IsBroadcast to \<or> Mac48Address_IsGroup to"

lemma RemovePacketTag_uid: "Packet_RemovePacketTag x t = Some (f, t', x') \<Longrightarrow> pk_uid x' = pk_uid x"
  by (auto simp: Packet_RemovePacketTag_def split: option.splits)

lemma AddPacketTag_uid: "Packet_AddPacketTag x t = Some x' \<Longrightarrow> pk_uid x' = pk_uid x"
  by (auto simp: AddPacketTag_eq split: if_splits)

lemma receive_local:
  assumes "NocNetDevice_Receive pick d p to from w = Some w'" "for_this_device w d to"
  shows "\<exists>e x. w' = trace_event (Received e x) (put_packet p x w) \<and> pk_uid x = uid_at w p"
proof -
  have "for_this_device w d to \<longrightarrow> (\<exists>e x. w' = trace_event (Received e x) (put_packet p x w) \<and> pk_uid x = uid_at w p)"
  proof (rule NocNetDevice_Receive.raw_induct [where P = "\<lambda>pick d p to from w w'. for_this_device w d to \<longrightarrow>
      (\<exists>e x. w' = trace_event (Received e x) (put_packet p x w) \<and> pk_uid x = uid_at w p)", OF _ assms(1)])
    fix R :: "(nat \<Rightarrow> nat) \<Rightarrow> device_ref \<Rightarrow> packet_ref \<Rightarrow> mac48 \<Rightarrow> mac48 \<Rightarrow> world \<Rightarrow> world option"
    fix pick d p to "from" w w'
    assume IH: "\<And>pick d p to from w w'. R pick d p to from w = Some w' \<Longrightarrow> for_this_device w d to \<longrightarrow>
        (\<exists>e x. w' = trace_event (Received e x) (put_packet p x w) \<and> pk_uid x = uid_at w p)"
      and b: "(if for_this_device w d to then
        Option.bind (device_router w d) (\<lambda>router.
          let receiveDevice = router_GetReceiveNetDevice (w_routers w router) in
          if d = receiveDevice then
            Option.bind (Packet_RemovePacketTag (w_packets w p) NocPacketTag_new) (\<lambda>(_, tag, x).
              Option.bind (now_picoseconds w) (\<lambda>now.
                Option.bind (Packet_AddPacketTag x (tag\<lparr>tag_receiveTime := now\<rparr>)) (\<lambda>x.
                  Some (trace_event (Received d x) (put_packet p x w)))))
          else R pick receiveDevice p (nd_address (w_devices w receiveDevice)) to w)
      else
        Option.bind (nd_node (w_devices w d)) (\<lambda>n.
          Option.bind (NocTopology_FindNetDeviceByAddress w to) (\<lambda>dest.
            Option.bind (nd_node (w_devices w dest)) (\<lambda>destination.
              NocNode_Send pick n d p destination w)))) = Some w'"
    show "for_this_device w d to \<longrightarrow> (\<exists>e x. w' = trace_event (Received e x) (put_packet p x w) \<and> pk_uid x = uid_at w p)"
    proof
      assume l: "for_this_device w d to"
      with b obtain router where router: "device_router w d = Some router" by (auto simp: Option.bind_eq_Some_conv split: if_splits)
      show "\<exists>e x. w' = trace_event (Received e x) (put_packet p x w) \<and> pk_uid x = uid_at w p"
      proof (cases "d = router_GetReceiveNetDevice (w_routers w router)")
        case True
        then obtain f tag x now x' where "Packet_RemovePacketTag (w_packets w p) NocPacketTag_new = Some (f, tag, x)"
          "Packet_AddPacketTag x (tag\<lparr>tag_receiveTime := now\<rparr>) = Some x'" "w' = trace_event (Received d x') (put_packet p x' w)"
          using b router unfolding if_P [OF l] by (auto simp: Let_def Option.bind_eq_Some_conv)
        then show ?thesis using RemovePacketTag_uid AddPacketTag_uid by metis
      next
        case False
        then show ?thesis using b l router IH unfolding if_P [OF l] by (auto simp: Let_def)
      qed
    qed
  qed
  with assms(2) show ?thesis by simp
qed

definition taken_over :: "(channel_ref \<times> nat) set \<Rightarrow> world \<Rightarrow> packet_ref \<Rightarrow> world \<Rightarrow> bool" where
  "taken_over X w p w' \<longleftrightarrow> net_ok X w' \<and>
     (queued_uids w' = insert (uid_at w p) (queued_uids w) \<and> delivered_uids w' = delivered_uids w \<or>
      queued_uids w' = queued_uids w \<and> delivered_uids w' = delivered_uids w @ [uid_at w p])"

lemma received_views:
  "queued_uids (trace_event (Received e x) w) = queued_uids w"
  "delivered_uids (trace_event (Received e x) w) = delivered_uids w @ [pk_uid x]"
  "net_ok X (trace_event (Received e x) w) = net_ok X w"
proof -
  let ?w = "trace_event (Received e x) w"
  have f: "flight_list ?w = flight_list w" "w_devices ?w = w_devices w" "w_channels ?w = w_channels w"
    "w_packets ?w = w_packets w" "w_nextPacket ?w = w_nextPacket w"
    by (simp_all add: trace_event_def flight_list_def)
  have v: "in_queue ?w = in_queue w" "send_link ?w = send_link w" "receive_link ?w = receive_link w"
    "has_room ?w = has_room w"
    by (simp_all add: fun_eq_iff in_queue_def send_link_def receive_link_def has_room_def f)
  have g: "flights ?w = flights w" by (simp add: fun_eq_iff flights_def f v)
  show "queued_uids ?w = queued_uids w" by (simp add: queued_uids_def f v)
  show "delivered_uids ?w = delivered_uids w @ [pk_uid x]"
    by (simp add: delivered_uids_def trace_event_def List.map_filter_def)
  have "entry_ok ?w = entry_ok w" "carries ?w = carries w"
    by (simp_all add: fun_eq_iff entry_ok_def carries_def f v g)
  then show "net_ok X ?w = net_ok X w"
    by (simp add: net_ok_def wiring_ok_def queues_ok_def entries_ok_def links_ok_def f v g)
qed

lemma Receive_ok:
  assumes "arrives X w d p" "has_room w d" "NocNetDevice_Receive pick d p to from w = Some w'"
  shows "taken_over X w p w'"
proof (cases "for_this_device w d to")
  case True
  then obtain e x where x: "w' = trace_event (Received e x) (put_packet p x w)" "pk_uid x = uid_at w p"
    using receive_local [OF assms(3)] by blast
  have i: "inert w (put_packet p x w)" by (rule quiet_inert [OF quiet_put_packet [OF x(2)]])
  have "net_ok X w" using assms(1) by (simp add: arrives_def)
  with inert_ok [OF i this] inert_same [OF i this] show ?thesis
    by (simp add: taken_over_def x received_views same_flits_def)
next
  case False
  then obtain n destination where "NocNode_Send pick n d p destination w = Some w'"
    using assms(3) NocNetDevice_Receive.simps [of pick d p to "from" w]
    by (auto simp: Option.bind_eq_Some_conv)
  then have "buffered X w d p w'" by (rule node_send_ok [OF assms(1)])
  with assms(2) show ?thesis by (simp add: buffered_def taken_over_def)
qed

section \<open>A step of the network\<close>

text \<open>No flit is lost and none is doubled: what was queued still is, or it was delivered meanwhile.\<close>

definition flits_conserved :: "world \<Rightarrow> world \<Rightarrow> bool" where
  "flits_conserved w w' \<longleftrightarrow> (\<exists>us. delivered_uids w' = delivered_uids w @ us \<and> distinct us \<and>
     queued_uids w = queued_uids w' \<union> set us \<and> queued_uids w' \<inter> set us = {})"

lemma same_flits_conserved: "same_flits w w' \<Longrightarrow> flits_conserved w w'"
  unfolding same_flits_def flits_conserved_def by (intro exI [of _ "[]"]) simp

lemma flits_conserved_trans:
  assumes "flits_conserved a b" "flits_conserved b c"
  shows "flits_conserved a c"
proof -
  obtain us where us: "delivered_uids b = delivered_uids a @ us" "distinct us"
     "queued_uids a = queued_uids b \<union> set us" "queued_uids b \<inter> set us = {}"
    using assms(1) by (auto simp: flits_conserved_def)
  obtain vs where vs: "delivered_uids c = delivered_uids b @ vs" "distinct vs"
     "queued_uids b = queued_uids c \<union> set vs" "queued_uids c \<inter> set vs = {}"
    using assms(2) by (auto simp: flits_conserved_def)
  show ?thesis unfolding flits_conserved_def by (intro exI [of _ "us @ vs"]) (use us vs in auto)
qed

lemma unload_ok:
  assumes "net_ok {(c, l)} w" "l < 2" "differs_at l (w_channels w c) ch" "c_state ch ! l = IDLE"
    "c_packetOriginalDevice ch = c_packetOriginalDevice (w_channels w c)"
  shows "net_ok {} (put_channel c ch w) \<and> same_flits w (put_channel c ch w)"
proof -
  have "c_devices ch = devices_of w c" "c_fullDuplex ch = c_fullDuplex (w_channels w c)"
    using assms(3) by (simp_all add: differs_at_def)
  note v = channel_views [OF this]
  have "net_ok {} (put_channel c ch w)"
    using assms link_state [OF assms(1,2), of c]
    by (intro relink_ok [OF assms(1,3)]) (auto simp: net_ok_def entries_ok_def)
  then show ?thesis by (simp add: same_flits_def v)
qed

lemma count_flit_keeps:
  assumes "channel_count_flit w p ch = Some ch'"
  shows "c_devices ch' = c_devices ch \<and> c_fullDuplex ch' = c_fullDuplex ch \<and>
     c_state ch' = c_state ch \<and> c_currentPkt ch' = c_currentPkt ch \<and>
     c_packetOriginalDevice ch' = c_packetOriginalDevice ch \<and> c_currentDestDevice ch' = c_currentDestDevice ch"
  using assms unfolding channel_count_flit_def Let_def Option.bind_eq_Some_conv
  by (elim exE conjE) (auto split: if_splits simp: Option.bind_eq_Some_conv)

lemma loaded_inert:
  assumes "inert w w'" "loaded w c l dest"
  shows "loaded w' c l dest"
proof -
  from assms(2) obtain p d where p: "c_currentPkt (w_channels w c) ! l = Some p" "p < w_nextPacket w"
     "(c_packetOriginalDevice (w_channels w c) ! l) (uid_at w p) = Some d"
     "c_currentDestDevice (w_channels w c) ! l = Some dest" "dest \<in> set (devices_of w c)"
     "l = receive_link w c dest" "has_room w dest" by (auto simp: loaded_def)
  have "uid_at w' p = uid_at w p" "w_channels w' = w_channels w" "p < w_nextPacket w'"
    using assms(1) p(2) inert_uid [OF assms(1) p(2)] by (auto simp: inert_def)
  with p show ?thesis unfolding loaded_def inert_views [OF assms(1)] by auto
qed

lemma taken_conserved:
  assumes "u \<in> queued_uids w"
    "queued_uids w' = insert u (queued_uids w - {u}) \<and> delivered_uids w' = delivered_uids w \<or>
     queued_uids w' = queued_uids w - {u} \<and> delivered_uids w' = delivered_uids w @ [u]"
  shows "flits_conserved w w'"
  using assms(2)
proof
  assume "queued_uids w' = insert u (queued_uids w - {u}) \<and> delivered_uids w' = delivered_uids w"
  with assms(1) have "same_flits w w'" by (simp add: same_flits_def insert_absorb)
  then show ?thesis by (rule same_flits_conserved)
next
  assume "queued_uids w' = queued_uids w - {u} \<and> delivered_uids w' = delivered_uids w @ [u]"
  with assms(1) show ?thesis unfolding flits_conserved_def by (intro exI [of _ "[u]"]) auto
qed

lemma TransmitEnd_ok:
  assumes "net_ok {(c, l)} w" "loaded w c l dest" "src \<in> set (devices_of w c)" "send_link w c src = l"
    "NocChannel_TransmitEnd pick c src to dest from w = Some w'"
  shows "net_ok {} w' \<and> flits_conserved w w'"
proof -
  have wi: "wiring_ok w" using assms(1) by (simp add: net_ok_def)
  have src: "nd_channel (w_devices w src) = Some c" using wi assms(3) by (simp add: wiring_ok_def)
  then have idx: "index_of src (devices_of w c) = Some (unat (nd_deviceId (w_devices w src)))"
    using wi by (simp add: wiring_ok_def)
  have l: "channel_link (w_channels w c) (unat (nd_deviceId (w_devices w src))) = l" "l < 2"
    using assms(4) wired(5) [OF wi src] by (simp_all add: send_link_def)
  obtain p router w1 w2 w4 flit ch where
    p: "c_currentPkt (w_channels w c) ! l = Some p"
    and w1: "receive_load router src p w = Some w1" and w2: "take_transmitted c l p w1 = Some w2"
    and w4: "NocNetDevice_Receive pick dest (w_nextPacket w2) to from (snd (Packet_Copy p w2)) = Some w4"
    and ch: "channel_count_flit w4 flit ((w_channels w4 c)\<lparr>c_state := (c_state (w_channels w4 c))[l := IDLE]\<rparr>) = Some ch"
    and w': "w' = put_channel c ch w4"
    using assms(5) idx l
    by (auto simp: NocChannel_TransmitEnd_def Let_def Option.bind_eq_Some_conv vec_at_eq_Some Packet_Copy_def split: if_splits)
  let ?u = "uid_at w p"
  let ?w3 = "snd (Packet_Copy p w2)"
  have i1: "inert w w1" by (rule quiet_inert [OF receive_load_quiet [OF w1]])
  have ok1: "net_ok {(c, l)} w1" by (rule inert_ok [OF i1 assms(1)])
  have ld: "loaded w1 c l dest" by (rule loaded_inert [OF i1 assms(2)])
  have u1: "uid_at w1 p = ?u" using quiet_ref [OF receive_load_quiet [OF w1]] .
  note T = take_transmitted_ok [OF ok1 _ l(2) w2, simplified]
  have i3: "inert w2 ?w3" by (rule copy_inert)
  have u3: "uid_at ?w3 (w_nextPacket w2) = ?u" using T(6) u1 by (simp add: Packet_Copy_def)
  have q3: "queued_uids ?w3 = queued_uids w1 - {?u}" "delivered_uids ?w3 = delivered_uids w1"
    using inert_same [OF i3 T(1)] T(2,4) u1 by (simp_all add: same_flits_def)
  have dest: "dest \<in> set (devices_of w1 c)" "l = receive_link w1 c dest" "has_room w1 dest" using ld by (auto simp: loaded_def)
  have "nd_channel (w_devices w1 dest) = Some c" using ok1 dest(1) by (simp add: net_ok_def wiring_ok_def)
  then have e3: "quiet_entrance {(c, l)} ?w3 dest"
    using T(9,11) dest(2) i3 unfolding quiet_entrance_def inert_views [OF i3] by (simp add: inert_def)
  have room: "has_room ?w3 dest" unfolding inert_views [OF i3] by (rule T(5) [OF dest(3)])
  have "arrives {(c, l)} ?w3 dest (w_nextPacket w2)"
    unfolding arrives_def u3 q3 using inert_ok [OF i3 T(1)] e3 room by (auto simp: Packet_Copy_def has_room_def)
  from Receive_ok [OF this room w4] have t: "net_ok {(c, l)} w4"
    "queued_uids w4 = insert ?u (queued_uids w1 - {?u}) \<and> delivered_uids w4 = delivered_uids w1 \<or>
     queued_uids w4 = queued_uids w1 - {?u} \<and> delivered_uids w4 = delivered_uids w1 @ [?u]"
    by (simp_all add: taken_over_def u3 q3)
  have "?u \<in> queued_uids w1" using T(3) u1 by simp
  then have "flits_conserved w1 w4" using t(2) by (rule taken_conserved)
  moreover have "same_flits w w1" by (rule inert_same [OF i1 assms(1)])
  moreover have "net_ok {} w' \<and> same_flits w4 w'"
    unfolding w'
  proof (rule unload_ok [OF t(1) l(2)])
    have len: "length (c_state (w_channels w4 c)) = 2" using t(1) by (simp add: net_ok_def wiring_ok_def)
    note k = count_flit_keeps [OF ch]
    show "differs_at l (w_channels w4 c) ch" "c_packetOriginalDevice ch = c_packetOriginalDevice (w_channels w4 c)"
      "c_state ch ! l = IDLE" using k len l(2) by (simp_all add: differs_at_def)
  qed
  ultimately show ?thesis by (meson flits_conserved_trans same_flits_conserved)
qed

text \<open>The event list, and the run of the network.\<close>

lemma take_earliest_split:
  "take_earliest es = Some (e, es') \<Longrightarrow> \<exists>xs ys. es = xs @ e # ys \<and> es' = xs @ ys"
proof (induction es arbitrary: es')
  case (Cons e0 es)
  show ?case
  proof (cases "take_earliest es")
    case None
    then show ?thesis using Cons.prems by (cases es) (auto split: option.splits if_splits intro: exI [of _ "[]"])
  next
    case (Some r)
    obtain e1 es1 where r: "r = (e1, es1)" by (cases r)
    show ?thesis
    proof (cases "fst e0 \<le> fst e1")
      case True
      then have "e = e0" "es' = es" using Cons.prems Some r by simp_all
      then show ?thesis by (intro exI [of _ "[]"] exI [of _ es]) simp
    next
      case False
      then have e: "e = e1" "es' = e0 # es1" using Cons.prems Some r by simp_all
      obtain xs ys where "es = xs @ e1 # ys" "es1 = xs @ ys" using Cons.IH [of es1] Some r e(1) by auto
      then show ?thesis using e by (intro exI [of _ "e0 # xs"] exI [of _ ys]) simp
    qed
  qed
qed simp

lemma flights_split:
  assumes "w_events w = xs @ e # ys"
  shows "flight_list w = flight_list (w\<lparr>w_events := xs\<rparr>) @ (case flight_of (snd e) of None \<Rightarrow> [] | Some f \<Rightarrow> [f]) @
      flight_list (w\<lparr>w_events := ys\<rparr>)"
    "flight_list (w\<lparr>w_events := xs @ ys\<rparr>) = flight_list (w\<lparr>w_events := xs\<rparr>) @ flight_list (w\<lparr>w_events := ys\<rparr>)"
  using assms by (simp_all add: flight_list_def List.map_filter_def split: option.splits)

lemma later_inert: "inert w (w\<lparr>w_now := t\<rparr>)"
  by (simp add: inert_def flight_list_def delivered_uids_def)

lemma take_flight_ok:
  assumes "net_ok {} w" "w_events w = xs @ (t, ev) # ys" "flight_of ev = Some (c, s, dest)" "l = send_link w c s"
  shows "net_ok {(c, l)} (w\<lparr>w_events := xs @ ys\<rparr>)" "loaded w c l dest" "s \<in> set (devices_of w c)"
proof -
  let ?w = "w\<lparr>w_events := xs @ ys\<rparr>"
  note fs = flights_split [OF assms(2)]
  have f: "flight_list w = flight_list (w\<lparr>w_events := xs\<rparr>) @ (c, s, dest) # flight_list (w\<lparr>w_events := ys\<rparr>)"
    using fs(1) assms(3) by simp
  have fl: "flights w c' l' = flights (w\<lparr>w_events := xs\<rparr>) c' l' @ (if (c', l') = (c, l) then [dest] else []) @
     flights (w\<lparr>w_events := ys\<rparr>) c' l'" "flights ?w c' l' = flights (w\<lparr>w_events := xs\<rparr>) c' l' @ flights (w\<lparr>w_events := ys\<rparr>) c' l'" for c' l'
    unfolding flights_def events_views fs(2) using assms(4) by (simp_all add: f)
  have wi: "wiring_ok w" and "links_ok {} w" using assms(1) by (simp_all add: net_ok_def)
  then show s: "s \<in> set (devices_of w c)" using f by (auto simp: links_ok_def)
  then have "nd_channel (w_devices w s) = Some c" using wi by (simp add: wiring_ok_def)
  then have l: "l < 2" using wired(5) [OF wi] assms(4) by simp
  have "flights w c l \<noteq> []" by (simp add: fl)
  with link_state [OF assms(1) l, of c] have st: "c_state (w_channels w c) ! l = PROPAGATING" "carries w c l" by auto
  then obtain dest' where d: "loaded w c l dest'" "flights w c l = [dest']" by (auto simp: carries_loaded)
  then have e: "dest' = dest" "flights ?w c l = []" using fl [of c l] by (auto simp: append_eq_Cons_conv)
  with d show "loaded w c l dest" by simp
  show "net_ok {(c, l)} ?w"
    by (rule events_ok [OF assms(1), of _ c s dest l _ dest]) (use s e(2) st fl f fs(2) in auto)
qed

lemma network_step_ok:
  assumes "net_ok {} w" "network_step pick w = Some w'"
  shows "net_ok {} w' \<and> flits_conserved w w'"
proof -
  obtain t ev es where e: "take_earliest (w_events w) = Some ((t, ev), es)"
    and i: "invoke_event pick ev (w\<lparr>w_now := t, w_events := es\<rparr>) = Some w'"
    using assms(2) by (auto simp: network_step_def Option.bind_eq_Some_conv split: if_splits)
  obtain xs ys where xs: "w_events w = xs @ (t, ev) # ys" "es = xs @ ys" using take_earliest_split [OF e] by blast
  let ?w = "w\<lparr>w_now := t\<rparr>"
  have l: "inert w ?w" by (rule later_inert)
  have ok: "net_ok {} ?w" "same_flits w ?w" by (rule inert_ok [OF l assms(1)], rule inert_same [OF l assms(1)])
  have ev: "w_events ?w = xs @ (t, ev) # ys" using xs(1) by simp
  let ?w1 = "?w\<lparr>w_events := xs @ ys\<rparr>"
  have "net_ok {} w' \<and> flits_conserved ?w1 w'"
  proof (cases ev)
    case (ProcessBufferedPackets d h)
    then have "flight_list ?w1 = flight_list ?w" using flights_split [OF ev] by (simp add: flight_of_def)
    then have "inert ?w ?w1" by (simp add: inert_def delivered_uids_def)
    from inert_ok [OF this ok(1)] have "net_ok {} ?w1" .
    moreover have "NocNetDevice_ProcessBufferedPackets d h None ?w1 = Some w'"
      using i ProcessBufferedPackets xs(2) by (simp add: invoke_event_def)
    ultimately show ?thesis using processing_ok same_flits_conserved by blast
  next
    case (TransmitEnd c src to dest "from")
    then have "flight_of ev = Some (c, src, dest)" by (simp add: flight_of_def)
    note t = take_flight_ok [OF ok(1) ev this refl]
    have "NocChannel_TransmitEnd pick c src to dest from ?w1 = Some w'"
      using i TransmitEnd xs(2) by (simp add: invoke_event_def)
    then show ?thesis using t by (intro TransmitEnd_ok [of c _ ?w1 dest src]) (simp_all add: events_views)
  qed
  moreover have "same_flits ?w ?w1" by (simp add: same_flits_def events_views)
  ultimately show ?thesis using ok(2) same_flits_conserved flits_conserved_trans by blast
qed

section \<open>Injecting flits, and the run of the network\<close>

definition injection_devices :: "noc_router \<Rightarrow> device_ref set" where
  "injection_devices r = (case r_class r of
     FourWayRouter f \<Rightarrow> {fw_internalInputDevice f}
   | FourWayLoadRouter f l \<Rightarrow> {fw_internalInputDevice f}
   | IrvineRouter v \<Rightarrow> {iv_internalLeftInputDevice v, iv_internalRightInputDevice v} \<union> ran (iv_headPacketsInjectionNetDevice v)
   | IrvineLoadRouter v l \<Rightarrow> {iv_internalLeftInputDevice v, iv_internalRightInputDevice v} \<union> ran (iv_headPacketsInjectionNetDevice v))"

lemma irvine_injection_device:
  "IrvineRouter_GetInjectionNetDevice dims v x = Some (d, v') \<Longrightarrow>
     d \<in> {iv_internalLeftInputDevice v, iv_internalRightInputDevice v} \<union> ran (iv_headPacketsInjectionNetDevice v)"
  by (auto simp: IrvineRouter_GetInjectionNetDevice_def Option.bind_eq_Some_conv ran_def Let_def split: if_splits)

lemma injection_device_in:
  "router_GetInjectionNetDevice r p w = Some (d, w') \<Longrightarrow> d \<in> injection_devices (w_routers w r)"
  unfolding router_GetInjectionNetDevice_def injection_devices_def
  by (cases "r_class (w_routers w r)") (force simp: Option.bind_eq_Some_conv dest!: irvine_injection_device)+

text \<open>A new flit: nowhere in the network, and the injection devices of the node have a queue that no
  channel leads to, or an idle one.\<close>

definition may_inject :: "world \<Rightarrow> node_ref \<Rightarrow> packet_ref \<Rightarrow> bool" where
  "may_inject w n p \<longleftrightarrow> uid_at w p \<notin> queued_uids w \<and> uid_at w p \<notin> set (delivered_uids w) \<and> p < w_nextPacket w \<and>
     (\<forall>r d. node_router w n = Some r \<longrightarrow> d \<in> injection_devices (w_routers w r) \<longrightarrow>
        nd_inQueue (w_devices w d) \<noteq> None \<and> quiet_entrance {} w d)"

lemma injection_buffers:
  assumes "net_ok {} w" "may_inject w n p" "node_router w n = Some r" "NocNode_InjectPacket pick n p destination w = Some w'"
  shows "\<exists>d \<in> injection_devices (w_routers w r). buffered {} w d p w'"
proof -
  obtain f tag x now x' d w1 where x: "Packet_RemovePacketTag (w_packets w p) NocPacketTag_new = Some (f, tag, x)"
    "Packet_AddPacketTag x (tag\<lparr>tag_injectionTime := now\<rparr>) = Some x'"
    "router_GetInjectionNetDevice r p (put_packet p x' w) = Some (d, w1)"
    "NocNode_Send pick n d p destination w1 = Some w'"
    using assms(3,4) by (auto simp: NocNode_InjectPacket_def Let_def Option.bind_eq_Some_conv)
  have "pk_uid x' = uid_at w p" using RemovePacketTag_uid [OF x(1)] AddPacketTag_uid [OF x(2)] by simp
  then have "inert w (put_packet p x' w)" by (rule quiet_inert [OF quiet_put_packet])
  also have "inert (put_packet p x' w) w1" by (rule quiet_inert [OF injection_device_quiet [OF x(3)]])
  finally have i: "inert w w1" .
  have d: "d \<in> injection_devices (w_routers w r)" using injection_device_in [OF x(3)] by simp
  then have "arrives {} w d p" using assms(1-3) by (auto simp: arrives_def may_inject_def)
  from inert_buffered [OF i this node_send_ok [OF inert_arrives [OF i this] x(4)]] d show ?thesis by blast
qed

text \<open>A run: events and injections in any order, with the UIDs of the flits that were accepted.\<close>

inductive network_run :: "(nat \<Rightarrow> nat) \<Rightarrow> world \<Rightarrow> u32 list \<Rightarrow> world \<Rightarrow> bool" for pick where
  run_start: "network_run pick w [] w"
| run_event: "network_run pick w us w' \<Longrightarrow> network_step pick w' = Some w'' \<Longrightarrow> network_run pick w us w''"
| run_inject: "network_run pick w us w' \<Longrightarrow> may_inject w' n p \<Longrightarrow> NocNode_InjectPacket pick n p destination w' = Some w'' \<Longrightarrow>
    network_run pick w (us @ (if uid_at w' p \<in> queued_uids w'' then [uid_at w' p] else [])) w''"

lemma network_run_ok:
  assumes "network_run pick w us w'" "net_ok {} w" "set (delivered_uids w) \<inter> queued_uids w = {}"
  shows "net_ok {} w' \<and> (\<exists>ds. delivered_uids w' = delivered_uids w @ ds \<and> distinct ds \<and>
     queued_uids w \<union> set us = queued_uids w' \<union> set ds \<and> queued_uids w' \<inter> set (delivered_uids w') = {})"
  using assms
proof (induction rule: network_run.induct)
  case (run_start w)
  then show ?case by auto
next
  case (run_event w us w' w'')
  then obtain ds where ds: "delivered_uids w' = delivered_uids w @ ds" "distinct ds"
     "queued_uids w \<union> set us = queued_uids w' \<union> set ds" "queued_uids w' \<inter> set (delivered_uids w') = {}" by auto
  have "net_ok {} w''" "flits_conserved w' w''" using network_step_ok run_event by blast+
  moreover from this(2) obtain vs where "delivered_uids w'' = delivered_uids w' @ vs" "distinct vs"
     "queued_uids w' = queued_uids w'' \<union> set vs" "queued_uids w'' \<inter> set vs = {}" by (auto simp: flits_conserved_def)
  ultimately show ?case using ds by (intro conjI exI [of _ "ds @ vs"]) auto
next
  case (run_inject w us w' n p destination w'')
  then obtain ds where ds: "delivered_uids w' = delivered_uids w @ ds" "distinct ds"
     "queued_uids w \<union> set us = queued_uids w' \<union> set ds" "queued_uids w' \<inter> set (delivered_uids w') = {}" and ok: "net_ok {} w'"
    by auto
  obtain r where "node_router w' n = Some r"
    using run_inject.hyps(3) by (auto simp: NocNode_InjectPacket_def Let_def Option.bind_eq_Some_conv)
  from injection_buffers [OF ok run_inject.hyps(2) this run_inject.hyps(3)] obtain d where d: "buffered {} w' d p w''" by blast
  have new: "uid_at w' p \<notin> queued_uids w'" "uid_at w' p \<notin> set (delivered_uids w')"
    using run_inject.hyps(2) by (simp_all add: may_inject_def)
  then show ?case using d ds unfolding buffered_def by (intro conjI exI [of _ ds]) (auto split: if_splits)
qed

text \<open>C10: the channels, the queues and the scheduled events of a network stay consistent
  whatever events and injections follow each other: a link is on the way exactly when one end of
  a transmission is scheduled for it, the flit it carries is at the head of the queue of the
  device it was sent from, and the queue at the other end has room for it.\<close>

theorem network_invariant:
  assumes "network_run pick w us w'" "net_ok {} w" "set (delivered_uids w) \<inter> queued_uids w = {}"
  shows "net_ok {} w'"
  using network_run_ok [OF assms] by blast

text \<open>C9: along any run, the flits that were queued at its start or accepted by an injection
  device since are exactly those that are queued at its end or were delivered meanwhile, and no
  flit is delivered twice or both delivered and still queued.\<close>

theorem no_flit_lost:
  assumes "network_run pick w us w'" "net_ok {} w" "set (delivered_uids w) \<inter> queued_uids w = {}"
  shows "\<exists>ds. delivered_uids w' = delivered_uids w @ ds \<and> distinct ds \<and>
     queued_uids w \<union> set us = queued_uids w' \<union> set ds \<and> queued_uids w' \<inter> set (delivered_uids w') = {}"
  using network_run_ok [OF assms] by blast

section \<open>Two joined nodes\<close>

text \<open>The head flit of UID 7, the packet 5, waits in device 1 of node 0 for its way by device 10; channel 0
  leads to device 20 of node 1. An attempt to send is scheduled for device 3, which has no flit.\<close>

definition joined_device :: "node_ref \<Rightarrow> mac48 \<Rightarrow> net_device" where
  "joined_device n a = NocNetDevice_new\<lparr>nd_node := Some n, nd_address := a, nd_inQueue := Some DropTailQueue_new\<rparr>"

definition joined_queue :: "packet_ref drop_tail_queue" where
  "joined_queue = DropTailQueue_new\<lparr>q_packets := [5], q_nPackets := 1, q_nBytes := 16, q_bytesInQueue := 16\<rparr>"

definition joined_nodes :: world where
  "joined_nodes =
     (put_packet 5 (sample_head 7 1 False)
     (put_channel 0 ((w_channels (blank_world 2) 0)\<lparr>c_devices := [10, 20]\<rparr>)
     (put_device 1 ((joined_device 0 101)\<lparr>nd_inQueue := Some joined_queue,
        nd_pktSrcDestMap := [5 \<mapsto> \<lparr>sd_src = 110, sd_dest = 120, sd_via = Some 10\<rparr>]\<rparr>)
     (put_device 3 (joined_device 1 103)
     (put_device 10 ((joined_device 0 110)\<lparr>nd_channel := Some 0\<rparr>)
     (put_device 20 ((joined_device 1 120)\<lparr>nd_channel := Some 0, nd_deviceId := 1\<rparr>)
       (blank_world 2)))))))\<lparr>w_events := [(5, ProcessBufferedPackets 3 (NocHeader_new 2))]\<rparr>"

lemma joined_devices:
  "w_devices joined_nodes d =
     (if d = 1 then (joined_device 0 101)\<lparr>nd_inQueue := Some joined_queue,
        nd_pktSrcDestMap := [5 \<mapsto> \<lparr>sd_src = 110, sd_dest = 120, sd_via = Some 10\<rparr>]\<rparr>
      else if d = 3 then joined_device 1 103
      else if d = 10 then (joined_device 0 110)\<lparr>nd_channel := Some 0\<rparr>
      else if d = 20 then (joined_device 1 120)\<lparr>nd_channel := Some 0, nd_deviceId := 1\<rparr>
      else NocNetDevice_new)"
  by (simp add: joined_nodes_def blank_world_def)

lemma joined_channels:
  "c_state (w_channels joined_nodes c) = [IDLE, IDLE]" "c_packetOriginalDevice (w_channels joined_nodes c) = [Map.empty, Map.empty]"
  "length (c_currentPkt (w_channels joined_nodes c)) = 2" "length (c_currentDestDevice (w_channels joined_nodes c)) = 2"
  "devices_of joined_nodes c = (if c = 0 then [10, 20] else [])"
  by (simp_all add: joined_nodes_def blank_world_def)

lemma joined_nodes_ok: "net_ok {} joined_nodes" "queued_uids joined_nodes = {7}" "delivered_uids joined_nodes = []"
proof -
  have q: "in_queue joined_nodes d = (if d = 1 then [5] else [])" for d
    by (simp add: in_queue_def joined_devices DropTailQueue_new_def joined_queue_def joined_device_def NocNetDevice_new_def)
  have fl: "flight_list joined_nodes = []" "delivered_uids joined_nodes = []"
    by (simp_all add: flight_list_def delivered_uids_def joined_nodes_def blank_world_def List.map_filter_def flight_of_def)
  then have fs: "flights joined_nodes c l = []" for c l by (simp add: flights_def)
  have "queue_ok DropTailQueue_new" "queue_ok joined_queue"
    by (simp_all add: queue_ok_def DropTailQueue_new_def joined_queue_def)
  moreover have "5 < w_nextPacket joined_nodes" by (simp add: joined_nodes_def blank_world_def)
  ultimately have "queues_ok joined_nodes"
    by (simp add: queues_ok_def q joined_devices joined_device_def NocNetDevice_new_def exit_device_def)
  moreover have "wiring_ok joined_nodes"
    unfolding wiring_ok_def joined_channels
    by (auto simp: joined_devices joined_channels joined_device_def NocNetDevice_new_def split: if_splits)
  moreover have "entries_ok joined_nodes" "links_ok {} joined_nodes"
    by (auto simp: entries_ok_def links_ok_def joined_channels fl fs less_2_cases_iff)
  ultimately show "net_ok {} joined_nodes" by (simp add: net_ok_def)
  show "queued_uids joined_nodes = {7}" by (simp add: queued_uids_def q) (simp add: joined_nodes_def sample_head_def)
  show "delivered_uids joined_nodes = []" by (rule fl)
qed

lemma joined_run: "\<exists>w. network_run (\<lambda>n. 0) joined_nodes [] w \<and> w_now w = 5"
proof -
  have "w_events joined_nodes = [(5, ProcessBufferedPackets 3 (NocHeader_new 2))]" "w_now joined_nodes = 0"
    by (simp_all add: joined_nodes_def blank_world_def)
  then have st: "network_step (\<lambda>n. 0) joined_nodes = Some (joined_nodes\<lparr>w_now := 5, w_events := []\<rparr>)"
    by (simp add: network_step_def invoke_event_def NocNetDevice_ProcessBufferedPackets_def joined_devices joined_device_def
        Queue_IsEmpty_def DropTailQueue_new_def)
  show ?thesis by (intro exI conjI, rule run_event [OF run_start st]) simp
qed

theorem network_invariant_witness: "\<exists>w. network_run (\<lambda>n. 0) joined_nodes [] w \<and> w_now w = 5 \<and> net_ok {} w"
  using joined_run network_invariant [OF _ joined_nodes_ok(1)] by (auto simp: joined_nodes_ok)

theorem no_flit_lost_witness:
  "\<exists>w ds. network_run (\<lambda>n. 0) joined_nodes [] w \<and> w_now w = 5 \<and> delivered_uids w = ds \<and> queued_uids w \<union> set ds = {7}"
proof -
  obtain w where w: "network_run (\<lambda>n. 0) joined_nodes [] w" "w_now w = 5" using joined_run by blast
  with no_flit_lost [OF w(1) joined_nodes_ok(1)] show ?thesis by (auto simp: joined_nodes_ok)
qed

end
