(* ===== verification/Noc_Topology.thy ===== *)
theory Noc_Topology
  imports Noc_Links
begin

text \<open>
  How a network is built: \<^verbatim>\<open>Install\<close> of the topologies under \<^verbatim>\<open>src/noc/topology\<close>, with the constructors
  of the routers and \<^verbatim>\<open>Node::AddDevice\<close> as far as the network needs them. An installer is the store
  with the references that the next objects get, and the number that \<^verbatim>\<open>Mac48Address::Allocate\<close> keeps.
  The nodes exist, and \<^verbatim>\<open>NetDevice::Start\<close>, which \<^verbatim>\<open>AddDevice\<close> schedules, does nothing for these
  devices. A loop that steps by zero never ends, which is \<open>None\<close> here.
\<close>

section \<open>Loops\<close>

text \<open>\<^verbatim>\<open>for (i in xs) body (i)\<close>, and \<^verbatim>\<open>for (i = 0; i < n; i = i + step) body (i)\<close>.\<close>

fun for_each :: "('a \<Rightarrow> 's \<Rightarrow> 's option) \<Rightarrow> 'a list \<Rightarrow> 's \<Rightarrow> 's option" where
  "for_each body [] s = Some s"
| "for_each body (x # xs) s = Option.bind (body x s) (for_each body xs)"

partial_function (option) for_step :: "nat \<Rightarrow> nat \<Rightarrow> (nat \<Rightarrow> 's \<Rightarrow> 's option) \<Rightarrow> nat \<Rightarrow> 's \<Rightarrow> 's option" where
  "for_step step n body i s =
     (if i < n then Option.bind (body i s) (for_step step n body (i + step)) else Some s)"

declare for_step.simps [code]

section \<open>Objects\<close>

record installer =
  in_world :: world
  in_nextDevice :: device_ref
  in_nextChannel :: channel_ref
  in_nextRouter :: router_ref
  in_id :: u64

text \<open>The router class that \<^verbatim>\<open>m_routerFactory\<close> creates; the load routers with their component.\<close>

datatype router_kind =
    Kind_FourWay
  | Kind_FourWayLoad load_component
  | Kind_Irvine
  | Kind_IrvineLoad load_component

record topology_factories =
  tf_router :: router_kind
  tf_routingProtocol :: routing_class
  tf_switchingProtocol :: switching_protocol
  tf_channel :: noc_channel
  tf_inQueue :: "packet_ref drop_tail_queue"

text \<open>The bytes of the address are the low 48 bits of the counter.\<close>

definition Mac48Address_Allocate :: "u64 \<Rightarrow> mac48 \<times> u64" where
  "Mac48Address_Allocate i = (let i = i + 1 in (ucast i, i))"

text \<open>\<^verbatim>\<open>CreateObject<NocNetDevice> ()\<close> and \<^verbatim>\<open>SetAddress (Mac48Address::Allocate ())\<close>.\<close>

definition create_device :: "installer \<Rightarrow> device_ref \<times> installer" where
  "create_device st = (let
     d = in_nextDevice st;
     (a, i) = Mac48Address_Allocate (in_id st)
   in (d, st\<lparr>in_world := put_device d (NocNetDevice_SetAddress a NocNetDevice_new) (in_world st),
        in_nextDevice := d + 1, in_id := i\<rparr>))"

definition unlimited_queue :: "packet_ref drop_tail_queue" where
  "unlimited_queue = DropTailQueue_new\<lparr>q_maxPackets := - 1\<rparr>"

definition set_in_queue :: "device_ref \<Rightarrow> packet_ref drop_tail_queue \<Rightarrow> installer \<Rightarrow> installer" where
  "set_in_queue d q st = (let w = in_world st
   in st\<lparr>in_world := put_device d (NocNetDevice_SetInQueue q (w_devices w d)) w\<rparr>)"

definition Node_AddDevice :: "node_ref \<Rightarrow> device_ref \<Rightarrow> world \<Rightarrow> u32 \<times> world" where
  "Node_AddDevice n d w = (let
     index = of_nat (length (n_devices (w_nodes w n)));
     w = put_node n ((w_nodes w n)\<lparr>n_devices := n_devices (w_nodes w n) @ [d]\<rparr>) w
   in (index, put_device d ((w_devices w d)\<lparr>nd_node := Some n, nd_ifIndex := index\<rparr>) w))"

definition add_device :: "node_ref \<Rightarrow> device_ref \<Rightarrow> installer \<Rightarrow> installer" where
  "add_device n d st = st\<lparr>in_world := snd (Node_AddDevice n d (in_world st))\<rparr>"

section \<open>Routers\<close>

definition FourWayRouter_Init :: "installer \<Rightarrow> four_way \<times> installer" where
  "FourWayRouter_Init st = (let
     (i, st) = create_device st; st = set_in_queue i unlimited_queue st;
     (e, st) = create_device st; st = set_in_queue e unlimited_queue st
   in (\<lparr>fw_internalInputDevice = i, fw_internalOutputDevice = e\<rparr>, st))"

text \<open>The three devices of an Irvine router; their queues are made in \<^verbatim>\<open>SetNocNode\<close>.\<close>

definition IrvineRouter_create :: "installer \<Rightarrow> irvine \<times> installer" where
  "IrvineRouter_create st = (let
     (l, st) = create_device st; (r, st) = create_device st; (e, st) = create_device st
   in (IrvineRouter_Init l r e, st))"

definition no_load :: four_way_load where
  "no_load = \<lparr>fwl_northLoad = 0, fwl_eastLoad = 0, fwl_southLoad = 0, fwl_westLoad = 0\<rparr>"

definition no_irvine_load :: irvine_load where
  "no_irvine_load = \<lparr>ivl_northLeftLoad = 0, ivl_northRightLoad = 0, ivl_eastLoad = 0,
     ivl_southLeftLoad = 0, ivl_southRightLoad = 0, ivl_westLoad = 0\<rparr>"

definition NocRouter_new :: "router_class \<Rightarrow> load_component option \<Rightarrow> noc_router" where
  "NocRouter_new c load = \<lparr>r_class = c, r_nocNode = None, r_routingProtocol = None, r_switchingProtocol = None,
     r_devices = [], r_loadComponent = load, r_powerCounter = 0, r_lastClock = 0, r_flitsFromLastClock = [],
     r_arrivedFlits = 0\<rparr>"

definition make_router :: "router_kind \<Rightarrow> installer \<Rightarrow> noc_router \<times> installer" where
  "make_router kind st = (case kind of
     Kind_FourWay \<Rightarrow> (let (f, st) = FourWayRouter_Init st in (NocRouter_new (FourWayRouter f) None, st))
   | Kind_FourWayLoad load \<Rightarrow>
       (let (f, st) = FourWayRouter_Init st in (NocRouter_new (FourWayLoadRouter f no_load) (Some load), st))
   | Kind_Irvine \<Rightarrow> (let (v, st) = IrvineRouter_create st in (NocRouter_new (IrvineRouter v) None, st))
   | Kind_IrvineLoad load \<Rightarrow>
       (let (v, st) = IrvineRouter_create st in (NocRouter_new (IrvineLoadRouter v no_irvine_load) (Some load), st)))"

definition create_router :: "router_kind \<Rightarrow> installer \<Rightarrow> router_ref \<times> installer" where
  "create_router kind st = (let
     (x, st) = make_router kind st;
     r = in_nextRouter st
   in (r, st\<lparr>in_world := put_router r x (in_world st), in_nextRouter := r + 1\<rparr>))"

definition NocRouter_SetNocNode :: "router_ref \<Rightarrow> node_ref \<Rightarrow> installer \<Rightarrow> installer" where
  "NocRouter_SetNocNode r n st = (let w = in_world st
   in st\<lparr>in_world := put_router r ((w_routers w r)\<lparr>r_nocNode := Some n\<rparr>) w\<rparr>)"

definition FourWayRouter_SetNocNode :: "four_way \<Rightarrow> router_ref \<Rightarrow> node_ref \<Rightarrow> installer \<Rightarrow> installer" where
  "FourWayRouter_SetNocNode f r n st =
     add_device n (fw_internalOutputDevice f) (add_device n (fw_internalInputDevice f) (NocRouter_SetNocNode r n st))"

definition IrvineRouter_SetNocNode :: "irvine \<Rightarrow> router_ref \<Rightarrow> node_ref \<Rightarrow> installer \<Rightarrow> installer" where
  "IrvineRouter_SetNocNode v r n st = (let
     st = NocRouter_SetNocNode r n st;
     st = add_device n (iv_internalLeftInputDevice v) (set_in_queue (iv_internalLeftInputDevice v) unlimited_queue st);
     st = add_device n (iv_internalRightInputDevice v) (set_in_queue (iv_internalRightInputDevice v) unlimited_queue st)
   in add_device n (iv_internalOutputDevice v) (set_in_queue (iv_internalOutputDevice v) unlimited_queue st))"

definition router_SetNocNode :: "router_ref \<Rightarrow> node_ref \<Rightarrow> installer \<Rightarrow> installer" where
  "router_SetNocNode r n st = (case r_class (w_routers (in_world st) r) of
     FourWayRouter f \<Rightarrow> FourWayRouter_SetNocNode f r n st
   | FourWayLoadRouter f l \<Rightarrow> FourWayRouter_SetNocNode f r n st
   | IrvineRouter v \<Rightarrow> IrvineRouter_SetNocNode v r n st
   | IrvineLoadRouter v l \<Rightarrow> IrvineRouter_SetNocNode v r n st)"

definition NocRoutingProtocol_new :: routing_base where
  "NocRoutingProtocol_new = \<lparr>rp_packetSourceNetDevices = Map.empty, rp_packetDestinationNetDevices = Map.empty,
     rp_sourceNetDevice = None, rp_destinationNetDevice = None\<rparr>"

text \<open>The first loop of every \<^verbatim>\<open>Install\<close>.\<close>

definition install_router :: "topology_factories \<Rightarrow> node_ref \<Rightarrow> installer \<Rightarrow> installer option" where
  "install_router tf n st =
     (if n_router (w_nodes (in_world st) n) = None then do {
        let (r, st) = create_router (tf_router tf) st;
        let st = router_SetNocNode r n st;
        w \<leftarrow> NocNode_SetRouter n r (in_world st);
        Some (st\<lparr>in_world := put_router r ((w_routers w r)\<lparr>
          r_routingProtocol := Some (tf_routingProtocol tf, NocRoutingProtocol_new),
          r_switchingProtocol := Some (tf_switchingProtocol tf)\<rparr>) w\<rparr>)
      }
      else Some st)"

section \<open>Channels and their net devices\<close>

definition create_channel :: "topology_factories \<Rightarrow> installer \<Rightarrow> channel_ref \<times> installer" where
  "create_channel tf st = (let c = in_nextChannel st
   in (c, st\<lparr>in_world := put_channel c (tf_channel tf) (in_world st), in_nextChannel := c + 1\<rparr>))"

text \<open>The lines that recur in every \<^verbatim>\<open>Install\<close>: a net device of the node on the channel.\<close>

definition attach ::
    "topology_factories \<Rightarrow> node_ref \<Rightarrow> channel_ref \<Rightarrow> int \<Rightarrow> u32 \<Rightarrow> installer \<Rightarrow> installer option" where
  "attach tf n c direction dimension st = do {
     let (d, st) = create_device st;
     w \<leftarrow> NocNetDevice_SetChannel c d (in_world st);
     let w = put_device d (NocNetDevice_SetRoutingDirection direction dimension (w_devices w d)) w;
     let w = w\<lparr>w_topology := w_topology w @ [d]\<rparr>;
     let w = put_device d (NocNetDevice_SetInQueue (tf_inQueue tf) (w_devices w d)) w;
     let w = snd (Node_AddDevice n d w);
     r \<leftarrow> n_router (w_nodes w n);
     (_, x) \<leftarrow> router_AddDevice (w_devices w d) d (w_routers w r);
     Some (st\<lparr>in_world := put_router r x w\<rparr>)
   }"

definition attach_if ::
    "topology_factories \<Rightarrow> node_ref \<Rightarrow> channel_ref option \<Rightarrow> int \<Rightarrow> u32 \<Rightarrow> installer \<Rightarrow> installer option" where
  "attach_if tf n c direction dimension st =
     (case c of None \<Rightarrow> Some st | Some c \<Rightarrow> attach tf n c direction dimension st)"

text \<open>A node in a line of nodes: the device at the channel that the node before it left in its slot, and a
  new channel if the line goes on.\<close>

definition line_node ::
    "topology_factories \<Rightarrow> int \<Rightarrow> int \<Rightarrow> u32 \<Rightarrow> node_ref list \<Rightarrow> nat \<Rightarrow> nat \<Rightarrow> bool \<Rightarrow>
       channel_ref option list \<times> installer \<Rightarrow> (channel_ref option list \<times> installer) option" where
  "line_node tf incoming outgoing dimension nodes i j goes_on s = (case s of (slots, st) \<Rightarrow> do {
     n \<leftarrow> vec_at nodes i;
     channel \<leftarrow> vec_at slots j;
     st \<leftarrow> attach_if tf n channel incoming dimension st;
     if goes_on then do {
       let (c, st) = create_channel tf st;
       st \<leftarrow> attach tf n c outgoing dimension st;
       Some (slots[j := Some c], st)
     }
     else Some (slots[j := None], st)
   })"

text \<open>A node in a ring: as in a line, and the first node of the ring opens the channel that the last one
  closes.\<close>

definition ring_node ::
    "topology_factories \<Rightarrow> u32 \<Rightarrow> node_ref list \<Rightarrow> nat \<Rightarrow> nat \<Rightarrow> bool \<Rightarrow> bool \<Rightarrow> bool \<Rightarrow>
       channel_ref option list \<times> channel_ref option list \<times> installer \<Rightarrow>
       (channel_ref option list \<times> channel_ref option list \<times> installer) option" where
  "ring_node tf dimension nodes i j goes_on first final s = (case s of (slots, torus, st) \<Rightarrow> do {
     n \<leftarrow> vec_at nodes i;
     (slots, st) \<leftarrow> line_node tf dir_BACK dir_FORWARD dimension nodes i j goes_on (slots, st);
     (torus, st) \<leftarrow>
       (if first then do {
          let (c, st) = create_channel tf st;
          st \<leftarrow> attach tf n c dir_BACK dimension st;
          torus \<leftarrow> vec_set torus j (Some c);
          Some (torus, st)
        }
        else Some (torus, st));
     st \<leftarrow>
       (if final then do {
          channel \<leftarrow> vec_at torus j;
          c \<leftarrow> channel;
          attach tf n c dir_FORWARD dimension st
        }
        else Some st);
     Some (slots, torus, st)
   })"

section \<open>Meshes\<close>

text \<open>\<^verbatim>\<open>m_size\<close> is the vector of the numbers of nodes per dimension. The product may wrap.\<close>

fun NocMeshND_GetNumberOfNodes :: "u32 list \<Rightarrow> nat \<Rightarrow> u32 option" where
  "NocMeshND_GetNumberOfNodes sizes 0 = Some 1"
| "NocMeshND_GetNumberOfNodes sizes (Suc k) = do {
     n \<leftarrow> NocMeshND_GetNumberOfNodes sizes k;
     m \<leftarrow> vec_at sizes k;
     Some (n * m)
   }"

definition install_dimension ::
    "topology_factories \<Rightarrow> u32 list \<Rightarrow> node_ref list \<Rightarrow> nat \<Rightarrow> installer \<Rightarrow> installer option" where
  "install_dimension tf sizes nodes k st = do {
     stride \<leftarrow> NocMeshND_GetNumberOfNodes sizes k;
     span \<leftarrow> NocMeshND_GetNumberOfNodes sizes (k + 1);
     let slots = replicate (unat stride) None;
     (_, st) \<leftarrow> for_step (unat stride) (length nodes) (\<lambda>i. for_each (\<lambda>j s. do {
         _ \<leftarrow> ns_assert (span \<noteq> 0);
         line_node tf dir_BACK dir_FORWARD (of_nat k) nodes (i + j) j (of_nat (i + j) mod span < span - stride) s
       }) [0 ..< unat stride]) 0 (slots, st);
     Some st
   }"

definition NocMeshND_Install ::
    "topology_factories \<Rightarrow> u32 list \<Rightarrow> node_ref list \<Rightarrow> installer \<Rightarrow> installer option" where
  "NocMeshND_Install tf sizes nodes st = do {
     st \<leftarrow> for_each (install_router tf) nodes st;
     for_each (install_dimension tf sizes nodes) [0 ..< length sizes] st
   }"

text \<open>The horizontal lines of the meshes with fixed dimensions. The one slot is the local \<^verbatim>\<open>channel\<close>.\<close>

definition horizontal_lines ::
    "topology_factories \<Rightarrow> u32 \<Rightarrow> node_ref list \<Rightarrow> installer \<Rightarrow> installer option" where
  "horizontal_lines tf hSize nodes st = do {
     (_, st) \<leftarrow> for_each (\<lambda>i s. do {
         _ \<leftarrow> ns_assert (i = 0 \<or> hSize \<noteq> 0);
         line_node tf dir_BACK dir_FORWARD 0 nodes i 0 (i = 0 \<or> of_nat (i + 1) mod hSize \<noteq> 0) s
       }) [0 ..< length nodes] ([None], st);
     Some st
   }"

text \<open>The columns: in a mesh of two dimensions up to the last line of nodes, in one of three up to the last
  line of each layer.\<close>

definition columns ::
    "topology_factories \<Rightarrow> u32 \<Rightarrow> (nat \<Rightarrow> bool option) \<Rightarrow> u32 \<Rightarrow> node_ref list \<Rightarrow> installer \<Rightarrow> installer option" where
  "columns tf dimension goes_on step nodes st = do {
     (_, st) \<leftarrow> for_step (unat step) (length nodes) (\<lambda>i. for_each (\<lambda>j s. do {
         b \<leftarrow> goes_on i;
         line_node tf dir_BACK dir_FORWARD dimension nodes (i + j) j b s
       }) [0 ..< unat step]) 0 (replicate (unat step) None, st);
     Some st
   }"

definition NocMesh2D_Install ::
    "topology_factories \<Rightarrow> u8 \<Rightarrow> node_ref list \<Rightarrow> installer \<Rightarrow> installer option" where
  "NocMesh2D_Install tf hSize nodes st = do {
     st \<leftarrow> for_each (install_router tf) nodes st;
     st \<leftarrow> horizontal_lines tf (ucast hSize) nodes st;
     columns tf 1 (\<lambda>i. Some (of_nat i < (of_nat (length nodes) - ucast hSize :: u32))) (ucast hSize) nodes st
   }"

definition NocMesh3D_Install ::
    "topology_factories \<Rightarrow> u32 \<Rightarrow> u32 \<Rightarrow> node_ref list \<Rightarrow> installer \<Rightarrow> installer option" where
  "NocMesh3D_Install tf hSize vSize nodes st = do {
     let numberOfNodesXY = hSize * vSize;
     st \<leftarrow> for_each (install_router tf) nodes st;
     st \<leftarrow> horizontal_lines tf hSize nodes st;
     st \<leftarrow> columns tf 1 (\<lambda>i. do {
         _ \<leftarrow> ns_assert (numberOfNodesXY \<noteq> 0);
         Some (of_nat i mod numberOfNodesXY < numberOfNodesXY - hSize)
       }) hSize nodes st;
     columns tf 2 (\<lambda>i. Some (of_nat i < of_nat (length nodes) - numberOfNodesXY)) numberOfNodesXY nodes st
   }"

text \<open>The Irvine mesh has two channels between vertical neighbours. Its vertical devices face the other way:
  the one that leads to the next line of nodes is the \<^verbatim>\<open>BACK\<close> one.\<close>

definition NocIrvineMesh2D_Install ::
    "topology_factories \<Rightarrow> int \<Rightarrow> node_ref list \<Rightarrow> installer \<Rightarrow> installer option" where
  "NocIrvineMesh2D_Install tf hSize nodes st = do {
     st \<leftarrow> for_each (install_router tf) nodes st;
     st \<leftarrow> horizontal_lines tf (word_of_int hSize) nodes st;
     let step = nat hSize;
     (_, st) \<leftarrow> for_step step (length nodes) (\<lambda>i. for_each (\<lambda>j s.
         line_node tf dir_FORWARD dir_BACK 1 nodes (i + j mod step) j
           (of_nat i < (of_nat (length nodes) - word_of_int hSize :: u32)) s)
       [0 ..< 2 * step]) 0 (replicate (2 * step) None, st);
     Some st
   }"

section \<open>Tori\<close>

definition NocTorusND_GetNumberOfNodes :: "u32 list \<Rightarrow> nat \<Rightarrow> u32 option" where
  "NocTorusND_GetNumberOfNodes = NocMeshND_GetNumberOfNodes"

definition install_torus_dimension ::
    "topology_factories \<Rightarrow> u32 list \<Rightarrow> node_ref list \<Rightarrow> nat \<Rightarrow> installer \<Rightarrow> installer option" where
  "install_torus_dimension tf sizes nodes k st = do {
     stride \<leftarrow> NocTorusND_GetNumberOfNodes sizes k;
     span \<leftarrow> NocTorusND_GetNumberOfNodes sizes (k + 1);
     let slots = replicate (unat stride) None;
     (_, _, st) \<leftarrow> for_step (unat stride) (length nodes) (\<lambda>i. for_each (\<lambda>j s. do {
         _ \<leftarrow> ns_assert (span \<noteq> 0);
         let x = of_nat (i + j) mod span;
         ring_node tf (of_nat k) nodes (i + j) j (x < span - stride) (x < stride) (x \<ge> span - stride) s
       }) [0 ..< unat stride]) 0 (slots, slots, st);
     Some st
   }"

definition NocTorusND_Install ::
    "topology_factories \<Rightarrow> u32 list \<Rightarrow> node_ref list \<Rightarrow> installer \<Rightarrow> installer option" where
  "NocTorusND_Install tf sizes nodes st = do {
     st \<leftarrow> for_each (install_router tf) nodes st;
     for_each (install_torus_dimension tf sizes nodes) [0 ..< length sizes] st
   }"

definition horizontal_rings ::
    "topology_factories \<Rightarrow> u32 \<Rightarrow> node_ref list \<Rightarrow> installer \<Rightarrow> installer option" where
  "horizontal_rings tf hSize nodes st = do {
     (_, _, st) \<leftarrow> for_each (\<lambda>i s. do {
         _ \<leftarrow> ns_assert (hSize \<noteq> 0);
         ring_node tf 0 nodes i 0 (i = 0 \<or> of_nat (i + 1) mod hSize \<noteq> 0)
           (i = 0 \<or> of_nat i mod hSize = 0) (of_nat (i + 1) mod hSize = 0) s
       }) [0 ..< length nodes] ([None], [None], st);
     Some st
   }"

definition column_rings ::
    "topology_factories \<Rightarrow> u32 \<Rightarrow> (nat \<Rightarrow> (bool \<times> bool \<times> bool) option) \<Rightarrow> u32 \<Rightarrow> node_ref list \<Rightarrow> installer \<Rightarrow>
       installer option" where
  "column_rings tf dimension position step nodes st = do {
     let slots = replicate (unat step) None;
     (_, _, st) \<leftarrow> for_step (unat step) (length nodes) (\<lambda>i. for_each (\<lambda>j s. do {
         (goes_on, first, final) \<leftarrow> position i;
         ring_node tf dimension nodes (i + j) j goes_on first final s
       }) [0 ..< unat step]) 0 (slots, slots, st);
     Some st
   }"

definition NocTorus2D_Install ::
    "topology_factories \<Rightarrow> u32 \<Rightarrow> node_ref list \<Rightarrow> installer \<Rightarrow> installer option" where
  "NocTorus2D_Install tf hSize nodes st = do {
     st \<leftarrow> for_each (install_router tf) nodes st;
     st \<leftarrow> horizontal_rings tf hSize nodes st;
     let final = of_nat (length nodes) - hSize;
     column_rings tf 1 (\<lambda>i. Some (of_nat i < final, of_nat i < hSize, of_nat i \<ge> final)) hSize nodes st
   }"

definition NocTorus3D_Install ::
    "topology_factories \<Rightarrow> u32 \<Rightarrow> u32 \<Rightarrow> node_ref list \<Rightarrow> installer \<Rightarrow> installer option" where
  "NocTorus3D_Install tf hSize vSize nodes st = do {
     let numberOfNodesXY = hSize * vSize;
     st \<leftarrow> for_each (install_router tf) nodes st;
     st \<leftarrow> horizontal_rings tf hSize nodes st;
     st \<leftarrow> column_rings tf 1 (\<lambda>i. do {
         _ \<leftarrow> ns_assert (numberOfNodesXY \<noteq> 0);
         let x = of_nat i mod numberOfNodesXY;
         Some (x < numberOfNodesXY - hSize, x < hSize, x \<ge> numberOfNodesXY - hSize)
       }) hSize nodes st;
     let final = of_nat (length nodes) - numberOfNodesXY;
     column_rings tf 2 (\<lambda>i. Some (of_nat i < final, of_nat i < numberOfNodesXY, of_nat i \<ge> final))
       numberOfNodesXY nodes st
   }"

end
