(* ===== verification/Noc_Installed.thy ===== *)
theory Noc_Installed
  imports Noc_Topology
begin

text \<open>
  What \<^verbatim>\<open>Install\<close> builds. The first part is the invariant of the store while it is built; the second follows
  the ends of the channels, a list per channel, through the loops over the nodes.
\<close>

section \<open>Loops\<close>

lemma for_each_append: "for_each body (xs @ ys) s = Option.bind (for_each body xs s) (for_each body ys)"
  by (induction xs arbitrary: s) (auto split: bind_splits)

lemma for_each_inv:
  assumes "for_each body [0 ..< n] s = Some s'" "I 0 s"
    and "\<And>i s s'. i < n \<Longrightarrow> I i s \<Longrightarrow> body i s = Some s' \<Longrightarrow> I (Suc i) s'"
  shows "I n s'"
  using assms
proof (induction n arbitrary: s')
  case (Suc n)
  then obtain s1 where s1: "for_each body [0 ..< n] s = Some s1" "body n s1 = Some s'"
    by (auto simp: for_each_append Option.bind_eq_Some_conv)
  have "I n s1" using Suc.IH [OF s1(1) Suc.prems(2)] Suc.prems(3) less_SucI by blast
  then show ?case using Suc.prems(3) s1(2) by blast
qed simp

lemma for_each_keeps:
  assumes "for_each body xs s = Some s'" "P s" "\<And>x s s'. x \<in> set xs \<Longrightarrow> P s \<Longrightarrow> body x s = Some s' \<Longrightarrow> P s'"
  shows "P s'"
  using assms by (induction xs arbitrary: s) (auto simp: Option.bind_eq_Some_conv)

lemma for_each_counts:
  assumes "for_each body xs s = Some s'" "\<And>x s s'. body x s = Some s' \<Longrightarrow> f s' \<le> f s + (b :: nat)"
  shows "f s' \<le> f s + length xs * b"
  using assms(1)
proof (induction xs arbitrary: s)
  case (Cons x xs)
  then obtain s1 where "body x s = Some s1" "for_each body xs s1 = Some s'" by (auto simp: Option.bind_eq_Some_conv)
  with Cons.IH [of s1] assms(2) [of x s s1] show ?case by simp
qed simp

lemma for_each_cong: "(\<And>x s. x \<in> set xs \<Longrightarrow> f x s = g x s) \<Longrightarrow> for_each f xs s = for_each g xs s"
  by (induction xs arbitrary: s) (simp_all cong: Option.bind_cong)

lemma for_each_map: "for_each body (map f xs) s = for_each (body \<circ> f) xs s"
  by (induction xs arbitrary: s) (simp_all cong: Option.bind_cong)

text \<open>A loop over lines of nodes is a loop over the nodes.\<close>

lemma for_step_lines:
  assumes "0 < step"
  shows "for_step step (i + m * step) (\<lambda>i. for_each (body i) [0 ..< step]) i s =
    for_each (\<lambda>n. body (n - (n - i) mod step) ((n - i) mod step)) [i ..< i + m * step] s"
proof (induction m arbitrary: i s)
  case 0
  then show ?case by (simp add: for_step.simps)
next
  case (Suc m)
  have split: "[i ..< i + Suc m * step] = map (\<lambda>j. i + j) [0 ..< step] @ [i + step ..< i + step + m * step]"
  proof -
    have "[i ..< i + Suc m * step] = [i ..< i + step] @ [i + step ..< i + step + m * step]"
      using upt_add_eq_append [of i "i + step" "m * step"] by (simp add: add_ac)
    then show ?thesis using map_add_upt [of i step] by (simp add: add.commute)
  qed
  have first: "for_each (\<lambda>n. body (n - (n - i) mod step) ((n - i) mod step)) (map (\<lambda>j. i + j) [0 ..< step]) s =
      for_each (body i) [0 ..< step] s" for s
    unfolding for_each_map by (rule for_each_cong) simp
  have shift: "for_each (\<lambda>n. body (n - (n - i) mod step) ((n - i) mod step)) [i + step ..< i + step + m * step] s =
      for_each (\<lambda>n. body (n - (n - (i + step)) mod step) ((n - (i + step)) mod step)) [i + step ..< i + step + m * step] s" for s
  proof (rule for_each_cong)
    fix n s assume "n \<in> set [i + step ..< i + step + m * step]"
    then have "n - i = (n - (i + step)) + step" by simp
    then have "(n - i) mod step = (n - (i + step)) mod step" by (metis mod_add_self2)
    then show "body (n - (n - i) mod step) ((n - i) mod step) s =
        body (n - (n - (i + step)) mod step) ((n - (i + step)) mod step) s" by simp
  qed
  have "for_step step (i + Suc m * step) (\<lambda>i. for_each (body i) [0 ..< step]) i s =
      Option.bind (for_each (body i) [0 ..< step] s)
        (for_step step (i + step + m * step) (\<lambda>i. for_each (body i) [0 ..< step]) (i + step))"
    using assms by (subst for_step.simps) (simp add: add_ac)
  then show ?case unfolding split for_each_append first shift by (simp add: Suc.IH cong: Option.bind_cong)
qed

corollary for_step_all:
  assumes "0 < step" "step dvd n"
  shows "for_step step n (\<lambda>i. for_each (body i) [0 ..< step]) 0 s =
    for_each (\<lambda>n. body (n - n mod step) (n mod step)) [0 ..< n] s"
proof -
  obtain m where "n = m * step" using assms(2) by (metis dvd_def mult.commute)
  then show ?thesis using for_step_lines [OF assms(1), of 0 m body s] by simp
qed

section \<open>The store while it is built\<close>

definition idle_channel :: "noc_channel \<Rightarrow> bool" where
  "idle_channel ch \<longleftrightarrow> c_state ch = [IDLE, IDLE] \<and> c_packetOriginalDevice ch = [Map.empty, Map.empty] \<and>
     length (c_currentPkt ch) = 2 \<and> length (c_currentDestDevice ch) = 2"

definition empty_queue :: "packet_ref drop_tail_queue \<Rightarrow> bool" where
  "empty_queue q \<longleftrightarrow> queue_ok q \<and> q_packets q = []"

definition holds_nothing :: "net_device \<Rightarrow> bool" where
  "holds_nothing x \<longleftrightarrow> nd_pktSrcDestMap x = Map.empty \<and> (\<forall>q. nd_inQueue x = Some q \<longrightarrow> empty_queue q)"

text \<open>The channels and devices of a store without flits; the devices from \<open>d0\<close> on were made by the installer,
  in the order of their addresses.\<close>

definition store_ok :: "device_ref \<Rightarrow> mac48 \<Rightarrow> installer \<Rightarrow> bool" where
  "store_ok d0 base st \<longleftrightarrow> (let w = in_world st in
     d0 \<le> in_nextDevice st \<and> w_events w = [] \<and>
     (\<forall>c. idle_channel (w_channels w c)) \<and> (\<forall>c \<ge> in_nextChannel st. devices_of w c = []) \<and>
     (\<forall>c. distinct (devices_of w c)) \<and>
     (\<forall>d. holds_nothing (w_devices w d)) \<and>
     (\<forall>d. d < d0 \<or> in_nextDevice st \<le> d \<longrightarrow> nd_channel (w_devices w d) = None) \<and>
     (\<forall>c d. d \<in> set (devices_of w c) \<longrightarrow> nd_channel (w_devices w d) = Some c) \<and>
     (\<forall>c d. nd_channel (w_devices w d) = Some c \<longrightarrow>
        index_of d (devices_of w c) = Some (unat (nd_deviceId (w_devices w d)))) \<and>
     (\<forall>d. d0 \<le> d \<longrightarrow> d < in_nextDevice st \<longrightarrow> nd_address (w_devices w d) = base + of_nat d) \<and>
     ucast (in_id st) + 1 = base + of_nat (in_nextDevice st))"

lemma unlimited_queue_empty [simp]: "empty_queue unlimited_queue"
  by (simp add: empty_queue_def queue_ok_def unlimited_queue_def DropTailQueue_new_def)

lemma store_device:
  assumes "store_ok d0 base st" "x = put_device d y (in_world st)" "holds_nothing y"
    "nd_channel y = nd_channel (w_devices (in_world st) d)" "nd_deviceId y = nd_deviceId (w_devices (in_world st) d)"
    "nd_address y = nd_address (w_devices (in_world st) d)"
  shows "store_ok d0 base (st\<lparr>in_world := x\<rparr>)"
  using assms(1,3-6) unfolding store_ok_def assms(2) Let_def by simp

lemma store_elsewhere:
  assumes "store_ok d0 base st" "w_devices x = w_devices (in_world st)" "w_channels x = w_channels (in_world st)"
    "w_events x = w_events (in_world st)"
  shows "store_ok d0 base (st\<lparr>in_world := x\<rparr>)"
  using assms unfolding store_ok_def Let_def by simp

lemma store_index:
  "store_ok d0 base st \<Longrightarrow> nd_channel (w_devices (in_world st) d) = Some c \<Longrightarrow>
     index_of d (devices_of (in_world st) c) = Some (unat (nd_deviceId (w_devices (in_world st) d)))"
  "store_ok d0 base st \<Longrightarrow> in_nextChannel st \<le> c \<Longrightarrow> devices_of (in_world st) c = []"
  by (simp_all add: store_ok_def Let_def)

lemma store_holds: "store_ok d0 base st \<Longrightarrow> holds_nothing (w_devices (in_world st) d)"
  by (simp add: store_ok_def Let_def)

lemma set_in_queue_ok: "store_ok d0 base st \<Longrightarrow> empty_queue q \<Longrightarrow> store_ok d0 base (set_in_queue d q st)"
  unfolding set_in_queue_def Let_def
  by (rule store_device [OF _ refl]) (use store_holds [of d0 base st d] in \<open>simp_all add: NocNetDevice_SetInQueue_def holds_nothing_def\<close>)

lemma add_device_ok:
  assumes "store_ok d0 base st"
  shows "store_ok d0 base (add_device n d st)"
proof -
  define w where "w = put_node n ((w_nodes (in_world st) n)\<lparr>n_devices := n_devices (w_nodes (in_world st) n) @ [d]\<rparr>) (in_world st)"
  define y where "y = (w_devices (in_world st) d)\<lparr>nd_node := Some n, nd_ifIndex := of_nat (length (n_devices (w_nodes (in_world st) n)))\<rparr>"
  have "store_ok d0 base (st\<lparr>in_world := w\<rparr>)" by (rule store_elsewhere [OF assms]) (simp_all add: w_def)
  moreover have "holds_nothing y" using store_holds [OF assms, of d] by (simp add: y_def holds_nothing_def)
  moreover have "w_devices w = w_devices (in_world st)" by (simp add: w_def)
  ultimately have "store_ok d0 base (st\<lparr>in_world := w\<rparr>\<lparr>in_world := put_device d y w\<rparr>)"
    by (intro store_device [where st = "st\<lparr>in_world := w\<rparr>" and d = d and y = y]) (simp_all add: y_def)
  then show ?thesis by (simp add: add_device_def Node_AddDevice_def Let_def w_def y_def)
qed

lemma ucast_Suc: "ucast (x + 1 :: u64) = (ucast x + 1 :: mac48)"
proof -
  have "uint (x + 1) = take_bit 64 (uint x + 1)" by (simp add: uint_word_ariths take_bit_eq_mod)
  then have "take_bit 48 (uint (x + 1)) = take_bit 48 (uint x + 1)" by simp
  then have "(word_of_int (uint (x + 1)) :: mac48) = word_of_int (uint x + 1)"
    unfolding word_of_int_eq_iff by simp
  then show ?thesis by simp
qed

lemma create_device_ok:
  assumes "store_ok d0 base st" "create_device st = (d, st')"
  shows "store_ok d0 base st' \<and> d = in_nextDevice st \<and> in_nextDevice st' = d + 1 \<and>
    in_world st' = put_device d (NocNetDevice_SetAddress (base + of_nat d) NocNetDevice_new) (in_world st) \<and>
    in_nextChannel st' = in_nextChannel st"
proof -
  let ?w = "in_world st"
  let ?d = "in_nextDevice st"
  have "ucast (in_id st) + 1 = base + of_nat ?d" using assms(1) by (simp add: store_ok_def Let_def)
  then have a: "ucast (in_id st + 1) = base + of_nat ?d" by (simp add: ucast_Suc)
  have st': "d = ?d" "st' = st\<lparr>in_world := put_device ?d (NocNetDevice_SetAddress (base + of_nat ?d) NocNetDevice_new) ?w,
      in_nextDevice := ?d + 1, in_id := in_id st + 1\<rparr>"
    using assms(2) by (auto simp: create_device_def Mac48Address_Allocate_def Let_def a)
  have no: "?d \<notin> set (devices_of ?w c)" for c using assms(1) by (force simp: store_ok_def Let_def)
  have new: "nd_channel (NocNetDevice_SetAddress b NocNetDevice_new) = None" "holds_nothing (NocNetDevice_SetAddress b NocNetDevice_new)"
    "nd_address (NocNetDevice_SetAddress b NocNetDevice_new) = b" for b
    by (simp_all add: NocNetDevice_SetAddress_def NocNetDevice_new_def holds_nothing_def)
  have "store_ok d0 base st'"
    unfolding store_ok_def Let_def
  proof (intro conjI allI impI)
    show "ucast (in_id st') + 1 = base + of_nat (in_nextDevice st')" by (simp add: st' a)
    show "nd_address (w_devices (in_world st') e) = base + of_nat e" if "d0 \<le> e" "e < in_nextDevice st'" for e
      using assms(1) that by (auto simp: st' new store_ok_def Let_def)
  qed (use assms(1) no in \<open>auto simp: st' new store_ok_def Let_def\<close>)
  then show ?thesis by (simp add: st')
qed

lemma create_device_store: "store_ok d0 base st \<Longrightarrow> store_ok d0 base (snd (create_device st))"
  using create_device_ok [of d0 base st "fst (create_device st)" "snd (create_device st)"] by simp

lemma create_channel_ok:
  assumes "store_ok d0 base st" "idle_channel (tf_channel tf)" "c_devices (tf_channel tf) = []" "create_channel tf st = (c, st')"
  shows "store_ok d0 base st' \<and> c = in_nextChannel st \<and> in_nextChannel st' = c + 1 \<and> in_nextDevice st' = in_nextDevice st \<and>
    in_world st' = put_channel c (tf_channel tf) (in_world st)"
proof -
  let ?w = "in_world st"
  have st': "c = in_nextChannel st" "st' = st\<lparr>in_world := put_channel c (tf_channel tf) ?w, in_nextChannel := c + 1\<rparr>"
    using assms(4) by (auto simp: create_channel_def Let_def)
  have none: "nd_channel (w_devices ?w d) \<noteq> Some c" for d
    using store_index(1) [OF assms(1), of d c] store_index(2) [OF assms(1), of c] st'(1) by auto
  have "store_ok d0 base st'"
    unfolding store_ok_def Let_def
  proof (intro conjI allI impI)
    fix c' d
    show "nd_channel (w_devices (in_world st') d) = Some c'" if "d \<in> set (devices_of (in_world st') c')"
      using assms(1,3) that by (cases "c' = c") (simp_all add: st'(2) store_ok_def Let_def)
    show "index_of d (devices_of (in_world st') c') = Some (unat (nd_deviceId (w_devices (in_world st') d)))"
      if "nd_channel (w_devices (in_world st') d) = Some c'"
      using assms(1) that none by (cases "c' = c") (simp_all add: st'(2) store_ok_def Let_def)
    show "nd_channel (w_devices (in_world st') d) = None" if "d < d0 \<or> in_nextDevice st' \<le> d"
      using assms(1) that by (auto simp: st' store_ok_def Let_def)
  qed (use assms(1-3) in \<open>simp_all add: st' store_ok_def Let_def\<close>)
  then show ?thesis by (simp add: st')
qed

section \<open>The ends of the channels\<close>

text \<open>The node, the direction and the dimension of every device of a channel.\<close>

type_synonym channel_end = "node_ref option \<times> int \<times> int"

definition end_of :: "net_device \<Rightarrow> channel_end" where
  "end_of x = (nd_node x, nd_routingDirection x, nd_routingDimension x)"

definition ends :: "installer \<Rightarrow> channel_ref \<Rightarrow> channel_end list" where
  "ends st c = map (\<lambda>d. end_of (w_devices (in_world st) d)) (devices_of (in_world st) c)"

text \<open>Steps that make or change objects without a channel.\<close>

definition grows :: "device_ref \<Rightarrow> mac48 \<Rightarrow> installer \<Rightarrow> installer \<Rightarrow> bool" where
  "grows d0 base st st' \<longleftrightarrow> store_ok d0 base st' \<and> ends st' = ends st \<and> in_nextChannel st' = in_nextChannel st \<and>
     (\<forall>d < in_nextDevice st. nd_channel (w_devices (in_world st') d) = nd_channel (w_devices (in_world st) d)) \<and>
     in_nextDevice st \<le> in_nextDevice st'"

lemma grows_refl: "store_ok d0 base st \<Longrightarrow> grows d0 base st st"
  by (simp add: grows_def)

lemma grows_trans: "grows d0 base a b \<Longrightarrow> grows d0 base b c \<Longrightarrow> grows d0 base a c"
  unfolding grows_def by (metis less_le_trans order_trans)

lemma store_device_channel: "store_ok d0 base st \<Longrightarrow> d \<in> set (devices_of (in_world st) c) \<Longrightarrow> nd_channel (w_devices (in_world st) d) = Some c"
  by (simp add: store_ok_def Let_def)

lemma store_new_device: "store_ok d0 base st \<Longrightarrow> in_nextDevice st \<le> d \<Longrightarrow> nd_channel (w_devices (in_world st) d) = None"
  by (simp add: store_ok_def Let_def)

lemma store_bound: "store_ok d0 base st \<Longrightarrow> d0 \<le> in_nextDevice st"
  by (simp add: store_ok_def Let_def)

lemma ends_put_device:
  assumes "store_ok d0 base st" "in_world st' = put_device d x (in_world st)"
    "nd_channel (w_devices (in_world st) d) = None \<or> end_of x = end_of (w_devices (in_world st) d)"
  shows "ends st' = ends st"
proof
  fix c
  have "end_of (w_devices (in_world st') e) = end_of (w_devices (in_world st) e)" if "e \<in> set (devices_of (in_world st) c)" for e
    using assms(2,3) store_device_channel [OF assms(1) that] by auto
  then show "ends st' c = ends st c" using assms(2) by (simp add: ends_def)
qed

lemma create_device_grows:
  assumes "store_ok d0 base st" "create_device st = (d, st')"
  shows "grows d0 base st st' \<and> d = in_nextDevice st \<and> in_nextDevice st' = Suc d \<and> nd_channel (w_devices (in_world st') d) = None"
proof -
  note c = create_device_ok [OF assms]
  then have "ends st' = ends st"
    using store_new_device [OF assms(1)] by (intro ends_put_device [OF assms(1)]) auto
  then show ?thesis using c by (simp add: grows_def NocNetDevice_SetAddress_def NocNetDevice_new_def)
qed

lemma set_in_queue_grows: "store_ok d0 base st \<Longrightarrow> empty_queue q \<Longrightarrow> grows d0 base st (set_in_queue d q st)"
proof -
  assume s: "store_ok d0 base st" "empty_queue q"
  have "ends (set_in_queue d q st) = ends st"
    by (rule ends_put_device [OF s(1), where d = d and x = "NocNetDevice_SetInQueue q (w_devices (in_world st) d)"])
      (simp_all add: set_in_queue_def Let_def end_of_def NocNetDevice_SetInQueue_def)
  with set_in_queue_ok [OF s] show ?thesis by (simp add: grows_def set_in_queue_def Let_def NocNetDevice_SetInQueue_def)
qed

lemma add_device_grows:
  assumes "store_ok d0 base st" "nd_channel (w_devices (in_world st) d) = None"
  shows "grows d0 base st (add_device n d st)"
proof -
  let ?st = "st\<lparr>in_world := put_node n ((w_nodes (in_world st) n)\<lparr>n_devices := n_devices (w_nodes (in_world st) n) @ [d]\<rparr>) (in_world st)\<rparr>"
  have s: "store_ok d0 base ?st" by (rule store_elsewhere [OF assms(1)]) simp_all
  have "ends (add_device n d st) = ends ?st"
    by (rule ends_put_device [OF s, where d = d]) (simp_all add: add_device_def Node_AddDevice_def Let_def assms(2))
  also have "\<dots> = ends st" by (simp add: ends_def fun_eq_iff)
  finally show ?thesis
    using add_device_ok [OF assms(1)] by (simp add: grows_def add_device_def Node_AddDevice_def Let_def)
qed

lemma elsewhere_grows:
  assumes "store_ok d0 base st" "w_devices x = w_devices (in_world st)" "w_channels x = w_channels (in_world st)"
    "w_events x = w_events (in_world st)" "in_nextDevice st' = in_nextDevice st" "in_nextChannel st' = in_nextChannel st"
    "in_id st' = in_id st" "in_world st' = x"
  shows "grows d0 base st st'"
  using store_elsewhere [OF assms(1-4)] assms(2-8) by (simp add: grows_def ends_def fun_eq_iff store_ok_def Let_def)

lemma grows_store: "grows d0 base st st' \<Longrightarrow> store_ok d0 base st'"
  by (simp add: grows_def)

lemma grows_none:
  "grows d0 base st st' \<Longrightarrow> d < in_nextDevice st \<Longrightarrow> nd_channel (w_devices (in_world st) d) = None \<Longrightarrow>
     nd_channel (w_devices (in_world st') d) = None"
  by (simp add: grows_def)

lemma FourWayRouter_Init_grows:
  assumes "store_ok d0 base st" "FourWayRouter_Init st = (f, st')"
  shows "grows d0 base st st' \<and> nd_channel (w_devices (in_world st') (fw_internalInputDevice f)) = None \<and>
    nd_channel (w_devices (in_world st') (fw_internalOutputDevice f)) = None"
proof -
  obtain i s1 where 1: "create_device st = (i, s1)" by (cases "create_device st")
  let ?s2 = "set_in_queue i unlimited_queue s1"
  obtain e s3 where 3: "create_device ?s2 = (e, s3)" by (cases "create_device ?s2")
  let ?s4 = "set_in_queue e unlimited_queue s3"
  have f: "f = \<lparr>fw_internalInputDevice = i, fw_internalOutputDevice = e\<rparr>" "st' = ?s4"
    using assms(2) 1 3 by (simp_all add: FourWayRouter_Init_def)
  note g1 = create_device_grows [OF assms(1) 1]
  have g2: "grows d0 base s1 ?s2"
    by (rule set_in_queue_grows [OF grows_store [OF conjunct1 [OF g1]] unlimited_queue_empty])
  note g3 = create_device_grows [OF grows_store [OF g2] 3]
  have g4: "grows d0 base s3 ?s4"
    by (rule set_in_queue_grows [OF grows_store [OF conjunct1 [OF g3]] unlimited_queue_empty])
  have "grows d0 base st ?s4" using g1 g2 g3 g4 grows_trans by blast
  moreover have "nd_channel (w_devices (in_world ?s4) i) = None" "nd_channel (w_devices (in_world ?s4) e) = None"
    by (metis g1 g2 g3 g4 grows_none grows_trans lessI)+
  ultimately show ?thesis by (simp add: f)
qed

lemma IrvineRouter_create_grows:
  assumes "store_ok d0 base st" "IrvineRouter_create st = (v, st')"
  shows "grows d0 base st st' \<and> nd_channel (w_devices (in_world st') (iv_internalLeftInputDevice v)) = None \<and>
    nd_channel (w_devices (in_world st') (iv_internalRightInputDevice v)) = None \<and>
    nd_channel (w_devices (in_world st') (iv_internalOutputDevice v)) = None"
proof -
  obtain l s1 where 1: "create_device st = (l, s1)" by (cases "create_device st")
  obtain r s2 where 2: "create_device s1 = (r, s2)" by (cases "create_device s1")
  obtain e s3 where 3: "create_device s2 = (e, s3)" by (cases "create_device s2")
  have v: "v = IrvineRouter_Init l r e" "st' = s3" using assms(2) 1 2 3 by (simp_all add: IrvineRouter_create_def)
  note g1 = create_device_grows [OF assms(1) 1]
  note g2 = create_device_grows [OF grows_store [OF conjunct1 [OF g1]] 2]
  note g3 = create_device_grows [OF grows_store [OF conjunct1 [OF g2]] 3]
  have "grows d0 base st s3" using g1 g2 g3 grows_trans by blast
  moreover have "nd_channel (w_devices (in_world s3) l) = None" "nd_channel (w_devices (in_world s3) r) = None"
    "nd_channel (w_devices (in_world s3) e) = None"
    by (metis g1 g2 g3 grows_none grows_trans lessI)+
  ultimately show ?thesis by (simp add: v IrvineRouter_Init_def)
qed

lemma installer_channel_simps [simp]:
  "nd_channel (w_devices (in_world (add_device n d st)) e) = nd_channel (w_devices (in_world st) e)"
  "nd_channel (w_devices (in_world (set_in_queue d q st)) e) = nd_channel (w_devices (in_world st) e)"
  "nd_channel (w_devices (in_world (NocRouter_SetNocNode r n st)) e) = nd_channel (w_devices (in_world st) e)"
  by (simp_all add: add_device_def Node_AddDevice_def set_in_queue_def NocNetDevice_SetInQueue_def NocRouter_SetNocNode_def Let_def)

fun inner_devices :: "router_class \<Rightarrow> device_ref set" where
  "inner_devices (FourWayRouter f) = {fw_internalInputDevice f, fw_internalOutputDevice f}"
| "inner_devices (FourWayLoadRouter f l) = {fw_internalInputDevice f, fw_internalOutputDevice f}"
| "inner_devices (IrvineRouter v) = {iv_internalLeftInputDevice v, iv_internalRightInputDevice v, iv_internalOutputDevice v}"
| "inner_devices (IrvineLoadRouter v l) = {iv_internalLeftInputDevice v, iv_internalRightInputDevice v, iv_internalOutputDevice v}"

definition unwired :: "device_ref set \<Rightarrow> installer \<Rightarrow> bool" where
  "unwired D st \<longleftrightarrow> (\<forall>d \<in> D. nd_channel (w_devices (in_world st) d) = None)"

lemma make_router_grows:
  assumes "store_ok d0 base st" "make_router kind st = (x, st')"
  shows "grows d0 base st st' \<and> unwired (inner_devices (r_class x)) st'"
proof -
  obtain f s1 where f: "FourWayRouter_Init st = (f, s1)" by (cases "FourWayRouter_Init st")
  obtain v s2 where v: "IrvineRouter_create st = (v, s2)" by (cases "IrvineRouter_create st")
  have "st' = s1 \<and> inner_devices (r_class x) = {fw_internalInputDevice f, fw_internalOutputDevice f} \<or>
      st' = s2 \<and> inner_devices (r_class x) =
        {iv_internalLeftInputDevice v, iv_internalRightInputDevice v, iv_internalOutputDevice v}"
    using assms(2) by (cases kind) (auto simp: make_router_def f v NocRouter_new_def)
  then show ?thesis
    using FourWayRouter_Init_grows [OF assms(1) f] IrvineRouter_create_grows [OF assms(1) v]
    unfolding unwired_def by (elim disjE conjE) simp_all
qed

lemma create_router_grows:
  assumes "store_ok d0 base st" "create_router kind st = (r, st')"
  shows "grows d0 base st st' \<and> unwired (inner_devices (r_class (w_routers (in_world st') r))) st'"
proof -
  obtain x s1 where x: "make_router kind st = (x, s1)" by (cases "make_router kind st")
  then have st': "st' = s1\<lparr>in_world := put_router r x (in_world s1), in_nextRouter := r + 1\<rparr>"
    using assms(2) by (auto simp: create_router_def Let_def)
  note m = make_router_grows [OF assms(1) x]
  have "grows d0 base s1 st'"
    by (rule elsewhere_grows [OF grows_store [OF conjunct1 [OF m]]]) (simp_all add: st')
  then show ?thesis using m grows_trans by (auto simp: unwired_def st')
qed

lemma NocRouter_SetNocNode_grows: "store_ok d0 base st \<Longrightarrow> grows d0 base st (NocRouter_SetNocNode r n st)"
  by (rule elsewhere_grows [where x = "in_world (NocRouter_SetNocNode r n st)"])
    (simp_all add: NocRouter_SetNocNode_def Let_def)

lemma router_SetNocNode_grows:
  assumes "store_ok d0 base st" "unwired (inner_devices (r_class (w_routers (in_world st) r))) st"
  shows "grows d0 base st (router_SetNocNode r n st)"
proof -
  have add: "grows d0 base st (add_device n d s)"
    if "grows d0 base st s" "nd_channel (w_devices (in_world s) d) = None" for d s
    using grows_trans [OF that(1)] add_device_grows [OF grows_store [OF that(1)] that(2)] by blast
  have queue: "grows d0 base st (set_in_queue d unlimited_queue s)" if "grows d0 base st s" for d s
    using grows_trans [OF that] set_in_queue_grows [OF grows_store [OF that] unlimited_queue_empty] by blast
  note start = NocRouter_SetNocNode_grows [OF assms(1), of r n]
  show ?thesis
    using assms(2)
    by (cases "r_class (w_routers (in_world st) r)")
      (simp_all add: router_SetNocNode_def FourWayRouter_SetNocNode_def IrvineRouter_SetNocNode_def unwired_def Let_def
        add queue start)
qed

lemma install_router_grows:
  assumes "store_ok d0 base st" "install_router tf n st = Some st'"
  shows "grows d0 base st st'"
proof (cases "n_router (w_nodes (in_world st) n) = None")
  case True
  obtain r s1 where c: "create_router (tf_router tf) st = (r, s1)" by (cases "create_router (tf_router tf) st")
  note g1 = create_router_grows [OF assms(1) c]
  let ?s2 = "router_SetNocNode r n s1"
  from True c assms(2) obtain w where w: "NocNode_SetRouter n r (in_world ?s2) = Some w"
    "st' = ?s2\<lparr>in_world := put_router r ((w_routers w r)\<lparr>
          r_routingProtocol := Some (tf_routingProtocol tf, NocRoutingProtocol_new),
          r_switchingProtocol := Some (tf_switchingProtocol tf)\<rparr>) w\<rparr>"
    by (auto simp: install_router_def Option.bind_eq_Some_conv Let_def)
  have g2: "grows d0 base st ?s2"
    using g1 router_SetNocNode_grows grows_store grows_trans by blast
  have "w_devices w = w_devices (in_world ?s2)" "w_channels w = w_channels (in_world ?s2)" "w_events w = w_events (in_world ?s2)"
    using w(1) by (auto simp: NocNode_SetRouter_def ns_assert_def Option.bind_eq_Some_conv split: if_splits)
  then have "grows d0 base ?s2 st'"
    by (intro elsewhere_grows [OF grows_store [OF g2], where x = "in_world st'"]) (simp_all add: w(2))
  with g2 show ?thesis by (rule grows_trans)
next
  case False
  then have "st' = st" using assms(2) by (simp only: install_router_def if_False option.inject)
  then show ?thesis using grows_refl [OF assms(1)] by simp
qed

lemma install_routers_grows:
  assumes "store_ok d0 base st" "for_each (install_router tf) nodes st = Some st'"
  shows "grows d0 base st st'"
  by (rule for_each_keeps [OF assms(2), where P = "grows d0 base st"])
    (use grows_refl [OF assms(1)] install_router_grows grows_store grows_trans in blast)+

section \<open>A device on a channel\<close>

lemma index_of_snoc: "index_of x (xs @ [y]) = (case index_of x xs of None \<Rightarrow> if x = y then Some (length xs) else None | Some i \<Rightarrow> Some i)"
  by (induction xs) (auto split: option.splits)

lemma index_of_none: "index_of x xs = None \<longleftrightarrow> x \<notin> set xs"
  by (induction xs) auto

lemma ends_cong:
  assumes "\<And>c. devices_of (in_world st') c = devices_of (in_world st) c"
    "\<And>c d. d \<in> set (devices_of (in_world st) c) \<Longrightarrow> end_of (w_devices (in_world st') d) = end_of (w_devices (in_world st) d)"
  shows "ends st' = ends st"
  using assms by (simp add: ends_def fun_eq_iff)

lemma attach_effect:
  assumes "store_ok d0 base st" "empty_queue (tf_inQueue tf)" "c < in_nextChannel st" "attach tf n c direction k st = Some st'"
  shows "store_ok d0 base st' \<and> in_nextChannel st' = in_nextChannel st \<and>
    ends st' = (ends st)(c := ends st c @ [(Some n, direction, sint k)])"
proof -
  obtain d s1 where d: "create_device st = (d, s1)" by (cases "create_device st")
  note cd = create_device_ok [OF assms(1) d]
  note g1 = create_device_grows [OF assms(1) d]
  let ?w1 = "in_world s1"
  let ?ch = "w_channels ?w1 c"
  define y where "y = (w_devices ?w1 d)\<lparr>nd_channel := Some c, nd_deviceId := of_nat (length (c_devices ?ch)),
      nd_routingDirection := direction, nd_routingDimension := sint k, nd_inQueue := Some (tf_inQueue tf), nd_node := Some n,
      nd_ifIndex := of_nat (length (n_devices (w_nodes ?w1 n)))\<rparr>"
  have len: "length (c_devices ?ch) \<le> 1"
    and u: "w_devices (in_world st') = (w_devices ?w1)(d := y)"
      "w_channels (in_world st') = (w_channels ?w1)(c := ?ch\<lparr>c_devices := c_devices ?ch @ [d]\<rparr>)"
      "w_events (in_world st') = w_events ?w1" "in_nextDevice st' = in_nextDevice s1"
      "in_nextChannel st' = in_nextChannel s1" "in_id st' = in_id s1"
    using assms(4) d
    by (auto simp: attach_def NocNetDevice_SetChannel_def NocChannel_Add_def NocNetDevice_SetRoutingDirection_def
        NocNetDevice_SetInQueue_def Node_AddDevice_def y_def Option.bind_eq_Some_conv Let_def split_beta ns_assert_def
        split: if_splits)
  have s1: "store_ok d0 base s1" "d0 \<le> d" "d < in_nextDevice s1" "c < in_nextChannel s1"
    "nd_channel (w_devices ?w1 d) = None"
    using cd g1 assms(3) store_bound [OF assms(1)] by auto
  have no: "d \<notin> set (devices_of ?w1 c')" for c' using store_device_channel [OF s1(1)] s1(5) by force
  have y: "holds_nothing y" "nd_channel y = Some c" "unat (nd_deviceId y) = length (c_devices ?ch)"
    "nd_address y = nd_address (w_devices ?w1 d)" "end_of y = (Some n, direction, sint k)"
    using assms(2) store_holds [OF s1(1), of d] len by (auto simp: y_def holds_nothing_def end_of_def le_Suc_eq)
  have "store_ok d0 base st'"
    unfolding store_ok_def Let_def
  proof (intro conjI allI impI)
    show "idle_channel (w_channels (in_world st') c')" for c'
      using s1(1) by (cases "c' = c") (simp_all add: u idle_channel_def store_ok_def Let_def)
    fix c' e
    show "nd_channel (w_devices (in_world st') e) = Some c'" if "e \<in> set (devices_of (in_world st') c')"
      using that no store_device_channel [OF s1(1)] by (cases "c' = c"; cases "e = d") (auto simp: u y)
    show "index_of e (devices_of (in_world st') c') = Some (unat (nd_deviceId (w_devices (in_world st') e)))"
      if "nd_channel (w_devices (in_world st') e) = Some c'"
    proof (cases "e = d")
      case True
      have "index_of d (devices_of ?w1 c) = None" using no index_of_none by metis
      with that True show ?thesis by (auto simp: u y index_of_snoc)
    next
      case False
      with that have "nd_channel (w_devices ?w1 e) = Some c'" by (simp add: u)
      from store_index(1) [OF s1(1) this] False show ?thesis by (cases "c' = c") (simp_all add: u index_of_snoc)
    qed
    show "distinct (devices_of (in_world st') c')"
      using s1(1) no by (simp add: u store_ok_def Let_def)
    show "devices_of (in_world st') c' = []" if "in_nextChannel st' \<le> c'"
      using that s1(4) store_index(2) [OF s1(1)] by (simp add: u)
    show "nd_channel (w_devices (in_world st') e) = None" if "e < d0 \<or> in_nextDevice st' \<le> e"
      using that s1 by (auto simp: u store_ok_def Let_def)
    show "holds_nothing (w_devices (in_world st') e)" using y(1) store_holds [OF s1(1)] by (simp add: u)
    show "nd_address (w_devices (in_world st') e) = base + of_nat e" if "d0 \<le> e" "e < in_nextDevice st'"
      using that s1(1) y(4) by (auto simp: u store_ok_def Let_def)
  qed (use s1(1) in \<open>simp_all add: u store_ok_def Let_def\<close>)
  moreover have "ends st' = (ends s1)(c := ends s1 c @ [(Some n, direction, sint k)])"
    using no by (fastforce simp: ends_def fun_eq_iff u y)
  ultimately show ?thesis using g1 cd u by (simp add: grows_def)
qed

section \<open>Routers of the nodes\<close>

definition four_way_class :: "router_class \<Rightarrow> bool" where
  "four_way_class c \<longleftrightarrow> (case c of FourWayRouter f \<Rightarrow> True | FourWayLoadRouter f l \<Rightarrow> True | _ \<Rightarrow> False)"

definition four_way_kind :: "router_kind \<Rightarrow> bool" where
  "four_way_kind k \<longleftrightarrow> (case k of Kind_FourWay \<Rightarrow> True | Kind_FourWayLoad l \<Rightarrow> True | _ \<Rightarrow> False)"

abbreviation router_of :: "installer \<Rightarrow> node_ref \<Rightarrow> router_ref option" where
  "router_of st n \<equiv> n_router (w_nodes (in_world st) n)"

definition routed :: "installer \<Rightarrow> bool" where
  "routed st \<longleftrightarrow> (\<forall>n r. router_of st n = Some r \<longrightarrow>
     r < in_nextRouter st \<and> four_way_class (r_class (w_routers (in_world st) r)))"

lemma create_device_routers:
  assumes "create_device st = (d, st')"
  shows "w_nodes (in_world st') = w_nodes (in_world st)" "w_routers (in_world st') = w_routers (in_world st)"
    "in_nextRouter st' = in_nextRouter st"
  using assms by (auto simp: create_device_def Let_def split_beta)

lemma installer_router_simps [simp]:
  "router_of (add_device n d st) m = router_of st m"
  "w_routers (in_world (add_device n d st)) = w_routers (in_world st)"
  "in_nextRouter (add_device n d st) = in_nextRouter st"
  "w_nodes (in_world (set_in_queue d q st)) = w_nodes (in_world st)"
  "w_routers (in_world (set_in_queue d q st)) = w_routers (in_world st)"
  "in_nextRouter (set_in_queue d q st) = in_nextRouter st"
  by (simp_all add: add_device_def Node_AddDevice_def set_in_queue_def Let_def)

lemma FourWayRouter_Init_routers:
  assumes "FourWayRouter_Init st = (f, st')"
  shows "w_nodes (in_world st') = w_nodes (in_world st)" "w_routers (in_world st') = w_routers (in_world st)"
    "in_nextRouter st' = in_nextRouter st"
  using assms create_device_routers by (auto simp: FourWayRouter_Init_def Let_def split: prod.splits)

lemma make_router_routers:
  assumes "four_way_kind kind" "make_router kind st = (x, st')"
  shows "w_nodes (in_world st') = w_nodes (in_world st) \<and> w_routers (in_world st') = w_routers (in_world st) \<and>
    in_nextRouter st' = in_nextRouter st \<and> four_way_class (r_class x)"
proof -
  obtain f s1 where f: "FourWayRouter_Init st = (f, s1)" by (cases "FourWayRouter_Init st")
  then have "st' = s1 \<and> four_way_class (r_class x)"
    using assms by (cases kind) (auto simp: four_way_kind_def four_way_class_def make_router_def NocRouter_new_def)
  then show ?thesis using FourWayRouter_Init_routers [OF f] by simp
qed

lemma router_SetNocNode_routers:
  assumes "four_way_class (r_class (w_routers (in_world st) r))" "st' = router_SetNocNode r n st"
  shows "router_of st' m = router_of st m"
    "w_routers (in_world st') = (w_routers (in_world st))(r := (w_routers (in_world st) r)\<lparr>r_nocNode := Some n\<rparr>)"
    "in_nextRouter st' = in_nextRouter st"
  using assms
  by (auto simp: router_SetNocNode_def FourWayRouter_SetNocNode_def NocRouter_SetNocNode_def four_way_class_def Let_def
      split: router_class.splits)

lemma install_router_routed:
  assumes "routed st" "four_way_kind (tf_router tf)"
  shows "\<exists>st'. install_router tf n st = Some st' \<and> routed st' \<and> router_of st' n \<noteq> None \<and>
    (\<forall>m. router_of st m \<noteq> None \<longrightarrow> router_of st' m \<noteq> None)"
proof (cases "router_of st n")
  case None
  obtain x s1 where x: "make_router (tf_router tf) st = (x, s1)" by (cases "make_router (tf_router tf) st")
  note m = make_router_routers [OF assms(2) x]
  define r where "r = in_nextRouter s1"
  define s2 where "s2 = s1\<lparr>in_world := put_router r x (in_world s1), in_nextRouter := r + 1\<rparr>"
  have c: "create_router (tf_router tf) st = (r, s2)" by (simp add: create_router_def x r_def s2_def Let_def)
  define s3 where "s3 = router_SetNocNode r n s2"
  have s3: "router_of s3 k = router_of st k" "w_routers (in_world s3) = (w_routers (in_world st))(r := x\<lparr>r_nocNode := Some n\<rparr>)"
    "in_nextRouter s3 = r + 1" for k
    using router_SetNocNode_routers [of s2 r s3 n] m by (auto simp: s3_def s2_def)
  let ?w = "put_node n ((w_nodes (in_world s3) n)\<lparr>n_router := Some r\<rparr>) (in_world s3)"
  let ?st = "s3\<lparr>in_world := put_router r ((w_routers ?w r)\<lparr>r_routingProtocol := Some (tf_routingProtocol tf, NocRoutingProtocol_new),
          r_switchingProtocol := Some (tf_switchingProtocol tf)\<rparr>) ?w\<rparr>"
  have "install_router tf n st = Some ?st"
    using None s3 by (simp add: install_router_def c NocNode_SetRouter_def ns_assert_def flip: s3_def)
  moreover have "routed ?st" unfolding routed_def
  proof (intro allI impI)
    fix k q assume q: "router_of ?st k = Some q"
    show "q < in_nextRouter ?st \<and> four_way_class (r_class (w_routers (in_world ?st) q))"
    proof (cases "k = n")
      case True
      with q show ?thesis using s3 m by simp
    next
      case False
      with q have "router_of st k = Some q" by (simp add: s3)
      then have "q < in_nextRouter st" "four_way_class (r_class (w_routers (in_world st) q))"
        using assms(1) by (auto simp: routed_def)
      then show ?thesis using m s3 by (auto simp: r_def)
    qed
  qed
  moreover have "router_of ?st n \<noteq> None" "\<forall>k. router_of st k \<noteq> None \<longrightarrow> router_of ?st k \<noteq> None" using s3 by simp_all
  ultimately show ?thesis by blast
next
  case (Some r)
  then show ?thesis using assms(1) by (auto simp: install_router_def)
qed

lemma install_routers_routed:
  assumes "routed st" "four_way_kind (tf_router tf)"
  shows "\<exists>st'. for_each (install_router tf) nodes st = Some st' \<and> routed st' \<and> (\<forall>n \<in> set nodes. router_of st' n \<noteq> None) \<and>
    (\<forall>m. router_of st m \<noteq> None \<longrightarrow> router_of st' m \<noteq> None)"
  using assms(1)
proof (induction nodes arbitrary: st)
  case (Cons n nodes)
  obtain s1 where s1: "install_router tf n st = Some s1" "routed s1" "router_of s1 n \<noteq> None"
    "\<forall>m. router_of st m \<noteq> None \<longrightarrow> router_of s1 m \<noteq> None"
    using install_router_routed [OF Cons.prems assms(2), of n] by blast
  from Cons.IH [OF s1(2)] obtain s2 where "for_each (install_router tf) nodes s1 = Some s2" "routed s2"
    "\<forall>n \<in> set nodes. router_of s2 n \<noteq> None" "\<forall>m. router_of s1 m \<noteq> None \<longrightarrow> router_of s2 m \<noteq> None" by blast
  then show ?case using s1 by simp
qed simp

lemma attach_routed:
  assumes "routed st" "router_of st n \<noteq> None" "length (devices_of (in_world st) c) \<le> 1"
  shows "\<exists>st'. attach tf n c direction k st = Some st' \<and> routed st' \<and> (\<forall>m. router_of st' m = router_of st m)"
proof -
  obtain d s1 where d: "create_device st = (d, s1)" by (cases "create_device st")
  note c = create_device_routers [OF d]
  have ch: "w_channels (in_world s1) = w_channels (in_world st)" using d by (auto simp: create_device_def Let_def split_beta)
  obtain r where r: "router_of st n = Some r" using assms(2) by blast
  then have f: "four_way_class (r_class (w_routers (in_world st) r))" using assms(1) by (simp add: routed_def)
  have add: "router_AddDevice y d (w_routers (in_world st) r) =
      Some (of_nat (length (r_devices (w_routers (in_world st) r))), (w_routers (in_world st) r)\<lparr>r_devices := r_devices (w_routers (in_world st) r) @ [d]\<rparr>)" for y
    using f by (auto simp: router_AddDevice_def four_way_class_def split: router_class.splits)
  obtain st' where st': "attach tf n c direction k st = Some st'" and
    u: "\<And>m. router_of st' m = router_of st m" "in_nextRouter st' = in_nextRouter st"
      "w_routers (in_world st') = (w_routers (in_world st))(r := (w_routers (in_world st) r)\<lparr>r_devices := r_devices (w_routers (in_world st) r) @ [d]\<rparr>)"
    using assms(3) r c ch
    by (simp add: attach_def d NocNetDevice_SetChannel_def NocChannel_Add_def Node_AddDevice_def ns_assert_def add Let_def)
  moreover have "routed st'" using assms(1) by (auto simp: routed_def u)
  ultimately show ?thesis by blast
qed

section \<open>The number of devices\<close>

lemma create_device_counts: "in_nextDevice (snd (create_device st)) = Suc (in_nextDevice st)"
  by (simp add: create_device_def Let_def split_beta)

lemma installer_device_simps [simp]:
  "in_nextDevice (add_device n d st) = in_nextDevice st" "in_nextDevice (set_in_queue d q st) = in_nextDevice st"
  "in_nextDevice (NocRouter_SetNocNode r n st) = in_nextDevice st"
  by (simp_all add: add_device_def set_in_queue_def NocRouter_SetNocNode_def Let_def)

lemma install_router_counts:
  assumes "install_router tf n st = Some st'"
  shows "in_nextDevice st' \<le> in_nextDevice st + 3"
proof -
  have set: "in_nextDevice (router_SetNocNode r n s) = in_nextDevice s" for r s
    by (simp add: router_SetNocNode_def FourWayRouter_SetNocNode_def IrvineRouter_SetNocNode_def Let_def split: router_class.splits)
  have "in_nextDevice (snd (make_router kind s)) \<le> in_nextDevice s + 3" for kind s
    by (simp add: make_router_def FourWayRouter_Init_def IrvineRouter_create_def create_device_counts Let_def split_beta
        split: router_kind.splits)
  then have make: "in_nextDevice (snd (create_router kind s)) \<le> in_nextDevice s + 3" for kind s
    by (simp add: create_router_def Let_def split_beta)
  show ?thesis
    using assms make [of "tf_router tf" st] set
    by (auto simp: install_router_def Let_def split_beta Option.bind_eq_Some_conv split: if_splits)
qed

lemma attach_counts: "attach tf n c direction k st = Some st' \<Longrightarrow> in_nextDevice st' = Suc (in_nextDevice st)"
  using create_device_counts [of st] by (auto simp: attach_def Let_def split_beta Option.bind_eq_Some_conv)

lemma line_node_counts:
  assumes "line_node tf incoming outgoing k nodes i j b x = Some x'"
  shows "in_nextDevice (snd x') \<le> in_nextDevice (snd x) + 2"
proof -
  have if': "in_nextDevice s' \<le> Suc (in_nextDevice s)" if "attach_if tf n c direction k s = Some s'" for n c direction s s'
    using that attach_counts by (fastforce simp: attach_if_def split: option.splits)
  have create: "in_nextDevice (snd (create_channel tf s)) = in_nextDevice s" for s by (simp add: create_channel_def Let_def)
  have "\<exists>n channel s1. attach_if tf n channel incoming k (snd x) = Some s1 \<and>
      ((\<exists>c. attach tf n c outgoing k (snd (create_channel tf s1)) = Some (snd x')) \<or> snd x' = s1)"
    using assms by (cases x; cases b) (fastforce simp: line_node_def Let_def split_beta Option.bind_eq_Some_conv)+
  then obtain n channel s1 where s1: "attach_if tf n channel incoming k (snd x) = Some s1"
    "(\<exists>c. attach tf n c outgoing k (snd (create_channel tf s1)) = Some (snd x')) \<or> snd x' = s1" by blast
  from s1(2) have "in_nextDevice (snd x') \<le> Suc (in_nextDevice s1)"
    using attach_counts create by (metis le_SucI order_refl)
  with if' [OF s1(1)] show ?thesis by simp
qed

section \<open>Lines of nodes\<close>

definition factories_ok :: "topology_factories \<Rightarrow> bool" where
  "factories_ok tf \<longleftrightarrow> four_way_kind (tf_router tf) \<and> idle_channel (tf_channel tf) \<and> c_devices (tf_channel tf) = [] \<and>
     empty_queue (tf_inQueue tf)"

definition ready :: "device_ref \<Rightarrow> mac48 \<Rightarrow> node_ref list \<Rightarrow> installer \<Rightarrow> bool" where
  "ready d0 base nodes st \<longleftrightarrow> store_ok d0 base st \<and> routed st \<and> (\<forall>n \<in> set nodes. router_of st n \<noteq> None)"

lemma ends_beyond: "store_ok d0 base st \<Longrightarrow> in_nextChannel st \<le> c \<Longrightarrow> ends st c = []"
  using store_index(2) by (simp add: ends_def)

lemma attach_ready:
  assumes "ready d0 base nodes st" "factories_ok tf" "n \<in> set nodes" "c < in_nextChannel st" "length (ends st c) \<le> 1"
  shows "\<exists>st'. attach tf n c direction k st = Some st' \<and> ready d0 base nodes st' \<and>
    in_nextChannel st' = in_nextChannel st \<and> ends st' = (ends st)(c := ends st c @ [(Some n, direction, sint k)])"
proof -
  have s: "store_ok d0 base st" "routed st" "router_of st n \<noteq> None" "length (devices_of (in_world st) c) \<le> 1"
    "empty_queue (tf_inQueue tf)"
    using assms by (auto simp: ready_def ends_def factories_ok_def)
  obtain st' where st': "attach tf n c direction k st = Some st'" "routed st'" "\<forall>m. router_of st' m = router_of st m"
    using attach_routed [OF s(2-4)] by blast
  with attach_effect [OF s(1,5) assms(4) st'(1)] assms(1) show ?thesis by (auto simp: ready_def)
qed

lemma create_channel_ready:
  assumes "ready d0 base nodes st" "factories_ok tf" "create_channel tf st = (c, st')"
  shows "ready d0 base nodes st' \<and> c = in_nextChannel st \<and> in_nextChannel st' = Suc c \<and> ends st' = ends st"
proof -
  have s: "store_ok d0 base st" "routed st" "idle_channel (tf_channel tf)" "c_devices (tf_channel tf) = []"
    using assms by (auto simp: ready_def factories_ok_def)
  note c = create_channel_ok [OF s(1,3,4) assms(3)]
  have "ends st' = ends st" using c s(4) store_index(2) [OF s(1)] by (intro ends_cong) auto
  moreover have "routed st'" "router_of st' m = router_of st m" for m
    using assms(3) s(2) by (auto simp: create_channel_def routed_def Let_def)
  ultimately show ?thesis using c assms(1) by (simp add: ready_def)
qed

text \<open>The channels that a pass over the nodes makes, in the order in which it makes them: one for every node
  whose line goes on, to the node a stride further.\<close>

definition link_ends :: "node_ref list \<Rightarrow> int \<Rightarrow> int \<Rightarrow> int \<Rightarrow> nat \<Rightarrow> nat \<Rightarrow> channel_end list" where
  "link_ends nodes incoming outgoing k s p = [(Some (nodes ! p), outgoing, k), (Some (nodes ! (p + s)), incoming, k)]"

definition line_state ::
    "device_ref \<Rightarrow> mac48 \<Rightarrow> node_ref list \<Rightarrow> int \<Rightarrow> int \<Rightarrow> u32 \<Rightarrow> nat \<Rightarrow> (nat \<Rightarrow> bool) \<Rightarrow> installer \<Rightarrow> nat \<Rightarrow>
       channel_ref option list \<times> installer \<Rightarrow> bool" where
  "line_state d0 base nodes incoming outgoing k s go st0 i x \<longleftrightarrow> (case x of (slots, st) \<Rightarrow> (let
       c0 = in_nextChannel st0; rank = (\<lambda>p. length (filter go [0 ..< p])) in
     ready d0 base nodes st \<and> length slots = s \<and> in_nextChannel st = c0 + rank i \<and>
     (\<forall>c < c0. ends st c = ends st0 c) \<and>
     (\<forall>p < i. go p \<longrightarrow> ends st (c0 + rank p) =
        (if p + s < i then link_ends nodes incoming outgoing (sint k) s p
         else take 1 (link_ends nodes incoming outgoing (sint k) s p))) \<and>
     (\<forall>p < i. i \<le> p + s \<longrightarrow> slots ! (p mod s) = (if go p then Some (c0 + rank p) else None)) \<and>
     (\<forall>j < s. i \<le> j \<longrightarrow> slots ! j = None)))"

lemma rank_mono:
  assumes "p < q" "go p"
  shows "length (filter go [0 ..< p]) < length (filter go [0 ..< q])"
proof -
  have "[0 ..< q] = [0 ..< p] @ p # [Suc p ..< q]" using assms(1) upt_add_eq_append [of 0 p "q - p"] by (simp add: upt_conv_Cons)
  then show ?thesis using assms(2) by simp
qed

lemma rank_inj:
  "go p \<Longrightarrow> go q \<Longrightarrow> length (filter go [0 ..< p]) = length (filter go [0 ..< q]) \<Longrightarrow> p = q"
  using rank_mono [of p q go] rank_mono [of q p go] by (metis linorder_neqE_nat less_irrefl)

lemma line_node_step:
  assumes "line_state d0 base nodes incoming outgoing k s go st0 i x" "factories_ok tf" "i < length nodes" "0 < s"
  shows "\<exists>x'. line_node tf incoming outgoing k nodes i (i mod s) (go i) x = Some x' \<and>
    line_state d0 base nodes incoming outgoing k s go st0 (Suc i) x'"
proof -
  obtain slots st where x: "x = (slots, st)" by (cases x)
  let ?c0 = "in_nextChannel st0"
  let ?rank = "\<lambda>p. length (filter go [0 ..< p])"
  let ?full = "link_ends nodes incoming outgoing (sint k) s"
  note I = assms(1) [unfolded x line_state_def Let_def prod.case]
  have I1: "ready d0 base nodes st" "length slots = s" "in_nextChannel st = ?c0 + ?rank i"
    and old: "\<And>c. c < ?c0 \<Longrightarrow> ends st c = ends st0 c"
    and made: "\<And>p. p < i \<Longrightarrow> go p \<Longrightarrow> ends st (?c0 + ?rank p) = (if p + s < i then ?full p else take 1 (?full p))"
    and slot: "\<And>p. p < i \<Longrightarrow> i \<le> p + s \<Longrightarrow> slots ! (p mod s) = (if go p then Some (?c0 + ?rank p) else None)"
    and free: "\<And>j. j < s \<Longrightarrow> i \<le> j \<Longrightarrow> slots ! j = None"
    using I by blast+
  have j: "i mod s < s" using assms(4) by simp
  have at: "nodes ! i \<in> set nodes" using assms(3) by simp
  define here where "here = (if s \<le> i \<and> go (i - s) then Some (?c0 + ?rank (i - s)) else None)"
  have here: "slots ! (i mod s) = here"
  proof (cases "s \<le> i")
    case True
    then have "(i - s) mod s = i mod s" by (metis mod_add_self2 le_add_diff_inverse2)
    with slot [of "i - s"] True assms(4) show ?thesis by (simp add: here_def)
  next
    case False
    with free [of i] show ?thesis by (simp add: here_def)
  qed
  obtain s1 where s1: "attach_if tf (nodes ! i) here incoming k st = Some s1" "ready d0 base nodes s1"
    "in_nextChannel s1 = in_nextChannel st"
    "ends s1 = (case here of None \<Rightarrow> ends st | Some c \<Rightarrow> (ends st)(c := ends st c @ [(Some (nodes ! i), incoming, sint k)]))"
  proof (cases here)
    case None
    then show ?thesis using that [of st] I1 by (simp add: attach_if_def)
  next
    case (Some c)
    then have c: "s \<le> i" "go (i - s)" "c = ?c0 + ?rank (i - s)" by (auto simp: here_def split: if_splits)
    then have "c < in_nextChannel st" using rank_mono [of "i - s" i go] I1 assms(4) by simp
    moreover have "length (ends st c) \<le> 1" using made [of "i - s"] c assms(4) by (simp add: link_ends_def)
    ultimately obtain s1 where "attach tf (nodes ! i) c incoming k st = Some s1" "ready d0 base nodes s1"
      "in_nextChannel s1 = in_nextChannel st" "ends s1 = (ends st)(c := ends st c @ [(Some (nodes ! i), incoming, sint k)])"
      using attach_ready [OF I1(1) assms(2) at] by blast
    then show ?thesis using that [of s1] Some by (simp add: attach_if_def)
  qed
  have made1: "ends s1 (?c0 + ?rank p) = (if p + s < Suc i then ?full p else take 1 (?full p))" if "p < i" "go p" for p
  proof (cases "p + s = i")
    case True
    then have "here = Some (?c0 + ?rank p)" using that(2) by (auto simp: here_def)
    then show ?thesis using True made [OF that] by (simp add: s1(4) link_ends_def True [symmetric])
  next
    case False
    have "here \<noteq> Some (?c0 + ?rank p)"
    proof
      assume "here = Some (?c0 + ?rank p)"
      then have "s \<le> i" "go (i - s)" "?rank p = ?rank (i - s)" by (auto simp: here_def split: if_splits)
      with rank_inj [of go p "i - s"] that(2) False show False by simp
    qed
    then have "ends s1 (?c0 + ?rank p) = ends st (?c0 + ?rank p)" by (auto simp: s1(4) split: option.splits)
    with made [OF that] False show ?thesis by auto
  qed
  define v where "v = (if go i then Some (?c0 + ?rank i) else None)"
  obtain s2 where s2: "line_node tf incoming outgoing k nodes i (i mod s) (go i) x = Some (slots[i mod s := v], s2)"
    "ready d0 base nodes s2" "in_nextChannel s2 = ?c0 + ?rank (Suc i)"
    "ends s2 = (if go i then (ends s1)(?c0 + ?rank i := [(Some (nodes ! i), outgoing, sint k)]) else ends s1)"
  proof (cases "go i")
    case False
    then show ?thesis
      using that [of s1] s1 I1 j assms(3) here by (simp add: x line_node_def vec_at_def v_def)
  next
    case True
    obtain c s2 where c: "create_channel tf s1 = (c, s2)" by (cases "create_channel tf s1")
    note cc = create_channel_ready [OF s1(2) assms(2) c]
    have "store_ok d0 base s1" using s1(2) by (simp add: ready_def)
    from ends_beyond [OF this, of c] cc have "ends s1 c = []" by simp
    then obtain s3 where "attach tf (nodes ! i) c outgoing k s2 = Some s3" "ready d0 base nodes s3"
      "in_nextChannel s3 = in_nextChannel s2" "ends s3 = (ends s2)(c := [(Some (nodes ! i), outgoing, sint k)])"
      using attach_ready [OF conjunct1 [OF cc] assms(2) at, of c outgoing k] cc by auto
    then show ?thesis
      using that [of s3] True c cc s1 I1 j assms(3) here by (simp add: x line_node_def vec_at_def v_def)
  qed
  have "line_state d0 base nodes incoming outgoing k s go st0 (Suc i) (slots[i mod s := v], s2)"
    unfolding line_state_def Let_def prod.case
  proof (intro conjI allI impI)
    show "ends s2 c = ends st0 c" if "c < ?c0" for c
      using old [OF that] that by (auto simp: s2(4) s1(4) here_def split: option.splits)
    fix p assume p: "p < Suc i"
    show "ends s2 (?c0 + ?rank p) = (if p + s < Suc i then ?full p else take 1 (?full p))" if "go p"
    proof (cases "p = i")
      case True
      then show ?thesis using that assms(4) by (simp add: s2(4) link_ends_def)
    next
      case False
      with p have "p < i" by simp
      then show ?thesis using made1 [OF _ that] rank_mono [of p i go] that by (simp add: s2(4))
    qed
    show "slots[i mod s := v] ! (p mod s) = (if go p then Some (?c0 + ?rank p) else None)" if "Suc i \<le> p + s"
    proof (cases "p = i")
      case True
      then show ?thesis using j by (simp add: I1(2) v_def)
    next
      case False
      with p have "p < i" by simp
      moreover have "p mod s \<noteq> i mod s"
      proof
        assume "p mod s = i mod s"
        then have "s dvd i - p" using \<open>p < i\<close> by (metis mod_eq_dvd_iff_nat less_imp_le)
        then show False using \<open>p < i\<close> that nat_dvd_not_less [of "i - p" s] by simp
      qed
      ultimately show ?thesis using slot [of p] that by simp
    qed
  next
    show "slots[i mod s := v] ! q = None" if "q < s" "Suc i \<le> q" for q using free that by simp
  qed (use s2 I1(2) in simp_all)
  with s2(1) show ?thesis by blast
qed

lemma for_each_total:
  assumes "I 0 s" "\<And>i s. i < n \<Longrightarrow> I i s \<Longrightarrow> \<exists>s'. body i s = Some s' \<and> I (Suc i) s'"
  shows "\<exists>s'. for_each body [0 ..< n] s = Some s' \<and> I n s'"
  using assms(2)
proof (induction n)
  case 0
  then show ?case using assms(1) by simp
next
  case (Suc n)
  then obtain s1 where "for_each body [0 ..< n] s = Some s1" "I n s1" using less_SucI by blast
  with Suc.prems [of n s1] show ?case by (auto simp: for_each_append)
qed

text \<open>What the installer promises: the ends of all channels, in the order of their creation.\<close>

definition network :: "installer \<Rightarrow> channel_end list list" where
  "network st = map (ends st) [0 ..< in_nextChannel st]"

lemma map_rank:
  assumes "\<And>p. p < n \<Longrightarrow> go p \<Longrightarrow> f (length (filter go [0 ..< p])) = g p"
  shows "map f [0 ..< length (filter go [0 ..< n])] = map g (filter go [0 ..< n])"
  using assms by (induction n) auto

lemma line_pass:
  assumes "ready d0 base nodes st" "factories_ok tf" "0 < s" "\<And>p. p < length nodes \<Longrightarrow> go p \<Longrightarrow> p + s < length nodes"
  shows "\<exists>slots st'. for_each (\<lambda>i. line_node tf incoming outgoing k nodes i (i mod s) (go i)) [0 ..< length nodes]
      (replicate s None, st) = Some (slots, st') \<and> ready d0 base nodes st' \<and>
    in_nextDevice st' \<le> in_nextDevice st + length nodes * 2 \<and>
    network st' = network st @ map (link_ends nodes incoming outgoing (sint k) s) (filter go [0 ..< length nodes])"
proof -
  let ?I = "line_state d0 base nodes incoming outgoing k s go st"
  have "?I 0 (replicate s None, st)" using assms(1) by (simp add: line_state_def)
  then have "\<exists>x'. for_each (\<lambda>i. line_node tf incoming outgoing k nodes i (i mod s) (go i)) [0 ..< length nodes]
      (replicate s None, st) = Some x' \<and> ?I (length nodes) x'"
    using line_node_step [OF _ assms(2) _ assms(3)] by (rule for_each_total)
  then obtain slots st' where run: "for_each (\<lambda>i. line_node tf incoming outgoing k nodes i (i mod s) (go i)) [0 ..< length nodes]
      (replicate s None, st) = Some (slots, st')" and I: "?I (length nodes) (slots, st')"
    by (metis surj_pair)
  let ?c0 = "in_nextChannel st"
  let ?n = "length (filter go [0 ..< length nodes])"
  note I = I [unfolded line_state_def Let_def prod.case]
  then have next': "in_nextChannel st' = ?c0 + ?n" by blast
  have "map (\<lambda>c. ends st' (?c0 + c)) [0 ..< ?n] =
      map (link_ends nodes incoming outgoing (sint k) s) (filter go [0 ..< length nodes])"
    using I assms(4) by (intro map_rank) simp
  moreover have "map (ends st') [0 ..< ?c0] = map (ends st) [0 ..< ?c0]" using I by simp
  moreover have "[0 ..< ?c0 + ?n] = [0 ..< ?c0] @ map (\<lambda>c. ?c0 + c) [0 ..< ?n]"
    using upt_add_eq_append [of 0 ?c0 ?n] map_add_upt [of ?c0 ?n] by (simp add: add.commute)
  ultimately have "network st' = network st @ map (link_ends nodes incoming outgoing (sint k) s) (filter go [0 ..< length nodes])"
    by (simp add: network_def next' comp_def)
  moreover have "in_nextDevice st' \<le> in_nextDevice st + length nodes * 2"
    using for_each_counts [OF run, where f = "in_nextDevice \<circ> snd" and b = 2] line_node_counts by simp
  ultimately show ?thesis using run I by blast
qed

section \<open>The mesh\<close>

text \<open>The mesh as a graph: in every dimension, a channel between the nodes whose coordinates differ by one
  there, with its \<^verbatim>\<open>FORWARD\<close> end at the lower one.\<close>

definition coordinate :: "nat list \<Rightarrow> nat \<Rightarrow> nat \<Rightarrow> nat" where
  "coordinate sizes k p = p div prod_list (take k sizes) mod sizes ! k"

definition mesh_links :: "nat list \<Rightarrow> node_ref list \<Rightarrow> nat \<Rightarrow> channel_end list list" where
  "mesh_links sizes nodes k = map (link_ends nodes dir_BACK dir_FORWARD (int k) (prod_list (take k sizes)))
     (filter (\<lambda>p. coordinate sizes k p + 1 < sizes ! k) [0 ..< length nodes])"

definition mesh :: "nat list \<Rightarrow> node_ref list \<Rightarrow> channel_end list list" where
  "mesh sizes nodes = concat (map (mesh_links sizes nodes) [0 ..< length sizes])"

lemma line_goes_on:
  assumes "0 < s" "0 < (m::nat)"
  shows "p mod (s * m) < s * m - s \<longleftrightarrow> p div s mod m + 1 < m"
proof -
  obtain m' where m: "m = Suc m'" using assms(2) gr0_implies_Suc by blast
  have "p mod (s * m) = s * (p div s mod m) + p mod s" by (rule mod_mult2_eq)
  moreover have "s * m - s = s * m'" by (simp add: m)
  moreover have "s * q + p mod s < s * m' \<longleftrightarrow> q < m'" for q
  proof
    assume "s * q + p mod s < s * m'"
    then have "s * q < s * m'" by linarith
    then show "q < m'" by simp
  next
    assume "q < m'"
    then have "s * Suc q \<le> s * m'" by (intro mult_le_mono2) simp
    moreover have "p mod s < s" using assms(1) by simp
    ultimately show "s * q + p mod s < s * m'" by simp
  qed
  ultimately show ?thesis by (simp add: m)
qed

lemma line_next:
  assumes "p mod b < b - s" "p < b * t" "0 < (b::nat)"
  shows "p + s < b * t"
proof -
  have "p div b < t" using assms(2,3) by (simp add: less_mult_imp_div_less mult.commute)
  then have "b * (p div b) + b \<le> b * t" using mult_le_mono2 [of "Suc (p div b)" t b] by simp
  moreover have "p = b * (p div b) + p mod b" by simp
  ultimately show ?thesis using assms(1) by linarith
qed

lemma prod_list_take:
  "k < length xs \<Longrightarrow> prod_list (take (Suc k) xs) = prod_list (take k xs) * (xs ! k :: nat)"
  by (simp add: take_Suc_conv_app_nth)

lemma prod_list_take_dvd: "prod_list (take k xs) dvd (prod_list xs :: nat)"
  by (metis append_take_drop_id prod_list.append dvd_triv_left)

lemma GetNumberOfNodes_exact:
  assumes "k \<le> length sizes" "0 < prod_list (map unat sizes)" "prod_list (map unat sizes) < 2 ^ 32"
  shows "\<exists>m. NocMeshND_GetNumberOfNodes sizes k = Some m \<and> unat m = prod_list (take k (map unat sizes))"
  using assms(1)
proof (induction k)
  case (Suc k)
  then obtain m where m: "NocMeshND_GetNumberOfNodes sizes k = Some m" "unat m = prod_list (take k (map unat sizes))" by auto
  have le: "prod_list (take (Suc k) (map unat sizes)) \<le> prod_list (map unat sizes)"
    using prod_list_take_dvd assms(2) dvd_imp_le by blast
  have "unat m * unat (sizes ! k) = prod_list (take (Suc k) (map unat sizes))"
    using prod_list_take [of k "map unat sizes"] Suc.prems m(2) by simp
  then have "unat (m * sizes ! k) = prod_list (take (Suc k) (map unat sizes))"
    using le assms(3) by (simp add: unat_word_ariths)
  with m Suc.prems show ?case by (simp add: vec_at_def)
qed simp

text \<open>A pass along one dimension, node by node.\<close>

definition pass_along :: "topology_factories \<Rightarrow> nat list \<Rightarrow> node_ref list \<Rightarrow> nat \<Rightarrow> installer \<Rightarrow> installer option" where
  "pass_along tf sizes nodes k st = (let s = prod_list (take k sizes) in do {
     (_, st) \<leftarrow> for_each (\<lambda>i. line_node tf dir_BACK dir_FORWARD (of_nat k) nodes i (i mod s) (coordinate sizes k i + 1 < sizes ! k))
       [0 ..< length nodes] (replicate s None, st);
     Some st
   })"

lemma pass_along_mesh:
  assumes "ready d0 base nodes st" "factories_ok tf" "k < length sizes" "k < 2 ^ 31"
    "length nodes = prod_list sizes" "0 < length nodes"
  shows "\<exists>st'. pass_along tf sizes nodes k st = Some st' \<and> ready d0 base nodes st' \<and>
    in_nextDevice st' \<le> in_nextDevice st + length nodes * 2 \<and>
    network st' = network st @ mesh_links sizes nodes k"
proof -
  let ?N = "length nodes"
  define s m where "s = prod_list (take k sizes)" and "m = sizes ! k"
  define go where "go p \<longleftrightarrow> coordinate sizes k p + 1 < sizes ! k" for p
  have sm: "prod_list (take (Suc k) sizes) = s * m" using prod_list_take [of k sizes] assms(3) by (simp add: s_def m_def)
  obtain t where t: "?N = s * m * t" using prod_list_take_dvd [of "Suc k" sizes] by (auto simp: sm assms(5) dvd_def)
  with assms(6) have pos: "0 < s" "0 < m" by auto
  have next': "p + s < ?N" if "p < ?N" "go p" for p
  proof -
    have "p mod (s * m) < s * m - s" using that line_goes_on [OF pos] by (simp add: go_def coordinate_def s_def m_def)
    from line_next [OF this, of t] that(1) pos show ?thesis by (simp add: t)
  qed
  have "sint (of_nat k :: u32) = int k" using assms(4) by (simp add: signed_of_nat signed_take_bit_int_eq_self)
  then obtain slots st' where "for_each (\<lambda>i. line_node tf dir_BACK dir_FORWARD (of_nat k) nodes i (i mod s) (go i)) [0 ..< ?N]
      (replicate s None, st) = Some (slots, st')" "ready d0 base nodes st'" "in_nextDevice st' \<le> in_nextDevice st + ?N * 2"
    "network st' = network st @ map (link_ends nodes dir_BACK dir_FORWARD (int k) s) (filter go [0 ..< ?N])"
    using line_pass [where go = go and k = "of_nat k", OF assms(1,2) pos(1) next'] by fastforce
  moreover have "go = (\<lambda>p. coordinate sizes k p + 1 < sizes ! k)" by (simp add: go_def fun_eq_iff)
  ultimately show ?thesis by (simp add: pass_along_def mesh_links_def s_def)
qed

lemma unat_index: "i < n \<Longrightarrow> n < 2 ^ 32 \<Longrightarrow> unat (of_nat i :: u32) = i"
  by (simp add: unat_of_nat)

lemma install_dimension_pass:
  assumes "k < length sizes" "length nodes = prod_list (map unat sizes)" "0 < length nodes" "length nodes < 2 ^ 32"
  shows "install_dimension tf sizes nodes k st = pass_along tf (map unat sizes) nodes k st"
proof -
  let ?N = "length nodes"
  let ?sizes = "map unat sizes"
  have pos: "0 < prod_list ?sizes" "prod_list ?sizes < 2 ^ 32" using assms(2-4) by simp_all
  obtain stride where stride: "NocMeshND_GetNumberOfNodes sizes k = Some stride" "unat stride = prod_list (take k ?sizes)"
    using GetNumberOfNodes_exact [OF _ pos, of k] assms(1) by auto
  obtain b where b: "NocMeshND_GetNumberOfNodes sizes (k + 1) = Some b" "unat b = prod_list (take (Suc k) ?sizes)"
    using GetNumberOfNodes_exact [OF _ pos, of "k + 1"] assms(1) by auto
  define s m where "s = unat stride" and "m = unat (sizes ! k)"
  have sb: "unat b = s * m" using b(2) stride(2) prod_list_take [of k ?sizes] assms(1) by (simp add: s_def m_def)
  have "unat b dvd ?N" using prod_list_take_dvd b(2) assms(2) by metis
  then obtain t where t: "?N = s * m * t" by (auto simp: sb dvd_def)
  with assms(3) have sm: "0 < s" "0 < m" by auto
  have s_dvd: "s dvd ?N" using t by simp
  have le: "stride \<le> b" using sm sb by (simp add: word_le_nat_alt s_def [symmetric])
  have go: "(of_nat p :: u32) mod b < b - stride \<longleftrightarrow> coordinate ?sizes k p + 1 < ?sizes ! k" if "p < ?N" for p
  proof -
    have "(of_nat p :: u32) mod b < b - stride \<longleftrightarrow> p mod (s * m) < s * m - s"
      using le unat_index [OF that assms(4)] by (simp add: word_less_nat_alt unat_mod unat_sub sb s_def [symmetric])
    then show ?thesis
      using line_goes_on [OF sm] assms(1) by (simp add: coordinate_def s_def m_def stride(2) [symmetric])
  qed
  have loop: "for_step s ?N (\<lambda>i. for_each (\<lambda>j. line_node tf dir_BACK dir_FORWARD (of_nat k) nodes (i + j) j
        (of_nat (i + j) mod b < b - stride)) [0 ..< s]) 0 x =
      for_each (\<lambda>i. line_node tf dir_BACK dir_FORWARD (of_nat k) nodes i (i mod s) (coordinate ?sizes k i + 1 < ?sizes ! k))
        [0 ..< ?N] x" for x
    unfolding for_step_all [OF sm(1) s_dvd] by (rule for_each_cong) (simp add: go del: of_nat_add)
  have "b \<noteq> 0" using sb sm by auto
  then show ?thesis
    unfolding install_dimension_def b(1)
    by (simp add: stride(1) stride(2) [symmetric] s_def [symmetric] ns_assert_def loop pass_along_def del: of_nat_add)
qed

lemma install_dimensions_mesh:
  assumes "ready d0 base nodes st" "factories_ok tf" "n \<le> length sizes" "length sizes \<le> 2 ^ 31"
    "length nodes = prod_list (map unat sizes)" "0 < length nodes" "length nodes < 2 ^ 32"
  shows "\<exists>st'. for_each (install_dimension tf sizes nodes) [0 ..< n] st = Some st' \<and> ready d0 base nodes st' \<and>
    in_nextDevice st' \<le> in_nextDevice st + n * (length nodes * 2) \<and>
    network st' = network st @ concat (map (mesh_links (map unat sizes) nodes) [0 ..< n])"
proof (rule for_each_total)
  fix k s
  assume "k < n" "ready d0 base nodes s \<and> in_nextDevice s \<le> in_nextDevice st + k * (length nodes * 2) \<and> network s = network st @ concat (map (mesh_links (map unat sizes) nodes) [0 ..< k])"
  then show "\<exists>s'. install_dimension tf sizes nodes k s = Some s' \<and> ready d0 base nodes s' \<and>
      in_nextDevice s' \<le> in_nextDevice st + Suc k * (length nodes * 2) \<and>
      network s' = network st @ concat (map (mesh_links (map unat sizes) nodes) [0 ..< Suc k])"
    using pass_along_mesh [of d0 base nodes s tf k "map unat sizes"] install_dimension_pass [of k sizes nodes tf s] assms
    by fastforce
qed (use assms(1) in simp)

section \<open>The installed network\<close>

definition empty_store :: "installer \<Rightarrow> bool" where
  "empty_store st \<longleftrightarrow> (let w = in_world st in
     in_nextChannel st = 0 \<and> w_events w = [] \<and> (\<forall>c. idle_channel (w_channels w c) \<and> devices_of w c = []) \<and>
     (\<forall>d. holds_nothing (w_devices w d) \<and> nd_channel (w_devices w d) = None) \<and> (\<forall>n. n_router (w_nodes w n) = None))"

lemma empty_store_ok:
  assumes "empty_store st"
  shows "store_ok (in_nextDevice st) (ucast (in_id st) + 1 - of_nat (in_nextDevice st)) st" "routed st" "network st = []"
  using assms by (simp_all add: empty_store_def store_ok_def routed_def network_def Let_def)

lemma store_net_ok:
  assumes "store_ok d0 base st" "\<forall>e \<in> set (network st). length e = 2" "in_nextDevice st \<le> d0 + 2 ^ 48"
  shows "net_ok {} (in_world st)"
proof -
  let ?w = "in_world st"
  have e: "\<And>d. holds_nothing (w_devices ?w d)" "\<And>c. idle_channel (w_channels ?w c)" "w_events ?w = []"
    using assms(1) by (simp_all add: store_ok_def Let_def)
  have idle: "in_queue ?w d = []" "nd_pktSrcDestMap (w_devices ?w d) = Map.empty"
    "nd_inQueue (w_devices ?w d) = Some q \<Longrightarrow> queue_ok q" for d q
    using e(1) [of d] by (auto simp: in_queue_def holds_nothing_def empty_queue_def split: option.splits)
  have two: "length (devices_of ?w c) = 2" if "nd_channel (w_devices ?w d) = Some c" for c d
  proof -
    have "d \<in> set (devices_of ?w c)"
      using store_index(1) [OF assms(1) that] index_of_none by (metis option.distinct(1))
    then have "c < in_nextChannel st" using store_index(2) [OF assms(1)] by (metis empty_iff empty_set not_le)
    then have "length (ends st c) = 2" using assms(2) by (simp add: network_def)
    then show ?thesis by (simp add: ends_def)
  qed
  have addresses: "distinct (map (\<lambda>d. nd_address (w_devices ?w d)) (devices_of ?w c))" for c
    unfolding distinct_map
  proof
    show "distinct (devices_of ?w c)" using assms(1) by (simp add: store_ok_def Let_def)
    show "inj_on (\<lambda>d. nd_address (w_devices ?w d)) (set (devices_of ?w c))"
    proof (rule inj_onI)
      fix d d' assume d: "d \<in> set (devices_of ?w c)" "d' \<in> set (devices_of ?w c)"
        and eq: "nd_address (w_devices ?w d) = nd_address (w_devices ?w d')"
      have mine: "d0 \<le> x \<and> x < in_nextDevice st \<and> nd_address (w_devices ?w x) = base + of_nat x" if "x \<in> set (devices_of ?w c)" for x
      proof -
        have "nd_channel (w_devices ?w x) \<noteq> None" using store_device_channel [OF assms(1) that] by simp
        then have "d0 \<le> x" "x < in_nextDevice st"
          using assms(1) by (auto simp: store_ok_def Let_def not_less [symmetric])
        then show ?thesis using assms(1) by (simp add: store_ok_def Let_def)
      qed
      have b: "d - d0 < 2 ^ 48" "d' - d0 < 2 ^ 48" using mine [OF d(1)] mine [OF d(2)] assms(3) by auto
      have "(of_nat (d - d0) :: mac48) = of_nat (d' - d0)" using mine [OF d(1)] mine [OF d(2)] eq by (simp add: of_nat_diff)
      then have "unat (of_nat (d - d0) :: mac48) = unat (of_nat (d' - d0) :: mac48)" by simp
      then have "d - d0 = d' - d0" using b by (simp only: unat_of_nat) simp
      then show "d = d'" using mine [OF d(1)] mine [OF d(2)] by linarith
    qed
  qed
  have "wiring_ok ?w" unfolding wiring_ok_def
    using store_device_channel [OF assms(1)] store_index(1) [OF assms(1)] two addresses e(2)
    by (simp add: idle_channel_def)
  moreover have "queues_ok ?w" unfolding queues_ok_def idle(1,2) using idle(3) by auto
  moreover have "entries_ok ?w" using e(2) by (auto simp: entries_ok_def idle_channel_def less_2_cases_iff)
  moreover have "links_ok {} ?w"
    using e(2,3) by (auto simp: links_ok_def flights_def flight_list_def idle_channel_def less_2_cases_iff)
  ultimately show ?thesis by (simp add: net_ok_def)
qed

lemma mesh_two_ends: "e \<in> set (mesh sizes nodes) \<Longrightarrow> length e = 2"
  by (auto simp: mesh_def mesh_links_def link_ends_def)

lemma install_mesh:
  assumes "empty_store st" "factories_ok tf" "length nodes = prod_list (map unat sizes)" "nodes \<noteq> []"
    "length nodes < 2 ^ 32" "length sizes \<le> 2 ^ 31"
  shows "\<exists>st'. NocMeshND_Install tf sizes nodes st = Some st' \<and> network st' = mesh (map unat sizes) nodes \<and>
    ready (in_nextDevice st) (ucast (in_id st) + 1 - of_nat (in_nextDevice st)) nodes st' \<and>
    in_nextDevice st' \<le> in_nextDevice st + length nodes * (3 + 2 * length sizes)"
proof -
  let ?d0 = "in_nextDevice st"
  let ?base = "ucast (in_id st) + 1 - of_nat ?d0 :: mac48"
  note e = empty_store_ok [OF assms(1)]
  have "four_way_kind (tf_router tf)" using assms(2) by (simp add: factories_ok_def)
  with install_routers_routed [OF e(2), of tf nodes] obtain s1 where
    s1: "for_each (install_router tf) nodes st = Some s1" "routed s1" "\<forall>n \<in> set nodes. router_of s1 n \<noteq> None" by blast
  have g: "grows ?d0 ?base st s1" by (rule install_routers_grows [OF e(1) s1(1)])
  then have r: "ready ?d0 ?base nodes s1" using s1(2,3) grows_store by (auto simp: ready_def)
  have "network s1 = []" using g e(3) by (simp add: grows_def network_def)
  moreover obtain st' where "for_each (install_dimension tf sizes nodes) [0 ..< length sizes] s1 = Some st'"
    "ready ?d0 ?base nodes st'" "in_nextDevice st' \<le> in_nextDevice s1 + length sizes * (length nodes * 2)"
    "network st' = network s1 @ mesh (map unat sizes) nodes"
    using install_dimensions_mesh [OF r assms(2) order_refl assms(6,3)] assms(4,5) by (auto simp: mesh_def)
  moreover have "in_nextDevice s1 \<le> in_nextDevice st + length nodes * 3"
    using for_each_counts [OF s1(1), where f = in_nextDevice and b = 3] install_router_counts by blast
  ultimately show ?thesis using s1(1) by (simp add: NocMeshND_Install_def algebra_simps)
qed

text \<open>C19: on a store without channels \<^verbatim>\<open>NocMeshND::Install\<close> ends, and the channels it makes are the
  edges of the mesh, dimension by dimension, each with its \<^verbatim>\<open>FORWARD\<close> device at the node with the lower
  coordinate and its \<^verbatim>\<open>BACK\<close> device at the other. The nodes are as many as the sizes say, and the
  routers are of the four-way classes.\<close>

theorem mesh_installed:
  assumes "empty_store st" "factories_ok tf" "length nodes = prod_list (map unat sizes)" "nodes \<noteq> []"
    "length nodes < 2 ^ 32" "length sizes \<le> 2 ^ 31"
  shows "\<exists>st'. NocMeshND_Install tf sizes nodes st = Some st' \<and> network st' = mesh (map unat sizes) nodes"
  using install_mesh [OF assms] by blast

text \<open>C20: the network that \<^verbatim>\<open>NocMeshND::Install\<close> builds has the invariant that carries its
  flits without loss: two devices on every channel, under different addresses, idle wires and empty queues. The
  addresses differ because so many nodes do not use up the 48 bits.\<close>

theorem installed_network_ok:
  assumes "empty_store st" "factories_ok tf" "length nodes = prod_list (map unat sizes)" "nodes \<noteq> []"
    "length nodes < 2 ^ 32" "length nodes * (3 + 2 * length sizes) \<le> 2 ^ 48" "length sizes \<le> 2 ^ 31"
    "NocMeshND_Install tf sizes nodes st = Some st'"
  shows "net_ok {} (in_world st')"
proof -
  from install_mesh [OF assms(1-5,7)] assms(6,8) have "network st' = mesh (map unat sizes) nodes"
    "ready (in_nextDevice st) (ucast (in_id st) + 1 - of_nat (in_nextDevice st)) nodes st'"
    "in_nextDevice st' \<le> in_nextDevice st + 2 ^ 48" by auto
  then show ?thesis using store_net_ok mesh_two_ends by (auto simp: ready_def)
qed

text \<open>Two nodes and the factories of a four-way network.\<close>

definition bare_nodes :: installer where
  "bare_nodes = \<lparr>in_world = (blank_world 1)\<lparr>w_nodes := (\<lambda>n. \<lparr>n_id = of_nat n, n_router = None, n_devices = []\<rparr>)\<rparr>,
     in_nextDevice = 0, in_nextChannel = 0, in_nextRouter = 0, in_id = 0\<rparr>"

definition four_way_factories :: topology_factories where
  "four_way_factories = \<lparr>tf_router = Kind_FourWay, tf_routingProtocol = XyRouting True, tf_switchingProtocol = WormholeSwitching,
     tf_channel = w_channels (blank_world 1) 0, tf_inQueue = unlimited_queue\<rparr>"

lemma bare_nodes_empty: "empty_store bare_nodes"
  by (simp add: empty_store_def bare_nodes_def blank_world_def idle_channel_def holds_nothing_def empty_queue_def
      NocNetDevice_new_def Let_def)

lemma four_way_factories_ok: "factories_ok four_way_factories"
  by (simp add: factories_ok_def four_way_kind_def four_way_factories_def blank_world_def idle_channel_def)

section \<open>The meshes of fixed dimensions\<close>

lemma pass_along_cong:
  assumes "prod_list (take k sizes) = s" "x = replicate s None"
    "\<And>i. i < length nodes \<Longrightarrow> go i \<longleftrightarrow> coordinate sizes k i + 1 < sizes ! k"
  shows "Option.bind (for_each (\<lambda>i. line_node tf dir_BACK dir_FORWARD (of_nat k) nodes i (i mod s) (go i)) [0 ..< length nodes] (x, st))
      (\<lambda>(_, st). Some st) = pass_along tf sizes nodes k st"
proof -
  have "for_each (\<lambda>i. line_node tf dir_BACK dir_FORWARD (of_nat k) nodes i (i mod s) (go i)) [0 ..< length nodes] y =
      for_each (\<lambda>i. line_node tf dir_BACK dir_FORWARD (of_nat k) nodes i (i mod s) (coordinate sizes k i + 1 < sizes ! k))
        [0 ..< length nodes] y" for y
    by (rule for_each_cong) (simp add: assms(3))
  then show ?thesis by (simp add: pass_along_def assms(1,2))
qed

lemma horizontal_lines_pass:
  assumes "2 \<le> unat h" "sizes \<noteq> []" "sizes ! 0 = unat h" "length nodes < 2 ^ 32 - 1"
  shows "horizontal_lines tf h nodes st = pass_along tf sizes nodes 0 st"
proof -
  have h: "h \<noteq> 0" using assms(1) by auto
  have go: "i = 0 \<or> of_nat (i + 1) mod h \<noteq> 0 \<longleftrightarrow> coordinate sizes 0 i + 1 < sizes ! 0" if "i < length nodes" for i
  proof -
    have "unat (of_nat (i + 1) :: u32) = i + 1" using that assms(4) by (intro unat_index [of _ "length nodes + 1"]) simp_all
    then have word: "of_nat (i + 1) mod h = 0 \<longleftrightarrow> Suc i mod unat h = 0"
      by (simp add: unat_eq_0 [symmetric] unat_mod del: of_nat_add of_nat_Suc)
    have less: "i mod unat h < unat h" using assms(1) by simp
    have "i = 0 \<or> Suc i mod unat h \<noteq> 0 \<longleftrightarrow> i mod unat h + 1 < unat h"
    proof (cases "i = 0")
      case False
      then show ?thesis unfolding mod_Suc using less by (cases "Suc (i mod unat h) = unat h") simp_all
    qed (use assms(1) in simp)
    then show ?thesis unfolding word using assms(3) by (simp add: coordinate_def)
  qed
  have "horizontal_lines tf h nodes st = Option.bind (for_each (\<lambda>i. line_node tf dir_BACK dir_FORWARD (of_nat 0) nodes i (i mod 1)
      (i = 0 \<or> of_nat (i + 1) mod h \<noteq> 0)) [0 ..< length nodes] ([None], st)) (\<lambda>(_, st). Some st)"
    using h by (simp add: horizontal_lines_def ns_assert_def)
  also have "\<dots> = pass_along tf sizes nodes 0 st" by (rule pass_along_cong) (simp_all only: go, simp_all)
  finally show ?thesis .
qed

lemma columns_pass:
  assumes "prod_list (take k sizes) = unat step" "0 < unat step" "unat step dvd length nodes" "dimension = of_nat k"
    "\<And>i. i < length nodes \<Longrightarrow> goes_on (i - i mod unat step) = Some (coordinate sizes k i + 1 < sizes ! k)"
  shows "columns tf dimension goes_on step nodes st = pass_along tf sizes nodes k st"
proof -
  have "for_step (unat step) (length nodes) (\<lambda>i. for_each (\<lambda>j s. do {
         b \<leftarrow> goes_on i;
         line_node tf dir_BACK dir_FORWARD dimension nodes (i + j) j b s }) [0 ..< unat step]) 0 x =
      for_each (\<lambda>i. line_node tf dir_BACK dir_FORWARD (of_nat k) nodes i (i mod unat step) (coordinate sizes k i + 1 < sizes ! k))
        [0 ..< length nodes] x" for x
    unfolding for_step_all [OF assms(2,3)] by (rule for_each_cong) (simp add: assms(4,5))
  then show ?thesis by (simp add: columns_def pass_along_def assms(1) Let_def)
qed

lemma column_goes_on:
  assumes "0 < h" "0 < (v::nat)"
  shows "(p - p mod h) mod (h * v) < h * v - h \<longleftrightarrow> p div h mod v + 1 < v"
proof -
  have p: "p - p mod h = h * (p div h)" by (rule minus_mod_eq_mult_div)
  have "h * (p div h) mod (h * v) = h * (p div h mod v)" by (rule mult_mod_right [symmetric])
  moreover have "h * v - h = h * (v - 1)" by (simp add: diff_mult_distrib2)
  moreover have "h * (p div h mod v) < h * (v - 1) \<longleftrightarrow> p div h mod v < v - 1" using assms(1) by simp
  ultimately show ?thesis unfolding p by linarith
qed

text \<open>The last lines of all: the test of \<^verbatim>\<open>NocMesh2D\<close> for its columns, and of \<^verbatim>\<open>NocMesh3D\<close> for its third dimension.\<close>

lemma final_line:
  assumes "length nodes = s * m" "s = unat (S :: u32)" "0 < s" "0 < m" "length nodes < 2 ^ 32 - 1" "i < length nodes"
  shows "of_nat (i - i mod s) < (of_nat (length nodes) - S :: u32) \<longleftrightarrow> i div s mod m + 1 < m"
proof -
  have N: "unat (of_nat (length nodes) :: u32) = s * m" using assms(1,5) unat_index [of "length nodes" "Suc (length nodes)"] by simp
  have "S \<le> of_nat (length nodes)" using assms(2,4) by (simp add: word_le_nat_alt N)
  then have "of_nat (i - i mod s) < (of_nat (length nodes) - S :: u32) \<longleftrightarrow> i - i mod s < s * m - s"
    using unat_index [of "i - i mod s" "length nodes"] assms(2,5,6) by (simp add: word_less_nat_alt unat_sub N)
  moreover have "(i - i mod s) mod (s * m) = i - i mod s" using assms(1,6) by simp
  ultimately show ?thesis using column_goes_on [OF assms(3,4), of i] by simp
qed

lemma Mesh2D_agrees:
  assumes "length nodes = unat hSize * unat v" "2 \<le> unat hSize" "0 < unat v" "length nodes < 2 ^ 32 - 1"
  shows "NocMesh2D_Install tf hSize nodes st = NocMeshND_Install tf [ucast hSize, v] nodes st"
proof -
  let ?h = "unat hSize"
  let ?sizes = "[?h, unat v]"
  have H: "unat (ucast hSize :: u32) = ?h" using unsigned_less [of hSize, where 'a = nat]
    by (simp add: unsigned_ucast_eq take_bit_nat_eq_self_iff)
  have sizes: "map unat [ucast hSize, v] = ?sizes" by (simp add: H)
  have "install_dimension tf [ucast hSize, v] nodes k s = pass_along tf ?sizes nodes k s" if "k < 2" for k s
    using install_dimension_pass [of k "[ucast hSize, v]" nodes tf s] assms that unfolding sizes by simp
  moreover have "horizontal_lines tf (ucast hSize) nodes s = pass_along tf ?sizes nodes 0 s" for s
    by (rule horizontal_lines_pass) (use assms H in simp_all)
  moreover have "columns tf 1 (\<lambda>i. Some (of_nat i < (of_nat (length nodes) - ucast hSize :: u32))) (ucast hSize) nodes s =
      pass_along tf ?sizes nodes 1 s" for s
  proof (rule columns_pass)
    fix i assume i: "i < length nodes"
    have "of_nat (i - i mod ?h) < (of_nat (length nodes) - ucast hSize :: u32) \<longleftrightarrow> i div ?h mod unat v + 1 < unat v"
      using assms(2) by (intro final_line [OF assms(1) H [symmetric] _ assms(3,4) i]) simp
    then show "Some (of_nat (i - i mod unat (ucast hSize :: u32)) < (of_nat (length nodes) - ucast hSize :: u32)) =
        Some (coordinate ?sizes 1 i + 1 < ?sizes ! 1)"
      unfolding H coordinate_def by simp
  qed (use assms H in simp_all)
  ultimately show ?thesis
    using assms(4) by (simp add: NocMesh2D_Install_def NocMeshND_Install_def numeral_2_eq_2 cong: Option.bind_cong)
qed

lemma Mesh3D_agrees:
  assumes "length nodes = unat h * unat v * unat d" "2 \<le> unat h" "0 < unat v" "0 < unat d" "length nodes < 2 ^ 32 - 1"
  shows "NocMesh3D_Install tf h v nodes st = NocMeshND_Install tf [h, v, d] nodes st"
proof -
  let ?sizes = "[unat h, unat v, unat d]"
  have "unat h * unat v \<le> length nodes" using assms(1,4) by simp
  then have hv: "unat (h * v) = unat h * unat v" using assms(5) by (simp add: unat_word_ariths)
  have hv0: "h * v \<noteq> 0"
  proof
    assume "h * v = 0"
    then have "unat h * unat v = 0" using hv by simp
    then show False using assms(2,3) by simp
  qed
  have le: "h \<le> h * v" using assms(3) by (simp add: word_le_nat_alt hv)
  have "install_dimension tf [h, v, d] nodes k s = pass_along tf ?sizes nodes k s" if "k < 3" for k s
    using install_dimension_pass [of k "[h, v, d]" nodes tf s] assms that by (simp add: mult.assoc)
  moreover have "horizontal_lines tf h nodes s = pass_along tf ?sizes nodes 0 s" for s
    by (rule horizontal_lines_pass) (use assms in simp_all)
  moreover have "columns tf 1 (\<lambda>i. do {
         _ \<leftarrow> ns_assert (h * v \<noteq> 0);
         Some (of_nat i mod (h * v) < h * v - h) }) h nodes s = pass_along tf ?sizes nodes 1 s" for s
  proof (rule columns_pass)
    fix i assume i: "i < length nodes"
    have "of_nat (i - i mod unat h) mod (h * v) < h * v - h \<longleftrightarrow> i div unat h mod unat v + 1 < unat v"
    proof -
      have "unat (of_nat (i - i mod unat h) :: u32) = i - i mod unat h"
        using i assms(5) by (intro unat_index [of _ "length nodes"]) simp_all
      then have "of_nat (i - i mod unat h) mod (h * v) < h * v - h \<longleftrightarrow>
          (i - i mod unat h) mod (unat h * unat v) < unat h * unat v - unat h"
        unfolding word_less_nat_alt unat_mod unat_sub [OF le] hv by simp
      then show ?thesis using column_goes_on [of "unat h" "unat v" i] assms(2,3) by linarith
    qed
    then show "do { _ \<leftarrow> ns_assert (h * v \<noteq> 0); Some (of_nat (i - i mod unat h) mod (h * v) < h * v - h) } =
        Some (coordinate ?sizes 1 i + 1 < ?sizes ! 1)"
      using hv0 by (simp add: coordinate_def ns_assert_def)
  qed (use assms in simp_all)
  moreover have "columns tf 2 (\<lambda>i. Some (of_nat i < (of_nat (length nodes) - h * v :: u32))) (h * v) nodes s =
      pass_along tf ?sizes nodes 2 s" for s
  proof (rule columns_pass)
    fix i assume i: "i < length nodes"
    have "of_nat (i - i mod (unat h * unat v)) < (of_nat (length nodes) - h * v :: u32) \<longleftrightarrow>
        i div (unat h * unat v) mod unat d + 1 < unat d"
      using assms(2,3) by (intro final_line [OF assms(1) hv [symmetric] _ assms(4,5) i]) simp
    then show "Some (of_nat (i - i mod unat (h * v)) < (of_nat (length nodes) - h * v :: u32)) =
        Some (coordinate ?sizes 2 i + 1 < ?sizes ! 2)"
      unfolding hv coordinate_def by simp
  qed (use assms in \<open>simp_all add: hv\<close>)
  ultimately show ?thesis
    using assms(5) by (simp add: NocMesh3D_Install_def NocMeshND_Install_def numeral_3_eq_3 numeral_2_eq_2 Let_def cong: Option.bind_cong)
qed

text \<open>C24: \<^verbatim>\<open>NocMesh2D::Install\<close> and \<^verbatim>\<open>NocMesh3D::Install\<close> do the same as \<^verbatim>\<open>NocMeshND::Install\<close> for
  the vector of their sizes, on every store, when there are at least two nodes in a line: the tests for the last node
  of a line, each written in its own way, are true at the same nodes.\<close>

theorem meshes_agree:
  assumes "2 \<le> unat hSize" "2 \<le> unat h" "0 < unat v" "0 < unat d" "length nodes < 2 ^ 32 - 1"
  shows "(length nodes = unat hSize * unat v \<longrightarrow>
      NocMesh2D_Install tf hSize nodes st = NocMeshND_Install tf [ucast hSize, v] nodes st) \<and>
    (length nodes = unat h * unat v * unat d \<longrightarrow>
      NocMesh3D_Install tf h v nodes st = NocMeshND_Install tf [h, v, d] nodes st)"
  using Mesh2D_agrees Mesh3D_agrees assms by blast

theorem meshes_agree_witness:
  "NocMesh2D_Install four_way_factories 2 [0, 1, 2, 3] bare_nodes = NocMeshND_Install four_way_factories [2, 2] [0, 1, 2, 3] bare_nodes \<and>
   NocMesh3D_Install four_way_factories 2 2 [0, 1, 2, 3] bare_nodes = NocMeshND_Install four_way_factories [2, 2, 1] [0, 1, 2, 3] bare_nodes"
  using meshes_agree [of 2 2 2 1 "[0, 1, 2, 3]" four_way_factories bare_nodes] by simp

theorem mesh_installed_witness:
  "\<exists>st'. NocMeshND_Install four_way_factories [2, 2] [0, 1, 2, 3] bare_nodes = Some st' \<and>
     network st' = [[(Some 0, dir_FORWARD, 0), (Some 1, dir_BACK, 0)], [(Some 2, dir_FORWARD, 0), (Some 3, dir_BACK, 0)],
       [(Some 0, dir_FORWARD, 1), (Some 2, dir_BACK, 1)], [(Some 1, dir_FORWARD, 1), (Some 3, dir_BACK, 1)]]"
  using mesh_installed [OF bare_nodes_empty four_way_factories_ok, of "[0, 1, 2, 3]" "[2, 2]"]
  by (simp add: mesh_def mesh_links_def link_ends_def coordinate_def upt_rec)

theorem installed_network_ok_witness:
  "\<exists>st'. NocMeshND_Install four_way_factories [2, 2] [0, 1, 2, 3] bare_nodes = Some st' \<and> net_ok {} (in_world st')"
proof -
  obtain st' where "NocMeshND_Install four_way_factories [2, 2] [0, 1, 2, 3] bare_nodes = Some st'"
    using install_mesh [OF bare_nodes_empty four_way_factories_ok, of "[0, 1, 2, 3]" "[2, 2]"] by auto
  with installed_network_ok [OF bare_nodes_empty four_way_factories_ok, of "[0, 1, 2, 3]" "[2, 2]" st'] show ?thesis by simp
qed

end
