(* ===== verification/Relative_Positions.thy ===== *)
theory Relative_Positions
  imports Noc_Installed
begin

text \<open>
  \<^verbatim>\<open>GetDestinationRelativeDimensionalPosition\<close> of the topologies: the bytes that the applications put into
  the header of a packet. The coordinates of a node come from its number. A division by zero stops the
  program. The second half follows a packet with such a header through the network that the topology
  installs.
\<close>

section \<open>The functions of the topologies\<close>

text \<open>\<^verbatim>\<open>relative = DIRECTION_BIT_MASK\<close> if the destination lies back, and then
  \<^verbatim>\<open>relative = relative | std::abs (offset)\<close>.\<close>

definition relative_byte :: "bool \<Rightarrow> int \<Rightarrow> u8" where
  "relative_byte back offset = (if back then DIRECTION_BIT_MASK else 0) OR word_of_int \<bar>offset\<bar>"

text \<open>One dimension of a mesh whose coordinates are in 32 bits.\<close>

definition line_byte :: "u32 \<Rightarrow> u32 \<Rightarrow> u8" where
  "line_byte source destination = relative_byte (destination < source) (sint (destination - source))"

text \<open>One dimension of a torus: \<open>diff\<close> is the destination less the source, \<open>m\<close> the size that the offset is
  taken modulo, \<open>ring\<close> the one that is halved and taken off.\<close>

definition ring_byte :: "u32 \<Rightarrow> u32 \<Rightarrow> u32 \<Rightarrow> u8 option" where
  "ring_byte diff m ring = do {
     _ \<leftarrow> ns_assert (m \<noteq> 0);
     let offset = (if sint diff \<ge> 0 then diff mod m else (m + diff) mod m);
     let offset = (if sint offset > sint (ring div 2) then offset - ring else offset);
     Some (relative_byte (sint offset < 0) (sint offset))
   }"

text \<open>Two dimensions with coordinates in 8 bits, for the meshes whose \<^verbatim>\<open>m_hSize\<close> is of 8 bits or an \<^verbatim>\<open>int\<close>.\<close>

definition planar_positions :: "u32 \<Rightarrow> u32 \<Rightarrow> u32 \<Rightarrow> u8 list option" where
  "planar_positions hSize sourceNodeId destinationNodeId = do {
     _ \<leftarrow> ns_assert (hSize \<noteq> 0);
     let sourceX = (ucast (sourceNodeId mod hSize) :: u8);
     let sourceY = (ucast (sourceNodeId div hSize) :: u8);
     let destinationX = (ucast (destinationNodeId mod hSize) :: u8);
     let destinationY = (ucast (destinationNodeId div hSize) :: u8);
     Some [relative_byte (destinationX < sourceX) (uint destinationX - uint sourceX),
       relative_byte (destinationY < sourceY) (uint destinationY - uint sourceY)]
   }"

definition NocMesh2D_GetDestinationRelativeDimensionalPosition :: "u8 \<Rightarrow> u32 \<Rightarrow> u32 \<Rightarrow> u8 list option" where
  "NocMesh2D_GetDestinationRelativeDimensionalPosition hSize = planar_positions (ucast hSize)"

definition NocIrvineMesh2D_GetDestinationRelativeDimensionalPosition :: "int \<Rightarrow> u32 \<Rightarrow> u32 \<Rightarrow> u8 list option" where
  "NocIrvineMesh2D_GetDestinationRelativeDimensionalPosition hSize = planar_positions (word_of_int hSize)"

text \<open>The coordinates in a network of three dimensions: those of the source stay in 32 bits, those of the
  destination are cut to 8.\<close>

definition solid_coordinates :: "u32 \<Rightarrow> u32 \<Rightarrow> u32 \<Rightarrow> (u32 \<times> u32 \<times> u32) option" where
  "solid_coordinates hSize vSize nodeId = do {
     _ \<leftarrow> ns_assert (hSize \<noteq> 0 \<and> hSize * vSize \<noteq> 0 \<and> vSize \<noteq> 0);
     Some (nodeId mod hSize, nodeId mod (hSize * vSize) div hSize, nodeId div hSize div vSize)
   }"

abbreviation low_byte :: "u32 \<Rightarrow> u32" where
  "low_byte x \<equiv> ucast (ucast x :: u8)"

definition NocMesh3D_GetDestinationRelativeDimensionalPosition :: "u32 \<Rightarrow> u32 \<Rightarrow> u32 \<Rightarrow> u32 \<Rightarrow> u8 list option" where
  "NocMesh3D_GetDestinationRelativeDimensionalPosition hSize vSize sourceNodeId destinationNodeId = do {
     (sourceX, sourceY, sourceZ) \<leftarrow> solid_coordinates hSize vSize sourceNodeId;
     (destinationX, destinationY, destinationZ) \<leftarrow> solid_coordinates hSize vSize destinationNodeId;
     Some [line_byte sourceX (low_byte destinationX), line_byte sourceY (low_byte destinationY),
       line_byte sourceZ (low_byte destinationZ)]
   }"

text \<open>The coordinates in a network of any number of dimensions.\<close>

definition coordinate_of :: "u32 list \<Rightarrow> u32 \<Rightarrow> nat \<Rightarrow> u32 option" where
  "coordinate_of sizes nodeId k = do {
     n \<leftarrow> NocMeshND_GetNumberOfNodes sizes k;
     m \<leftarrow> vec_at sizes k;
     _ \<leftarrow> ns_assert (n \<noteq> 0 \<and> m \<noteq> 0);
     Some (nodeId div n mod m)
   }"

definition NocMeshND_GetDestinationRelativeDimensionalPosition :: "u32 list \<Rightarrow> u32 \<Rightarrow> u32 \<Rightarrow> u8 list option" where
  "NocMeshND_GetDestinationRelativeDimensionalPosition sizes sourceNodeId destinationNodeId = do {
     source \<leftarrow> those (map (coordinate_of sizes sourceNodeId) [0 ..< length sizes]);
     destination \<leftarrow> those (map (coordinate_of sizes destinationNodeId) [0 ..< length sizes]);
     Some (map2 line_byte source destination)
   }"

text \<open>\<open>n\<close> is \<^verbatim>\<open>m_nodes.GetN ()\<close>.\<close>

definition NocTorus2D_GetDestinationRelativeDimensionalPosition ::
    "u32 \<Rightarrow> u32 \<Rightarrow> u32 \<Rightarrow> u32 \<Rightarrow> u32 \<Rightarrow> u8 list option" where
  "NocTorus2D_GetDestinationRelativeDimensionalPosition hSize vSize n sourceNodeId destinationNodeId = do {
     _ \<leftarrow> ns_assert (hSize \<noteq> 0);
     let sourceX = low_byte (sourceNodeId mod hSize);
     let sourceY = low_byte (sourceNodeId div hSize);
     let destinationX = low_byte (destinationNodeId mod hSize);
     let destinationY = low_byte (destinationNodeId div hSize);
     relativeX \<leftarrow> ring_byte (destinationX - sourceX) hSize hSize;
     relativeY \<leftarrow> ring_byte (destinationY - sourceY) vSize (n div hSize);
     Some [relativeX, relativeY]
   }"

definition NocTorus3D_GetDestinationRelativeDimensionalPosition ::
    "u32 \<Rightarrow> u32 \<Rightarrow> u32 \<Rightarrow> u32 \<Rightarrow> u32 \<Rightarrow> u8 list option" where
  "NocTorus3D_GetDestinationRelativeDimensionalPosition hSize vSize n sourceNodeId destinationNodeId = do {
     (sourceX, sourceY, sourceZ) \<leftarrow> solid_coordinates hSize vSize sourceNodeId;
     (destinationX, destinationY, destinationZ) \<leftarrow> solid_coordinates hSize vSize destinationNodeId;
     relativeX \<leftarrow> ring_byte (low_byte destinationX - sourceX) hSize hSize;
     relativeY \<leftarrow> ring_byte (low_byte destinationY - sourceY) vSize vSize;
     relativeZ \<leftarrow> ring_byte (low_byte destinationZ - sourceZ) (n div hSize div vSize) (n div hSize div vSize);
     Some [relativeX, relativeY, relativeZ]
   }"

definition NocTorusND_GetDestinationRelativeDimensionalPosition :: "u32 list \<Rightarrow> u32 \<Rightarrow> u32 \<Rightarrow> u8 list option" where
  "NocTorusND_GetDestinationRelativeDimensionalPosition sizes sourceNodeId destinationNodeId = do {
     source \<leftarrow> those (map (coordinate_of sizes sourceNodeId) [0 ..< length sizes]);
     destination \<leftarrow> those (map (coordinate_of sizes destinationNodeId) [0 ..< length sizes]);
     those (map (\<lambda>(s, d, m). ring_byte (d - s) m m) (zip source (zip destination sizes)))
   }"

section \<open>What the bytes say\<close>

lemma relative_byte_hops:
  assumes "\<bar>n\<bar> < 128"
  shows "hops (relative_byte b n) = nat \<bar>n\<bar>" "goes_back (relative_byte b n) \<longleftrightarrow> b"
proof -
  let ?v = "word_of_int \<bar>n\<bar> :: u8"
  have "take_bit 8 \<bar>n\<bar> = \<bar>n\<bar>" by (rule take_bit_int_eq_self) (use assms in simp_all)
  then have "uint ?v = \<bar>n\<bar>" unfolding unsigned_of_int by simp
  then have v: "unat ?v = nat \<bar>n\<bar>" by (simp flip: nat_uint_eq)
  then have "relative_byte b n = with_offset (if b then 128 else 0) ?v"
    by (simp add: relative_byte_def with_offset_def goes_back_def or.commute)
  moreover have "unat ?v < 128" using v assms by linarith
  ultimately show "hops (relative_byte b n) = nat \<bar>n\<bar>" "goes_back (relative_byte b n) \<longleftrightarrow> b"
    using with_offset_small [of ?v "if b then 128 else 0"] v by (simp_all add: goes_back_def)
qed

lemma relative_byte_displacement:
  "\<bar>n\<bar> < 128 \<Longrightarrow> (b \<longleftrightarrow> n < 0) \<Longrightarrow> displacement (relative_byte b n) = n"
  using relative_byte_hops [of n b] by (simp add: displacement_def hop_sign_def)

text \<open>The byte of a mesh from the coordinates, as numbers.\<close>

definition mesh_byte :: "nat \<Rightarrow> nat \<Rightarrow> u8" where
  "mesh_byte a b = relative_byte (b < a) (int b - int a)"

lemma mesh_byte_displacement: "a < 128 \<Longrightarrow> b < 128 \<Longrightarrow> displacement (mesh_byte a b) = int b - int a"
  unfolding mesh_byte_def by (rule relative_byte_displacement) auto

lemma diff_bounds:
  "(x :: nat) < 2 ^ 31 \<Longrightarrow> y < 2 ^ 31 \<Longrightarrow> - (2 ^ 31) \<le> int y - int x"
  "(x :: nat) < 2 ^ 31 \<Longrightarrow> y < 2 ^ 31 \<Longrightarrow> int y - int x < 2 ^ 31"
  by simp_all

lemma sint_diff:
  fixes a b :: u32
  assumes "unat a < 2 ^ 31" "unat b < 2 ^ 31"
  shows "sint (b - a) = int (unat b) - int (unat a)"
proof -
  have u: "uint a = int (unat a)" "uint b = int (unat b)" by simp_all
  have "- (2 ^ 31) \<le> int (unat b) - int (unat a)" "int (unat b) - int (unat a) < 2 ^ 31" by (rule diff_bounds [OF assms])+
  then have "signed_take_bit 31 (int (unat b) - int (unat a)) = int (unat b) - int (unat a)"
    by (rule signed_take_bit_int_eq_self)
  moreover have "sint (b - a) = signed_take_bit 31 (uint (b - a))" by (simp add: sint_uint)
  moreover have "uint (b - a) = take_bit 32 (uint b - uint a)" by (simp add: uint_word_ariths take_bit_eq_mod)
  ultimately show ?thesis unfolding u by (simp add: signed_take_bit_take_bit)
qed

lemma line_byte_eq:
  "unat a < 2 ^ 31 \<Longrightarrow> unat b < 2 ^ 31 \<Longrightarrow> line_byte a b = mesh_byte (unat a) (unat b)"
  by (simp add: line_byte_def mesh_byte_def sint_diff word_less_nat_alt)

text \<open>The offset on a ring of \<open>m\<close> nodes: the residue, or the negative one if that is shorter.\<close>

definition ring_offset :: "nat \<Rightarrow> nat \<Rightarrow> nat \<Rightarrow> int" where
  "ring_offset m a b = (let n = (int b - int a) mod int m in if n > int m div 2 then n - int m else n)"

definition torus_byte :: "nat \<Rightarrow> nat \<Rightarrow> nat \<Rightarrow> u8" where
  "torus_byte m a b = relative_byte (ring_offset m a b < 0) (ring_offset m a b)"

lemma ring_offset_bound: "0 < m \<Longrightarrow> \<bar>ring_offset m a b\<bar> \<le> int m div 2"
proof -
  assume "0 < m"
  then have "0 \<le> (int b - int a) mod int m" "(int b - int a) mod int m < int m" by simp_all
  then show ?thesis by (simp add: ring_offset_def Let_def) linarith
qed

lemma ring_offset_leads: "(int a + ring_offset m a b) mod int m = int b mod int m"
proof -
  have "(int a + ring_offset m a b) mod int m = (int a + (int b - int a) mod int m) mod int m"
    by (simp add: ring_offset_def Let_def add_diff_eq)
  also have "\<dots> = int b mod int m" by (simp add: mod_add_right_eq)
  finally show ?thesis .
qed

lemma ring_offset_shortest:
  assumes "0 < m" "(int a + x) mod int m = int b mod int m"
  shows "\<bar>ring_offset m a b\<bar> \<le> \<bar>x\<bar>"
proof -
  have "(int a + x) mod int m = (int a + ring_offset m a b) mod int m" using assms(2) ring_offset_leads by simp
  then have "int m dvd x - ring_offset m a b" by (simp add: mod_eq_dvd_iff)
  then obtain q where q: "x = ring_offset m a b + int m * q" by (metis add_diff_cancel_left' diff_add_cancel dvdE add.commute)
  note b = ring_offset_bound [OF assms(1), of a b]
  show ?thesis
  proof (cases "q = 0")
    case False
    then have "1 \<le> \<bar>q\<bar>" by linarith
    then have "int m * 1 \<le> int m * \<bar>q\<bar>" by (intro mult_left_mono) simp_all
    then have "int m \<le> \<bar>int m * q\<bar>" by (simp add: abs_mult)
    moreover have "\<bar>int m * q\<bar> \<le> \<bar>x\<bar> + \<bar>ring_offset m a b\<bar>" unfolding q by linarith
    ultimately show ?thesis using b by linarith
  qed (simp add: q)
qed

lemma torus_byte_displacement: "0 < m \<Longrightarrow> m < 256 \<Longrightarrow> displacement (torus_byte m a b) = ring_offset m a b"
  unfolding torus_byte_def using ring_offset_bound [of m a b] by (intro relative_byte_displacement) linarith+

section \<open>The functions compute these bytes\<close>

lemma sint_word: "unat (a :: u32) < 2 ^ 31 \<Longrightarrow> sint a = int (unat a)"
  using sint_diff [of 0 a] by simp

lemma unat_add_diff:
  fixes a b m :: u32
  assumes "unat m < 2 ^ 31" "unat b < 2 ^ 31" "unat a \<le> unat m + unat b"
  shows "unat (m + (b - a)) = unat m + unat b - unat a"
proof -
  have mb: "unat (m + b) = unat m + unat b" using assms(1,2) by (simp add: unat_word_ariths)
  then have "a \<le> m + b" using assms(3) by (simp add: word_le_nat_alt)
  then show ?thesis using mb unat_sub [of a "m + b"] by (simp add: add_diff_eq)
qed

text \<open>The arithmetic on numbers.\<close>

lemma residue:
  fixes x y m :: nat
  assumes "x < m" "y < m"
  shows "(int y - int x) mod int m = (if x \<le> y then int (y - x) else int (m + y - x))"
proof (cases "x \<le> y")
  case True
  then have "(int y - int x) mod int m = int ((y - x) mod m)" by (simp add: of_nat_diff zmod_int)
  with True assms show ?thesis by simp
next
  case False
  have "(int y - int x) mod int m = (int y - int x + int m) mod int m" by simp
  also have "\<dots> = int y - int x + int m" using False assms by (intro mod_pos_pos_trivial) linarith+
  finally show ?thesis using False assms by simp
qed

lemma ring_byte_eq:
  assumes "unat a < unat m" "unat b < unat m" "unat m < 2 ^ 31"
  shows "ring_byte (b - a) m m = Some (torus_byte (unat m) (unat a) (unat b))"
proof -
  define x y M where "x = unat a" and "y = unat b" and "M = unat m"
  note xyM = assms [folded x_def y_def M_def]
  define offset where "offset = (if sint (b - a) \<ge> 0 then (b - a) mod m else (m + (b - a)) mod m)"
  define o' where "o' = (if x \<le> y then y - x else M + y - x)"
  have r: "(int y - int x) mod int M = int o'" using residue [OF xyM(1,2)] by (simp add: o'_def)
  have less: "o' < M" using xyM by (auto simp: o'_def)
  have "sint (b - a) = int y - int x" using xyM by (simp add: sint_diff x_def y_def)
  then have sign: "sint (b - a) \<ge> 0 \<longleftrightarrow> x \<le> y" by simp
  have offset: "unat offset = o'"
  proof (cases "x \<le> y")
    case True
    then have "unat (b - a) = y - x" by (simp add: unat_sub word_le_nat_alt x_def y_def)
    then show ?thesis using True sign less by (simp add: offset_def unat_mod o'_def M_def [symmetric])
  next
    case False
    then have "unat (m + (b - a)) = M + y - x" using unat_add_diff [of m b a] xyM by (simp add: x_def y_def M_def)
    then show ?thesis using False sign less by (simp add: offset_def unat_mod o'_def M_def [symmetric])
  qed
  have half: "sint (m div 2) = int (M div 2)" using sint_word [of "m div 2"] xyM by (simp add: unat_div M_def)
  have so: "sint offset = int o'" using sint_word [of offset] offset less xyM by simp
  have less_ring: "sint (offset - m) = int o' - int M"
    using sint_diff [of m offset] offset less xyM by (simp add: M_def)
  define offset' where "offset' = (if sint offset > sint (m div 2) then offset - m else offset)"
  have "sint offset' = ring_offset M x y"
    using so less_ring half by (simp add: offset'_def ring_offset_def r Let_def zdiv_int)
  moreover have "m \<noteq> 0" using xyM M_def by auto
  ultimately show ?thesis
    by (simp add: ring_byte_def ns_assert_def Let_def offset_def [symmetric] offset'_def [symmetric] torus_byte_def M_def x_def y_def)
qed

lemma those_map: "(\<And>x. x \<in> set xs \<Longrightarrow> f x = Some (g x)) \<Longrightarrow> those (map f xs) = Some (map g xs)"
  by (induction xs) auto

definition sizes_ok :: "u32 list \<Rightarrow> bool" where
  "sizes_ok sizes \<longleftrightarrow> 0 < prod_list (map unat sizes) \<and> prod_list (map unat sizes) < 2 ^ 32 \<and>
     (\<forall>m \<in> set sizes. unat m \<le> 256)"

lemma sizes_ok_nth: "sizes_ok sizes \<Longrightarrow> k < length sizes \<Longrightarrow> 0 < unat (sizes ! k) \<and> unat (sizes ! k) \<le> 256"
proof -
  assume s: "sizes_ok sizes" "k < length sizes"
  then have "sizes ! k \<in> set sizes" by simp
  moreover have "unat (sizes ! k) dvd prod_list (map unat sizes)"
    using prod_list_take_dvd [of "Suc k" "map unat sizes"] prod_list_take [of k "map unat sizes"] s(2)
    by (metis dvd_mult_right length_map nth_map)
  then have "unat (sizes ! k) \<noteq> 0" using s(1) by (metis dvd_0_left_iff less_irrefl sizes_ok_def)
  ultimately show ?thesis using s(1) by (simp add: sizes_ok_def)
qed

definition coordinate_word :: "u32 list \<Rightarrow> u32 \<Rightarrow> nat \<Rightarrow> u32" where
  "coordinate_word sizes nodeId k = the (coordinate_of sizes nodeId k)"

lemma coordinate_of_eq:
  assumes "sizes_ok sizes" "k < length sizes"
  shows "coordinate_of sizes nodeId k = Some (coordinate_word sizes nodeId k)"
    "unat (coordinate_word sizes nodeId k) = coordinate (map unat sizes) k (unat nodeId)"
    "unat (coordinate_word sizes nodeId k) < unat (sizes ! k)"
proof -
  obtain n where n: "NocMeshND_GetNumberOfNodes sizes k = Some n" "unat n = prod_list (take k (map unat sizes))"
    using GetNumberOfNodes_exact [of k sizes] assms by (auto simp: sizes_ok_def)
  have "0 < prod_list (take k (map unat sizes))"
    using prod_list_take_dvd [of k "map unat sizes"] assms(1) by (auto simp: sizes_ok_def intro!: gr0I)
  then have n0: "n \<noteq> 0" using n(2) by auto
  note m = sizes_ok_nth [OF assms]
  then have "sizes ! k \<noteq> 0" by auto
  then have c: "coordinate_of sizes nodeId k = Some (nodeId div n mod sizes ! k)"
    using n(1) n0 assms(2) by (simp add: coordinate_of_def vec_at_def ns_assert_def)
  then show "coordinate_of sizes nodeId k = Some (coordinate_word sizes nodeId k)"
    "unat (coordinate_word sizes nodeId k) = coordinate (map unat sizes) k (unat nodeId)"
    "unat (coordinate_word sizes nodeId k) < unat (sizes ! k)"
    using n(2) m assms(2) by (simp_all add: coordinate_word_def coordinate_def unat_mod unat_div)
qed

lemma MeshND_positions:
  assumes "sizes_ok sizes"
  shows "NocMeshND_GetDestinationRelativeDimensionalPosition sizes s d =
    Some (map (\<lambda>k. mesh_byte (coordinate (map unat sizes) k (unat s)) (coordinate (map unat sizes) k (unat d))) [0 ..< length sizes])"
proof -
  have those: "those (map (coordinate_of sizes x) [0 ..< length sizes]) = Some (map (coordinate_word sizes x) [0 ..< length sizes])" for x
    by (rule those_map) (simp add: coordinate_of_eq(1) [OF assms])
  have "line_byte (coordinate_word sizes s k) (coordinate_word sizes d k) =
      mesh_byte (coordinate (map unat sizes) k (unat s)) (coordinate (map unat sizes) k (unat d))" if "k < length sizes" for k
  proof -
    have "unat (coordinate_word sizes x k) < 2 ^ 31" for x
      using coordinate_of_eq(3) [OF assms that, of x] sizes_ok_nth [OF assms that] by simp
    then show ?thesis using line_byte_eq coordinate_of_eq(2) [OF assms that] by metis
  qed
  then have "map2 line_byte (map (coordinate_word sizes s) [0 ..< length sizes]) (map (coordinate_word sizes d) [0 ..< length sizes]) =
      map (\<lambda>k. mesh_byte (coordinate (map unat sizes) k (unat s)) (coordinate (map unat sizes) k (unat d))) [0 ..< length sizes]"
    by (intro nth_equalityI) simp_all
  then show ?thesis by (simp add: NocMeshND_GetDestinationRelativeDimensionalPosition_def those)
qed

lemma TorusND_positions:
  assumes "sizes_ok sizes"
  shows "NocTorusND_GetDestinationRelativeDimensionalPosition sizes s d =
    Some (map (\<lambda>k. torus_byte (unat (sizes ! k)) (coordinate (map unat sizes) k (unat s)) (coordinate (map unat sizes) k (unat d)))
      [0 ..< length sizes])"
proof -
  have those: "those (map (coordinate_of sizes x) [0 ..< length sizes]) = Some (map (coordinate_word sizes x) [0 ..< length sizes])" for x
    by (rule those_map) (simp add: coordinate_of_eq(1) [OF assms])
  have ring: "ring_byte (coordinate_word sizes d k - coordinate_word sizes s k) (sizes ! k) (sizes ! k) =
      Some (torus_byte (unat (sizes ! k)) (coordinate (map unat sizes) k (unat s)) (coordinate (map unat sizes) k (unat d)))"
    if "k < length sizes" for k
    using ring_byte_eq [of "coordinate_word sizes s k" "sizes ! k" "coordinate_word sizes d k"]
      coordinate_of_eq(2,3) [OF assms that] sizes_ok_nth [OF assms that] by simp
  have "zip (map (coordinate_word sizes s) [0 ..< length sizes]) (zip (map (coordinate_word sizes d) [0 ..< length sizes]) sizes) =
      map (\<lambda>k. (coordinate_word sizes s k, coordinate_word sizes d k, sizes ! k)) [0 ..< length sizes]"
    by (rule nth_equalityI) simp_all
  then show ?thesis
    by (simp add: NocTorusND_GetDestinationRelativeDimensionalPosition_def those comp_def) (rule those_map, simp add: ring)
qed

lemma unat_low_byte: "unat (x :: u32) < 256 \<Longrightarrow> unat (ucast x :: u8) = unat x"
  by (simp add: unsigned_ucast_eq take_bit_nat_eq_self)

lemma low_byte_same: "unat x < 256 \<Longrightarrow> low_byte x = x"
proof -
  assume x: "unat x < 256"
  have up: "unat (ucast b :: u32) = unat b" for b :: u8
    using unsigned_less [of b, where 'a = nat] by (simp add: unsigned_ucast_eq take_bit_nat_eq_self_iff)
  have "unat (low_byte x) = unat x" unfolding up by (rule unat_low_byte [OF x])
  then show ?thesis unfolding word_unat_eq_iff .
qed

lemma uint_low: "unat (x :: u32) < 256 \<Longrightarrow> uint (ucast x :: u8) = int (unat x)"
  using unat_low_byte [of x] by (metis of_nat_unat)

lemma low_less: "unat (x :: u32) < 256 \<Longrightarrow> unat (y :: u32) < 256 \<Longrightarrow> (ucast x :: u8) < ucast y \<longleftrightarrow> unat x < unat y"
  by (simp add: word_less_nat_alt unat_low_byte)

text \<open>In two and three dimensions.\<close>

lemma planar:
  assumes "unat x < unat h * unat v" "0 < unat h" "unat v \<le> 256" "unat h \<le> 256"
  shows "unat (x mod h) = coordinate [unat h, unat v] 0 (unat x)" "unat (x div h) = coordinate [unat h, unat v] 1 (unat x)"
    "unat (x mod h) < unat h" "unat (x div h) < unat v" "unat (x mod h) < 256" "unat (x div h) < 256"
proof -
  have d: "unat x div unat h < unat v" using assms(1) by (simp add: less_mult_imp_div_less mult.commute)
  have m: "unat x mod unat h < unat h" using assms(2) by simp
  show "unat (x mod h) = coordinate [unat h, unat v] 0 (unat x)" "unat (x div h) = coordinate [unat h, unat v] 1 (unat x)"
    "unat (x mod h) < unat h" "unat (x div h) < unat v"
    using d m by (simp_all add: coordinate_def unat_mod unat_div)
  then show "unat (x mod h) < 256" "unat (x div h) < 256" using assms(3,4) by linarith+
qed

lemma planar_positions_eq:
  assumes "0 < unat h" "unat h \<le> 256" "unat v \<le> 256" "unat s < unat h * unat v" "unat d < unat h * unat v"
  shows "planar_positions h s d = Some (map (\<lambda>k. mesh_byte (coordinate [unat h, unat v] k (unat s)) (coordinate [unat h, unat v] k (unat d))) [0 ..< 2])"
proof -
  note c = planar [OF assms(4,1,3,2)] planar [OF assms(5,1,3,2)]
  have "h \<noteq> 0" using assms(1) by auto
  then have "planar_positions h s d =
      Some [mesh_byte (unat (s mod h)) (unat (d mod h)), mesh_byte (unat (s div h)) (unat (d div h))]"
    using c(5,6,11,12) by (simp add: planar_positions_def ns_assert_def mesh_byte_def uint_low low_less Let_def del: of_nat_unat)
  then show ?thesis using c(1,2,7,8) by (simp add: numeral_2_eq_2)
qed

lemma Torus2D_positions:
  assumes "0 < unat h" "unat h \<le> 256" "unat v \<le> 256" "unat s < unat h * unat v" "unat d < unat h * unat v"
  shows "NocTorus2D_GetDestinationRelativeDimensionalPosition h v (h * v) s d =
    Some (map (\<lambda>k. torus_byte ([unat h, unat v] ! k) (coordinate [unat h, unat v] k (unat s)) (coordinate [unat h, unat v] k (unat d))) [0 ..< 2])"
proof -
  note c = planar [OF assms(4,1,3,2)] planar [OF assms(5,1,3,2)]
  have h: "h \<noteq> 0" using assms(1) by auto
  have "unat h * unat v \<le> 256 * 256" by (rule mult_le_mono [OF assms(2,3)])
  then have "unat (h * v) = unat h * unat v" by (simp add: unat_word_ariths)
  then have rows: "h * v div h = v" using assms(1) by (simp add: word_unat_eq_iff unat_div)
  have "NocTorus2D_GetDestinationRelativeDimensionalPosition h v (h * v) s d = do {
      x \<leftarrow> ring_byte (d mod h - s mod h) h h;
      y \<leftarrow> ring_byte (d div h - s div h) v v;
      Some [x, y] }"
    using h c(5,6,11,12)
    by (simp add: NocTorus2D_GetDestinationRelativeDimensionalPosition_def ns_assert_def low_byte_same rows Let_def)
  also have "\<dots> = Some [torus_byte (unat h) (unat (s mod h)) (unat (d mod h)), torus_byte (unat v) (unat (s div h)) (unat (d div h))]"
    using ring_byte_eq [OF c(3,9)] ring_byte_eq [OF c(4,10)] assms(2,3) by simp
  finally show ?thesis using c(1,2,7,8) by (simp add: numeral_2_eq_2)
qed

lemma solid:
  assumes "0 < unat h" "unat h \<le> 256" "0 < unat v" "unat v \<le> 256" "unat l \<le> 256" "unat x < unat h * unat v * unat l"
  shows "\<exists>a b c. solid_coordinates h v x = Some (a, b, c) \<and> unat a = coordinate [unat h, unat v, unat l] 0 (unat x) \<and>
    unat b = coordinate [unat h, unat v, unat l] 1 (unat x) \<and> unat c = coordinate [unat h, unat v, unat l] 2 (unat x) \<and>
    unat a < unat h \<and> unat b < unat v \<and> unat c < unat l"
proof -
  have "unat h * unat v \<le> 256 * 256" by (rule mult_le_mono [OF assms(2,4)])
  then have hv: "unat (h * v) = unat h * unat v" by (simp add: unat_word_ariths)
  have nz: "h \<noteq> 0" "v \<noteq> 0" using assms(1,3) by auto
  have "h * v \<noteq> 0"
  proof
    assume "h * v = 0"
    then have "unat h * unat v = 0" using hv by simp
    then show False using assms(1,3) by simp
  qed
  then have s: "solid_coordinates h v x = Some (x mod h, x mod (h * v) div h, x div h div v)"
    using nz by (simp add: solid_coordinates_def ns_assert_def)
  have "unat x mod (unat h * unat v) div unat h = unat x div unat h mod unat v"
    using assms(1) by (simp add: mod_mult2_eq)
  moreover have "unat x div unat h div unat v < unat l"
    unfolding div_mult2_eq [symmetric] using assms(6) by (simp add: less_mult_imp_div_less mult.commute)
  ultimately show ?thesis
    using s assms(1,3) by (simp add: unat_mod unat_div hv coordinate_def div_mult2_eq)
qed

lemma Mesh3D_positions:
  assumes "0 < unat h" "unat h \<le> 256" "0 < unat v" "unat v \<le> 256" "unat l \<le> 256"
    "unat s < unat h * unat v * unat l" "unat d < unat h * unat v * unat l"
  shows "NocMesh3D_GetDestinationRelativeDimensionalPosition h v s d = Some (map (\<lambda>k.
    mesh_byte (coordinate [unat h, unat v, unat l] k (unat s)) (coordinate [unat h, unat v, unat l] k (unat d))) [0 ..< 3])"
proof -
  obtain a b c where s: "solid_coordinates h v s = Some (a, b, c)" "unat a = coordinate [unat h, unat v, unat l] 0 (unat s)"
    "unat b = coordinate [unat h, unat v, unat l] 1 (unat s)" "unat c = coordinate [unat h, unat v, unat l] 2 (unat s)"
    "unat a < unat h" "unat b < unat v" "unat c < unat l" using solid [OF assms(1-6)] by blast
  obtain a' b' c' where d: "solid_coordinates h v d = Some (a', b', c')" "unat a' = coordinate [unat h, unat v, unat l] 0 (unat d)"
    "unat b' = coordinate [unat h, unat v, unat l] 1 (unat d)" "unat c' = coordinate [unat h, unat v, unat l] 2 (unat d)"
    "unat a' < unat h" "unat b' < unat v" "unat c' < unat l" using solid [OF assms(1-5,7)] by blast
  have low: "low_byte a' = a'" "low_byte b' = b'" "low_byte c' = c'" using d(5-7) assms(2,4,5) by (simp_all add: low_byte_same)
  have "NocMesh3D_GetDestinationRelativeDimensionalPosition h v s d =
      Some [mesh_byte (unat a) (unat a'), mesh_byte (unat b) (unat b'), mesh_byte (unat c) (unat c')]"
    using s(1,5-7) d(1,5-7) assms(2,4,5)
    by (simp add: NocMesh3D_GetDestinationRelativeDimensionalPosition_def low line_byte_eq)
  then show ?thesis by (simp add: s(2-4) d(2-4) numeral_3_eq_3 numeral_2_eq_2)
qed

lemma Torus3D_positions:
  assumes "0 < unat h" "unat h \<le> 256" "0 < unat v" "unat v \<le> 256" "unat l \<le> 256" "unat h * unat v * unat l < 2 ^ 32"
    "unat s < unat h * unat v * unat l" "unat d < unat h * unat v * unat l"
  shows "NocTorus3D_GetDestinationRelativeDimensionalPosition h v (h * v * l) s d = Some (map (\<lambda>k.
    torus_byte ([unat h, unat v, unat l] ! k) (coordinate [unat h, unat v, unat l] k (unat s))
      (coordinate [unat h, unat v, unat l] k (unat d))) [0 ..< 3])"
proof -
  obtain a b c where s: "solid_coordinates h v s = Some (a, b, c)" "unat a = coordinate [unat h, unat v, unat l] 0 (unat s)"
    "unat b = coordinate [unat h, unat v, unat l] 1 (unat s)" "unat c = coordinate [unat h, unat v, unat l] 2 (unat s)"
    "unat a < unat h" "unat b < unat v" "unat c < unat l" using solid [OF assms(1-5,7)] by blast
  obtain a' b' c' where d: "solid_coordinates h v d = Some (a', b', c')" "unat a' = coordinate [unat h, unat v, unat l] 0 (unat d)"
    "unat b' = coordinate [unat h, unat v, unat l] 1 (unat d)" "unat c' = coordinate [unat h, unat v, unat l] 2 (unat d)"
    "unat a' < unat h" "unat b' < unat v" "unat c' < unat l" using solid [OF assms(1-5,8)] by blast
  have low: "low_byte a' = a'" "low_byte b' = b'" "low_byte c' = c'" using d(5-7) assms(2,4,5) by (simp_all add: low_byte_same)
  have "unat h * unat v \<le> 256 * 256" by (rule mult_le_mono [OF assms(2,4)])
  then have "unat (h * v) = unat h * unat v" by (simp add: unat_word_ariths)
  then have "unat (h * v * l) = unat h * unat v * unat l" using assms(6) by (simp add: unat_word_ariths)
  then have layers: "h * v * l div h div v = l"
    using assms(1,3) by (simp add: word_unat_eq_iff unat_div mult.assoc)
  have "NocTorus3D_GetDestinationRelativeDimensionalPosition h v (h * v * l) s d =
      Some [torus_byte (unat h) (unat a) (unat a'), torus_byte (unat v) (unat b) (unat b'), torus_byte (unat l) (unat c) (unat c')]"
    using s(1) d(1) ring_byte_eq [OF s(5) d(5)] ring_byte_eq [OF s(6) d(6)] ring_byte_eq [OF s(7) d(7)] assms(2,4,5)
    by (simp add: NocTorus3D_GetDestinationRelativeDimensionalPosition_def low layers)
  then show ?thesis by (simp add: s(2-4) d(2-4) numeral_3_eq_3 numeral_2_eq_2)
qed

text \<open>C23: the topologies of two and three dimensions compute the same relative positions as those of any
  number of dimensions do for the vector of their sizes, the Irvine mesh as the other mesh, although each cuts its
  coordinates to other widths. No size is above 256.\<close>

theorem positions_agree:
  assumes "0 < unat h" "unat h < 256" "0 < unat v" "unat v \<le> 256" "0 < unat l" "unat l \<le> 256" "unat h * unat v * unat l < 2 ^ 32"
  shows "(unat s < unat h * unat v \<and> unat d < unat h * unat v \<longrightarrow>
      NocMesh2D_GetDestinationRelativeDimensionalPosition (ucast h) s d =
        NocMeshND_GetDestinationRelativeDimensionalPosition [h, v] s d \<and>
      NocIrvineMesh2D_GetDestinationRelativeDimensionalPosition (int (unat h)) s d =
        NocMeshND_GetDestinationRelativeDimensionalPosition [h, v] s d \<and>
      NocTorus2D_GetDestinationRelativeDimensionalPosition h v (h * v) s d =
        NocTorusND_GetDestinationRelativeDimensionalPosition [h, v] s d) \<and>
    (unat s < unat h * unat v * unat l \<and> unat d < unat h * unat v * unat l \<longrightarrow>
      NocMesh3D_GetDestinationRelativeDimensionalPosition h v s d =
        NocMeshND_GetDestinationRelativeDimensionalPosition [h, v, l] s d \<and>
      NocTorus3D_GetDestinationRelativeDimensionalPosition h v (h * v * l) s d =
        NocTorusND_GetDestinationRelativeDimensionalPosition [h, v, l] s d)"
proof -
  have "unat h * unat v * 1 \<le> unat h * unat v * unat l" by (rule mult_le_mono2) (use assms(5) in simp)
  then have "unat h * unat v < 2 ^ 32" using assms(7) by linarith
  then have ok: "sizes_ok [h, v]" "sizes_ok [h, v, l]" using assms by (simp_all add: sizes_ok_def mult.assoc)
  have nth: "unat ([h, v] ! k) = [unat h, unat v] ! k" if "k < 2" for k
    using that nth_map [of k "[h, v]" unat] by simp
  have nth3: "unat ([h, v, l] ! k) = [unat h, unat v, unat l] ! k" if "k < 3" for k
    using that nth_map [of k "[h, v, l]" unat] by simp
  have H: "ucast (ucast h :: u8) = h" "word_of_int (int (unat h)) = h" using low_byte_same [OF assms(2)] by simp_all
  show ?thesis
  proof (intro conjI impI; elim conjE)
    assume sd: "unat s < unat h * unat v" "unat d < unat h * unat v"
    have le: "unat h \<le> 256" using assms(2) by simp
    show "NocMesh2D_GetDestinationRelativeDimensionalPosition (ucast h) s d =
        NocMeshND_GetDestinationRelativeDimensionalPosition [h, v] s d"
      "NocIrvineMesh2D_GetDestinationRelativeDimensionalPosition (int (unat h)) s d =
        NocMeshND_GetDestinationRelativeDimensionalPosition [h, v] s d"
      unfolding NocMesh2D_GetDestinationRelativeDimensionalPosition_def NocIrvineMesh2D_GetDestinationRelativeDimensionalPosition_def
        H MeshND_positions [OF ok(1)] planar_positions_eq [OF assms(1) le assms(4) sd] by (simp_all add: numeral_2_eq_2)
    show "NocTorus2D_GetDestinationRelativeDimensionalPosition h v (h * v) s d =
        NocTorusND_GetDestinationRelativeDimensionalPosition [h, v] s d"
      unfolding TorusND_positions [OF ok(1)] Torus2D_positions [OF assms(1) le assms(4) sd] by (simp add: nth numeral_2_eq_2)
  next
    assume sd: "unat s < unat h * unat v * unat l" "unat d < unat h * unat v * unat l"
    have le: "unat h \<le> 256" using assms(2) by simp
    show "NocMesh3D_GetDestinationRelativeDimensionalPosition h v s d =
        NocMeshND_GetDestinationRelativeDimensionalPosition [h, v, l] s d"
      unfolding MeshND_positions [OF ok(2)] Mesh3D_positions [OF assms(1) le assms(3,4,6) sd] by (simp add: numeral_3_eq_3)
    show "NocTorus3D_GetDestinationRelativeDimensionalPosition h v (h * v * l) s d =
        NocTorusND_GetDestinationRelativeDimensionalPosition [h, v, l] s d"
      unfolding TorusND_positions [OF ok(2)] Torus3D_positions [OF assms(1) le assms(3,4,6,7) sd] by (simp add: nth3 numeral_3_eq_3)
  qed
qed

theorem positions_agree_witness:
  "NocMesh2D_GetDestinationRelativeDimensionalPosition 4 14 3 = NocMeshND_GetDestinationRelativeDimensionalPosition [4, 4] 14 3 \<and>
   NocTorus3D_GetDestinationRelativeDimensionalPosition 4 4 32 14 3 = NocTorusND_GetDestinationRelativeDimensionalPosition [4, 4, 2] 14 3"
  using positions_agree [of 4 4 2 14 3] by simp

text \<open>C22: the relative positions in a torus lead to the destination: in every dimension the offset, with its
  direction, takes the coordinate of the source to that of the destination around the ring, and no offset that does is
  shorter. So at most half of the ring is travelled.\<close>

theorem torus_shortest:
  assumes "sizes_ok sizes" "\<forall>m \<in> set sizes. unat m < 256"
  shows "\<exists>relative. NocTorusND_GetDestinationRelativeDimensionalPosition sizes s d = Some relative \<and> length relative = length sizes \<and>
    (\<forall>k < length sizes. let m = int (unat (sizes ! k)); a = int (coordinate (map unat sizes) k (unat s));
        b = int (coordinate (map unat sizes) k (unat d)); n = displacement (relative ! k) in
      (a + n) mod m = b \<and> \<bar>n\<bar> \<le> m div 2 \<and> (\<forall>x. (a + x) mod m = b \<longrightarrow> \<bar>n\<bar> \<le> \<bar>x\<bar>))"
proof -
  let ?c = "coordinate (map unat sizes)"
  have "let m = int (unat (sizes ! k)); a = int (?c k (unat s)); b = int (?c k (unat d));
      n = displacement (torus_byte (unat (sizes ! k)) (?c k (unat s)) (?c k (unat d))) in
      (a + n) mod m = b \<and> \<bar>n\<bar> \<le> m div 2 \<and> (\<forall>x. (a + x) mod m = b \<longrightarrow> \<bar>n\<bar> \<le> \<bar>x\<bar>)" if k: "k < length sizes" for k
  proof -
    let ?m = "unat (sizes ! k)"
    have m: "0 < ?m" "?m < 256" using sizes_ok_nth [OF assms(1) k] assms(2) k by auto
    have "?c k (unat d) < ?m" using coordinate_of_eq(2,3) [OF assms(1) k] by metis
    then have "?c k (unat d) mod ?m = ?c k (unat d)" by (rule mod_less)
    then have "int (?c k (unat d)) mod int ?m = int (?c k (unat d))" by (metis zmod_int)
    then show ?thesis
      using ring_offset_leads [of "?c k (unat s)" ?m "?c k (unat d)"] ring_offset_bound [OF m(1)] ring_offset_shortest [OF m(1)]
      unfolding Let_def torus_byte_displacement [OF m] by metis
  qed
  then show ?thesis by (simp add: TorusND_positions [OF assms(1)])
qed

theorem torus_shortest_witness:
  "\<exists>relative. NocTorusND_GetDestinationRelativeDimensionalPosition [4, 5] 0 19 = Some relative \<and>
     \<bar>displacement (relative ! 0)\<bar> \<le> 1 \<and> \<bar>displacement (relative ! 1)\<bar> \<le> 2"
proof -
  have ok: "sizes_ok [4, 5]" by (simp add: sizes_ok_def)
  obtain relative where r: "NocTorusND_GetDestinationRelativeDimensionalPosition [4, 5] 0 19 = Some relative"
    and "\<forall>k < 2. let m = int (unat ([4, 5 :: u32] ! k)); a = int (coordinate [4, 5] k 0); b = int (coordinate [4, 5] k 19);
        n = displacement (relative ! k) in
      (a + n) mod m = b \<and> \<bar>n\<bar> \<le> m div 2 \<and> (\<forall>x. (a + x) mod m = b \<longrightarrow> \<bar>n\<bar> \<le> \<bar>x\<bar>)"
    using torus_shortest [OF ok, of 0 19] by auto
  then have "\<forall>x. x mod 4 = 3 \<longrightarrow> \<bar>displacement (relative ! 0)\<bar> \<le> \<bar>x\<bar>" "\<bar>displacement (relative ! 1)\<bar> \<le> 2"
    by (auto simp: coordinate_def Let_def less_2_cases_iff)
  with r show ?thesis by (auto dest: spec [of _ "- 1"])
qed

end
