(* ===== verification/Mesh_Delivery.thy ===== *)
theory Mesh_Delivery
  imports Relative_Positions
begin

text \<open>
  Topology and routing together: the header that the mesh computes for a packet, routed by dimension order
  routing, takes it along channels that the mesh installed to the node it is for.
\<close>

section \<open>Steps in the mesh\<close>

text \<open>A channel between two nodes, seen from the first, which it leaves by the device of this dimension and
  direction, and a way along such channels.\<close>

definition joined :: "channel_end list list \<Rightarrow> node_ref \<Rightarrow> nat \<times> int \<Rightarrow> node_ref \<Rightarrow> bool" where
  "joined net a m b \<longleftrightarrow> (let
     x = (Some a, snd m, int (fst m));
     y = (Some b, NocRoutingProtocol_GetOpositeRoutingDirection (snd m), int (fst m))
   in [x, y] \<in> set net \<or> [y, x] \<in> set net)"

fun leads :: "channel_end list list \<Rightarrow> node_ref \<Rightarrow> (nat \<times> int) list \<Rightarrow> node_ref \<Rightarrow> bool" where
  "leads net a [] b \<longleftrightarrow> a = b"
| "leads net a (m # ms) b \<longleftrightarrow> (\<exists>c. joined net a m c \<and> leads net c ms b)"

lemma leads_append: "leads net a ms b \<Longrightarrow> leads net b ns c \<Longrightarrow> leads net a (ms @ ns) c"
  by (induction ms arbitrary: a) auto

definition stride :: "nat list \<Rightarrow> nat \<Rightarrow> nat" where
  "stride sizes k = prod_list (take k sizes)"

lemma coordinate_stride: "coordinate sizes k p = p div stride sizes k mod sizes ! k"
  by (simp add: coordinate_def stride_def)

lemma stride_Suc: "k < length sizes \<Longrightarrow> stride sizes (Suc k) = stride sizes k * sizes ! k"
  unfolding stride_def by (rule prod_list_take)

lemma stride_dvd: "j \<le> k \<Longrightarrow> stride sizes j dvd stride sizes k"
proof -
  assume "j \<le> k"
  then have "take j sizes = take j (take k sizes)" by (simp add: min_absorb1)
  then show ?thesis unfolding stride_def by (metis prod_list_take_dvd)
qed

lemma stride_pos: "0 < prod_list sizes \<Longrightarrow> 0 < stride sizes k"
  unfolding stride_def by (metis dvd_0_left_iff gr0I less_irrefl prod_list_take_dvd)

text \<open>A step changes one coordinate.\<close>

lemma coordinate_step:
  assumes "0 < prod_list sizes" "j < length sizes" "k < length sizes" "coordinate sizes k p + 1 < sizes ! k"
  shows "coordinate sizes j (p + stride sizes k) = coordinate sizes j p + (if j = k then 1 else 0)"
proof -
  let ?s = "stride sizes"
  note s = stride_pos [OF assms(1)]
  consider "j < k" | "j = k" | "k < j" by linarith
  then show ?thesis
  proof cases
    case 1
    obtain r where r: "?s k = ?s j * (sizes ! j * r)"
      using stride_dvd [of "Suc j" k sizes] 1 stride_Suc [OF assms(2)] by (auto simp: dvd_def mult.assoc)
    have "(p + ?s k) div ?s j = p div ?s j + sizes ! j * r" unfolding r using s [of j] by simp
    then show ?thesis using 1 by (simp add: coordinate_stride)
  next
    case 2
    have "(p + ?s k) div ?s k = Suc (p div ?s k)" using s [of k] by simp
    then show ?thesis using 2 assms(4) by (simp add: coordinate_stride mod_Suc)
  next
    case 3
    obtain r where r: "?s j = ?s k * sizes ! k * r"
      using stride_dvd [of "Suc k" j sizes] 3 stride_Suc [OF assms(3)] by (auto simp: dvd_def)
    have "(p + ?s k) div ?s k = Suc (p div ?s k)" using s [of k] by simp
    moreover have "Suc (p div ?s k) div sizes ! k = p div ?s k div sizes ! k"
      using assms(4) by (simp add: coordinate_stride div_Suc mod_Suc)
    ultimately have "(p + ?s k) div ?s j = p div ?s j" unfolding r div_mult2_eq by simp
    then show ?thesis using 3 by (simp add: coordinate_stride)
  qed
qed

lemma step_inside:
  assumes "0 < prod_list sizes" "k < length sizes" "coordinate sizes k p + 1 < sizes ! k" "p < prod_list sizes"
  shows "p + stride sizes k < prod_list sizes"
proof -
  let ?s = "stride sizes k"
  have m: "0 < sizes ! k" using assms(3) by simp
  note s = stride_pos [OF assms(1), of k]
  have "stride sizes (Suc k) dvd prod_list sizes" unfolding stride_def by (rule prod_list_take_dvd)
  then obtain t where t: "prod_list sizes = ?s * sizes ! k * t" by (auto simp: dvd_def stride_Suc [OF assms(2)])
  have "p mod (?s * sizes ! k) < ?s * sizes ! k - ?s" using assms(3) line_goes_on [OF s m] by (simp add: coordinate_stride)
  from line_next [OF this, of t] show ?thesis using assms(4) s m by (simp add: t)
qed

text \<open>Going back undoes a step.\<close>

lemma step_back:
  assumes "0 < prod_list sizes" "k < length sizes" "0 < coordinate sizes k p"
  shows "stride sizes k \<le> p" "coordinate sizes k (p - stride sizes k) + 1 = coordinate sizes k p"
    "coordinate sizes k p < sizes ! k"
proof -
  let ?s = "stride sizes k"
  note s = stride_pos [OF assms(1), of k]
  have "p div ?s \<noteq> 0" using assms(3) by (auto simp: coordinate_stride intro: gr0I)
  then show le: "?s \<le> p" using s by (simp add: div_eq_0_iff)
  have "sizes ! k \<noteq> 0"
  proof
    assume "sizes ! k = 0"
    then have "0 \<in> set sizes" using assms(2) by (metis nth_mem)
    then have "prod_list sizes = 0" by (simp add: prod_list_zero_iff)
    then show False using assms(1) by simp
  qed
  then show less: "coordinate sizes k p < sizes ! k" by (simp add: coordinate_stride)
  have "p div ?s = Suc ((p - ?s) div ?s)" using le s by (simp add: div_if)
  then have "coordinate sizes k p = Suc ((p - ?s) div ?s) mod sizes ! k" by (simp add: coordinate_stride)
  with assms(3) show "coordinate sizes k (p - ?s) + 1 = coordinate sizes k p"
    by (auto simp: mod_Suc coordinate_stride split: if_splits)
qed

lemma mesh_link:
  assumes "k < length sizes" "p < length nodes" "coordinate sizes k p + 1 < sizes ! k"
  shows "[(Some (nodes ! p), dir_FORWARD, int k), (Some (nodes ! (p + stride sizes k)), dir_BACK, int k)] \<in> set (mesh sizes nodes)"
proof -
  have "link_ends nodes dir_BACK dir_FORWARD (int k) (stride sizes k) p \<in> set (mesh_links sizes nodes k)"
    using assms(2,3) by (simp add: mesh_links_def stride_def)
  then show ?thesis using assms(1) by (auto simp: mesh_def link_ends_def)
qed

text \<open>A number of hops along one dimension.\<close>

lemma walk:
  assumes "0 < prod_list sizes" "k < length sizes" "p < prod_list sizes" "length nodes = prod_list sizes"
    "displacement b = int c - int (coordinate sizes k p)" "c < sizes ! k"
  shows "\<exists>q < prod_list sizes. leads (mesh sizes nodes) (nodes ! p) (replicate (hops b) (k, dir_of b)) (nodes ! q) \<and>
    (\<forall>j < length sizes. coordinate sizes j q = (if j = k then c else coordinate sizes j p))"
  using assms(3,5)
proof (induction "hops b" arbitrary: b p)
  case 0
  then have "coordinate sizes k p = c" by (simp add: displacement_0_iff [symmetric])
  then show ?case using 0 by (intro exI [of _ p]) simp
next
  case (Suc n)
  let ?b = "with_offset b ((b AND OFFSET_BIT_MASK) - 1)"
  have b: "hops ?b = n" "dir_of ?b = dir_of b"
    using with_offset_pred [of b] Suc.hyps(2) by (simp_all add: dir_of_def)
  have d: "displacement ?b = displacement b - (if dir_of b = dir_FORWARD then 1 else - 1)"
    using displacement_pred Suc.hyps(2) by simp
  obtain p' where p': "p' < prod_list sizes" "joined (mesh sizes nodes) (nodes ! p) (k, dir_of b) (nodes ! p')"
    "\<forall>j < length sizes. int (coordinate sizes j p') = int (coordinate sizes j p) + (if j = k then displacement b - displacement ?b else 0)"
  proof (cases "goes_back b")
    case False
    then have dir: "dir_of b = dir_FORWARD" "displacement b = int (Suc n)"
      using Suc.hyps(2) by (simp_all add: dir_of_def displacement_def hop_sign_def)
    then have go: "coordinate sizes k p + 1 < sizes ! k" using Suc.prems(2) assms(6) by simp
    show ?thesis
    proof (rule that)
      show "p + stride sizes k < prod_list sizes" by (rule step_inside [OF assms(1,2) go Suc.prems(1)])
      show "joined (mesh sizes nodes) (nodes ! p) (k, dir_of b) (nodes ! (p + stride sizes k))"
        using mesh_link [OF assms(2) _ go, of nodes] Suc.prems(1) assms(4)
        by (simp add: joined_def dir NocRoutingProtocol_GetOpositeRoutingDirection_def dir_defs)
    qed (use coordinate_step [OF assms(1) _ assms(2) go] d dir in simp)
  next
    case True
    then have dir: "dir_of b = dir_BACK" "displacement b = - int (Suc n)"
      using Suc.hyps(2) by (simp_all add: dir_of_def displacement_def hop_sign_def)
    then have "0 < coordinate sizes k p" using Suc.prems(2) by simp
    note sb = step_back [OF assms(1,2) this]
    define q where "q = p - stride sizes k"
    have q: "p = q + stride sizes k" "coordinate sizes k q + 1 < sizes ! k" using sb by (simp_all add: q_def)
    show ?thesis
    proof (rule that)
      show "q < prod_list sizes" using q(1) Suc.prems(1) by simp
      show "joined (mesh sizes nodes) (nodes ! p) (k, dir_of b) (nodes ! q)"
        using mesh_link [OF assms(2) _ q(2), of nodes] Suc.prems(1) assms(4) q(1)
        by (simp add: joined_def dir NocRoutingProtocol_GetOpositeRoutingDirection_def dir_defs)
      show "\<forall>j < length sizes. int (coordinate sizes j q) =
          int (coordinate sizes j p) + (if j = k then displacement b - displacement ?b else 0)"
        using coordinate_step [OF assms(1) _ assms(2) q(2)] d dir unfolding q(1) by (simp add: dir_defs)
    qed
  qed
  have "displacement ?b = int c - int (coordinate sizes k p')" using p'(3) assms(2) Suc.prems(2) by simp
  from Suc.hyps(1) [OF b(1) [symmetric] p'(1) this] obtain q where q: "q < prod_list sizes"
    "leads (mesh sizes nodes) (nodes ! p') (replicate n (k, dir_of b)) (nodes ! q)"
    "\<forall>j < length sizes. coordinate sizes j q = (if j = k then c else coordinate sizes j p')" unfolding b by blast
  moreover have "leads (mesh sizes nodes) (nodes ! p) (replicate (hops b) (k, dir_of b)) (nodes ! q)"
    using p'(2) q(2) unfolding Suc.hyps(2) [symmetric] by auto
  moreover have "coordinate sizes j p' = coordinate sizes j p" if "j < length sizes" "j \<noteq> k" for j
  proof -
    have "int (coordinate sizes j p') = int (coordinate sizes j p)" using p'(3) that by simp
    then show ?thesis by (simp only: of_nat_eq_iff)
  qed
  then have "\<forall>j < length sizes. coordinate sizes j q = (if j = k then c else coordinate sizes j p)" using q(3) by simp
  ultimately show ?case by blast
qed

text \<open>All dimensions, one after the other.\<close>

lemma walk_all:
  assumes "0 < prod_list sizes" "length nodes = prod_list sizes" "distinct order" "set order \<subseteq> {..< length sizes}"
    "p < prod_list sizes" "\<forall>k < length sizes. c k < sizes ! k"
    "\<forall>k \<in> set order. displacement (m_distance h ! k) = int (c k) - int (coordinate sizes k p)"
  shows "\<exists>q < prod_list sizes. leads (mesh sizes nodes) (nodes ! p) (journey order h) (nodes ! q) \<and>
    (\<forall>j < length sizes. coordinate sizes j q = (if j \<in> set order then c j else coordinate sizes j p))"
  using assms(3-5,7)
proof (induction order arbitrary: p)
  case Nil
  then show ?case by (intro exI [of _ p]) (simp add: journey_def)
next
  case (Cons k order)
  let ?b = "m_distance h ! k"
  have k: "k < length sizes" using Cons.prems(2) by simp
  obtain r where r: "r < prod_list sizes" "leads (mesh sizes nodes) (nodes ! p) (replicate (hops ?b) (k, dir_of ?b)) (nodes ! r)"
    "\<forall>j < length sizes. coordinate sizes j r = (if j = k then c k else coordinate sizes j p)"
    using walk [OF assms(1) k Cons.prems(3) assms(2), of ?b "c k"] Cons.prems(4) assms(6) k by auto
  have "\<forall>j \<in> set order. displacement (m_distance h ! j) = int (c j) - int (coordinate sizes j r)"
    using Cons.prems r(3) by auto
  with Cons.IH [of r] Cons.prems(1,2) r(1) obtain q where q: "q < prod_list sizes"
    "leads (mesh sizes nodes) (nodes ! r) (journey order h) (nodes ! q)"
    "\<forall>j < length sizes. coordinate sizes j q = (if j \<in> set order then c j else coordinate sizes j r)" by auto
  have "journey (k # order) h = replicate (hops ?b) (k, dir_of ?b) @ journey order h" by (simp add: journey_def)
  then have "leads (mesh sizes nodes) (nodes ! p) (journey (k # order) h) (nodes ! q)" using leads_append [OF r(2) q(2)] by simp
  moreover have "\<forall>j < length sizes. coordinate sizes j q = (if j \<in> set (k # order) then c j else coordinate sizes j p)"
    using q(3) r(3) by simp
  ultimately show ?case using q(1) by blast
qed

text \<open>The coordinates determine the node.\<close>

lemma coordinates_inj:
  assumes "p < prod_list sizes" "q < prod_list sizes" "\<forall>k < length sizes. coordinate sizes k p = coordinate sizes k q"
  shows "p = q"
proof -
  have "p mod stride sizes n = q mod stride sizes n" if "n \<le> length sizes" for n
    using that
  proof (induction n)
    case 0
    then show ?case by (simp add: stride_def)
  next
    case (Suc n)
    then show ?case
      using assms(3) unfolding stride_Suc [OF Suc_le_lessD [OF Suc.prems]] mod_mult2_eq by (simp add: coordinate_stride Suc_le_eq)
  qed
  from this [of "length sizes"] show ?thesis using assms(1,2) by (simp add: stride_def)
qed

section \<open>Delivery\<close>

definition mesh_distance :: "nat list \<Rightarrow> nat \<Rightarrow> nat \<Rightarrow> nat" where
  "mesh_distance sizes p q = (\<Sum>k \<leftarrow> [0 ..< length sizes]. nat \<bar>int (coordinate sizes k q) - int (coordinate sizes k p)\<bar>)"

text \<open>C11: a packet for the node \<open>d\<close> that is sent at the node \<open>s\<close> with the relative position that
  \<^verbatim>\<open>NocMeshND\<close> computes, and routed by dimension order routing in any order of the dimensions, makes as many hops as
  the nodes are apart, each over a channel that \<^verbatim>\<open>NocMeshND::Install\<close> made, out of its device in the direction of the
  hop, and the last one enters \<open>d\<close>. No size is above 128, the range of an offset.\<close>

theorem mesh_delivers:
  assumes "empty_store st" "factories_ok tf" "length nodes = prod_list (map unat sizes)" "length nodes < 2 ^ 32" "length sizes \<le> 2 ^ 31"
    and "\<forall>m \<in> set sizes. unat m \<le> 128" "order_ok ro" "length ro = length sizes"
    and "unat s < length nodes" "unat d < length nodes" "mesh_distance (map unat sizes) (unat s) (unat d) \<le> n"
  shows "\<exists>st' relative ms h'. NocMeshND_Install tf sizes nodes st = Some st' \<and>
    NocMeshND_GetDestinationRelativeDimensionalPosition sizes s d = Some relative \<and>
    travel (dor_header ro) n \<lparr>m_distance = relative, m_source = src\<rparr> = Some (ms, h') \<and>
    length ms = mesh_distance (map unat sizes) (unat s) (unat d) \<and>
    leads (network st') (nodes ! unat s) ms (nodes ! unat d)"
proof -
  let ?S = "map unat sizes"
  let ?c = "coordinate ?S"
  have ne: "nodes \<noteq> []" using assms(9) by auto
  obtain st' where st': "NocMeshND_Install tf sizes nodes st = Some st'" "network st' = mesh ?S nodes"
    using install_mesh [OF assms(1-3) ne assms(4,5)] by blast
  have pos: "0 < prod_list ?S" using assms(3,9) by simp
  have ok: "sizes_ok sizes" using pos assms(3,4,6) by (fastforce simp: sizes_ok_def)
  have bound: "?c k x < ?S ! k" "?c k x < 128" if "k < length sizes" for k x
  proof -
    have "0 < unat (sizes ! k)" "unat (sizes ! k) \<le> 128" using sizes_ok_nth [OF ok that] assms(6) that by auto
    then show less: "?c k x < ?S ! k" using that by (simp add: coordinate_def)
    then show "?c k x < 128" using that \<open>unat (sizes ! k) \<le> 128\<close> by simp
  qed
  define relative where "relative = map (\<lambda>k. mesh_byte (?c k (unat s)) (?c k (unat d))) [0 ..< length sizes]"
  have rel: "NocMeshND_GetDestinationRelativeDimensionalPosition sizes s d = Some relative"
    unfolding relative_def by (rule MeshND_positions [OF ok])
  let ?h = "\<lparr>m_distance = relative, m_source = src\<rparr>"
  have disp: "displacement (relative ! k) = int (?c k (unat d)) - int (?c k (unat s))" if "k < length sizes" for k
    using mesh_byte_displacement bound(2) that by (simp add: relative_def)
  have "hops (relative ! k) = nat \<bar>int (?c k (unat d)) - int (?c k (unat s))\<bar>" if "k < length sizes" for k
    using disp [OF that] abs_displacement [of "relative ! k"] by (metis nat_int)
  then have "map hops relative = map (\<lambda>k. nat \<bar>int (?c k (unat d)) - int (?c k (unat s))\<bar>) [0 ..< length sizes]"
    by (intro nth_equalityI) (simp_all add: relative_def)
  then have hops: "(\<Sum>b\<leftarrow>m_distance ?h. hops b) = mesh_distance ?S (unat s) (unat d)" by (simp add: mesh_distance_def)
  obtain h' where t: "travel (dor_header ro) n ?h = Some (journey (dor_order ro) ?h, h')"
    "length (journey (dor_order ro) ?h) = mesh_distance ?S (unat s) (unat d)"
    using dimension_order.travel_minimal [OF dor_dimension_order [OF assms(7)], of ?h n] assms(8,11) hops
    by (auto simp: relative_def)
  obtain q where q: "q < prod_list ?S" "leads (mesh ?S nodes) (nodes ! unat s) (journey (dor_order ro) ?h) (nodes ! q)"
    "\<forall>j < length ?S. ?c j q = (if j \<in> set (dor_order ro) then ?c j (unat d) else ?c j (unat s))"
    using walk_all [OF pos assms(3), of "dor_order ro" "unat s" "\<lambda>k. ?c k (unat d)" ?h] assms(3,7-9) bound(1) disp
    by (auto simp: order_ok_def)
  have "q = unat d"
    using q(3) assms(3,7,8,10) by (intro coordinates_inj [OF q(1)]) (simp_all add: order_ok_def)
  then show ?thesis using st' rel t q(2) by auto
qed

theorem mesh_delivers_witness:
  "\<exists>st' relative ms h'. NocMeshND_Install four_way_factories [2, 2] [0, 1, 2, 3] bare_nodes = Some st' \<and>
     NocMeshND_GetDestinationRelativeDimensionalPosition [2, 2] 3 0 = Some relative \<and>
     travel (dor_header [1, 0]) 2 \<lparr>m_distance = relative, m_source = [1, 1]\<rparr> = Some (ms, h') \<and>
     length ms = 2 \<and> leads (network st') 3 ms 0"
proof -
  have o: "order_ok [1, 0]" by (auto simp: order_ok_def dor_order_def)
  have "mesh_distance [2, 2] 3 0 = 2" by (simp add: mesh_distance_def coordinate_def upt_rec)
  then show ?thesis
    using mesh_delivers [OF bare_nodes_empty four_way_factories_ok, of "[0, 1, 2, 3]" "[2, 2]" "[1, 0]" 3 0 2 "[1, 1]"] o by simp
qed

end
