(* ===== verification/Calendar_Scheduler.thy ===== *)
theory Calendar_Scheduler
  imports Event_Schedulers
begin

text \<open>
  The calendar queue, \<^verbatim>\<open>simulator/calendar-scheduler.cc\<close>: the events lie in buckets, a bucket for each
  stretch of \<^verbatim>\<open>m_width\<close> time steps, wrapped around after \<^verbatim>\<open>m_nBuckets\<close> of them. It relies on a client that
  never inserts an event before the last one it took out. \<^verbatim>\<open>NULL\<close> for the pointer of the dummy
  event that starts the search for the least one is \<open>None\<close>.
\<close>

section \<open>The calendar\<close>

record 'e calendar =
  cal_buckets :: "'e event list list"
  cal_nBuckets :: u32
  cal_width :: u64
  cal_lastBucket :: u32
  cal_bucketTop :: u64
  cal_lastPrio :: u64
  cal_qSize :: u32

abbreviation ev_ts :: "'e event \<Rightarrow> u64" where
  "ev_ts e \<equiv> k_ts (ev_key e)"

definition CalendarScheduler_Hash :: "u64 \<Rightarrow> 'e calendar \<Rightarrow> u32 option" where
  "CalendarScheduler_Hash ts c = do {
     _ \<leftarrow> ns_assert (cal_width c \<noteq> 0 \<and> cal_nBuckets c \<noteq> 0);
     Some (ucast (ts div cal_width c mod ucast (cal_nBuckets c)))
   }"

definition CalendarScheduler_Init :: "u32 \<Rightarrow> u64 \<Rightarrow> u64 \<Rightarrow> 'e calendar \<Rightarrow> 'e calendar option" where
  "CalendarScheduler_Init nBuckets width startPrio c = do {
     let c = c\<lparr>cal_buckets := replicate (unat nBuckets) [], cal_nBuckets := nBuckets, cal_width := width,
       cal_lastPrio := startPrio\<rparr>;
     b \<leftarrow> CalendarScheduler_Hash startPrio c;
     Some (c\<lparr>cal_lastBucket := b, cal_bucketTop := (startPrio div width + 1) * width\<rparr>)
   }"

definition CalendarScheduler_new :: "'e calendar option" where
  "CalendarScheduler_new = CalendarScheduler_Init 2 1 0 \<lparr>cal_buckets = [], cal_nBuckets = 0, cal_width = 0,
     cal_lastBucket = 0, cal_bucketTop = 0, cal_lastPrio = 0, cal_qSize = 0\<rparr>"

text \<open>The loop over a bucket is that of the list scheduler.\<close>

definition CalendarScheduler_DoInsert :: "'e event \<Rightarrow> 'e calendar \<Rightarrow> 'e calendar option" where
  "CalendarScheduler_DoInsert ev c = do {
     b \<leftarrow> CalendarScheduler_Hash (ev_ts ev) c;
     bucket \<leftarrow> vec_at (cal_buckets c) (unat b);
     Some (c\<lparr>cal_buckets := (cal_buckets c)[unat b := ListScheduler_Insert ev bucket]\<rparr>)
   }"

definition CalendarScheduler_IsEmpty :: "'e calendar \<Rightarrow> bool" where
  "CalendarScheduler_IsEmpty c \<longleftrightarrow> cal_qSize c = 0"

section \<open>The next event\<close>

definition min_key :: "'e event option \<Rightarrow> event_key" where
  "min_key m = (case m of None \<Rightarrow> \<lparr>k_ts = - 1, k_uid = - 1, k_context = 0\<rparr> | Some e \<Rightarrow> ev_key e)"

text \<open>The \<^verbatim>\<open>do ... while\<close> over the buckets: an event of the current round with its bucket and the top of
  this, or the least event of all.\<close>

partial_function (option) cal_search ::
    "'e calendar \<Rightarrow> u32 \<Rightarrow> u64 \<Rightarrow> 'e event option \<Rightarrow> ((u32 \<times> u64 \<times> 'e event) + 'e event option) option" where
  "cal_search c i bucketTop minEvent = do {
     bucket \<leftarrow> vec_at (cal_buckets c) (unat i);
     let i' = (i + 1) mod cal_nBuckets c;
     if bucket \<noteq> [] \<and> ev_ts (hd bucket) < bucketTop then Some (Inl (i, bucketTop, hd bucket))
     else let minEvent = (if bucket \<noteq> [] \<and> key_less (ev_key (hd bucket)) (min_key minEvent) then Some (hd bucket) else minEvent)
       in if i' \<noteq> cal_lastBucket c then cal_search c i' (bucketTop + cal_width c) minEvent else Some (Inr minEvent)
   }"

declare cal_search.simps [code]

definition CalendarScheduler_PeekNext :: "'e calendar \<Rightarrow> 'e event option" where
  "CalendarScheduler_PeekNext c = do {
     _ \<leftarrow> ns_assert (\<not> CalendarScheduler_IsEmpty c);
     r \<leftarrow> cal_search c (cal_lastBucket c) (cal_bucketTop c) None;
     case r of Inl (i, bucketTop, next) \<Rightarrow> Some next | Inr minEvent \<Rightarrow> minEvent
   }"

definition CalendarScheduler_DoRemoveNext :: "'e calendar \<Rightarrow> ('e event \<times> 'e calendar) option" where
  "CalendarScheduler_DoRemoveNext c = do {
     r \<leftarrow> cal_search c (cal_lastBucket c) (cal_bucketTop c) None;
     case r of
       Inl (i, bucketTop, next) \<Rightarrow> do {
         bucket \<leftarrow> vec_at (cal_buckets c) (unat i);
         Some (next, c\<lparr>cal_lastBucket := i, cal_lastPrio := ev_ts next, cal_bucketTop := bucketTop,
           cal_buckets := (cal_buckets c)[unat i := tl bucket]\<rparr>)
       }
     | Inr minEvent \<Rightarrow> do {
         e \<leftarrow> minEvent;
         b \<leftarrow> CalendarScheduler_Hash (ev_ts e) c;
         bucket \<leftarrow> vec_at (cal_buckets c) (unat b);
         _ \<leftarrow> ns_assert (bucket \<noteq> []);
         Some (e, c\<lparr>cal_lastPrio := ev_ts e, cal_lastBucket := b,
           cal_bucketTop := (ev_ts e div cal_width c + 1) * cal_width c,
           cal_buckets := (cal_buckets c)[unat b := tl bucket]\<rparr>)
       }
   }"

section \<open>The size of the calendar\<close>

text \<open>The differences between neighbouring samples.\<close>

fun separations :: "'e event list \<Rightarrow> u64 list" where
  "separations (cur # next # es) = (ev_ts next - ev_ts cur) # separations (next # es)"
| "separations es = []"

definition sample_count :: "u32 \<Rightarrow> u32" where
  "sample_count qSize = (let nSamples = (if qSize \<le> 5 then qSize else 5 + qSize div 10) in if nSamples > 25 then 25 else nSamples)"

definition average_width :: "u32 \<Rightarrow> 'e event list \<Rightarrow> u32" where
  "average_width nSamples samples = (let
     twiceAvg = sum_list (separations samples) div ucast (nSamples - 1) * 2;
     totalSeparation = sum_list (filter (\<lambda>diff. diff \<le> twiceAvg) (separations samples)) * 3
   in ucast (max totalSeparation 1))"

definition CalendarScheduler_CalculateNewWidth :: "'e calendar \<Rightarrow> (u32 \<times> 'e calendar) option" where
  "CalendarScheduler_CalculateNewWidth c =
     (if cal_qSize c < 2 then Some (1, c)
      else do {
        let nSamples = sample_count (cal_qSize c);
        (samples, c') \<leftarrow> drain CalendarScheduler_DoRemoveNext (unat nSamples) c;
        c' \<leftarrow> insert_all CalendarScheduler_DoInsert samples c';
        let c' = c'\<lparr>cal_lastBucket := cal_lastBucket c, cal_bucketTop := cal_bucketTop c, cal_lastPrio := cal_lastPrio c\<rparr>;
        Some (average_width nSamples samples, c')
      })"

definition CalendarScheduler_DoResize :: "u32 \<Rightarrow> u32 \<Rightarrow> 'e calendar \<Rightarrow> 'e calendar option" where
  "CalendarScheduler_DoResize newSize newWidth c = do {
     c' \<leftarrow> CalendarScheduler_Init newSize (ucast newWidth) (cal_lastPrio c) c;
     insert_all CalendarScheduler_DoInsert (concat (cal_buckets c)) c'
   }"

definition CalendarScheduler_Resize :: "u32 \<Rightarrow> 'e calendar \<Rightarrow> 'e calendar option" where
  "CalendarScheduler_Resize newSize c = do {
     (newWidth, c) \<leftarrow> CalendarScheduler_CalculateNewWidth c;
     CalendarScheduler_DoResize newSize newWidth c
   }"

definition CalendarScheduler_ResizeUp :: "'e calendar \<Rightarrow> 'e calendar option" where
  "CalendarScheduler_ResizeUp c =
     (if cal_qSize c > cal_nBuckets c * 2 \<and> cal_nBuckets c < 32768 then CalendarScheduler_Resize (cal_nBuckets c * 2) c
      else Some c)"

definition CalendarScheduler_ResizeDown :: "'e calendar \<Rightarrow> 'e calendar option" where
  "CalendarScheduler_ResizeDown c =
     (if cal_qSize c < cal_nBuckets c div 2 then CalendarScheduler_Resize (cal_nBuckets c div 2) c else Some c)"

definition CalendarScheduler_Insert :: "'e event \<Rightarrow> 'e calendar \<Rightarrow> 'e calendar option" where
  "CalendarScheduler_Insert ev c = do {
     c \<leftarrow> CalendarScheduler_DoInsert ev c;
     CalendarScheduler_ResizeUp (c\<lparr>cal_qSize := cal_qSize c + 1\<rparr>)
   }"

definition CalendarScheduler_RemoveNext :: "'e calendar \<Rightarrow> ('e event \<times> 'e calendar) option" where
  "CalendarScheduler_RemoveNext c = do {
     _ \<leftarrow> ns_assert (\<not> CalendarScheduler_IsEmpty c);
     (ev, c) \<leftarrow> CalendarScheduler_DoRemoveNext c;
     c \<leftarrow> CalendarScheduler_ResizeDown (c\<lparr>cal_qSize := cal_qSize c - 1\<rparr>);
     Some (ev, c)
   }"

definition CalendarScheduler_Remove :: "'e event \<Rightarrow> 'e calendar \<Rightarrow> 'e calendar option" where
  "CalendarScheduler_Remove ev c = do {
     _ \<leftarrow> ns_assert (\<not> CalendarScheduler_IsEmpty c);
     b \<leftarrow> CalendarScheduler_Hash (ev_ts ev) c;
     bucket \<leftarrow> vec_at (cal_buckets c) (unat b);
     bucket \<leftarrow> ListScheduler_Remove ev bucket;
     CalendarScheduler_ResizeDown (c\<lparr>cal_buckets := (cal_buckets c)[unat b := bucket], cal_qSize := cal_qSize c - 1\<rparr>)
   }"

section \<open>The invariant\<close>

text \<open>Time steps up to this one can be told apart by a calendar: three times it fits into the 32 bits of a width.\<close>

definition horizon :: nat where "horizon = 1431655765"

definition bucket_of :: "'e calendar \<Rightarrow> nat \<Rightarrow> nat" where
  "bucket_of c t = t div unat (cal_width c) mod unat (cal_nBuckets c)"

definition cal_events :: "'e calendar \<Rightarrow> 'e event multiset" where
  "cal_events c = mset (concat (cal_buckets c))"

definition sized :: "'e calendar \<Rightarrow> bool" where
  "sized c \<longleftrightarrow> length (cal_buckets c) = unat (cal_nBuckets c) \<and> 0 < unat (cal_nBuckets c) \<and> unat (cal_nBuckets c) \<le> 65536 \<and>
     0 < unat (cal_width c) \<and> unat (cal_width c) < 2 ^ 32"

text \<open>Every event in its bucket, the buckets in order, and the time of the last event before all others.\<close>

definition sorted_in :: "'e calendar \<Rightarrow> bool" where
  "sorted_in c \<longleftrightarrow> sized c \<and>
     (\<forall>i < unat (cal_nBuckets c). in_order (cal_buckets c ! i) \<and>
        (\<forall>e \<in> set (cal_buckets c ! i). bucket_of c (unat (ev_ts e)) = i)) \<and>
     (\<forall>e \<in># cal_events c. unat (ev_ts e) \<le> horizon) \<and>
     (\<forall>e \<in># cal_events c. unat (cal_lastPrio c) \<le> unat (ev_ts e))"

definition placed :: "'e calendar \<Rightarrow> bool" where
  "placed c \<longleftrightarrow> unat (cal_lastPrio c) \<le> horizon \<and> unat (cal_lastBucket c) = bucket_of c (unat (cal_lastPrio c)) \<and>
     unat (cal_bucketTop c) = (unat (cal_lastPrio c) div unat (cal_width c) + 1) * unat (cal_width c)"

definition cal_ok :: "'e calendar \<Rightarrow> bool" where
  "cal_ok c \<longleftrightarrow> sorted_in c \<and> placed c \<and> unat (cal_qSize c) = size (cal_events c)"

lemma Hash_eq:
  assumes "sized c"
  shows "\<exists>b. CalendarScheduler_Hash ts c = Some b \<and> unat b = bucket_of c (unat ts)"
proof -
  have n: "0 < unat (cal_nBuckets c)" "0 < unat (cal_width c)" using assms by (simp_all add: sized_def)
  then have "cal_nBuckets c \<noteq> 0" "cal_width c \<noteq> 0" by auto
  then have h: "CalendarScheduler_Hash ts c = Some (ucast (ts div cal_width c mod ucast (cal_nBuckets c)))"
    by (simp add: CalendarScheduler_Hash_def ns_assert_def)
  have up: "unat (ucast (cal_nBuckets c) :: u64) = unat (cal_nBuckets c)"
    using unsigned_less [of "cal_nBuckets c", where 'a = nat] by (simp add: unsigned_ucast_eq take_bit_nat_eq_self_iff)
  then have v: "unat (ts div cal_width c mod ucast (cal_nBuckets c)) = bucket_of c (unat ts)"
    by (simp add: unat_mod unat_div bucket_of_def)
  have "bucket_of c (unat ts) < unat (cal_nBuckets c)" using n by (simp add: bucket_of_def)
  also have "\<dots> < 2 ^ 32" using unsigned_less [of "cal_nBuckets c", where 'a = nat] by simp
  finally have "take_bit 32 (bucket_of c (unat ts)) = bucket_of c (unat ts)" by (simp add: take_bit_nat_eq_self)
  then show ?thesis using h v by (simp add: unsigned_ucast_eq)
qed

lemma bucket_less: "sized c \<Longrightarrow> bucket_of c t < unat (cal_nBuckets c)"
  by (simp add: bucket_of_def sized_def)

lemma mset_concat_update:
  "i < length xss \<Longrightarrow> mset (concat (xss[i := ys])) + mset (xss ! i) = mset (concat xss) + mset ys"
  by (induction xss arbitrary: i) (auto simp: less_Suc_eq_0_disj add_ac split: nat.splits)

lemma cal_events_bucket:
  "sized c \<Longrightarrow> e \<in># cal_events c \<longleftrightarrow> (\<exists>i < unat (cal_nBuckets c). e \<in> set (cal_buckets c ! i))"
proof -
  assume "sized c"
  then have "unat (cal_nBuckets c) = length (cal_buckets c)" by (simp add: sized_def)
  moreover have "e \<in> set (concat xss) \<longleftrightarrow> (\<exists>i < length xss. e \<in> set (xss ! i))" for xss :: "'a event list list"
    by (induction xss) (auto simp: less_Suc_eq_0_disj)
  ultimately show ?thesis by (simp only: cal_events_def set_mset_mset)
qed

lemma event_in_its_bucket:
  assumes "sorted_in c" "e \<in># cal_events c"
  shows "e \<in> set (cal_buckets c ! bucket_of c (unat (ev_ts e)))"
proof -
  have "sized c" using assms(1) by (simp add: sorted_in_def)
  then obtain i where i: "i < unat (cal_nBuckets c)" "e \<in> set (cal_buckets c ! i)" using assms(2) cal_events_bucket by blast
  then have "bucket_of c (unat (ev_ts e)) = i" using assms(1) by (simp add: sorted_in_def)
  with i show ?thesis by simp
qed

text \<open>Inserting into a bucket.\<close>

lemma DoInsert_ok:
  assumes "sorted_in c" "unat (ev_ts e) \<le> horizon" "unat (cal_lastPrio c) \<le> unat (ev_ts e)"
  shows "\<exists>c'. CalendarScheduler_DoInsert e c = Some c' \<and> sorted_in c' \<and> cal_events c' = add_mset e (cal_events c) \<and>
    c' = c\<lparr>cal_buckets := cal_buckets c'\<rparr>"
proof -
  have s: "sized c" using assms(1) by (simp add: sorted_in_def)
  obtain b where b: "CalendarScheduler_Hash (ev_ts e) c = Some b" "unat b = bucket_of c (unat (ev_ts e))" using Hash_eq [OF s] by blast
  let ?i = "unat b"
  have i: "?i < length (cal_buckets c)" using bucket_less [OF s] s by (simp add: b(2) sized_def)
  let ?bs = "(cal_buckets c)[?i := ListScheduler_Insert e (cal_buckets c ! ?i)]"
  let ?c = "c\<lparr>cal_buckets := ?bs\<rparr>"
  have o: "in_order (cal_buckets c ! ?i)" using assms(1) i s by (simp add: sorted_in_def sized_def)
  have ins: "in_order (ListScheduler_Insert e (cal_buckets c ! ?i))"
    "mset (ListScheduler_Insert e (cal_buckets c ! ?i)) = add_mset e (mset (cal_buckets c ! ?i))"
    using list_Insert [OF o] by blast+
  then have set: "set (ListScheduler_Insert e (cal_buckets c ! ?i)) = insert e (set (cal_buckets c ! ?i))"
    by (metis set_mset_add_mset_insert set_mset_mset)
  have "mset (concat ?bs) + mset (cal_buckets c ! ?i) = add_mset e (mset (concat (cal_buckets c))) + mset (cal_buckets c ! ?i)"
    using mset_concat_update [OF i] ins(2) by simp
  then have ev: "cal_events ?c = add_mset e (cal_events c)" by (simp add: cal_events_def)
  have "sorted_in ?c"
    unfolding sorted_in_def ev
  proof (intro conjI allI impI)
    show "sized ?c" using s by (simp add: sized_def)
    fix j assume j: "j < unat (cal_nBuckets ?c)"
    have same: "bucket_of ?c = bucket_of c" by (simp add: bucket_of_def fun_eq_iff)
    show "in_order (cal_buckets ?c ! j)" using assms(1) ins(1) i j by (cases "j = ?i") (simp_all add: sorted_in_def)
    show "\<forall>x \<in> set (cal_buckets ?c ! j). bucket_of ?c (unat (ev_ts x)) = j"
      unfolding same using assms(1) i j b(2) [symmetric] set by (cases "j = ?i") (simp_all add: sorted_in_def)
  qed (use assms in \<open>auto simp: sorted_in_def\<close>)
  moreover have "CalendarScheduler_DoInsert e c = Some ?c"
    using i by (simp add: CalendarScheduler_DoInsert_def b(1) vec_at_def)
  ultimately show ?thesis using ev by (intro exI [of _ ?c]) simp
qed

lemma insert_all_DoInsert:
  assumes "sorted_in c" "\<forall>e \<in> set es. unat (ev_ts e) \<le> horizon \<and> unat (cal_lastPrio c) \<le> unat (ev_ts e)"
  shows "\<exists>c'. insert_all CalendarScheduler_DoInsert es c = Some c' \<and> sorted_in c' \<and> cal_events c' = mset es + cal_events c \<and>
    c' = c\<lparr>cal_buckets := cal_buckets c'\<rparr>"
  using assms
proof (induction es arbitrary: c)
  case (Cons e es)
  then obtain c1 where c1: "CalendarScheduler_DoInsert e c = Some c1" "sorted_in c1" "cal_events c1 = add_mset e (cal_events c)"
    "c1 = c\<lparr>cal_buckets := cal_buckets c1\<rparr>" using DoInsert_ok by (metis list.set_intros(1))
  have prio: "cal_lastPrio c1 = cal_lastPrio c" by (subst c1(4)) simp
  obtain c2 where c2: "insert_all CalendarScheduler_DoInsert es c1 = Some c2" "sorted_in c2" "cal_events c2 = mset es + cal_events c1"
    "c2 = c1\<lparr>cal_buckets := cal_buckets c2\<rparr>" using Cons.IH [OF c1(2)] Cons.prems(2) prio by auto
  have "c2 = c\<lparr>cal_buckets := cal_buckets c2\<rparr>" using c1(4) c2(4) by (metis calendar.update_convs(1) calendar.surjective)
  then show ?case using c1 c2 by auto
qed simp

section \<open>The search finds the next event\<close>

lemma rank_le_ts: "rank a \<le> rank b \<Longrightarrow> unat (ev_ts a) \<le> unat (ev_ts b)"
proof -
  assume r: "rank a \<le> rank b"
  have "rank e div 2 ^ 32 = unat (ev_ts e)" for e :: "'x event"
    using unat_u32_less [of "k_uid (ev_key e)"] by (simp add: rank_def)
  then show ?thesis using r by (metis div_le_mono)
qed

lemma in_order_hd: "in_order es \<Longrightarrow> es \<noteq> [] \<Longrightarrow> x \<in> set es \<Longrightarrow> rank (hd es) \<le> rank x"
  by (cases es) (auto simp: in_order_def)

lemma in_order_tl: "in_order es \<Longrightarrow> in_order (tl es)"
  by (cases es) (simp_all add: in_order_def)

definition in_front :: "'e calendar \<Rightarrow> 'e event \<Rightarrow> bool" where
  "in_front c e \<longleftrightarrow> (\<exists>es. cal_buckets c ! bucket_of c (unat (ev_ts e)) = e # es)"

definition least :: "'e calendar \<Rightarrow> 'e event \<Rightarrow> bool" where
  "least c e \<longleftrightarrow> e \<in># cal_events c \<and> (\<forall>x \<in># cal_events c. rank e \<le> rank x) \<and> in_front c e"

definition found :: "'e calendar \<Rightarrow> (u32 \<times> u64 \<times> 'e event) + 'e event option \<Rightarrow> bool" where
  "found c r \<longleftrightarrow> (case r of
     Inl (i, bucketTop, e) \<Rightarrow> least c e \<and> unat i = bucket_of c (unat (ev_ts e)) \<and>
       unat bucketTop = (unat (ev_ts e) div unat (cal_width c) + 1) * unat (cal_width c)
   | Inr m \<Rightarrow> (\<exists>e. m = Some e \<and> least c e))"

text \<open>The least of the fronts seen so far.\<close>

definition least_of :: "'e event set \<Rightarrow> 'e event option \<Rightarrow> bool" where
  "least_of S m \<longleftrightarrow> (case m of None \<Rightarrow> S = {} | Some e \<Rightarrow> e \<in> S \<and> (\<forall>x \<in> S. rank e \<le> rank x))"

lemma min_key_less:
  "unat (ev_ts e) \<le> horizon \<Longrightarrow> key_less (ev_key e) (min_key m) \<longleftrightarrow> (case m of None \<Rightarrow> True | Some x \<Rightarrow> rank e < rank x)"
  by (auto simp: min_key_def key_less_iff split: option.splits)
    (simp add: key_less_def word_less_nat_alt horizon_def unsigned_minus_1_eq_mask mask_eq_exp_minus_1)

lemma least_of_bucket:
  assumes "least_of S m" "in_order es" "\<forall>x \<in> set es. unat (ev_ts x) \<le> horizon"
  shows "least_of (S \<union> set es) (if es \<noteq> [] \<and> key_less (ev_key (hd es)) (min_key m) then Some (hd es) else m)"
proof (cases "es = []")
  case False
  then have hd: "hd es \<in> set es" "\<forall>x \<in> set es. rank (hd es) \<le> rank x" using in_order_hd [OF assms(2)] by auto
  then have "key_less (ev_key (hd es)) (min_key m) \<longleftrightarrow> (case m of None \<Rightarrow> True | Some x \<Rightarrow> rank (hd es) < rank x)"
    using assms(3) by (intro min_key_less) blast
  with hd assms(1) False show ?thesis by (force simp: least_of_def split: option.splits)
qed (use assms(1) in simp)

lemma mod_shift_eq:
  assumes "(k :: nat) < n" "lb < n"
  shows "(lb + Suc k) mod n = lb \<longleftrightarrow> Suc k = n"
proof (cases "lb + Suc k < n")
  case False
  then have "(lb + Suc k) mod n = lb + Suc k - n" using assms by (simp add: mod_if)
  then show ?thesis using False by linarith
qed simp

lemma day_unique: "(a :: nat) \<le> b \<Longrightarrow> b < a + n \<Longrightarrow> a mod n = b mod n \<Longrightarrow> a = b"
  by (metis add_diff_cancel_left' le_add_diff_inverse mod_eq_dvd_iff_nat nat_add_left_cancel_less nat_dvd_not_less not_gr_zero add.right_neutral)

text \<open>The state of the loop in round \<open>k\<close>: no event of the days before is left, and the fronts seen so far are
  accounted for.\<close>

definition searching :: "'e calendar \<Rightarrow> nat \<Rightarrow> u32 \<Rightarrow> u64 \<Rightarrow> 'e event option \<Rightarrow> bool" where
  "searching c k i bucketTop m \<longleftrightarrow> (let n = unat (cal_nBuckets c); w = unat (cal_width c); q = unat (cal_lastPrio c) div w in
     k < n \<and> unat i = (q + k) mod n \<and> unat bucketTop = (q + k + 1) * w \<and>
     (\<forall>x \<in># cal_events c. \<forall>j < k. unat (ev_ts x) div w \<noteq> q + j) \<and>
     (\<forall>e. m = Some e \<longrightarrow> in_front c e) \<and>
     least_of {x. x \<in># cal_events c \<and> (\<exists>j < k. bucket_of c (unat (ev_ts x)) = (q + j) mod n)} m)"

lemma search_found:
  assumes "sorted_in c" "searching c k i bucketTop m" "cal_buckets c ! unat i = e # es" "unat (ev_ts e) < unat bucketTop"
  shows "found c (Inl (i, bucketTop, e))"
proof -
  let ?n = "unat (cal_nBuckets c)"
  let ?w = "unat (cal_width c)"
  let ?q = "unat (cal_lastPrio c) div ?w"
  have s: "sized c" using assms(1) by (simp add: sorted_in_def)
  then have nw: "0 < ?n" "0 < ?w" by (simp_all add: sized_def)
  have k: "k < ?n" "unat i = (?q + k) mod ?n" "unat bucketTop = (?q + k + 1) * ?w"
    and before: "\<And>x j. x \<in># cal_events c \<Longrightarrow> j < k \<Longrightarrow> unat (ev_ts x) div ?w \<noteq> ?q + j"
    using assms(2) by (auto simp: searching_def Let_def)
  have i: "unat i < ?n" using k(2) nw by simp
  have e: "e \<in># cal_events c" "bucket_of c (unat (ev_ts e)) = unat i"
    using cal_events_bucket [OF s] assms(1,3) i by (force simp: sorted_in_def)+
  have day_ge: "?q \<le> unat (ev_ts x) div ?w" if "x \<in># cal_events c" for x
    using assms(1) that by (intro div_le_mono) (simp add: sorted_in_def)
  have "unat (ev_ts e) div ?w < ?q + k + 1" using assms(4) k(3) by (simp add: less_mult_imp_div_less)
  moreover obtain j where j: "unat (ev_ts e) div ?w = ?q + j" using day_ge [OF e(1)] le_Suc_ex by blast
  ultimately have "j < k + 1" by linarith
  then have "j = k" using before [OF e(1), of j] j by linarith
  then have day: "unat (ev_ts e) div ?w = ?q + k" using j by simp
  have "rank e \<le> rank x" if x: "x \<in># cal_events c" for x
  proof (rule ccontr)
    assume less: "\<not> rank e \<le> rank x"
    then have "unat (ev_ts x) div ?w \<le> ?q + k" using rank_le_ts [of x e] div_le_mono [of "unat (ev_ts x)" "unat (ev_ts e)" ?w] day by simp
    moreover obtain j where j: "unat (ev_ts x) div ?w = ?q + j" using day_ge [OF x] le_Suc_ex by blast
    ultimately have "j \<le> k" by linarith
    then have "j = k" using before [OF x, of j] j by linarith
    then have "bucket_of c (unat (ev_ts x)) = unat i" using j k(2) by (simp add: bucket_of_def)
    then have "x \<in> set (e # es)" using event_in_its_bucket [OF assms(1) x] assms(3) by simp
    moreover have "in_order (e # es)" using assms(1,3) i by (metis sorted_in_def)
    ultimately show False using less in_order_hd [of "e # es" x] by simp
  qed
  then show ?thesis using e assms(3) day k(3) by (simp add: found_def least_def in_front_def)
qed

lemma search_next:
  assumes "sorted_in c" "placed c" "searching c k i bucketTop m"
    and B: "B = cal_buckets c ! unat i" "\<not> (B \<noteq> [] \<and> ev_ts (hd B) < bucketTop)"
    and m': "m' = (if B \<noteq> [] \<and> key_less (ev_key (hd B)) (min_key m) then Some (hd B) else m)"
  shows "if (i + 1) mod cal_nBuckets c \<noteq> cal_lastBucket c
    then searching c (Suc k) ((i + 1) mod cal_nBuckets c) (bucketTop + cal_width c) m'
    else least_of (set_mset (cal_events c)) m' \<and> (\<forall>e. m' = Some e \<longrightarrow> in_front c e)"
proof -
  let ?n = "unat (cal_nBuckets c)"
  let ?w = "unat (cal_width c)"
  let ?q = "unat (cal_lastPrio c) div ?w"
  have s: "sized c" using assms(1) by (simp add: sorted_in_def)
  then have nw: "0 < ?n" "0 < ?w" "?n \<le> 65536" "?w < 2 ^ 32" by (simp_all add: sized_def)
  have k: "k < ?n" "unat i = (?q + k) mod ?n" "unat bucketTop = (?q + k + 1) * ?w"
    and before: "\<And>x j. x \<in># cal_events c \<Longrightarrow> j < k \<Longrightarrow> unat (ev_ts x) div ?w \<noteq> ?q + j"
    and front: "\<And>e. m = Some e \<Longrightarrow> in_front c e"
    and m: "least_of {x. x \<in># cal_events c \<and> (\<exists>j < k. bucket_of c (unat (ev_ts x)) = (?q + j) mod ?n)} m"
    using assms(3) by (auto simp: searching_def Let_def)
  have i: "unat i < ?n" using k(2) nw by simp
  have B_events: "x \<in> set B \<longleftrightarrow> x \<in># cal_events c \<and> bucket_of c (unat (ev_ts x)) = (?q + k) mod ?n" for x
    using event_in_its_bucket [OF assms(1), of x] cal_events_bucket [OF s, of x] assms(1) i B(1) k(2)
    by (metis sorted_in_def)
  have B_order: "in_order B" using assms(1) i B(1) by (simp add: sorted_in_def)
  have B_late: "unat bucketTop \<le> unat (ev_ts x)" if "x \<in> set B" for x
  proof -
    have "B \<noteq> []" using that by auto
    then have "unat bucketTop \<le> unat (ev_ts (hd B))" using B(2) by (simp add: word_less_nat_alt not_less)
    also have "\<dots> \<le> unat (ev_ts x)" using in_order_hd [OF B_order \<open>B \<noteq> []\<close> that] by (rule rank_le_ts)
    finally show ?thesis .
  qed
  have day: "unat (ev_ts x) div ?w \<noteq> ?q + j" if "x \<in># cal_events c" "j < Suc k" for x j
  proof (cases "j = k")
    case True
    show ?thesis
    proof
      assume d: "unat (ev_ts x) div ?w = ?q + j"
      then have "x \<in> set B" using B_events that(1) True by (simp add: bucket_of_def)
      then have "(?q + k + 1) * ?w \<le> unat (ev_ts x)" using B_late k(3) by metis
      then have "?q + k + 1 \<le> unat (ev_ts x) div ?w" using nw(2) by (metis div_le_mono nonzero_mult_div_cancel_right not_less_zero)
      with d True show False by simp
    qed
  next
    case False
    with that show ?thesis using before by simp
  qed
  have "\<forall>x \<in> set B. unat (ev_ts x) \<le> horizon" using B_events assms(1) by (simp add: sorted_in_def)
  from least_of_bucket [OF m B_order this]
  have "least_of ({x. x \<in># cal_events c \<and> (\<exists>j < k. bucket_of c (unat (ev_ts x)) = (?q + j) mod ?n)} \<union> set B) m'"
    unfolding m' .
  moreover have "{x. x \<in># cal_events c \<and> (\<exists>j < k. bucket_of c (unat (ev_ts x)) = (?q + j) mod ?n)} \<union> set B =
      {x. x \<in># cal_events c \<and> (\<exists>j < Suc k. bucket_of c (unat (ev_ts x)) = (?q + j) mod ?n)}"
    using B_events by (auto simp: less_Suc_eq)
  ultimately have least: "least_of {x. x \<in># cal_events c \<and> (\<exists>j < Suc k. bucket_of c (unat (ev_ts x)) = (?q + j) mod ?n)} m'" by simp
  have front': "in_front c e" if "m' = Some e" for e
  proof (cases "B \<noteq> [] \<and> key_less (ev_key (hd B)) (min_key m)")
    case True
    then have "e = hd B" using that by (simp add: m')
    moreover have "bucket_of c (unat (ev_ts (hd B))) = unat i" using B_events [of "hd B"] True k(2) by simp
    ultimately show ?thesis using True B(1) by (auto simp: in_front_def neq_Nil_conv)
  next
    case False
    then have "m = Some e" using that by (simp only: m' if_False)
    then show ?thesis by (rule front)
  qed
  have "unat (i + 1) = unat i + 1" using i nw(3) by (simp add: unat_word_ariths)
  then have i': "unat ((i + 1) mod cal_nBuckets c) = (?q + Suc k) mod ?n" by (simp add: unat_mod k(2) mod_Suc_eq)
  have lb: "unat (cal_lastBucket c) = ?q mod ?n" using assms(2) by (simp add: placed_def bucket_of_def)
  have wrap: "(i + 1) mod cal_nBuckets c = cal_lastBucket c \<longleftrightarrow> Suc k = ?n"
  proof -
    have "(?q + Suc k) mod ?n = (?q mod ?n + Suc k) mod ?n" by (rule mod_add_left_eq [symmetric])
    then show ?thesis using mod_shift_eq [OF k(1), of "?q mod ?n"] nw(1) i' lb by (simp add: word_unat_eq_iff)
  qed
  show ?thesis
  proof (cases "Suc k = ?n")
    case True
    have "{x. x \<in># cal_events c \<and> (\<exists>j < Suc k. bucket_of c (unat (ev_ts x)) = (?q + j) mod ?n)} = set_mset (cal_events c)"
    proof -
      have "\<exists>j < ?n. b = (?q + j) mod ?n" if "b < ?n" for b
      proof -
        define j where "j = (b + (?n - ?q mod ?n)) mod ?n"
        have "(?q + j) mod ?n = (?q mod ?n + (b + (?n - ?q mod ?n))) mod ?n" by (simp add: j_def mod_add_left_eq mod_add_right_eq)
        also have "?q mod ?n + (b + (?n - ?q mod ?n)) = b + ?n" using mod_less_divisor [OF nw(1), of ?q] by linarith
        finally have "(?q + j) mod ?n = b" using that by simp
        then show ?thesis using nw(1) by (intro exI [of _ j]) (simp add: j_def)
      qed
      then show ?thesis unfolding True using bucket_less [OF s] by auto
    qed
    with least wrap True front' show ?thesis by simp
  next
    case False
    then have k': "Suc k < ?n" using k(1) by simp
    have q: "?q * ?w \<le> horizon" using assms(2) by (metis div_times_less_eq_dividend le_trans placed_def)
    have "(k + 2) * ?w \<le> 65538 * 2 ^ 32" using k(1) nw(3,4) by (intro mult_le_mono) simp_all
    then have "(?q + Suc k + 1) * ?w < 2 ^ 64" using q by (simp add: add_mult_distrib horizon_def)
    then have "unat (bucketTop + cal_width c) = (?q + Suc k + 1) * ?w" using k(3) by (simp add: unat_word_ariths add_mult_distrib)
    then have "searching c (Suc k) ((i + 1) mod cal_nBuckets c) (bucketTop + cal_width c) m'"
      using k' i' day least front' by (simp add: searching_def Let_def)
    with wrap False show ?thesis by simp
  qed
qed

lemma search_ok:
  assumes "sorted_in c" "placed c" "cal_events c \<noteq> {#}" "searching c k i bucketTop m"
  shows "\<exists>r. cal_search c i bucketTop m = Some r \<and> found c r"
  using assms(4)
proof (induction "unat (cal_nBuckets c) - k" arbitrary: k i bucketTop m rule: less_induct)
  case less
  have s: "sized c" using assms(1) by (simp add: sorted_in_def)
  have k: "k < unat (cal_nBuckets c)" "unat i < unat (cal_nBuckets c)"
    using less.prems s by (auto simp: searching_def sized_def Let_def)
  let ?B = "cal_buckets c ! unat i"
  have B: "vec_at (cal_buckets c) (unat i) = Some ?B" using k(2) s by (simp add: vec_at_def sized_def)
  show ?case
  proof (cases "?B \<noteq> [] \<and> ev_ts (hd ?B) < bucketTop")
    case True
    then have "cal_search c i bucketTop m = Some (Inl (i, bucketTop, hd ?B))"
      by (subst cal_search.simps) (simp add: B Let_def)
    moreover have "found c (Inl (i, bucketTop, hd ?B))"
      using search_found [OF assms(1) less.prems, of "hd ?B" "tl ?B"] True by (simp add: word_less_nat_alt)
    ultimately show ?thesis by blast
  next
    case False
    define m' where "m' = (if ?B \<noteq> [] \<and> key_less (ev_key (hd ?B)) (min_key m) then Some (hd ?B) else m)"
    note step = search_next [OF assms(1,2) less.prems refl False m'_def]
    have unfolded: "cal_search c i bucketTop m = (if (i + 1) mod cal_nBuckets c \<noteq> cal_lastBucket c
        then cal_search c ((i + 1) mod cal_nBuckets c) (bucketTop + cal_width c) m' else Some (Inr m'))"
      by (subst cal_search.simps) (simp only: B Option.bind.bind_lunit Let_def if_not_P [OF False] m'_def)
    show ?thesis
    proof (cases "(i + 1) mod cal_nBuckets c \<noteq> cal_lastBucket c")
      case True
      with step have "searching c (Suc k) ((i + 1) mod cal_nBuckets c) (bucketTop + cal_width c) m'" by simp
      moreover have "unat (cal_nBuckets c) - Suc k < unat (cal_nBuckets c) - k" using k(1) by simp
      ultimately show ?thesis using less.hyps True unfolded by simp
    next
      case False
      with step have l: "least_of (set_mset (cal_events c)) m'" "\<And>e. m' = Some e \<Longrightarrow> in_front c e" by auto
      then obtain e where e: "m' = Some e" "e \<in># cal_events c" "\<forall>x \<in># cal_events c. rank e \<le> rank x"
        using assms(3) by (auto simp: least_of_def split: option.splits)
      then have "found c (Inr m')" using l(2) by (simp add: found_def least_def)
      then show ?thesis using unfolded False by auto
    qed
  qed
qed

lemma start_search:
  assumes "sorted_in c" "placed c"
  shows "searching c 0 (cal_lastBucket c) (cal_bucketTop c) None"
proof -
  have "sized c" using assms(1) by (simp add: sorted_in_def)
  then show ?thesis using assms(2) by (simp add: searching_def placed_def sized_def bucket_of_def least_of_def Let_def)
qed

text \<open>Taking the least event out of its bucket.\<close>

definition taken :: "'e event \<Rightarrow> 'e calendar \<Rightarrow> 'e calendar" where
  "taken e c = (let i = bucket_of c (unat (ev_ts e)) in c\<lparr>cal_buckets := (cal_buckets c)[i := tl (cal_buckets c ! i)],
     cal_lastPrio := ev_ts e\<rparr>)"

lemma taken_ok:
  assumes "sorted_in c" "least c e"
  shows "sorted_in (taken e c)" "cal_events c = add_mset e (cal_events (taken e c))"
proof -
  let ?i = "bucket_of c (unat (ev_ts e))"
  have s: "sized c" using assms(1) by (simp add: sorted_in_def)
  have i: "?i < length (cal_buckets c)" "?i < unat (cal_nBuckets c)" using bucket_less [OF s] s by (simp_all add: sized_def)
  obtain es where es: "cal_buckets c ! ?i = e # es" using assms(2) by (auto simp: least_def in_front_def)
  have "mset (concat ((cal_buckets c)[?i := es])) + mset (e # es) = mset (concat (cal_buckets c)) + mset es"
    using mset_concat_update [OF i(1), of es] es by simp
  then have ev: "mset (concat (cal_buckets c)) = add_mset e (mset (concat ((cal_buckets c)[?i := es])))" by simp
  then show events: "cal_events c = add_mset e (cal_events (taken e c))" by (simp add: cal_events_def taken_def es Let_def)
  have same: "bucket_of (taken e c) = bucket_of c" by (simp add: taken_def bucket_of_def fun_eq_iff Let_def)
  show "sorted_in (taken e c)" unfolding sorted_in_def
  proof (intro conjI ballI allI impI)
    show "sized (taken e c)" using s by (simp add: sized_def taken_def Let_def)
  next
    fix j assume "j < unat (cal_nBuckets (taken e c))"
    then have j: "j < unat (cal_nBuckets c)" by (simp add: taken_def Let_def)
    then have o: "in_order (cal_buckets c ! j)" "\<forall>x \<in> set (cal_buckets c ! j). bucket_of c (unat (ev_ts x)) = j"
      using assms(1) by (simp_all add: sorted_in_def)
    show "in_order (cal_buckets (taken e c) ! j)"
      using o(1) in_order_tl i by (cases "j = ?i") (simp_all add: taken_def Let_def)
    show "bucket_of (taken e c) (unat (ev_ts x)) = j" if "x \<in> set (cal_buckets (taken e c) ! j)" for x
      unfolding same using o(2) that i es by (cases "j = ?i") (simp_all add: taken_def Let_def)
  next
    fix x assume "x \<in># cal_events (taken e c)"
    then have x: "x \<in># cal_events c" by (simp add: events)
    then show "unat (ev_ts x) \<le> horizon" using assms(1) by (simp add: sorted_in_def)
    have "rank e \<le> rank x" using assms(2) x by (simp add: least_def)
    then show "unat (cal_lastPrio (taken e c)) \<le> unat (ev_ts x)" using rank_le_ts by (simp add: taken_def Let_def)
  qed
qed

lemma sorted_in_position: "sorted_in (c\<lparr>cal_lastBucket := b, cal_bucketTop := t\<rparr>) = sorted_in c"
  by (simp add: sorted_in_def sized_def bucket_of_def cal_events_def)

lemma DoRemoveNext_ok:
  assumes "sorted_in c" "placed c" "cal_events c \<noteq> {#}"
  shows "\<exists>e c'. CalendarScheduler_DoRemoveNext c = Some (e, c') \<and> sorted_in c' \<and> placed c' \<and>
    cal_events c = add_mset e (cal_events c') \<and> (\<forall>x \<in># cal_events c'. rank e \<le> rank x) \<and> cal_lastPrio c' = ev_ts e \<and>
    cal_nBuckets c' = cal_nBuckets c \<and> cal_width c' = cal_width c \<and> cal_qSize c' = cal_qSize c \<and>
    (cal_qSize c \<noteq> 0 \<longrightarrow> CalendarScheduler_PeekNext c = Some e)"
proof -
  have s: "sized c" using assms(1) by (simp add: sorted_in_def)
  obtain r where r: "cal_search c (cal_lastBucket c) (cal_bucketTop c) None = Some r" "found c r"
    using search_ok [OF assms start_search [OF assms(1,2)]] by blast
  obtain e b t where e: "least c e" "unat b = bucket_of c (unat (ev_ts e))"
    "unat t = (unat (ev_ts e) div unat (cal_width c) + 1) * unat (cal_width c)"
    "CalendarScheduler_DoRemoveNext c = Some (e, (taken e c)\<lparr>cal_lastBucket := b, cal_bucketTop := t\<rparr>)"
    "cal_qSize c \<noteq> 0 \<longrightarrow> CalendarScheduler_PeekNext c = Some e"
  proof (cases r)
    case (Inl x)
    obtain i t e where x: "x = (i, t, e)" by (cases x)
    then have f: "least c e" "unat i = bucket_of c (unat (ev_ts e))"
      "unat t = (unat (ev_ts e) div unat (cal_width c) + 1) * unat (cal_width c)" using r(2) Inl by (simp_all add: found_def)
    have "unat i < length (cal_buckets c)" using bucket_less [OF s] f(2) s by (simp add: sized_def)
    then have "vec_at (cal_buckets c) (unat i) = Some (cal_buckets c ! unat i)" by (simp add: vec_at_def)
    then have "CalendarScheduler_DoRemoveNext c = Some (e, (taken e c)\<lparr>cal_lastBucket := i, cal_bucketTop := t\<rparr>)"
      using r(1) Inl x f(2) by (simp add: CalendarScheduler_DoRemoveNext_def taken_def Let_def)
    moreover have "cal_qSize c \<noteq> 0 \<longrightarrow> CalendarScheduler_PeekNext c = Some e"
      using r(1) Inl x by (simp add: CalendarScheduler_PeekNext_def CalendarScheduler_IsEmpty_def ns_assert_def)
    ultimately show ?thesis using that f by blast
  next
    case (Inr m)
    then obtain e where f: "m = Some e" "least c e" using r(2) by (auto simp: found_def)
    obtain b where b: "CalendarScheduler_Hash (ev_ts e) c = Some b" "unat b = bucket_of c (unat (ev_ts e))"
      using Hash_eq [OF s] by blast
    let ?t = "(ev_ts e div cal_width c + 1) * cal_width c"
    have "unat b < length (cal_buckets c)" using bucket_less [OF s] b(2) s by (simp add: sized_def)
    then have v: "vec_at (cal_buckets c) (unat b) = Some (cal_buckets c ! unat b)" by (simp add: vec_at_def)
    have ne: "cal_buckets c ! unat b \<noteq> []" using f(2) b(2) by (auto simp: least_def in_front_def)
    have "unat (ev_ts e) \<le> horizon" using assms(1) f(2) by (simp add: sorted_in_def least_def)
    then have "unat (ev_ts e) + unat (cal_width c) < 2 ^ 64" using s by (simp add: sized_def horizon_def)
    moreover have "unat (ev_ts e) div unat (cal_width c) * unat (cal_width c) \<le> unat (ev_ts e)" by (rule div_times_less_eq_dividend)
    ultimately have bound: "(unat (ev_ts e) div unat (cal_width c) + 1) * unat (cal_width c) < 2 ^ 64"
      unfolding add_mult_distrib mult_1 by linarith
    have "(unat (ev_ts e) div unat (cal_width c) + 1) * 1 \<le> (unat (ev_ts e) div unat (cal_width c) + 1) * unat (cal_width c)"
      by (rule mult_le_mono2) (use s in \<open>simp add: sized_def\<close>)
    then have "unat (ev_ts e div cal_width c + 1) = unat (ev_ts e) div unat (cal_width c) + 1"
      using bound by (simp add: unat_word_ariths unat_div)
    then have t: "unat ?t = (unat (ev_ts e) div unat (cal_width c) + 1) * unat (cal_width c)"
      using bound by (simp add: unat_word_ariths)
    have "CalendarScheduler_DoRemoveNext c = Some (e, (taken e c)\<lparr>cal_lastBucket := b, cal_bucketTop := ?t\<rparr>)"
      using r(1) Inr f(1) b v ne by (simp add: CalendarScheduler_DoRemoveNext_def taken_def ns_assert_def Let_def)
    moreover have "cal_qSize c \<noteq> 0 \<longrightarrow> CalendarScheduler_PeekNext c = Some e"
      using r(1) Inr f(1) by (simp add: CalendarScheduler_PeekNext_def CalendarScheduler_IsEmpty_def ns_assert_def)
    ultimately show ?thesis using that f(2) b(2) t by blast
  qed
  let ?c = "(taken e c)\<lparr>cal_lastBucket := b, cal_bucketTop := t\<rparr>"
  have "sorted_in ?c" "cal_events c = add_mset e (cal_events ?c)"
    using taken_ok [OF assms(1) e(1)] by (simp_all add: sorted_in_position, simp add: cal_events_def)
  moreover have "unat (ev_ts e) \<le> horizon" using assms(1) e(1) by (simp add: sorted_in_def least_def)
  then have "placed ?c" using e(2,3) by (simp add: placed_def taken_def bucket_of_def Let_def)
  moreover have "\<forall>x \<in># cal_events ?c. rank e \<le> rank x" using e(1) calculation(2) by (simp add: least_def)
  ultimately show ?thesis using e(4,5) by (intro exI [of _ e] exI [of _ ?c]) (simp add: taken_def Let_def)
qed

section \<open>Resizing keeps the events\<close>

lemma drain_calendar:
  assumes "sorted_in c" "placed c" "n \<le> size (cal_events c)"
  shows "\<exists>es c'. drain CalendarScheduler_DoRemoveNext n c = Some (es, c') \<and> sorted_in c' \<and>
    cal_events c = mset es + cal_events c' \<and> length es = n \<and> sorted (map (\<lambda>e. unat (ev_ts e)) es) \<and>
    cal_nBuckets c' = cal_nBuckets c \<and> cal_width c' = cal_width c \<and> cal_qSize c' = cal_qSize c"
  using assms
proof (induction n arbitrary: c)
  case (Suc n)
  then have "cal_events c \<noteq> {#}" by auto
  from DoRemoveNext_ok [OF Suc.prems(1,2) this] obtain e c1 where c1: "CalendarScheduler_DoRemoveNext c = Some (e, c1)"
    "sorted_in c1" "placed c1" "cal_events c = add_mset e (cal_events c1)" "\<forall>x \<in># cal_events c1. rank e \<le> rank x"
    "cal_nBuckets c1 = cal_nBuckets c" "cal_width c1 = cal_width c" "cal_qSize c1 = cal_qSize c" by blast
  have "n \<le> size (cal_events c1)" using Suc.prems(3) c1(4) by simp
  from Suc.IH [OF c1(2,3) this] obtain es c2 where c2: "drain CalendarScheduler_DoRemoveNext n c1 = Some (es, c2)" "sorted_in c2"
    "cal_events c1 = mset es + cal_events c2" "length es = n" "sorted (map (\<lambda>e. unat (ev_ts e)) es)"
    "cal_nBuckets c2 = cal_nBuckets c1" "cal_width c2 = cal_width c1" "cal_qSize c2 = cal_qSize c1" by blast
  have "\<forall>x \<in> set es. unat (ev_ts e) \<le> unat (ev_ts x)" using c1(5) c2(3) rank_le_ts by auto
  then show ?case using c1 c2 by (intro exI [of _ "e # es"] exI [of _ c2]) auto
qed simp

abbreviation restore :: "u32 \<Rightarrow> u64 \<Rightarrow> u64 \<Rightarrow> 'e calendar \<Rightarrow> 'e calendar" where
  "restore b t p c \<equiv> c\<lparr>cal_lastBucket := b, cal_bucketTop := t, cal_lastPrio := p\<rparr>"

lemma DoInsert_restore:
  "CalendarScheduler_DoInsert e (restore b t p c) = map_option (restore b t p) (CalendarScheduler_DoInsert e c)"
  by (cases "CalendarScheduler_Hash (ev_ts e) c"; cases "vec_at (cal_buckets c) (unat (the (CalendarScheduler_Hash (ev_ts e) c)))")
    (simp_all add: CalendarScheduler_DoInsert_def CalendarScheduler_Hash_def)

lemma insert_all_restore:
  "insert_all CalendarScheduler_DoInsert es (restore b t p c) = map_option (restore b t p) (insert_all CalendarScheduler_DoInsert es c)"
proof (induction es arbitrary: c)
  case (Cons e es)
  show ?case
    by (cases "CalendarScheduler_DoInsert e c") (simp_all add: DoInsert_restore Cons.IH)
qed simp

text \<open>The width is not zero: the sum of the separations is the time between the first and the last sample.\<close>

lemma separations_sum:
  "sorted (map (\<lambda>e. unat (ev_ts e)) es) \<Longrightarrow> es \<noteq> [] \<Longrightarrow>
     sum_list (map unat (separations es)) + unat (ev_ts (hd es)) = unat (ev_ts (List.last es))"
proof (induction es rule: separations.induct)
  case (1 cur nxt es)
  then have "unat (ev_ts cur) \<le> unat (ev_ts nxt)" by simp
  then have "unat (ev_ts nxt - ev_ts cur) + unat (ev_ts cur) = unat (ev_ts nxt)" by (simp add: unat_sub word_le_nat_alt)
  with 1 show ?case by simp
qed simp_all

lemma unat_sum_list: "sum_list (map unat ws) < 2 ^ 64 \<Longrightarrow> unat (sum_list (ws :: u64 list)) = sum_list (map unat ws)"
  by (induction ws) (simp_all add: unat_word_ariths)

lemma average_width_pos:
  assumes "sorted (map (\<lambda>e. unat (ev_ts e)) es)" "\<forall>e \<in> set es. unat (ev_ts e) \<le> horizon"
  shows "average_width n es \<noteq> 0"
proof -
  define ds where "ds = filter (\<lambda>diff. diff \<le> sum_list (separations es) div ucast (n - 1) * 2) (separations es)"
  have "sum_list (map unat (separations es)) \<le> horizon"
  proof (cases "es = []")
    case False
    then have "List.last es \<in> set es" by simp
    then show ?thesis using separations_sum [OF assms(1) False] assms(2) by fastforce
  qed simp
  moreover have "sum_list (map unat (filter P ws)) \<le> sum_list (map unat ws)" for P and ws :: "u64 list"
    by (induction ws) auto
  then have "sum_list (map unat ds) \<le> sum_list (map unat (separations es))" by (simp add: ds_def)
  ultimately have d: "sum_list (map unat ds) \<le> horizon" by simp
  then have "unat (sum_list ds) \<le> horizon" using unat_sum_list [of ds] by (simp add: horizon_def)
  then have three: "unat (sum_list ds * 3) \<le> 4294967295" by (simp add: unat_word_ariths horizon_def)
  then have "unat (max (sum_list ds * 3) 1) \<le> 4294967295" "max (sum_list ds * 3) 1 \<noteq> 0"
    by (auto simp: max_def word_le_nat_alt)
  then have "unat (ucast (max (sum_list ds * 3) 1) :: u32) \<noteq> 0"
    by (simp add: unsigned_ucast_eq take_bit_nat_eq_self unat_eq_0)
  then show ?thesis by (auto simp: average_width_def ds_def Let_def)
qed

lemma sample_count_le: "2 \<le> unat q \<Longrightarrow> unat (sample_count q) \<le> unat q"
proof -
  assume q: "2 \<le> unat q"
  have "unat (q div 10) \<le> unat q div 10" by (simp add: unat_div)
  then have "unat (5 + q div 10) \<le> 5 + unat q div 10" by (simp add: unat_word_ariths unat_div)
  moreover have "\<not> q \<le> 5 \<Longrightarrow> 6 \<le> unat q" by (simp add: word_le_nat_alt)
  ultimately show ?thesis
    by (auto simp: sample_count_def Let_def word_less_nat_alt split: if_splits)
qed

lemma CalculateNewWidth_ok:
  assumes "sorted_in c" "placed c" "unat (cal_qSize c) = size (cal_events c)"
  shows "\<exists>w c'. CalendarScheduler_CalculateNewWidth c = Some (w, c') \<and> w \<noteq> 0 \<and> sorted_in c' \<and> cal_events c' = cal_events c \<and>
    cal_lastPrio c' = cal_lastPrio c \<and> cal_nBuckets c' = cal_nBuckets c \<and> cal_qSize c' = cal_qSize c"
proof (cases "cal_qSize c < 2")
  case True
  then show ?thesis using assms by (simp add: CalendarScheduler_CalculateNewWidth_def)
next
  case False
  let ?n = "sample_count (cal_qSize c)"
  have q: "2 \<le> unat (cal_qSize c)" using False by (simp add: word_less_nat_alt not_less)
  have "unat ?n \<le> size (cal_events c)" using sample_count_le [OF q] assms(3) by simp
  from drain_calendar [OF assms(1,2) this] obtain es c1 where c1: "drain CalendarScheduler_DoRemoveNext (unat ?n) c = Some (es, c1)"
    "sorted_in c1" "cal_events c = mset es + cal_events c1" "sorted (map (\<lambda>e. unat (ev_ts e)) es)"
    "cal_nBuckets c1 = cal_nBuckets c" "cal_width c1 = cal_width c" "cal_qSize c1 = cal_qSize c" by blast
  have all: "unat (ev_ts e) \<le> horizon \<and> unat (cal_lastPrio c) \<le> unat (ev_ts e)" if "e \<in># cal_events c" for e
    using assms(1) that by (simp add: sorted_in_def)
  have es: "\<forall>e \<in> set es. unat (ev_ts e) \<le> horizon \<and> unat (cal_lastPrio c) \<le> unat (ev_ts e)"
    using all c1(3) by simp
  let ?r = "restore (cal_lastBucket c) (cal_bucketTop c) (cal_lastPrio c)"
  have r: "sorted_in (?r c1)"
    using c1(2,3) all by (simp add: sorted_in_def sized_def bucket_of_def cal_events_def)
  from insert_all_DoInsert [OF r] es obtain c2 where c2: "insert_all CalendarScheduler_DoInsert es (?r c1) = Some c2" "sorted_in c2"
    "cal_events c2 = mset es + cal_events (?r c1)" "c2 = (?r c1)\<lparr>cal_buckets := cal_buckets c2\<rparr>" by auto
  from c2(1) obtain c3 where c3: "insert_all CalendarScheduler_DoInsert es c1 = Some c3" "c2 = ?r c3"
    unfolding insert_all_restore by auto
  have "CalendarScheduler_CalculateNewWidth c = Some (average_width ?n es, c2)"
    using False c1(1) c3 by (simp add: CalendarScheduler_CalculateNewWidth_def Let_def)
  moreover have "average_width ?n es \<noteq> 0" using average_width_pos c1(4) es by blast
  moreover have "cal_events c2 = cal_events c" using c2(3) c1(3) by (simp add: cal_events_def)
  moreover have "cal_lastPrio c2 = cal_lastPrio c" "cal_nBuckets c2 = cal_nBuckets c" "cal_qSize c2 = cal_qSize c"
    using c1 by (subst c2(4), simp)+
  ultimately show ?thesis using c2(2) by blast
qed

lemma DoResize_ok:
  assumes "sorted_in c" "unat (cal_lastPrio c) \<le> horizon" "0 < unat n" "unat n \<le> 65536" "w \<noteq> 0"
  shows "\<exists>c'. CalendarScheduler_DoResize n w c = Some c' \<and> sorted_in c' \<and> placed c' \<and> cal_events c' = cal_events c \<and>
    cal_lastPrio c' = cal_lastPrio c \<and> cal_qSize c' = cal_qSize c"
proof -
  let ?p = "cal_lastPrio c"
  let ?c = "c\<lparr>cal_buckets := replicate (unat n) [], cal_nBuckets := n, cal_width := ucast w, cal_lastPrio := ?p\<rparr>"
  have w: "unat (ucast w :: u64) = unat w"
    using unsigned_less [of w, where 'a = nat] by (simp add: unsigned_ucast_eq take_bit_nat_eq_self_iff)
  have w0: "0 < unat w" "unat w < 2 ^ 32" using assms(5) unsigned_less [of w, where 'a = nat] by (simp_all add: unat_gt_0)
  have s: "sized ?c" using assms(3,4) w w0 by (simp add: sized_def)
  obtain b where b: "CalendarScheduler_Hash ?p ?c = Some b" "unat b = bucket_of ?c (unat ?p)" using Hash_eq [OF s] by blast
  define c0 where "c0 = ?c\<lparr>cal_lastBucket := b, cal_bucketTop := (?p div ucast w + 1) * ucast w\<rparr>"
  have init: "CalendarScheduler_Init n (ucast w) ?p c = Some c0"
    unfolding CalendarScheduler_Init_def Let_def b(1) c0_def Option.bind.bind_lunit by (rule refl)
  have ev: "cal_events c0 = {#}" by (simp add: cal_events_def c0_def)
  have "sorted_in c0" unfolding sorted_in_def ev
    using s by (simp add: c0_def sized_def in_order_def)
  have "unat ?p div unat w * unat w \<le> unat ?p" by (rule div_times_less_eq_dividend)
  then have "unat w + unat ?p div unat w * unat w \<le> unat w + horizon" using assms(2) by linarith
  then have bound: "(unat ?p div unat w + 1) * unat w < 2 ^ 64" using w0(2) by (simp add: horizon_def)
  have "(unat ?p div unat w + 1) * 1 \<le> (unat ?p div unat w + 1) * unat w" using w0(1) by (intro mult_le_mono2) simp
  then have "unat (?p div ucast w + 1 :: u64) = unat ?p div unat w + 1" using bound by (simp add: unat_word_ariths unat_div w)
  then have "unat ((?p div ucast w + 1) * ucast w :: u64) = (unat ?p div unat w + 1) * unat w"
    using bound by (simp add: unat_word_ariths w)
  then have p: "placed c0" using b(2) assms(2) by (simp add: placed_def c0_def bucket_of_def w)
  have "\<forall>e \<in> set (concat (cal_buckets c)). unat (ev_ts e) \<le> horizon \<and> unat (cal_lastPrio c0) \<le> unat (ev_ts e)"
    using assms(1) by (simp add: sorted_in_def cal_events_def c0_def)
  from insert_all_DoInsert [OF \<open>sorted_in c0\<close> this] obtain c' where c': "insert_all CalendarScheduler_DoInsert (concat (cal_buckets c)) c0 = Some c'"
    "sorted_in c'" "cal_events c' = mset (concat (cal_buckets c)) + cal_events c0" "c' = c0\<lparr>cal_buckets := cal_buckets c'\<rparr>" by blast
  have "placed c'" using p by (subst c'(4)) (simp add: placed_def bucket_of_def)
  moreover have "cal_lastPrio c' = ?p" "cal_qSize c' = cal_qSize c" by (subst c'(4), simp add: c0_def)+
  moreover have "CalendarScheduler_DoResize n w c = Some c'" by (simp add: CalendarScheduler_DoResize_def init c'(1))
  ultimately show ?thesis using c'(2,3) by (simp add: ev) (simp add: cal_events_def)
qed

lemma Resize_ok:
  assumes "cal_ok c" "0 < unat n" "unat n \<le> 65536"
  shows "\<exists>c'. CalendarScheduler_Resize n c = Some c' \<and> cal_ok c' \<and> cal_events c' = cal_events c \<and> cal_lastPrio c' = cal_lastPrio c"
proof -
  have c: "sorted_in c" "placed c" "unat (cal_qSize c) = size (cal_events c)" using assms(1) by (simp_all add: cal_ok_def)
  obtain w c1 where c1: "CalendarScheduler_CalculateNewWidth c = Some (w, c1)" "w \<noteq> 0" "sorted_in c1" "cal_events c1 = cal_events c"
    "cal_lastPrio c1 = cal_lastPrio c" "cal_qSize c1 = cal_qSize c" using CalculateNewWidth_ok [OF c] by blast
  have "unat (cal_lastPrio c1) \<le> horizon" using c(2) c1(5) by (simp add: placed_def)
  from DoResize_ok [OF c1(3) this assms(2,3) c1(2)] obtain c2 where "CalendarScheduler_DoResize n w c1 = Some c2" "sorted_in c2" "placed c2"
    "cal_events c2 = cal_events c1" "cal_lastPrio c2 = cal_lastPrio c1" "cal_qSize c2 = cal_qSize c1" by blast
  then show ?thesis using c1 c(3) by (simp add: CalendarScheduler_Resize_def cal_ok_def)
qed

lemma ResizeUp_ok:
  assumes "cal_ok c"
  shows "\<exists>c'. CalendarScheduler_ResizeUp c = Some c' \<and> cal_ok c' \<and> cal_events c' = cal_events c \<and> cal_lastPrio c' = cal_lastPrio c"
proof (cases "cal_qSize c > cal_nBuckets c * 2 \<and> cal_nBuckets c < 32768")
  case True
  have "0 < unat (cal_nBuckets c)" using assms by (simp add: cal_ok_def sorted_in_def sized_def)
  moreover have "unat (cal_nBuckets c) < 32768" using True by (simp add: word_less_nat_alt)
  ultimately have "0 < unat (cal_nBuckets c * 2)" "unat (cal_nBuckets c * 2) \<le> 65536" by (simp_all add: unat_word_ariths)
  from Resize_ok [OF assms this] True show ?thesis by (simp add: CalendarScheduler_ResizeUp_def)
next
  case False
  then have "CalendarScheduler_ResizeUp c = Some c" by (simp only: CalendarScheduler_ResizeUp_def if_False)
  then show ?thesis using assms by simp
qed

lemma ResizeDown_ok:
  assumes "cal_ok c"
  shows "\<exists>c'. CalendarScheduler_ResizeDown c = Some c' \<and> cal_ok c' \<and> cal_events c' = cal_events c \<and> cal_lastPrio c' = cal_lastPrio c"
proof (cases "cal_qSize c < cal_nBuckets c div 2")
  case True
  have "unat (cal_nBuckets c) \<le> 65536" using assms by (simp add: cal_ok_def sorted_in_def sized_def)
  moreover have "0 < unat (cal_nBuckets c div 2)" using True by (simp add: word_less_nat_alt)
  ultimately have "0 < unat (cal_nBuckets c div 2)" "unat (cal_nBuckets c div 2) \<le> 65536" by (simp_all add: unat_div)
  from Resize_ok [OF assms this] True show ?thesis by (simp add: CalendarScheduler_ResizeDown_def)
next
  case False
  then have "CalendarScheduler_ResizeDown c = Some c" by (simp only: CalendarScheduler_ResizeDown_def if_False)
  then show ?thesis using assms by simp
qed

section \<open>The operations of the scheduler\<close>

text \<open>A counter of 32 bits holds fewer than \<open>2 ^ 32\<close> events.\<close>

definition calendar_fits :: "'e event \<Rightarrow> 'e event multiset \<Rightarrow> bool" where
  "calendar_fits e m \<longleftrightarrow> unat (ev_ts e) \<le> horizon \<and> size m + 1 < 2 ^ 32"

lemma set_qSize: "sorted_in (c\<lparr>cal_qSize := q\<rparr>) = sorted_in c" "placed (c\<lparr>cal_qSize := q\<rparr>) = placed c"
  "cal_events (c\<lparr>cal_qSize := q\<rparr>) = cal_events c"
  by (simp_all add: sorted_in_def sized_def bucket_of_def cal_events_def placed_def)

lemma set_buckets_placed: "placed (c\<lparr>cal_buckets := bs\<rparr>) = placed c"
  by (simp add: placed_def bucket_of_def)

lemma Insert_ok:
  assumes "cal_ok c" "calendar_fits e (cal_events c)" "unat (cal_lastPrio c) \<le> unat (ev_ts e)"
  shows "\<exists>c'. CalendarScheduler_Insert e c = Some c' \<and> cal_ok c' \<and> cal_events c' = add_mset e (cal_events c) \<and>
    cal_lastPrio c' = cal_lastPrio c"
proof -
  have c: "sorted_in c" "placed c" "unat (cal_qSize c) = size (cal_events c)" using assms(1) by (simp_all add: cal_ok_def)
  have "unat (ev_ts e) \<le> horizon" using assms(2) by (simp add: calendar_fits_def)
  from DoInsert_ok [OF c(1) this assms(3)] obtain c1 where c1: "CalendarScheduler_DoInsert e c = Some c1" "sorted_in c1"
    "cal_events c1 = add_mset e (cal_events c)" "c1 = c\<lparr>cal_buckets := cal_buckets c1\<rparr>" by blast
  have keep: "placed c1" "cal_lastPrio c1 = cal_lastPrio c" "cal_qSize c1 = cal_qSize c"
    using c(2) by (subst c1(4), simp add: set_buckets_placed)+
  let ?c = "c1\<lparr>cal_qSize := cal_qSize c1 + 1\<rparr>"
  have "size (cal_events c) + 1 < 2 ^ 32" using assms(2) by (simp only: calendar_fits_def)
  then have "unat (cal_qSize c1 + 1) = size (cal_events c) + 1" using c(3) keep(3) by (simp add: unat_word_ariths)
  then have "cal_ok ?c" using c1(2,3) keep(1) by (simp add: cal_ok_def set_qSize)
  from ResizeUp_ok [OF this] show ?thesis using c1(1,3) keep(2) by (simp add: CalendarScheduler_Insert_def set_qSize)
qed

lemma counted: "unat (q :: u32) = Suc n \<Longrightarrow> unat (q - 1) = n"
proof -
  assume q: "unat q = Suc n"
  then have "1 \<le> q" by (simp add: word_le_nat_alt)
  then show ?thesis using q by (simp add: unat_sub)
qed

lemma RemoveNext_ok:
  assumes "cal_ok c" "cal_events c \<noteq> {#}"
  shows "\<exists>e c'. CalendarScheduler_RemoveNext c = Some (e, c') \<and> CalendarScheduler_PeekNext c = Some e \<and> cal_ok c' \<and>
    cal_events c = add_mset e (cal_events c') \<and> (\<forall>x \<in># cal_events c'. rank e \<le> rank x) \<and> cal_lastPrio c' = ev_ts e"
proof -
  have c: "sorted_in c" "placed c" "unat (cal_qSize c) = size (cal_events c)" using assms(1) by (simp_all add: cal_ok_def)
  then have q: "cal_qSize c \<noteq> 0" using assms(2) by auto
  from DoRemoveNext_ok [OF c(1,2) assms(2)] q obtain e c1 where c1: "CalendarScheduler_DoRemoveNext c = Some (e, c1)" "sorted_in c1" "placed c1"
    "cal_events c = add_mset e (cal_events c1)" "\<forall>x \<in># cal_events c1. rank e \<le> rank x" "cal_lastPrio c1 = ev_ts e"
    "cal_qSize c1 = cal_qSize c" "CalendarScheduler_PeekNext c = Some e" by blast
  have "unat (cal_qSize c1 - 1) = size (cal_events c1)" by (rule counted) (simp add: c(3) c1(4,7))
  then have "cal_ok (c1\<lparr>cal_qSize := cal_qSize c1 - 1\<rparr>)" using c1(2,3) by (simp add: cal_ok_def set_qSize)
  from ResizeDown_ok [OF this] obtain c2 where "CalendarScheduler_ResizeDown (c1\<lparr>cal_qSize := cal_qSize c1 - 1\<rparr>) = Some c2" "cal_ok c2"
    "cal_events c2 = cal_events c1" "cal_lastPrio c2 = cal_lastPrio c1" by (auto simp: set_qSize)
  then show ?thesis using c1 q by (simp add: CalendarScheduler_RemoveNext_def CalendarScheduler_IsEmpty_def ns_assert_def)
qed

lemma bucket_subset: "i < length xss \<Longrightarrow> mset (xss ! i) \<subseteq># mset (concat xss)"
  by (induction xss arbitrary: i)
    (auto simp: less_Suc_eq_0_disj intro: subset_mset.order_trans [OF _ mset_subset_eq_add_right])

lemma Remove_ok:
  assumes "cal_ok c" "cal_events c = add_mset e m" "fresh_uid e m"
  shows "\<exists>c'. CalendarScheduler_Remove e c = Some c' \<and> cal_ok c' \<and> cal_events c' = m \<and> cal_lastPrio c' = cal_lastPrio c"
proof -
  have c: "sorted_in c" "placed c" "unat (cal_qSize c) = Suc (size m)" using assms(1,2) by (simp_all add: cal_ok_def)
  then have q: "cal_qSize c \<noteq> 0" by auto
  have s: "sized c" using c(1) by (simp add: sorted_in_def)
  obtain b where b: "CalendarScheduler_Hash (ev_ts e) c = Some b" "unat b = bucket_of c (unat (ev_ts e))" using Hash_eq [OF s] by blast
  let ?i = "unat b"
  let ?es = "cal_buckets c ! ?i"
  have i: "?i < length (cal_buckets c)" "?i < unat (cal_nBuckets c)" using bucket_less [OF s] s by (simp_all add: b(2) sized_def)
  have e: "e \<in> set ?es" using event_in_its_bucket [OF c(1)] assms(2) b(2) by simp
  have o: "in_order ?es" "\<forall>x \<in> set ?es. bucket_of c (unat (ev_ts x)) = ?i" using c(1) i(2) by (simp_all add: sorted_in_def)
  obtain m1 where m1: "mset ?es = add_mset e m1" using e by (metis mset_add set_mset_mset)
  have "m1 \<subseteq># m" using bucket_subset [OF i(1)] m1 assms(2) by (simp add: cal_events_def)
  then have "fresh_uid e m1" using assms(3) by (auto simp: fresh_uid_def dest: mset_subset_eqD)
  from list_Remove [OF o(1) m1 this] obtain es where es: "ListScheduler_Remove e ?es = Some es" "in_order es" "mset es = m1" "set es \<subseteq> set ?es"
    by blast
  let ?c = "c\<lparr>cal_buckets := (cal_buckets c)[?i := es], cal_qSize := cal_qSize c - 1\<rparr>"
  have "add_mset e (mset (concat ((cal_buckets c)[?i := es]))) + m1 = mset (concat (cal_buckets c)) + m1"
    using mset_concat_update [OF i(1), of es] m1 es(3) by simp
  then have ev: "cal_events ?c = m" using assms(2) by (simp add: cal_events_def)
  have "sorted_in ?c" unfolding sorted_in_def ev
  proof (intro conjI allI impI)
    show "sized ?c" using s by (simp add: sized_def)
    have same: "bucket_of ?c = bucket_of c" by (simp add: bucket_of_def fun_eq_iff)
    fix j assume j: "j < unat (cal_nBuckets ?c)"
    then have oj: "in_order (cal_buckets c ! j)" "\<forall>x \<in> set (cal_buckets c ! j). bucket_of c (unat (ev_ts x)) = j"
      using c(1) by (simp_all add: sorted_in_def)
    show "in_order (cal_buckets ?c ! j)" using oj(1) es(2) i by (cases "j = ?i") simp_all
    show "\<forall>x \<in> set (cal_buckets ?c ! j). bucket_of ?c (unat (ev_ts x)) = j"
      unfolding same using oj(2) o(2) es(4) i by (cases "j = ?i") auto
  qed (use c(1) assms(2) in \<open>auto simp: sorted_in_def\<close>)
  moreover have "unat (cal_qSize ?c) = size m" by (simp add: counted [OF c(3)])
  moreover have "placed ?c" using c(2) by (simp add: placed_def bucket_of_def)
  ultimately have "cal_ok ?c" using ev by (simp add: cal_ok_def)
  from ResizeDown_ok [OF this] show ?thesis
    using q i(1) es(1) ev by (simp add: CalendarScheduler_Remove_def CalendarScheduler_IsEmpty_def ns_assert_def b(1) vec_at_def)
qed

lemma new_ok: "\<exists>c. CalendarScheduler_new = Some c \<and> cal_ok c \<and> cal_events c = {#} \<and> cal_lastPrio c = 0"
  by (simp add: CalendarScheduler_new_def CalendarScheduler_Init_def CalendarScheduler_Hash_def ns_assert_def Let_def cal_ok_def
    sorted_in_def sized_def placed_def bucket_of_def cal_events_def in_order_def less_2_cases_iff)

section \<open>A queue for a client that does not go back in time\<close>

text \<open>
  What a client asks of a queue: to insert an event, to show the next one, to take it out, or to
  take back an event. \<open>serve\<close> gives the events shown and taken out, and the queue that is left.
\<close>

datatype 'e request = Push "'e event" | Peek | Pop | Cancel "'e event"

fun serve :: "('e event \<Rightarrow> 's \<Rightarrow> 's option) \<Rightarrow> ('s \<Rightarrow> 'e event option) \<Rightarrow> ('s \<Rightarrow> ('e event \<times> 's) option) \<Rightarrow>
    ('e event \<Rightarrow> 's \<Rightarrow> 's option) \<Rightarrow> 'e request list \<Rightarrow> 's \<Rightarrow> ('e event list \<times> 's) option" where
  "serve ins peek rem remove [] s = Some ([], s)"
| "serve ins peek rem remove (Push e # rs) s = do { s \<leftarrow> ins e s; serve ins peek rem remove rs s }"
| "serve ins peek rem remove (Peek # rs) s = do {
     e \<leftarrow> peek s; (es, s) \<leftarrow> serve ins peek rem remove rs s; Some (e # es, s)
   }"
| "serve ins peek rem remove (Pop # rs) s = do {
     (e, s) \<leftarrow> rem s; (es, s) \<leftarrow> serve ins peek rem remove rs s; Some (e # es, s)
   }"
| "serve ins peek rem remove (Cancel e # rs) s = do { s \<leftarrow> remove e s; serve ins peek rem remove rs s }"

text \<open>
  Requests that make sense for a queue that holds the events \<open>es\<close> and whose last event was at
  the time \<open>t\<close>: none earlier is inserted, no UID twice, and only events there are asked for.
\<close>

fun timely :: "('e event \<Rightarrow> 'e event multiset \<Rightarrow> bool) \<Rightarrow> nat \<Rightarrow> 'e event list \<Rightarrow> 'e request list \<Rightarrow> bool" where
  "timely fits t es [] \<longleftrightarrow> True"
| "timely fits t es (Push e # rs) \<longleftrightarrow> t \<le> unat (ev_ts e) \<and> fits e (mset es) \<and> fresh_uid e (mset es) \<and>
     timely fits t (ListScheduler_Insert e es) rs"
| "timely fits t es (Peek # rs) \<longleftrightarrow> es \<noteq> [] \<and> timely fits t es rs"
| "timely fits t es (Pop # rs) \<longleftrightarrow> (case es of [] \<Rightarrow> False | e # es \<Rightarrow> timely fits (unat (ev_ts e)) es rs)"
| "timely fits t es (Cancel e # rs) \<longleftrightarrow> e \<in> set es \<and>
     (case ListScheduler_Remove e es of None \<Rightarrow> False | Some es \<Rightarrow> timely fits t es rs)"

abbreviation list_serve :: "'e request list \<Rightarrow> 'e event list \<Rightarrow> ('e event list \<times> 'e event list) option" where
  "list_serve \<equiv> serve (\<lambda>e es. Some (ListScheduler_Insert e es)) ListScheduler_PeekNext ListScheduler_RemoveNext ListScheduler_Remove"

definition uids_distinct :: "'e event multiset \<Rightarrow> bool" where
  "uids_distinct m \<longleftrightarrow> (\<forall>e m'. m = add_mset e m' \<longrightarrow> fresh_uid e m')"

lemma uids_distinct_add: "uids_distinct (add_mset e m) \<longleftrightarrow> fresh_uid e m \<and> uids_distinct m"
proof
  assume d: "uids_distinct (add_mset e m)"
  then have "fresh_uid e m" by (simp add: uids_distinct_def)
  moreover have "uids_distinct m" unfolding uids_distinct_def
  proof (intro allI impI)
    fix x m' assume "m = add_mset x m'"
    then have "fresh_uid x (add_mset e m')" using d unfolding uids_distinct_def by (metis add_mset_commute)
    then show "fresh_uid x m'" by (simp add: fresh_uid_def)
  qed
  ultimately show "fresh_uid e m \<and> uids_distinct m" ..
next
  assume a: "fresh_uid e m \<and> uids_distinct m"
  show "uids_distinct (add_mset e m)" unfolding uids_distinct_def
  proof (intro allI impI)
    fix x m' assume m: "add_mset e m = add_mset x m'"
    show "fresh_uid x m'"
    proof (cases "x = e")
      case False
      then obtain k where "m = add_mset x k" "m' = add_mset e k" using m by (metis add_eq_conv_ex)
      with a show ?thesis by (auto simp: uids_distinct_def fresh_uid_def)
    qed (use m a in simp)
  qed
qed

lemma least_unique:
  assumes "uids_distinct (add_mset e m)" "add_mset e m = add_mset x m'" "\<forall>y \<in># m. rank e \<le> rank y" "\<forall>y \<in># m'. rank x \<le> rank y"
  shows "x = e \<and> m' = m"
proof (cases "x = e")
  case False
  then have "x \<in># m" "e \<in># m'" using assms(2) by (metis insert_noteq_member)+
  then have "rank x = rank e" using assms(3,4) by (simp add: order_antisym)
  then show ?thesis using rank_uid [of x e] \<open>x \<in># m\<close> assms(1) by (auto simp: uids_distinct_add fresh_uid_def)
qed (use assms(2) in simp)

locale monotone_scheduler =
  fixes ins :: "'e event \<Rightarrow> 's \<Rightarrow> 's option"
    and is_empty :: "'s \<Rightarrow> bool"
    and peek :: "'s \<Rightarrow> 'e event option"
    and rem :: "'s \<Rightarrow> ('e event \<times> 's) option"
    and remove :: "'e event \<Rightarrow> 's \<Rightarrow> 's option"
    and pending :: "'s \<Rightarrow> 'e event multiset"
    and inv :: "'s \<Rightarrow> bool"
    and floor :: "'s \<Rightarrow> nat"
    and fits :: "'e event \<Rightarrow> 'e event multiset \<Rightarrow> bool"
  assumes push_ok: "inv s \<Longrightarrow> fresh_uid e (pending s) \<Longrightarrow> fits e (pending s) \<Longrightarrow> floor s \<le> unat (ev_ts e) \<Longrightarrow>
      \<exists>s'. ins e s = Some s' \<and> inv s' \<and> pending s' = add_mset e (pending s) \<and> floor s' = floor s"
    and empty_iff: "inv s \<Longrightarrow> is_empty s \<longleftrightarrow> pending s = {#}"
    and pop_ok: "inv s \<Longrightarrow> pending s \<noteq> {#} \<Longrightarrow>
      \<exists>e s'. rem s = Some (e, s') \<and> peek s = Some e \<and> inv s' \<and>
        pending s = add_mset e (pending s') \<and> (\<forall>x \<in># pending s'. rank e \<le> rank x) \<and> floor s' \<le> unat (ev_ts e)"
    and cancel_ok: "inv s \<Longrightarrow> pending s = add_mset e m \<Longrightarrow> fresh_uid e m \<Longrightarrow>
      \<exists>s'. remove e s = Some s' \<and> inv s' \<and> pending s' = m \<and> floor s' = floor s"
begin

lemma pops_least:
  assumes "inv s" "pending s = mset (a # as)" "in_order (a # as)" "uids_distinct (mset (a # as))"
  shows "\<exists>s'. rem s = Some (a, s') \<and> peek s = Some a \<and> inv s' \<and> pending s' = mset as \<and> floor s' \<le> unat (ev_ts a)"
proof -
  have ne: "pending s \<noteq> {#}" using assms(2) by simp
  obtain x s' where p: "rem s = Some (x, s')" "peek s = Some x" "inv s'" "pending s = add_mset x (pending s')"
    "\<forall>y \<in># pending s'. rank x \<le> rank y" "floor s' \<le> unat (ev_ts x)" using pop_ok [OF assms(1) ne] by blast
  have eq: "add_mset a (mset as) = add_mset x (pending s')" using p(4) assms(2) by simp
  have "\<forall>y \<in># mset as. rank a \<le> rank y" using assms(3) by (simp add: in_order_def)
  moreover have "uids_distinct (add_mset a (mset as))" using assms(4) by simp
  ultimately have "x = a \<and> pending s' = mset as" using least_unique eq p(5) by blast
  with p show ?thesis by blast
qed

text \<open>It hands out what the list scheduler hands out.\<close>

lemma serves:
  "inv s \<Longrightarrow> pending s = mset es \<Longrightarrow> in_order es \<Longrightarrow> uids_distinct (mset es) \<Longrightarrow> floor s \<le> t \<Longrightarrow> timely fits t es rs \<Longrightarrow>
    \<exists>out es' s'. serve ins peek rem remove rs s = Some (out, s') \<and> list_serve rs es = Some (out, es') \<and>
      inv s' \<and> pending s' = mset es'"
proof (induction rs arbitrary: s es t)
  case (Cons r rs)
  show ?case
  proof (cases r)
    case (Push e)
    then have e: "fresh_uid e (mset es)" "fits e (mset es)" "t \<le> unat (ev_ts e)" "timely fits t (ListScheduler_Insert e es) rs"
      using Cons.prems(6) by simp_all
    have "floor s \<le> unat (ev_ts e)" using Cons.prems(5) e(3) by simp
    then obtain s' where s': "ins e s = Some s'" "inv s'" "pending s' = add_mset e (pending s)" "floor s' = floor s"
      using push_ok [of s e] Cons.prems(1,2) e(1,2) by auto
    have i: "in_order (ListScheduler_Insert e es)" "mset (ListScheduler_Insert e es) = add_mset e (mset es)"
      using list_Insert [OF Cons.prems(3)] by blast+
    have "pending s' = mset (ListScheduler_Insert e es)" "uids_distinct (mset (ListScheduler_Insert e es))" "floor s' \<le> t"
      using s' i(2) Cons.prems(2,4,5) e(1) by (simp_all add: uids_distinct_add)
    from Cons.IH [OF s'(2) this(1) i(1) this(2,3) e(4)] show ?thesis using Push s'(1) by simp
  next
    case Peek
    then obtain a as where as: "es = a # as" "timely fits t es rs" using Cons.prems(6) by (cases es) simp_all
    from pops_least [OF Cons.prems(1)] Cons.prems(2-4) as(1) have "peek s = Some a" by blast
    with Cons.IH [OF Cons.prems(1-5) as(2)] show ?thesis using Peek as(1) by (auto simp: ListScheduler_PeekNext_def)
  next
    case Pop
    then obtain a as where as: "es = a # as" "timely fits (unat (ev_ts a)) as rs" using Cons.prems(6) by (auto split: list.splits)
    from pops_least [OF Cons.prems(1)] Cons.prems(2-4) as(1) obtain s' where s': "rem s = Some (a, s')" "inv s'"
      "pending s' = mset as" "floor s' \<le> unat (ev_ts a)" by blast
    have "in_order as" "uids_distinct (mset as)" using Cons.prems(3,4) as(1) by (simp_all add: in_order_def uids_distinct_add)
    from Cons.IH [OF s'(2,3) this s'(4) as(2)] show ?thesis
      using Pop s'(1) as(1) by (auto simp: ListScheduler_RemoveNext_def)
  next
    case (Cancel e)
    then obtain as where as: "e \<in> set es" "ListScheduler_Remove e es = Some as" "timely fits t as rs"
      using Cons.prems(6) by (auto split: option.splits)
    then obtain m where m: "mset es = add_mset e m" by (metis mset_add set_mset_mset)
    then have f: "fresh_uid e m" "uids_distinct m" using Cons.prems(4) by (simp_all add: uids_distinct_add)
    have l: "in_order as" "mset as = m" using list_Remove [OF Cons.prems(3) m f(1)] as(2) by auto
    obtain s' where s': "remove e s = Some s'" "inv s'" "pending s' = m" "floor s' = floor s"
      using cancel_ok [OF Cons.prems(1)] Cons.prems(2) m f(1) by auto
    have "pending s' = mset as" "uids_distinct (mset as)" "floor s' \<le> t" using s' l f Cons.prems(5) by simp_all
    from Cons.IH [OF s'(2) this(1) l(1) this(2,3) as(3)] show ?thesis using Cancel s'(1) as(2) by simp
  qed
qed simp

end

text \<open>A queue with no conditions is one for such a client.\<close>

sublocale removing_scheduler \<subseteq> monotone_scheduler ins is_empty peek rem remove pending inv "\<lambda>s. 0" "\<lambda>e m. True"
proof
  fix s e assume "inv s" "fresh_uid e (pending s)"
  then show "\<exists>s'. ins e s = Some s' \<and> inv s' \<and> pending s' = add_mset e (pending s) \<and> (0 :: nat) = 0" using ins_ok by blast
next
  fix s assume "inv s"
  then show "is_empty s \<longleftrightarrow> pending s = {#}" by (rule is_empty_iff)
next
  fix s assume "inv s" "pending s \<noteq> {#}"
  then show "\<exists>e s'. rem s = Some (e, s') \<and> peek s = Some e \<and> inv s' \<and>
      pending s = add_mset e (pending s') \<and> (\<forall>x \<in># pending s'. rank e \<le> rank x) \<and> 0 \<le> unat (ev_ts e)" using next_ok by blast
next
  fix s e m assume "inv s" "pending s = add_mset e m" "fresh_uid e m"
  then show "\<exists>s'. remove e s = Some s' \<and> inv s' \<and> pending s' = m \<and> (0 :: nat) = 0" using remove_ok by blast
qed

interpretation cal_sched: monotone_scheduler CalendarScheduler_Insert CalendarScheduler_IsEmpty CalendarScheduler_PeekNext
    CalendarScheduler_RemoveNext CalendarScheduler_Remove cal_events cal_ok "\<lambda>c. unat (cal_lastPrio c)" calendar_fits
proof
  fix c :: "'a calendar" and e
  assume "cal_ok c" "calendar_fits e (cal_events c)" "unat (cal_lastPrio c) \<le> unat (ev_ts e)"
  then show "\<exists>c'. CalendarScheduler_Insert e c = Some c' \<and> cal_ok c' \<and> cal_events c' = add_mset e (cal_events c) \<and>
      unat (cal_lastPrio c') = unat (cal_lastPrio c)" using Insert_ok by fastforce
next
  fix c :: "'a calendar"
  assume "cal_ok c"
  then have "unat (cal_qSize c) = size (cal_events c)" by (simp add: cal_ok_def)
  then show "CalendarScheduler_IsEmpty c \<longleftrightarrow> cal_events c = {#}" by (auto simp: CalendarScheduler_IsEmpty_def unat_eq_0)
next
  fix c :: "'a calendar"
  assume "cal_ok c" "cal_events c \<noteq> {#}"
  then show "\<exists>e c'. CalendarScheduler_RemoveNext c = Some (e, c') \<and> CalendarScheduler_PeekNext c = Some e \<and> cal_ok c' \<and>
      cal_events c = add_mset e (cal_events c') \<and> (\<forall>x \<in># cal_events c'. rank e \<le> rank x) \<and> unat (cal_lastPrio c') \<le> unat (ev_ts e)"
    using RemoveNext_ok by fastforce
next
  fix c :: "'a calendar" and e m
  assume "cal_ok c" "cal_events c = add_mset e m" "fresh_uid e m"
  then show "\<exists>c'. CalendarScheduler_Remove e c = Some c' \<and> cal_ok c' \<and> cal_events c' = m \<and> unat (cal_lastPrio c') = unat (cal_lastPrio c)"
    using Remove_ok by fastforce
qed

section \<open>Properties\<close>

text \<open>C6: the calendar queue is as good as a sorted list. For a client that never
  inserts an event before the last one it took out, with distinct UIDs and times up to the horizon,
  a new calendar shows, hands out and takes back the same events as the list scheduler, through
  all the changes of its size and width, and holds the same events in the end. No request fails
  and no search runs forever.\<close>

theorem calendar_agrees:
  assumes "timely calendar_fits 0 [] rs"
  shows "\<exists>c out es c'. CalendarScheduler_new = Some c \<and>
    serve CalendarScheduler_Insert CalendarScheduler_PeekNext CalendarScheduler_RemoveNext CalendarScheduler_Remove rs c = Some (out, c') \<and>
    serve (\<lambda>e es. Some (ListScheduler_Insert e es)) ListScheduler_PeekNext ListScheduler_RemoveNext ListScheduler_Remove rs [] = Some (out, es) \<and>
    cal_events c' = mset es"
proof -
  obtain c :: "'a calendar" where c: "CalendarScheduler_new = Some c" "cal_ok c" "cal_events c = {#}" "cal_lastPrio c = 0"
    using new_ok by blast
  have "cal_events c = mset []" "in_order ([] :: 'a event list)" "uids_distinct (mset ([] :: 'a event list))" "unat (cal_lastPrio c) \<le> 0"
    using c(3,4) by (simp_all add: in_order_def uids_distinct_def)
  from cal_sched.serves [OF c(2) this assms] show ?thesis using c(1) by blast
qed

lemma calendar_agrees_witness:
  "\<exists>c out es c'. CalendarScheduler_new = Some c \<and>
    serve CalendarScheduler_Insert CalendarScheduler_PeekNext CalendarScheduler_RemoveNext CalendarScheduler_Remove
      [Push (event_at 9 1), Push (event_at 3 2), Peek, Pop, Push (event_at 3 4), Cancel (event_at 9 1), Pop] c = Some (out, c') \<and>
    serve (\<lambda>e es. Some (ListScheduler_Insert e es)) ListScheduler_PeekNext ListScheduler_RemoveNext ListScheduler_Remove
      [Push (event_at 9 1), Push (event_at 3 2), Peek, Pop, Push (event_at 3 4), Cancel (event_at 9 1), Pop] [] = Some (out, es) \<and>
    cal_events c' = mset es"
  by (rule calendar_agrees)
    (simp add: event_at_def calendar_fits_def horizon_def fresh_uid_def key_less_def ns_assert_def)

text \<open>The invariant without the bound of the times, and the bound.\<close>

definition cal_wf :: "'e calendar \<Rightarrow> bool" where
  "cal_wf c \<longleftrightarrow> sized c \<and>
     (\<forall>i < unat (cal_nBuckets c). in_order (cal_buckets c ! i) \<and>
        (\<forall>e \<in> set (cal_buckets c ! i). bucket_of c (unat (ev_ts e)) = i)) \<and>
     (\<forall>e \<in># cal_events c. unat (cal_lastPrio c) \<le> unat (ev_ts e)) \<and>
     unat (cal_lastBucket c) = bucket_of c (unat (cal_lastPrio c)) \<and>
     unat (cal_bucketTop c) = (unat (cal_lastPrio c) div unat (cal_width c) + 1) * unat (cal_width c) \<and>
     unat (cal_qSize c) = size (cal_events c)"

definition within_horizon :: "'e calendar \<Rightarrow> bool" where
  "within_horizon c \<longleftrightarrow> unat (cal_lastPrio c) \<le> horizon \<and> (\<forall>e \<in># cal_events c. unat (ev_ts e) \<le> horizon)"

lemma cal_ok_iff: "cal_ok c \<longleftrightarrow> cal_wf c \<and> within_horizon c"
  unfolding cal_ok_def sorted_in_def placed_def cal_wf_def within_horizon_def by blast

text \<open>C7: a well-formed calendar has as many buckets as it says, each event in
  the bucket of its time, the buckets in order, the size right, no event before the last one
  taken out, and a width that is not zero. When besides no time in it is beyond the horizon of 1431655765 steps, its operations succeed and
  leave a well-formed calendar within the horizon, with the events it should hold: \<^verbatim>\<open>Insert\<close> for an event whose time is
  neither beyond the horizon nor before the last event taken out, as long as the 32 bits of the
  size are enough, \<^verbatim>\<open>PeekNext\<close> and \<^verbatim>\<open>RemoveNext\<close> whenever there is an event, which is the least one, and
  \<^verbatim>\<open>Remove\<close> for an event that is there and whose UID no other has. Beyond the horizon \<^verbatim>\<open>Insert\<close> can fail, as the next property shows.\<close>

theorem calendar_wellformed:
  assumes "cal_wf c" "within_horizon c"
  shows "(unat (ev_ts e) \<le> horizon \<and> unat (cal_lastPrio c) \<le> unat (ev_ts e) \<and> size (cal_events c) + 1 < 2 ^ 32 \<longrightarrow>
      (\<exists>c'. CalendarScheduler_Insert e c = Some c' \<and> cal_wf c' \<and> within_horizon c' \<and> cal_events c' = add_mset e (cal_events c))) \<and>
    (\<not> CalendarScheduler_IsEmpty c \<longrightarrow>
      (\<exists>e c'. CalendarScheduler_RemoveNext c = Some (e, c') \<and> CalendarScheduler_PeekNext c = Some e \<and> cal_wf c' \<and> within_horizon c' \<and>
        cal_events c = add_mset e (cal_events c') \<and> (\<forall>x \<in># cal_events c'. rank e \<le> rank x))) \<and>
    (cal_events c = add_mset e m \<and> fresh_uid e m \<longrightarrow>
      (\<exists>c'. CalendarScheduler_Remove e c = Some c' \<and> cal_wf c' \<and> within_horizon c' \<and> cal_events c' = m))"
proof (intro conjI impI)
  have ok: "cal_ok c" using assms by (simp add: cal_ok_iff)
  {
    assume "unat (ev_ts e) \<le> horizon \<and> unat (cal_lastPrio c) \<le> unat (ev_ts e) \<and> size (cal_events c) + 1 < 2 ^ 32"
    then show "\<exists>c'. CalendarScheduler_Insert e c = Some c' \<and> cal_wf c' \<and> within_horizon c' \<and> cal_events c' = add_mset e (cal_events c)"
      using Insert_ok [OF ok, of e] unfolding calendar_fits_def cal_ok_iff by blast
  }
  {
    assume "\<not> CalendarScheduler_IsEmpty c"
    then have "cal_events c \<noteq> {#}" using cal_sched.empty_iff [OF ok] by blast
    from RemoveNext_ok [OF ok this]
    show "\<exists>e c'. CalendarScheduler_RemoveNext c = Some (e, c') \<and> CalendarScheduler_PeekNext c = Some e \<and> cal_wf c' \<and> within_horizon c' \<and>
        cal_events c = add_mset e (cal_events c') \<and> (\<forall>x \<in># cal_events c'. rank e \<le> rank x)" unfolding cal_ok_iff by blast
  }
  {
    assume "cal_events c = add_mset e m \<and> fresh_uid e m"
    then show "\<exists>c'. CalendarScheduler_Remove e c = Some c' \<and> cal_wf c' \<and> within_horizon c' \<and> cal_events c' = m"
      using Remove_ok [OF ok] unfolding cal_ok_iff by blast
  }
qed

definition fresh_calendar :: "unit calendar" where
  "fresh_calendar = \<lparr>cal_buckets = [[], []], cal_nBuckets = 2, cal_width = 1, cal_lastBucket = 0, cal_bucketTop = 1,
     cal_lastPrio = 0, cal_qSize = 0\<rparr>"

definition two_events :: "unit calendar" where
  "two_events = \<lparr>cal_buckets = [[], [event_at 3 2, event_at 9 1]], cal_nBuckets = 2, cal_width = 1,
     cal_lastBucket = 0, cal_bucketTop = 1, cal_lastPrio = 0, cal_qSize = 2\<rparr>"

lemma two_events_ok: "cal_ok two_events" "cal_events two_events = {#event_at 3 2, event_at 9 1#}"
proof -
  show e: "cal_events two_events = {#event_at 3 2, event_at 9 1#}" by (simp add: cal_events_def two_events_def)
  show "cal_ok two_events" unfolding cal_ok_def sorted_in_def e
    by (simp add: two_events_def sized_def placed_def bucket_of_def in_order_def rank_def event_at_def horizon_def less_2_cases_iff)
qed

lemma two_events_wf: "cal_wf two_events" "within_horizon two_events"
  using two_events_ok(1) by (simp_all add: cal_ok_iff)

lemma calendar_wellformed_witness:
  "(\<exists>c. CalendarScheduler_Insert (event_at 5 3) two_events = Some c \<and> cal_wf c \<and> within_horizon c \<and>
      cal_events c = {#event_at 5 3, event_at 3 2, event_at 9 1#}) \<and>
    (\<exists>e c. CalendarScheduler_RemoveNext two_events = Some (e, c) \<and> cal_wf c \<and> within_horizon c) \<and>
    (\<exists>c. CalendarScheduler_Remove (event_at 9 1) two_events = Some c \<and> cal_wf c \<and> within_horizon c \<and> cal_events c = {#event_at 3 2#})"
proof (intro conjI)
  have "unat (k_ts (ev_key (event_at 5 3))) \<le> horizon" "unat (cal_lastPrio two_events) \<le> unat (k_ts (ev_key (event_at 5 3)))"
    "size (cal_events two_events) + 1 < 2 ^ 32"
    by (simp_all add: two_events_ok(2) horizon_def) (simp_all add: event_at_def two_events_def)
  then show "\<exists>c. CalendarScheduler_Insert (event_at 5 3) two_events = Some c \<and> cal_wf c \<and> within_horizon c \<and>
      cal_events c = {#event_at 5 3, event_at 3 2, event_at 9 1#}"
    using calendar_wellformed [OF two_events_wf, of "event_at 5 3" "{#}"] two_events_ok(2) by auto
  have "\<not> CalendarScheduler_IsEmpty two_events" by (simp add: CalendarScheduler_IsEmpty_def two_events_def)
  then show "\<exists>e c. CalendarScheduler_RemoveNext two_events = Some (e, c) \<and> cal_wf c \<and> within_horizon c"
    using calendar_wellformed [OF two_events_wf, of "event_at 5 3" "{#}"] by blast
  have "cal_events two_events = add_mset (event_at 9 1) {#event_at 3 2#}" by (simp add: two_events_ok(2) add_mset_commute)
  moreover have "fresh_uid (event_at 9 1) {#event_at 3 2#}" by (simp add: fresh_uid_def event_at_def)
  ultimately show "\<exists>c. CalendarScheduler_Remove (event_at 9 1) two_events = Some c \<and> cal_wf c \<and> within_horizon c \<and> cal_events c = {#event_at 3 2#}"
    using calendar_wellformed [OF two_events_wf, of "event_at 9 1" "{#event_at 3 2#}"] by blast
qed

text \<open>C8: the width that the calendar computes is cut to 32 bits. For five events a little more than a second
  apart it is \<open>3 * 2 ^ 32\<close> nanoseconds, cut to 0, and the fifth insertion divides by zero.\<close>

theorem calendar_stops:
  "\<exists>c c'. CalendarScheduler_new = Some c \<and>
    insert_all CalendarScheduler_Insert
      [event_at 0 0, event_at 1073741824 1, event_at 2147483648 2, event_at 3221225472 3] c = Some c' \<and>
    CalendarScheduler_Insert (event_at 4294967296 4) c' = None"
proof -
  let ?es = "[event_at 0 0, event_at 1073741824 1, event_at 2147483648 2, event_at 3221225472 3]"
  have "CalendarScheduler_new = Some fresh_calendar" by code_simp
  moreover have "insert_all CalendarScheduler_Insert ?es fresh_calendar = Some (fresh_calendar\<lparr>cal_buckets := [?es, []], cal_qSize := 4\<rparr>)"
    by code_simp
  moreover have "CalendarScheduler_Insert (event_at 4294967296 4) (fresh_calendar\<lparr>cal_buckets := [?es, []], cal_qSize := 4\<rparr>) = None"
    by code_simp
  ultimately show ?thesis by blast
qed

end
