(* ===== verification/Traffic_Patterns.thy ===== *)
theory Traffic_Patterns
  imports Noc_Prelude
begin

text \<open>
  The traffic patterns of the applications, \<^verbatim>\<open>noc/traffic-pattern/traffic-pattern.cc\<close>: permutations of the
  low bits of a number. A \<^verbatim>\<open>std::bitset<32>\<close> is the word of its bits, and the conversion to a string
  and back cuts the number to the \<^verbatim>\<open>size\<close> low bits.
\<close>

section \<open>The patterns\<close>

definition bitset_set :: "nat \<Rightarrow> bool \<Rightarrow> u32 \<Rightarrow> u32" where
  "bitset_set i v b = (if v then set_bit i b else unset_bit i b)"

definition bitset_swap :: "nat \<Rightarrow> nat \<Rightarrow> u32 \<Rightarrow> u32" where
  "bitset_swap i j bits = (let leftBit = bit bits i; rightBit = bit bits j
     in bitset_set j leftBit (bitset_set i rightBit bits))"

definition TrafficPattern_MatrixTransposeBits2 :: "u32 \<Rightarrow> u8 \<Rightarrow> u32 option" where
  "TrafficPattern_MatrixTransposeBits2 number sz = do {
     _ \<leftarrow> ns_assert (sz \<ge> 1 \<and> sz \<le> 32);
     let n = unat sz;
     Some (fold (\<lambda>i. bitset_swap i (n div 2 + i)) [0 ..< n div 2] (take_bit n number))
   }"

definition TrafficPattern_ComplementBits2 :: "u32 \<Rightarrow> u8 \<Rightarrow> u32 option" where
  "TrafficPattern_ComplementBits2 number sz = do {
     _ \<leftarrow> ns_assert (sz \<ge> 1 \<and> sz \<le> 32);
     let n = unat sz;
     Some (fold (\<lambda>i. flip_bit i) [0 ..< n] (take_bit n number))
   }"

definition TrafficPattern_ReverseBits2 :: "u32 \<Rightarrow> u8 \<Rightarrow> u32 option" where
  "TrafficPattern_ReverseBits2 number sz = do {
     _ \<leftarrow> ns_assert (sz \<ge> 1 \<and> sz \<le> 32);
     let n = unat sz;
     Some (fold (\<lambda>i. bitset_swap i (n - i - 1)) [0 ..< n div 2] (take_bit n number))
   }"

text \<open>\<^verbatim>\<open>(uint8_t) floor (log + 1)\<close>, where \<^verbatim>\<open>log\<close> is the logarithm to base 2, and 0 for the number 0.\<close>

definition significant_bits :: "u32 \<Rightarrow> u8" where
  "significant_bits number = (if number > 0 then of_nat (floorlog 2 (unat number)) else 1)"

definition TrafficPattern_MatrixTransposeBits :: "u32 \<Rightarrow> u32 option" where
  "TrafficPattern_MatrixTransposeBits number = TrafficPattern_MatrixTransposeBits2 number (significant_bits number)"

definition TrafficPattern_ComplementBits :: "u32 \<Rightarrow> u32 option" where
  "TrafficPattern_ComplementBits number = TrafficPattern_ComplementBits2 number (significant_bits number)"

definition TrafficPattern_ReverseBits :: "u32 \<Rightarrow> u32 option" where
  "TrafficPattern_ReverseBits number = TrafficPattern_ReverseBits2 number (significant_bits number)"

section \<open>What the loops compute\<close>

lemma bit_bitset_swap:
  "i < 32 \<Longrightarrow> j < 32 \<Longrightarrow> bit (bitset_swap i j b) k =
     (if k = i then bit b j else if k = j then bit b i else bit b k)"
  by (auto simp: bitset_swap_def bitset_set_def bit_set_bit_iff bit_unset_bit_iff Let_def)

lemma transpose_loop:
  "m \<le> h \<Longrightarrow> 2 * h \<le> 32 \<Longrightarrow> bit (fold (\<lambda>i. bitset_swap i (h + i)) [0 ..< m] b) k =
    (if k < m then bit b (h + k) else if h \<le> k \<and> k < h + m then bit b (k - h) else bit b k)"
proof (induction m arbitrary: k)
  case (Suc m)
  let ?b = "fold (\<lambda>i. bitset_swap i (h + i)) [0 ..< m] b"
  have "bit (bitset_swap m (h + m) ?b) k = (if k = m then bit ?b (h + m) else if k = h + m then bit ?b m else bit ?b k)"
    using Suc.prems by (intro bit_bitset_swap) simp_all
  with Suc.IH Suc.prems show ?case by (simp add: less_Suc_eq)
qed auto

lemma reverse_loop:
  "m \<le> n div 2 \<Longrightarrow> n \<le> 32 \<Longrightarrow> bit (fold (\<lambda>i. bitset_swap i (n - i - 1)) [0 ..< m] b) k =
    (if k < m \<or> n - m \<le> k \<and> k < n then bit b (n - 1 - k) else bit b k)"
proof (induction m arbitrary: k)
  case (Suc m)
  let ?b = "fold (\<lambda>i. bitset_swap i (n - i - 1)) [0 ..< m] b"
  have "bit (bitset_swap m (n - m - 1) ?b) k = (if k = m then bit ?b (n - m - 1) else if k = n - m - 1 then bit ?b m else bit ?b k)"
    using Suc.prems by (intro bit_bitset_swap) simp_all
  moreover have ih: "bit ?b k = (if k < m \<or> n - m \<le> k \<and> k < n then bit b (n - 1 - k) else bit b k)" for k
    using Suc by simp
  moreover have "n - 1 - (n - m - 1) = m" "m < n - m" "m \<noteq> n - m - 1" "n - m - 1 < n - m" "\<not> n - m - 1 < m"
    using Suc.prems by simp_all
  moreover have "k < Suc m \<or> n - Suc m \<le> k \<and> k < n \<longleftrightarrow> k = m \<or> k = n - m - 1 \<or> k < m \<or> n - m \<le> k \<and> k < n"
    using Suc.prems by auto
  ultimately show ?case by simp
qed auto

lemma complement_loop:
  "m \<le> 32 \<Longrightarrow> bit (fold (\<lambda>i. flip_bit i) [0 ..< m] (b :: u32)) k = (if k < m then \<not> bit b k else bit b k)"
proof (induction m arbitrary: k)
  case (Suc m)
  let ?b = "fold (\<lambda>i. flip_bit i) [0 ..< m] b"
  have "bit (flip_bit m ?b) k \<longleftrightarrow> (m = k \<longleftrightarrow> \<not> bit ?b k) \<and> k < 32" by (simp add: bit_flip_bit_iff)
  moreover have "bit b k \<Longrightarrow> k < 32" using bit_imp_le_length [of b k] by simp
  moreover have "bit ?b k = (if k < m then \<not> bit b k else bit b k)" using Suc by simp
  ultimately show ?case using Suc.prems by (cases "k < m"; cases "k = m") auto
qed simp

text \<open>The bits of a pattern, and the pattern as an involution of the numbers of \<open>n\<close> bits.\<close>

definition transposed :: "nat \<Rightarrow> nat \<Rightarrow> nat" where
  "transposed n k = (let h = n div 2 in if k < h then h + k else if k < 2 * h then k - h else k)"

lemma MatrixTransposeBits2_eq:
  assumes "1 \<le> unat sz" "unat sz \<le> 32"
  shows "\<exists>t. TrafficPattern_MatrixTransposeBits2 number sz = Some t \<and>
    (\<forall>k. bit t k \<longleftrightarrow> k < unat sz \<and> bit number (transposed (unat sz) k))"
proof -
  let ?n = "unat sz"
  let ?t = "fold (\<lambda>i. bitset_swap i (?n div 2 + i)) [0 ..< ?n div 2] (take_bit ?n number)"
  have "bit ?t k \<longleftrightarrow> k < ?n \<and> bit number (transposed ?n k)" for k
    using transpose_loop [of "?n div 2" "?n div 2" "take_bit ?n number" k] assms
    by (auto simp: bit_take_bit_iff transposed_def Let_def)
  moreover have "TrafficPattern_MatrixTransposeBits2 number sz = Some ?t"
    using assms by (simp add: TrafficPattern_MatrixTransposeBits2_def Let_def word_le_nat_alt)
  ultimately show ?thesis by blast
qed

lemma ReverseBits2_eq:
  assumes "1 \<le> unat sz" "unat sz \<le> 32"
  shows "\<exists>t. TrafficPattern_ReverseBits2 number sz = Some t \<and>
    (\<forall>k. bit t k \<longleftrightarrow> k < unat sz \<and> bit number (unat sz - 1 - k))"
proof -
  let ?n = "unat sz"
  let ?t = "fold (\<lambda>i. bitset_swap i (?n - i - 1)) [0 ..< ?n div 2] (take_bit ?n number)"
  have "bit ?t k \<longleftrightarrow> k < ?n \<and> bit number (?n - 1 - k)" for k
  proof (cases "k < ?n div 2 \<or> ?n - ?n div 2 \<le> k")
    case True
    then show ?thesis
      using reverse_loop [of "?n div 2" ?n "take_bit ?n number" k] assms by (auto simp: bit_take_bit_iff)
  next
    case False
    then have "?n - 1 - k = k" "k < ?n" by auto
    then show ?thesis
      using False reverse_loop [of "?n div 2" ?n "take_bit ?n number" k] assms by (auto simp: bit_take_bit_iff)
  qed
  moreover have "TrafficPattern_ReverseBits2 number sz = Some ?t"
    using assms by (simp add: TrafficPattern_ReverseBits2_def Let_def word_le_nat_alt)
  ultimately show ?thesis by blast
qed

lemma ComplementBits2_eq:
  assumes "1 \<le> unat sz" "unat sz \<le> 32"
  shows "\<exists>t. TrafficPattern_ComplementBits2 number sz = Some t \<and>
    (\<forall>k. bit t k \<longleftrightarrow> k < unat sz \<and> \<not> bit number k)"
proof -
  let ?n = "unat sz"
  have "bit (fold (\<lambda>i. flip_bit i) [0 ..< ?n] (take_bit ?n number)) k \<longleftrightarrow> k < ?n \<and> \<not> bit number k" for k
    using complement_loop [of ?n "take_bit ?n number" k] assms by (auto simp: bit_take_bit_iff)
  then show ?thesis using assms by (simp add: TrafficPattern_ComplementBits2_def Let_def word_le_nat_alt)
qed

text \<open>A pattern that moves bits by an involution of their places is an involution of the numbers of \<open>n\<close> bits.\<close>

lemma bits_below: "(\<And>k. bit (x :: u32) k \<Longrightarrow> k < n) \<Longrightarrow> unat x < 2 ^ n"
proof -
  assume "\<And>k. bit x k \<Longrightarrow> k < n"
  then have "take_bit n x = x" by (intro bit_eqI) (auto simp: bit_take_bit_iff)
  then have "take_bit n (unat x) = unat x" by (metis unsigned_take_bit_eq)
  then show ?thesis by (simp add: take_bit_nat_eq_self_iff)
qed

lemma below_bits: "unat (x :: u32) < 2 ^ n \<Longrightarrow> bit x k \<Longrightarrow> k < n"
proof -
  assume "unat x < 2 ^ n" "bit x k"
  then have "take_bit n (unat x) = unat x" "bit (unat x) k" by (simp_all add: take_bit_nat_eq_self bit_unsigned_iff)
  then show "k < n" by (metis bit_take_bit_iff)
qed

lemma transposed_involution: "k < n \<Longrightarrow> transposed n k < n \<and> transposed n (transposed n k) = k"
  by (auto simp: transposed_def Let_def)

section \<open>Properties\<close>

text \<open>C31: the patterns move the bits as their names say: transposing exchanges the two
  halves of the bits (of an odd number of bits the top one stays), reversing mirrors them, and
  complementing inverts each of them. Bits beyond the size come out as zeros.\<close>

theorem traffic_bits:
  assumes "1 \<le> unat sz" "unat sz \<le> 32"
  shows "\<exists>t c r. TrafficPattern_MatrixTransposeBits2 number sz = Some t \<and> TrafficPattern_ComplementBits2 number sz = Some c \<and>
    TrafficPattern_ReverseBits2 number sz = Some r \<and>
    (\<forall>k. bit t k \<longleftrightarrow> k < unat sz \<and> bit number (transposed (unat sz) k)) \<and>
    (\<forall>k. bit c k \<longleftrightarrow> k < unat sz \<and> \<not> bit number k) \<and>
    (\<forall>k. bit r k \<longleftrightarrow> k < unat sz \<and> bit number (unat sz - 1 - k))"
  using MatrixTransposeBits2_eq [OF assms, of number] ComplementBits2_eq [OF assms, of number]
    ReverseBits2_eq [OF assms, of number] by blast

lemma traffic_bits_witness:
  "\<exists>t c r. TrafficPattern_MatrixTransposeBits2 6 3 = Some t \<and> TrafficPattern_ComplementBits2 6 3 = Some c \<and>
    TrafficPattern_ReverseBits2 6 3 = Some r \<and> bit t 0 \<and> \<not> bit t 1 \<and> bit t 2 \<and> bit c 0 \<and> bit r 0 \<and> bit r 1 \<and> \<not> bit r 2"
proof -
  have "1 \<le> unat (3 :: u8)" "unat (3 :: u8) \<le> 32" "unat (3 :: u8) = 3" by simp_all
  moreover have "\<not> bit (6 :: u32) 0" "bit (6 :: u32) 1" "bit (6 :: u32) 2" by (simp_all add: bit_numeral_rec)
  ultimately show ?thesis using traffic_bits [of 3 6] by (auto simp: transposed_def Let_def)
qed

definition pattern_permutes :: "(u32 \<Rightarrow> u8 \<Rightarrow> u32 option) \<Rightarrow> bool" where
  "pattern_permutes f \<longleftrightarrow> (\<forall>x sz. 1 \<le> unat sz \<longrightarrow> unat sz \<le> 32 \<longrightarrow> unat x < 2 ^ unat sz \<longrightarrow>
     (\<exists>y. f x sz = Some y \<and> unat y < 2 ^ unat sz \<and> f y sz = Some x))"

lemma permutes_by_bits:
  assumes f: "\<And>x sz. 1 \<le> unat sz \<Longrightarrow> unat sz \<le> 32 \<Longrightarrow>
      \<exists>y. f x sz = Some y \<and> (\<forall>k. bit y k \<longleftrightarrow> k < unat sz \<and> g (bit x (p (unat sz) k)))"
    and p: "\<And>n k. k < n \<Longrightarrow> p n k < n \<and> p n (p n k) = k" and g: "\<And>b. g (g b) = b"
  shows "pattern_permutes f"
  unfolding pattern_permutes_def
proof (intro allI impI)
  fix x :: u32 and sz :: u8
  assume sz: "1 \<le> unat sz" "unat sz \<le> 32" and x: "unat x < 2 ^ unat sz"
  obtain y where y: "f x sz = Some y" "\<And>k. bit y k \<longleftrightarrow> k < unat sz \<and> g (bit x (p (unat sz) k))" using f [OF sz] by blast
  obtain z where z: "f y sz = Some z" "\<And>k. bit z k \<longleftrightarrow> k < unat sz \<and> g (bit y (p (unat sz) k))" using f [OF sz] by blast
  have "bit z k \<longleftrightarrow> bit x k" for k
  proof (cases "k < unat sz")
    case True
    with p [OF True] show ?thesis by (simp add: z(2) y(2) g)
  next
    case False
    with below_bits [OF x, of k] show ?thesis by (auto simp: z(2))
  qed
  then have "z = x" by (intro bit_eqI) simp
  moreover have "unat y < 2 ^ unat sz" using y(2) by (intro bits_below) simp
  ultimately show "\<exists>y. f x sz = Some y \<and> unat y < 2 ^ unat sz \<and> f y sz = Some x" using y(1) z(1) by blast
qed

lemma patterns_permute:
  "pattern_permutes TrafficPattern_MatrixTransposeBits2" "pattern_permutes TrafficPattern_ComplementBits2"
  "pattern_permutes TrafficPattern_ReverseBits2"
proof -
  show "pattern_permutes TrafficPattern_MatrixTransposeBits2"
    by (rule permutes_by_bits [of _ "\<lambda>b. b" transposed], rule MatrixTransposeBits2_eq) (simp_all add: transposed_involution)
  show "pattern_permutes TrafficPattern_ComplementBits2"
    by (rule permutes_by_bits [of _ Not "\<lambda>n k. k"], rule ComplementBits2_eq) simp_all
  show "pattern_permutes TrafficPattern_ReverseBits2"
    by (rule permutes_by_bits [of _ "\<lambda>b. b" "\<lambda>n k. n - 1 - k"], rule ReverseBits2_eq) auto
qed

end
