(* ===== verification/Noc_Applications.thy ===== *)
theory Noc_Applications
  imports Noc_Transport Relative_Positions Traffic_Patterns
begin

text \<open>
  The applications that feed the network, \<^verbatim>\<open>noc/application\<close>: here \<^verbatim>\<open>NocSyncApplication\<close>, which injects the
  flits of its packets in step with the global clock. An application holds the events it has
  scheduled as the time steps at which they are due; \<open>None\<close> is an expired \<^verbatim>\<open>EventId\<close>. The values
  that the random generators give are arguments. The topology's \<^verbatim>\<open>GetDestinationRelativeDimensionalPosition\<close> is the
  argument \<open>positions\<close>, because the call is virtual; it is one of those in \<open>Relative_Positions\<close>.
\<close>

section \<open>What the applications share\<close>

datatype traffic_pattern =
  DESTINATION_SPECIFIED | UNIFORM_RANDOM | BIT_MATRIX_TRANSPOSE | BIT_COMPLEMENT | BIT_REVERSE

fun TrafficPatternToString :: "traffic_pattern \<Rightarrow> string" where
  "TrafficPatternToString DESTINATION_SPECIFIED = ''DestinationSpecified''"
| "TrafficPatternToString UNIFORM_RANDOM = ''UniformRandom''"
| "TrafficPatternToString BIT_MATRIX_TRANSPOSE = ''BitMatrixTranspose''"
| "TrafficPatternToString BIT_COMPLEMENT = ''BitComplement''"
| "TrafficPatternToString BIT_REVERSE = ''BitReverse''"

definition TrafficPatternFromString :: "string \<Rightarrow> traffic_pattern" where
  "TrafficPatternFromString t =
     (if t = ''DestinationSpecified'' then DESTINATION_SPECIFIED
      else if t = ''UniformRandom'' then UNIFORM_RANDOM
      else if t = ''BitMatrixTranspose'' then BIT_MATRIX_TRANSPOSE
      else if t = ''BitComplement'' then BIT_COMPLEMENT
      else if t = ''BitReverse'' then BIT_REVERSE
      else UNIFORM_RANDOM)"

datatype app_trace = FlitInjected packet | PacketInjected packet | FlitReceived packet

text \<open>\<^verbatim>\<open>(uint8_t) floor (log2 (m))\<close> of a number that is not zero.\<close>

definition floor_log2 :: "u32 \<Rightarrow> u8" where
  "floor_log2 m = of_nat (floorlog 2 (unat m) - 1)"

text \<open>The clock, the number of the clock cycle after next to a time, and the time of a cycle. The seconds are doubles.\<close>

definition app_GetGlobalClock :: "world \<Rightarrow> u128 option" where
  "app_GetGlobalClock w = do {
     let globalClock = reg_GlobalClock (w_registry w);
     _ \<leftarrow> ns_assert (\<not> Time_IsZero globalClock);
     Some globalClock
   }"

definition clock_multiplier :: "u128 \<Rightarrow> u128 \<Rightarrow> u64 option" where
  "clock_multiplier globalClock t = do {
     seconds \<leftarrow> Time_GetSeconds resolution t;
     clockSeconds \<leftarrow> Time_GetSeconds resolution globalClock;
     _ \<leftarrow> ns_assert (clockSeconds \<noteq> 0);
     Some (1 + word_of_int \<lceil>round64 (seconds / clockSeconds)\<rceil>)
   }"

definition clock_time :: "u128 \<Rightarrow> u64 \<Rightarrow> u128 option" where
  "clock_time globalClock clockMultiplier = time_mul globalClock (Scalar (round64 (rat_of_int (uint clockMultiplier))))"

text \<open>\<^verbatim>\<open>Simulator::Now () >= GetGlobalClock () * Scalar (m_warmupCycles)\<close>.\<close>

definition warmed_up :: "u32 \<Rightarrow> world \<Rightarrow> bool option" where
  "warmed_up warmupCycles w = do {
     globalClock \<leftarrow> app_GetGlobalClock w;
     t \<leftarrow> time_mul globalClock (Scalar (rat_of_int (uint warmupCycles)));
     Some (time_less_eq t (TimeStep (w_now w)))
   }"

text \<open>The time step at which the simulator runs what is scheduled after a time.\<close>

definition due :: "u128 \<Rightarrow> world \<Rightarrow> u64 option" where
  "due time w = do {
     let tAbsolute = time_add time (TimeStep (w_now w));
     _ \<leftarrow> ns_assert (Time_IsPositive tAbsolute);
     _ \<leftarrow> ns_assert (time_less_eq (TimeStep (w_now w)) tAbsolute);
     Some (Time_GetTimeStep tAbsolute)
   }"

text \<open>\<^verbatim>\<open>Create<NocPacket>\<close>: a packet under a new reference.\<close>

definition store_packet :: "packet \<Rightarrow> world \<Rightarrow> packet_ref \<times> world" where
  "store_packet x w = (w_nextPacket w, (put_packet (w_nextPacket w) x w)\<lparr>w_nextPacket := w_nextPacket w + 1\<rparr>)"

text \<open>The node of the first device on a node with the ID, or a null pointer.\<close>

fun find_node :: "world \<Rightarrow> u32 \<Rightarrow> device_ref list \<Rightarrow> node_ref option option" where
  "find_node w nodeId [] = Some None"
| "find_node w nodeId (d # ds) = do {
     tmpNode \<leftarrow> nd_node (w_devices w d);
     if nodeId = n_id (w_nodes w tmpNode) then Some (Some tmpNode) else find_node w nodeId ds
   }"

section \<open>The state of a synchronous application\<close>

text \<open>The container \<^verbatim>\<open>m_nodes\<close> is left out: no operation reads it.\<close>

record sync_application =
  sa_node :: node_ref
  sa_size :: "u32 list"
  sa_devices :: "device_ref list"
  sa_injectionProbability :: rat
  sa_flitSize :: u32
  sa_numberOfFlits :: u16
  sa_currentFlitIndex :: u16
  sa_currentHeadFlit :: "packet_ref option"
  sa_maxBytes :: u32
  sa_totBytes :: u32
  sa_maxFlits :: u32
  sa_totFlits :: u32
  sa_warmupCycles :: u32
  sa_startEvent :: "u64 option"
  sa_sendEvent :: "u64 option"
  sa_uniformDestination :: "u32 list"
  sa_trafficPattern :: traffic_pattern
  sa_destinationNodeId :: u32
  sa_trace :: "app_trace list"

text \<open>The constructor, with the default values of the attributes; the registry has the flit size in bits.\<close>

definition NocSyncApplication_new :: "node_ref \<Rightarrow> int \<Rightarrow> sync_application" where
  "NocSyncApplication_new n flitSize = \<lparr>sa_node = n, sa_size = [], sa_devices = [], sa_injectionProbability = 1 / 2,
     sa_flitSize = word_of_int (trunc_div flitSize 8), sa_numberOfFlits = 3, sa_currentFlitIndex = 0,
     sa_currentHeadFlit = None, sa_maxBytes = 0, sa_totBytes = 0, sa_maxFlits = 0, sa_totFlits = 0, sa_warmupCycles = 0,
     sa_startEvent = None, sa_sendEvent = None, sa_uniformDestination = [], sa_trafficPattern = BIT_COMPLEMENT,
     sa_destinationNodeId = 0, sa_trace = []\<rparr>"

definition NocSyncApplication_SetDimensionSize :: "u32 list \<Rightarrow> sync_application \<Rightarrow> sync_application" where
  "NocSyncApplication_SetDimensionSize sizes app = app\<lparr>sa_size := sizes\<rparr>"

definition NocSyncApplication_SetMaxBytes :: "u32 \<Rightarrow> sync_application \<Rightarrow> sync_application" where
  "NocSyncApplication_SetMaxBytes maxBytes app = app\<lparr>sa_maxBytes := maxBytes\<rparr>"

definition NocSyncApplication_SetNetDeviceContainer :: "device_ref list \<Rightarrow> sync_application \<Rightarrow> sync_application" where
  "NocSyncApplication_SetNetDeviceContainer devices app = app\<lparr>sa_devices := devices\<rparr>"

definition trace_app :: "app_trace \<Rightarrow> sync_application \<Rightarrow> sync_application" where
  "trace_app e app = app\<lparr>sa_trace := sa_trace app @ [e]\<rparr>"

definition NocSyncApplication_FlitReceivedCallback :: "packet \<Rightarrow> world \<Rightarrow> sync_application \<Rightarrow> sync_application option" where
  "NocSyncApplication_FlitReceivedCallback packet w app = do {
     warm \<leftarrow> warmed_up (sa_warmupCycles app) w;
     Some (if warm then trace_app (FlitReceived packet) app else app)
   }"

definition NocSyncApplication_CancelEvents :: "sync_application \<Rightarrow> sync_application" where
  "NocSyncApplication_CancelEvents app = app\<lparr>sa_sendEvent := None, sa_startEvent := None\<rparr>"

definition NocSyncApplication_StopApplication :: "sync_application \<Rightarrow> sync_application" where
  "NocSyncApplication_StopApplication = NocSyncApplication_CancelEvents"

definition NocSyncApplication_ScheduleStartEvent :: "world \<Rightarrow> sync_application \<Rightarrow> sync_application" where
  "NocSyncApplication_ScheduleStartEvent w app = app\<lparr>sa_startEvent := Some (w_now w)\<rparr>"

definition NocSyncApplication_StartApplication :: "world \<Rightarrow> sync_application \<Rightarrow> sync_application" where
  "NocSyncApplication_StartApplication w app =
     NocSyncApplication_ScheduleStartEvent w (NocSyncApplication_CancelEvents app)"

definition NocSyncApplication_StopSending :: "world \<Rightarrow> sync_application \<Rightarrow> sync_application" where
  "NocSyncApplication_StopSending w app =
     NocSyncApplication_ScheduleStartEvent w (NocSyncApplication_CancelEvents app)"

definition sync_send_time :: "world \<Rightarrow> sync_application \<Rightarrow> u128 option" where
  "sync_send_time w app = do {
     globalClock \<leftarrow> app_GetGlobalClock w;
     if sa_totBytes app = 0 then PicoSeconds resolution 0
     else do {
       clockMultiplier \<leftarrow> clock_multiplier globalClock (TimeStep (w_now w));
       t \<leftarrow> clock_time globalClock clockMultiplier;
       let sendAtTime = time_sub t (TimeStep (w_now w));
       _ \<leftarrow> ns_assert (Time_IsPositive sendAtTime);
       Some sendAtTime
     }
   }"

definition NocSyncApplication_ScheduleNextTx :: "world \<Rightarrow> sync_application \<Rightarrow> sync_application option" where
  "NocSyncApplication_ScheduleNextTx w app =
     (if sa_injectionProbability app = 0 then Some (NocSyncApplication_StopApplication app)
      else if (sa_maxBytes app = 0 \<or> sa_totBytes app < sa_maxBytes app) \<and> (sa_maxFlits app = 0 \<or> sa_totFlits app < sa_maxFlits app)
      then do {
        sendAtTime \<leftarrow> sync_send_time w app;
        _ \<leftarrow> ns_assert (time_less_eq (Scalar 0) sendAtTime);
        ts \<leftarrow> due sendAtTime w;
        Some (app\<lparr>sa_sendEvent := Some ts\<rparr>)
      }
      else Some (NocSyncApplication_StopApplication app))"

definition NocSyncApplication_StartSending :: "world \<Rightarrow> sync_application \<Rightarrow> sync_application option" where
  "NocSyncApplication_StartSending = NocSyncApplication_ScheduleNextTx"

section \<open>Sending a flit\<close>

text \<open>The coordinates of the sending node; a size of zero makes the loop write outside of the vector.\<close>

definition source_coordinates :: "u32 list \<Rightarrow> u32 \<Rightarrow> u8 list option" where
  "source_coordinates sizes sourceNodeId =
     those (map (\<lambda>k. map_option ucast (coordinate_of sizes sourceNodeId k)) [0 ..< length sizes])"

text \<open>The coordinates of the destination. Each is asserted to be below the size of its dimension.\<close>

definition inside_mesh :: "u32 list \<Rightarrow> u32 list \<Rightarrow> unit option" where
  "inside_mesh sizes destination = ns_assert (list_all2 (<) destination sizes)"

definition permuted_destination :: "(u32 \<Rightarrow> u8 \<Rightarrow> u32 option) \<Rightarrow> u32 list \<Rightarrow> u8 list \<Rightarrow> u32 list option" where
  "permuted_destination f sizes source = do {
     destination \<leftarrow> those (map2 (\<lambda>s m. f (ucast s) (floor_log2 m)) source sizes);
     _ \<leftarrow> inside_mesh sizes destination;
     Some destination
   }"

definition sync_destination ::
    "(nat \<Rightarrow> u32) \<Rightarrow> u8 list \<Rightarrow> sync_application \<Rightarrow> (u32 list \<times> sync_application) option" where
  "sync_destination uni source app = (let sizes = sa_size app; pair = map_option (\<lambda>destination. (destination, app)) in
     case sa_trafficPattern app of
       DESTINATION_SPECIFIED \<Rightarrow> do {
         destination \<leftarrow> those (map (coordinate_of sizes (sa_destinationNodeId app)) [0 ..< length sizes]);
         _ \<leftarrow> inside_mesh sizes destination;
         Some (destination, app)
       }
     | UNIFORM_RANDOM \<Rightarrow> do {
         let drawn = map uni [0 ..< length sizes] @ drop (length sizes) (sa_uniformDestination app);
         let app = (if sa_currentFlitIndex app = 0 then app\<lparr>sa_uniformDestination := drawn\<rparr> else app);
         destination \<leftarrow> those (map (vec_at (sa_uniformDestination app)) [0 ..< length sizes]);
         _ \<leftarrow> inside_mesh sizes destination;
         Some (destination, app)
       }
     | BIT_MATRIX_TRANSPOSE \<Rightarrow> pair (permuted_destination TrafficPattern_MatrixTransposeBits2 sizes source)
     | BIT_COMPLEMENT \<Rightarrow> pair (permuted_destination TrafficPattern_ComplementBits2 sizes source)
     | BIT_REVERSE \<Rightarrow> pair (permuted_destination TrafficPattern_ReverseBits2 sizes source))"

text \<open>The number of the node with the coordinates.\<close>

definition node_number :: "u32 list \<Rightarrow> u32 list \<Rightarrow> u32 option" where
  "node_number sizes destination = do {
     ns \<leftarrow> those (map (NocMeshND_GetNumberOfNodes sizes) [0 ..< length sizes]);
     Some (sum_list (map2 (*) destination ns))
   }"

text \<open>A new flit is traced, after the warmup, and injected.\<close>

definition sync_inject ::
    "(nat \<Rightarrow> nat) \<Rightarrow> packet \<Rightarrow> node_ref option \<Rightarrow> sync_application \<Rightarrow> world \<Rightarrow> (packet_ref \<times> sync_application \<times> world) option" where
  "sync_inject pick x destinationNode app w = do {
     let (p, w) = store_packet x w;
     warm \<leftarrow> warmed_up (sa_warmupCycles app) w;
     destination \<leftarrow> destinationNode;
     w \<leftarrow> NocNode_InjectPacket pick (sa_node app) p destination w;
     Some (p, if warm then trace_app (FlitInjected x) app else app, w)
   }"

text \<open>The head flit is injected with the probability of the application, the other flits always.\<close>

definition sync_send_head ::
    "(nat \<Rightarrow> nat) \<Rightarrow> int \<Rightarrow> u8 list \<Rightarrow> u8 list \<Rightarrow> node_ref option \<Rightarrow>
       sync_application \<times> world \<times> u32 \<Rightarrow> (sync_application \<times> world \<times> u32) option" where
  "sync_send_head pick rand relative source destinationNode = (\<lambda>(app, w, globalUid).
     if rat_of_int (rand mod 100 + 1) \<le> round64 (sa_injectionProbability app * 100) then do {
       let headerSize = NocHeader_GetHeaderSize (w_dims w);
       _ \<leftarrow> ns_assert (sa_flitSize app \<ge> headerSize);
       (x, globalUid) \<leftarrow> NocPacket_headN (w_dims w) globalUid relative source (sa_flitSize app - headerSize);
       (p, app, w) \<leftarrow> sync_inject pick x destinationNode app w;
       Some (app\<lparr>sa_currentHeadFlit := Some p, sa_currentFlitIndex := sa_currentFlitIndex app + 1,
         sa_totBytes := sa_totBytes app + (sa_flitSize app - headerSize)\<rparr>, w, globalUid)
     }
     else Some (app, w, globalUid))"

definition sync_send_data ::
    "(nat \<Rightarrow> nat) \<Rightarrow> node_ref option \<Rightarrow> sync_application \<times> world \<times> u32 \<Rightarrow> (sync_application \<times> world \<times> u32) option" where
  "sync_send_data pick destinationNode = (\<lambda>(app, w, globalUid). do {
     let isTail = (unat (sa_currentFlitIndex app) + 1 = unat (sa_numberOfFlits app));
     head \<leftarrow> sa_currentHeadFlit app;
     (x, globalUid) \<leftarrow> NocPacket_data globalUid (pk_uid (w_packets w head)) (sa_flitSize app) isTail;
     (p, app, w) \<leftarrow> sync_inject pick x destinationNode app w;
     Some (app\<lparr>sa_currentFlitIndex := sa_currentFlitIndex app + 1, sa_totBytes := sa_totBytes app + sa_flitSize app\<rparr>, w, globalUid)
   })"

text \<open>After the last flit of a packet.\<close>

definition sync_end_packet :: "world \<Rightarrow> sync_application \<Rightarrow> sync_application option" where
  "sync_end_packet w app =
     (if sa_currentFlitIndex app = sa_numberOfFlits app then do {
        warm \<leftarrow> warmed_up (sa_warmupCycles app) w;
        app \<leftarrow> (if warm then do { head \<leftarrow> sa_currentHeadFlit app; Some (trace_app (PacketInjected (w_packets w head)) app) }
                else Some app);
        Some (app\<lparr>sa_currentFlitIndex := 0\<rparr>)
      }
      else Some app)"

definition sync_send_flit ::
    "(u32 \<Rightarrow> u32 \<Rightarrow> u8 list option) \<Rightarrow> (nat \<Rightarrow> nat) \<Rightarrow> int \<Rightarrow> u8 list \<Rightarrow> u32 \<Rightarrow> u32 \<Rightarrow> node_ref option \<Rightarrow>
       sync_application \<times> world \<times> u32 \<Rightarrow> (sync_application \<times> world \<times> u32) option" where
  "sync_send_flit positions pick rand source sourceNodeId destinationNodeId destinationNode = (\<lambda>(app, w, globalUid). do {
     relative \<leftarrow> positions sourceNodeId destinationNodeId;
     _ \<leftarrow> ns_assert (sa_numberOfFlits app \<ge> 1);
     (app, w, globalUid) \<leftarrow>
       (if sa_currentFlitIndex app = 0 then sync_send_head pick rand relative source destinationNode (app, w, globalUid)
        else sync_send_data pick destinationNode (app, w, globalUid));
     app \<leftarrow> sync_end_packet w app;
     app \<leftarrow> NocSyncApplication_ScheduleNextTx w (app\<lparr>sa_totFlits := sa_totFlits app + 1\<rparr>);
     Some (app, w, globalUid)
   })"

definition NocSyncApplication_SendFlit ::
    "(u32 \<Rightarrow> u32 \<Rightarrow> u8 list option) \<Rightarrow> (nat \<Rightarrow> nat) \<Rightarrow> int \<Rightarrow> (nat \<Rightarrow> u32) \<Rightarrow>
       sync_application \<times> world \<times> u32 \<Rightarrow> (sync_application \<times> world \<times> u32) option" where
  "NocSyncApplication_SendFlit positions pick rand uni = (\<lambda>(app, w, globalUid). do {
     _ \<leftarrow> ns_assert (sa_sendEvent app = None);
     let sourceNodeId = n_id (w_nodes w (sa_node app));
     source \<leftarrow> source_coordinates (sa_size app) sourceNodeId;
     (destination, app) \<leftarrow> sync_destination uni source app;
     destinationNodeId \<leftarrow> node_number (sa_size app) destination;
     destinationNode \<leftarrow> find_node w destinationNodeId (sa_devices app);
     if sourceNodeId = destinationNodeId then
       if sa_trafficPattern app = UNIFORM_RANDOM then do {
         app \<leftarrow> NocSyncApplication_ScheduleNextTx w app;
         Some (app, w, globalUid)
       }
       else Some (app, w, globalUid)
     else sync_send_flit positions pick rand source sourceNodeId destinationNodeId destinationNode (app, w, globalUid)
   })"

end
