(* ===== verification/Application_Traffic.thy ===== *)
theory Application_Traffic
  imports Noc_Applications Mesh_Delivery Noc_Conservation
begin

text \<open>
  Where the packets of a synchronous application go: the bit patterns permute the nodes of a mesh whose sizes are powers of two,
  and a head flit that the application injects carries the way to the node of its pattern.
\<close>

section \<open>Numbers of mixed radix\<close>

fun radix :: "'a::comm_semiring_1 list \<Rightarrow> 'a list \<Rightarrow> 'a" where
  "radix (d # ds) (m # ms) = d + m * radix ds ms"
| "radix _ _ = 0"

lemma radix_less: "list_all2 (<) ds ms \<Longrightarrow> radix ds ms < prod_list (ms :: nat list)"
proof (induction ds ms rule: list_all2_induct)
  case (Cons d ds m ms)
  then have "d + m * radix ds ms < m + m * radix ds ms" by simp
  also have "\<dots> = m * Suc (radix ds ms)" by simp
  also have "\<dots> \<le> m * prod_list ms" using Cons by (intro mult_le_mono2) simp
  finally show ?case by simp
qed simp

lemma radix_coordinate: "list_all2 (<) ds ms \<Longrightarrow> k < length ms \<Longrightarrow> coordinate ms k (radix ds ms) = ds ! k"
proof (induction ds ms arbitrary: k rule: list_all2_induct)
  case (Cons d ds m ms)
  then show ?case by (cases k) (simp_all add: coordinate_def div_mult2_eq)
qed simp

lemma radix_of_nat: "of_nat (radix ds ms) = radix (map of_nat ds) (map of_nat ms)"
  by (induction ds ms rule: radix.induct) simp_all

lemma radix_strides: "length ds = length ms \<Longrightarrow>
    sum_list (map2 (*) ds (map (\<lambda>k. c * prod_list (take k ms)) [0 ..< length ms])) = c * radix ds (ms :: 'a::comm_semiring_1 list)"
proof (induction ds ms arbitrary: c rule: list_induct2)
  case (Cons d ds m ms)
  have "map (\<lambda>k. c * prod_list (take k (m # ms))) [0 ..< length (m # ms)] = c # map (\<lambda>k. c * m * prod_list (take k ms)) [0 ..< length ms]"
    unfolding length_Cons map_upt_Suc by (simp add: mult.assoc)
  then show ?case using Cons.IH [of "c * m"] by (simp add: algebra_simps)
qed simp

lemma GetNumberOfNodes_take: "k \<le> length sizes \<Longrightarrow> NocMeshND_GetNumberOfNodes sizes k = Some (prod_list (take k sizes))"
  by (induction k) (simp_all add: vec_at_def take_Suc_conv_app_nth)

lemma those_Some: "(\<And>x. x \<in> set xs \<Longrightarrow> f x = Some (g x)) \<Longrightarrow> those (map f xs) = Some (map g xs)"
  by (induction xs) simp_all

lemma node_number_radix:
  assumes "length ds = length sizes"
  shows "node_number sizes ds = Some (radix ds sizes)"
proof -
  have "those (map (NocMeshND_GetNumberOfNodes sizes) [0 ..< length sizes]) = Some (map (\<lambda>k. 1 * prod_list (take k sizes)) [0 ..< length sizes])"
    by (rule those_Some) (simp add: GetNumberOfNodes_take)
  then show ?thesis using radix_strides [OF assms, of 1] by (simp add: node_number_def)
qed

lemma unat_radix:
  fixes ds sizes :: "u32 list"
  assumes "list_all2 (<) ds sizes" "prod_list (map unat sizes) < 2 ^ 32"
  shows "unat (radix ds sizes) = radix (map unat ds) (map unat sizes)"
proof -
  have l: "list_all2 (<) (map unat ds) (map unat sizes)"
    using assms(1) by (simp add: list_all2_conv_all_nth word_less_nat_alt)
  have "radix ds sizes = of_nat (radix (map unat ds) (map unat sizes))" by (simp add: radix_of_nat comp_def)
  moreover have "radix (map unat ds) (map unat sizes) < 2 ^ 32" using radix_less [OF l] assms(2) by simp
  ultimately show ?thesis by (simp add: unat_of_nat take_bit_nat_eq_self)
qed

section \<open>The patterns permute the nodes\<close>

definition power_sizes :: "u32 list \<Rightarrow> bool" where
  "power_sizes sizes \<longleftrightarrow> sizes_ok sizes \<and> (\<forall>m \<in> set sizes. \<exists>b. 1 \<le> b \<and> b \<le> 7 \<and> unat m = 2 ^ b)"

lemma floor_log2_power: "b \<le> 7 \<Longrightarrow> unat m = 2 ^ b \<Longrightarrow> unat (floor_log2 m) = b"
proof -
  assume b: "b \<le> 7" "unat m = 2 ^ b"
  have "floorlog 2 (1 * 2 ^ b) = floorlog 2 1 + b" by (rule floorlog_power) simp_all
  then have "floorlog 2 (2 ^ b) - 1 = b" by (simp add: floorlog_def)
  then show ?thesis using b by (simp add: floor_log2_def unat_of_nat take_bit_nat_eq_self)
qed

lemma pattern_on_size:
  assumes "pattern_permutes f" "1 \<le> b" "b \<le> 7" "unat m = 2 ^ b" "x < m"
  shows "\<exists>y. f x (floor_log2 m) = Some y \<and> y < m \<and> f y (floor_log2 m) = Some x"
proof -
  have l: "unat (floor_log2 m) = b" by (rule floor_log2_power [OF assms(3,4)])
  have "unat x < 2 ^ b" using assms(4,5) by (simp add: word_less_nat_alt)
  then obtain y where "f x (floor_log2 m) = Some y" "unat y < 2 ^ b" "f y (floor_log2 m) = Some x"
    using assms(1) l assms(2,3) unfolding pattern_permutes_def by fastforce
  then show ?thesis using assms(4) by (simp add: word_less_nat_alt)
qed

lemma permuted_coordinates:
  assumes "pattern_permutes f" "\<forall>m \<in> set sizes. \<exists>b. 1 \<le> b \<and> b \<le> 7 \<and> unat m = 2 ^ b" "list_all2 (<) xs sizes"
  shows "\<exists>ys. those (map2 (\<lambda>s m. f s (floor_log2 m)) xs sizes) = Some ys \<and> list_all2 (<) ys sizes \<and>
    those (map2 (\<lambda>s m. f s (floor_log2 m)) ys sizes) = Some xs"
  using assms(3,2)
proof (induction xs sizes rule: list_all2_induct)
  case (Cons x xs m ms)
  then obtain ys where ys: "those (map2 (\<lambda>s m. f s (floor_log2 m)) xs ms) = Some ys" "list_all2 (<) ys ms"
    "those (map2 (\<lambda>s m. f s (floor_log2 m)) ys ms) = Some xs" by auto
  obtain b where "1 \<le> b" "b \<le> 7" "unat m = 2 ^ b" using Cons.prems by auto
  from pattern_on_size [OF assms(1) this Cons.hyps(1)] obtain y where
    "f x (floor_log2 m) = Some y" "y < m" "f y (floor_log2 m) = Some x" by blast
  with ys show ?case by (intro exI [of _ "y # ys"]) simp
qed simp

text \<open>The coordinates of a node, as the application computes them.\<close>

definition coordinate_words :: "u32 list \<Rightarrow> u32 \<Rightarrow> u32 list" where
  "coordinate_words sizes s = map (coordinate_word sizes s) [0 ..< length sizes]"

lemma coordinate_words_less:
  assumes "sizes_ok sizes"
  shows "list_all2 (<) (coordinate_words sizes s) sizes"
  unfolding list_all2_conv_all_nth
proof (intro conjI allI impI)
  fix k assume "k < length (coordinate_words sizes s)"
  then have k: "k < length sizes" by (simp add: coordinate_words_def)
  have "unat (coordinate_word sizes s k) < unat (sizes ! k)"
    using coordinate_of_eq(2) [OF assms k] sizes_ok_nth [OF assms k] k by (simp add: coordinate_def)
  then show "coordinate_words sizes s ! k < sizes ! k" using k by (simp add: coordinate_words_def word_less_nat_alt)
qed (simp add: coordinate_words_def)

lemma source_coordinates_eq:
  "sizes_ok sizes \<Longrightarrow> source_coordinates sizes s = Some (map ucast (coordinate_words sizes s))"
  unfolding source_coordinates_def coordinate_words_def
  by (subst those_Some [where g = "\<lambda>k. ucast (coordinate_word sizes s k)"]) (simp_all add: coordinate_of_eq)

lemma byte_and_back: "x < m \<Longrightarrow> unat m \<le> 256 \<Longrightarrow> ucast (ucast (x :: u32) :: u8) = x"
proof -
  assume "x < m" "unat m \<le> 256"
  then have "unat x < 2 ^ 8" by (simp add: word_less_nat_alt)
  then have "unat (ucast (ucast x :: u8) :: u32) = unat x"
    by (simp add: unsigned_ucast_eq unsigned_take_bit_eq take_bit_nat_eq_self)
  then show ?thesis by (rule unsigned_word_eqI)
qed

lemma permuted_destination_eq:
  assumes "list_all2 (<) xs sizes" "\<forall>m \<in> set sizes. unat m \<le> 256"
  shows "permuted_destination f sizes (map ucast xs) = do {
    destination \<leftarrow> those (map2 (\<lambda>s m. f s (floor_log2 m)) xs sizes);
    _ \<leftarrow> inside_mesh sizes destination; Some destination }"
proof -
  have "map2 (\<lambda>s m. f (ucast s) (floor_log2 m)) (map ucast xs :: u8 list) sizes = map2 (\<lambda>s m. f s (floor_log2 m)) xs sizes"
    using assms by (induction xs sizes rule: list_all2_induct) (simp_all add: byte_and_back)
  then show ?thesis by (simp only: permuted_destination_def)
qed

lemma radix_of_coordinates:
  assumes "sizes_ok sizes" "unat s < prod_list (map unat sizes)"
  shows "radix (coordinate_words sizes s) sizes = s"
proof -
  let ?ms = "map unat sizes"
  let ?cs = "coordinate_words sizes s"
  have l: "list_all2 (<) (map unat ?cs) ?ms"
    using coordinate_words_less [OF assms(1), of s] by (simp add: list_all2_conv_all_nth word_less_nat_alt)
  have p: "prod_list ?ms < 2 ^ 32" using assms(1) by (simp add: sizes_ok_def)
  have u: "unat (radix ?cs sizes) = radix (map unat ?cs) ?ms" by (rule unat_radix [OF coordinate_words_less [OF assms(1)] p])
  have "coordinate ?ms k (radix (map unat ?cs) ?ms) = coordinate ?ms k (unat s)" if "k < length ?ms" for k
    using radix_coordinate [OF l that] that coordinate_of_eq(2) [OF assms(1)] by (simp add: coordinate_words_def)
  then have "radix (map unat ?cs) ?ms = unat s" using coordinates_inj radix_less [OF l] assms(2) by blast
  then show ?thesis using u by (metis unsigned_word_eqI)
qed

lemma coordinates_of_radix:
  assumes "sizes_ok sizes" "list_all2 (<) ys sizes"
  shows "coordinate_words sizes (radix ys sizes) = ys" "unat (radix ys sizes) < prod_list (map unat sizes)"
proof -
  let ?ms = "map unat sizes"
  have l: "list_all2 (<) (map unat ys) ?ms" using assms(2) by (simp add: list_all2_conv_all_nth word_less_nat_alt)
  have n: "length ys = length sizes" using assms(2) by (rule list_all2_lengthD)
  have p: "prod_list ?ms < 2 ^ 32" using assms(1) by (simp add: sizes_ok_def)
  have u: "unat (radix ys sizes) = radix (map unat ys) ?ms" by (rule unat_radix [OF assms(2) p])
  then show "unat (radix ys sizes) < prod_list ?ms" using radix_less [OF l] by simp
  have "coordinate_word sizes (radix ys sizes) k = ys ! k" if "k < length sizes" for k
    using coordinate_of_eq(2) [OF assms(1) that, of "radix ys sizes"] radix_coordinate [OF l, of k] that n u
    by (metis length_map nth_map unsigned_word_eqI)
  then show "coordinate_words sizes (radix ys sizes) = ys" using n by (intro nth_equalityI) (simp_all add: coordinate_words_def)
qed

text \<open>The node that an application sends to, by the steps of \<^verbatim>\<open>SendFlit\<close>.\<close>

definition sync_target :: "(nat \<Rightarrow> u32) \<Rightarrow> sync_application \<Rightarrow> u32 \<Rightarrow> u32 option" where
  "sync_target uni app s = do {
     source \<leftarrow> source_coordinates (sa_size app) s;
     (destination, app) \<leftarrow> sync_destination uni source app;
     node_number (sa_size app) destination
   }"

definition bit_pattern :: "traffic_pattern \<Rightarrow> bool" where
  "bit_pattern t \<longleftrightarrow> t \<in> {BIT_MATRIX_TRANSPOSE, BIT_COMPLEMENT, BIT_REVERSE}"

lemma bit_pattern_destination:
  assumes "bit_pattern (sa_trafficPattern app)"
  obtains f where "pattern_permutes f"
    "\<And>uni source. sync_destination uni source app = map_option (\<lambda>d. (d, app)) (permuted_destination f (sa_size app) source)"
  using assms that patterns_permute unfolding bit_pattern_def
  by (auto simp: sync_destination_def Let_def)

lemma target_permutes:
  assumes "power_sizes (sa_size app)" "bit_pattern (sa_trafficPattern app)" "unat s < prod_list (map unat (sa_size app))"
  shows "\<exists>d ds. sync_target uni app s = Some d \<and> unat d < prod_list (map unat (sa_size app)) \<and> sync_target uni app d = Some s \<and>
    sync_destination uni (map ucast (coordinate_words (sa_size app) s)) app = Some (ds, app) \<and> node_number (sa_size app) ds = Some d"
proof -
  let ?S = "sa_size app"
  obtain f where f: "pattern_permutes f"
    "\<And>uni source. sync_destination uni source app = map_option (\<lambda>d. (d, app)) (permuted_destination f ?S source)"
    using bit_pattern_destination [OF assms(2)] by blast
  have ok: "sizes_ok ?S" and pw: "\<forall>m \<in> set ?S. \<exists>b. 1 \<le> b \<and> b \<le> 7 \<and> unat m = 2 ^ b" using assms(1) by (simp_all add: power_sizes_def)
  have le: "\<forall>m \<in> set ?S. unat m \<le> 256" using ok by (simp add: sizes_ok_def)
  let ?cs = "coordinate_words ?S s"
  have c: "list_all2 (<) ?cs ?S" by (rule coordinate_words_less [OF ok])
  from permuted_coordinates [OF f(1) pw c] obtain ys where ys:
    "those (map2 (\<lambda>s m. f s (floor_log2 m)) ?cs ?S) = Some ys" "list_all2 (<) ys ?S"
    "those (map2 (\<lambda>s m. f s (floor_log2 m)) ys ?S) = Some ?cs" by blast
  have there: "permuted_destination f ?S (map ucast ?cs) = Some ys"
    using permuted_destination_eq [OF c le] ys(1,2) by (simp add: inside_mesh_def)
  have again: "permuted_destination f ?S (map ucast ys) = Some ?cs"
    using permuted_destination_eq [OF ys(2) le] ys(3) c by (simp add: inside_mesh_def)
  let ?d = "radix ys ?S"
  have n: "node_number ?S ys = Some ?d" by (rule node_number_radix [OF list_all2_lengthD [OF ys(2)]])
  have "sync_target uni app s = Some ?d"
    by (simp add: sync_target_def source_coordinates_eq [OF ok] f(2) there n)
  moreover have "sync_target uni app ?d = Some s"
    using node_number_radix [OF list_all2_lengthD [OF c]] radix_of_coordinates [OF ok assms(3)]
    by (simp add: sync_target_def source_coordinates_eq [OF ok] f(2) coordinates_of_radix(1) [OF ok ys(2)] again)
  ultimately show ?thesis using coordinates_of_radix(2) [OF ok ys(2)] n there f(2) by auto
qed

text \<open>What a successful \<^verbatim>\<open>SendFlit\<close> that injects a head flit has done.\<close>

lemma inject_traces:
  "sync_inject pick x node app w = Some (p, app', w') \<Longrightarrow> app' = app \<or> app' = trace_app (FlitInjected x) app"
  by (auto simp: sync_inject_def Option.bind_eq_Some_conv Let_def split: if_splits prod.splits)

lemma send_head_traces:
  assumes "sync_send_head pick rand relative source node (app, w, globalUid) = Some (app', w', globalUid')"
  shows "app' = app \<or> (\<exists>x n. NocPacket_headN (w_dims w) globalUid relative source n = Some (x, globalUid') \<and>
      (sa_trace app' = sa_trace app \<or> sa_trace app' = sa_trace app @ [FlitInjected x]))"
proof (cases "rat_of_int (rand mod 100 + 1) \<le> round64 (sa_injectionProbability app * 100)")
  case True
  then obtain x p app1 w1 n where "NocPacket_headN (w_dims w) globalUid relative source n = Some (x, globalUid')"
    "sync_inject pick x node app w = Some (p, app1, w1)" "sa_trace app' = sa_trace app1"
    using assms by (auto simp: sync_send_head_def Option.bind_eq_Some_conv Let_def split: if_splits)
  with inject_traces [OF this(2)] show ?thesis by (auto simp: trace_app_def)
qed (use assms in \<open>simp add: sync_send_head_def\<close>)

lemma end_packet_traces:
  "sync_end_packet w app = Some app' \<Longrightarrow> \<exists>es. sa_trace app' = sa_trace app @ es \<and> (\<forall>e \<in> set es. \<exists>x. e = PacketInjected x)"
  by (auto simp: sync_end_packet_def trace_app_def Option.bind_eq_Some_conv split: if_splits)

lemma ScheduleNextTx_keeps:
  "NocSyncApplication_ScheduleNextTx w app = Some app' \<Longrightarrow>
     \<exists>a b. app' = app\<lparr>sa_startEvent := a, sa_sendEvent := b\<rparr>"
  by (cases app) (auto simp: NocSyncApplication_ScheduleNextTx_def NocSyncApplication_StopApplication_def
    NocSyncApplication_CancelEvents_def Option.bind_eq_Some_conv split: if_splits)

lemma SendFlit_steps:
  assumes "NocSyncApplication_SendFlit positions pick rand uni (app, w, globalUid) = Some r"
  obtains source destination app1 d node where
    "source_coordinates (sa_size app) (n_id (w_nodes w (sa_node app))) = Some source"
    "sync_destination uni source app = Some (destination, app1)" "node_number (sa_size app1) destination = Some d"
    "find_node w d (sa_devices app1) = Some node"
    "(if n_id (w_nodes w (sa_node app)) = d then
        if sa_trafficPattern app1 = UNIFORM_RANDOM then Option.bind (NocSyncApplication_ScheduleNextTx w app1) (\<lambda>app. Some (app, w, globalUid))
        else Some (app1, w, globalUid)
      else sync_send_flit positions pick rand source (n_id (w_nodes w (sa_node app))) d node (app1, w, globalUid)) = Some r"
proof -
  from assms obtain source where s: "source_coordinates (sa_size app) (n_id (w_nodes w (sa_node app))) = Some source"
    by (auto simp: NocSyncApplication_SendFlit_def Option.bind_eq_Some_conv Let_def split: if_splits)
  from assms s obtain destination app1 where d: "sync_destination uni source app = Some (destination, app1)"
    by (auto simp: NocSyncApplication_SendFlit_def Option.bind_eq_Some_conv Let_def split: if_splits)
  from assms s d obtain n node where n: "node_number (sa_size app1) destination = Some n" "find_node w n (sa_devices app1) = Some node"
    by (auto simp: NocSyncApplication_SendFlit_def Option.bind_eq_Some_conv Let_def split: if_splits)
  from assms have "sa_sendEvent app = None" by (simp add: NocSyncApplication_SendFlit_def split: if_splits)
  with assms show thesis
    by (intro that [OF s d n]) (simp only: NocSyncApplication_SendFlit_def Let_def s d n prod.case bind_ns_assert if_True
      Option.bind.bind_lunit simp_thms)
qed

lemma send_flit_steps:
  assumes "sync_send_flit positions pick rand source s d node (app, w, globalUid) = Some (app', w', globalUid')"
  obtains relative app1 app2 where "positions s d = Some relative" "sa_numberOfFlits app \<ge> 1"
    "(if sa_currentFlitIndex app = 0 then sync_send_head pick rand relative source node (app, w, globalUid)
      else sync_send_data pick node (app, w, globalUid)) = Some (app1, w', globalUid')"
    "sync_end_packet w' app1 = Some app2"
    "NocSyncApplication_ScheduleNextTx w' (app2\<lparr>sa_totFlits := sa_totFlits app2 + 1\<rparr>) = Some app'"
proof -
  from assms obtain relative where r: "positions s d = Some relative" "sa_numberOfFlits app \<ge> 1"
    by (auto simp: sync_send_flit_def Option.bind_eq_Some_conv split: if_splits)
  define q where "q = (if sa_currentFlitIndex app = 0 then sync_send_head pick rand relative source node (app, w, globalUid)
      else sync_send_data pick node (app, w, globalUid))"
  have "Option.bind q (\<lambda>(app, w, globalUid). do {
     app \<leftarrow> sync_end_packet w app;
     app \<leftarrow> NocSyncApplication_ScheduleNextTx w (app\<lparr>sa_totFlits := sa_totFlits app + 1\<rparr>);
     Some (app, w, globalUid) }) = Some (app', w', globalUid')"
    using assms r unfolding q_def by (simp add: sync_send_flit_def)
  then obtain app1 app2 where "q = Some (app1, w', globalUid')" "sync_end_packet w' app1 = Some app2"
    "NocSyncApplication_ScheduleNextTx w' (app2\<lparr>sa_totFlits := sa_totFlits app2 + 1\<rparr>) = Some app'"
    by (auto simp: Option.bind_eq_Some_conv)
  with that r show thesis unfolding q_def by blast
qed

lemma SendFlit_head:
  assumes "NocSyncApplication_SendFlit positions pick rand uni (app, w, globalUid) = Some (app', w', globalUid')"
    and "sa_currentFlitIndex app = 0" "sa_trace app' = sa_trace app @ FlitInjected x # es" "bit_pattern (sa_trafficPattern app)"
    and "s = n_id (w_nodes w (sa_node app))"
  shows "\<exists>source d relative n. source_coordinates (sa_size app) s = Some source \<and> sync_target uni app s = Some d \<and>
    positions s d = Some relative \<and> NocPacket_headN (w_dims w) globalUid relative source n = Some (x, globalUid')"
proof -
  obtain source destination app1 d node where st: "source_coordinates (sa_size app) s = Some source"
    "sync_destination uni source app = Some (destination, app1)" "node_number (sa_size app1) destination = Some d"
    "(if s = d then
        if sa_trafficPattern app1 = UNIFORM_RANDOM then Option.bind (NocSyncApplication_ScheduleNextTx w app1) (\<lambda>app. Some (app, w, globalUid))
        else Some (app1, w, globalUid)
      else sync_send_flit positions pick rand source s d node (app1, w, globalUid)) = Some (app', w', globalUid')"
    unfolding assms(5) by (rule SendFlit_steps [OF assms(1)])
  obtain f where "pattern_permutes f"
    "\<And>uni source. sync_destination uni source app = map_option (\<lambda>d. (d, app)) (permuted_destination f (sa_size app) source)"
    using bit_pattern_destination [OF assms(4)] by blast
  with st(2) have same: "app1 = app" by auto
  have "sa_trafficPattern app \<noteq> UNIFORM_RANDOM" using assms(4) by (auto simp: bit_pattern_def)
  moreover have "app' \<noteq> app" using assms(3) by auto
  ultimately have "sync_send_flit positions pick rand source s d node (app, w, globalUid) = Some (app', w', globalUid')"
    using st(4) same by (auto split: if_splits)
  from send_flit_steps [OF this, unfolded if_P [OF assms(2)]] obtain relative app2 app3 where r: "positions s d = Some relative"
    "sync_send_head pick rand relative source node (app, w, globalUid) = Some (app2, w', globalUid')"
    "sync_end_packet w' app2 = Some app3"
    "NocSyncApplication_ScheduleNextTx w' (app3\<lparr>sa_totFlits := sa_totFlits app3 + 1\<rparr>) = Some app'" by blast
  have t: "sa_trace app' = sa_trace app3" using ScheduleNextTx_keeps [OF r(4)] by auto
  obtain ps where ps: "sa_trace app3 = sa_trace app2 @ ps" "\<forall>e \<in> set ps. \<exists>x. e = PacketInjected x"
    using end_packet_traces [OF r(3)] by blast
  have "sa_trace app2 \<noteq> sa_trace app" using t ps assms(3) by auto
  then obtain y n where y: "NocPacket_headN (w_dims w) globalUid relative source n = Some (y, globalUid')" "sa_trace app2 = sa_trace app @ [FlitInjected y]"
    using send_head_traces [OF r(2)] by blast
  then have "y = x" using t ps(1) assms(3) by simp
  moreover have "sync_target uni app s = Some d" using st(1-3) same by (simp add: sync_target_def)
  ultimately show ?thesis using r(1) y(1) st(1) by blast
qed

lemma headN_header:
  assumes "NocPacket_headN dims globalUid relative source n = Some (x, g)" "unat dims < 2 ^ 31"
    "length relative = unat dims" "length source = unat dims"
  shows "Packet_PeekHeader dims x (NocHeader_new dims) = Some \<lparr>m_distance = relative, m_source = source\<rparr>"
proof -
  let ?h = "\<lparr>m_distance = relative, m_source = source\<rparr>"
  have h: "header_fits dims ?h" "header_fits dims (NocHeader_new dims)" using assms(2-4) by (simp_all add: header_fits_def NocHeader_new_def)
  have "pk_bytes x = NocHeader_Serialize ?h"
    using assms(1) NocPacket_head_eq [OF h(1)] by (auto simp: NocPacket_headN_def NocHeader_newN_def)
  then show ?thesis using PeekHeader_front [OF h, of x "[]"] by simp
qed

section \<open>Two nodes and an application\<close>

text \<open>A mesh of two nodes and one dimension, whose channel is busy, so that a sent flit stays at its device.\<close>

definition pair_router :: "node_ref \<Rightarrow> device_ref \<Rightarrow> noc_router" where
  "pair_router n d = (w_routers (blank_world 1) 0)\<lparr>r_class := FourWayRouter \<lparr>fw_internalInputDevice = n + 1, fw_internalOutputDevice = n + 3\<rparr>,
     r_nocNode := Some n, r_routingProtocol := Some (DorRouting [0], base_sample), r_switchingProtocol := Some WormholeSwitching,
     r_devices := [d]\<rparr>"

definition pair_nodes :: world where
  "pair_nodes = put_router 0 (pair_router 0 10) (put_router 1 (pair_router 1 20)
     (put_node 0 \<lparr>n_id = 0, n_router = Some 0, n_devices = [10]\<rparr> (put_node 1 \<lparr>n_id = 1, n_router = Some 1, n_devices = [20]\<rparr>
     (put_channel 0 ((w_channels (blank_world 1) 0)\<lparr>c_devices := [10, 20], c_state := [PROPAGATING, PROPAGATING]\<rparr>)
     (put_device 1 (NocNetDevice_new\<lparr>nd_node := Some 0, nd_address := 101\<rparr>)
     (put_device 10 ((facing_device 0 dir_FORWARD 0)\<lparr>nd_address := 110, nd_channel := Some 0\<rparr>)
     (put_device 20 ((facing_device 1 dir_BACK 0)\<lparr>nd_address := 120, nd_channel := Some 0, nd_deviceId := 1\<rparr>)
       (blank_world 1))))))))"

lemma pair_nodes_simps:
  "w_dims pair_nodes = 1" "w_registry pair_nodes = w_registry (blank_world 1)" "w_now pair_nodes = 0" "w_nextPacket pair_nodes = 1000"
  "w_routers pair_nodes 0 = pair_router 0 10" "w_routers pair_nodes 1 = pair_router 1 20" "w_routers pair_nodes (Suc 0) = pair_router 1 20"
  "w_nodes pair_nodes 0 = \<lparr>n_id = 0, n_router = Some 0, n_devices = [10]\<rparr>"
  "w_nodes pair_nodes 1 = \<lparr>n_id = 1, n_router = Some 1, n_devices = [20]\<rparr>"
  "w_nodes pair_nodes (Suc 0) = \<lparr>n_id = 1, n_router = Some 1, n_devices = [20]\<rparr>"
  "w_channels pair_nodes 0 = (w_channels (blank_world 1) 0)\<lparr>c_devices := [10, 20], c_state := [PROPAGATING, PROPAGATING]\<rparr>"
  "w_devices pair_nodes 1 = NocNetDevice_new\<lparr>nd_node := Some 0, nd_address := 101\<rparr>"
  "w_devices pair_nodes (Suc 0) = NocNetDevice_new\<lparr>nd_node := Some 0, nd_address := 101\<rparr>"
  "w_devices pair_nodes 10 = (facing_device 0 dir_FORWARD 0)\<lparr>nd_address := 110, nd_channel := Some 0\<rparr>"
  "w_devices pair_nodes 20 = (facing_device 1 dir_BACK 0)\<lparr>nd_address := 120, nd_channel := Some 0, nd_deviceId := 1\<rparr>"
  by (simp_all add: pair_nodes_def) (simp_all add: blank_world_def)

definition head_tag :: noc_packet_tag where "head_tag = NocPacketTag_new\<lparr>tag_type := HEAD\<rparr>"

definition pair_flit :: "u8 list \<Rightarrow> packet" where
  "pair_flit bytes = \<lparr>pk_uid = 5, pk_bytes = bytes, pk_zeros = 6, pk_tag = Some (NocPacketTag_Serialize head_tag)\<rparr>"

lemma head_tag_type: "tag_type head_tag = HEAD" by (simp add: head_tag_def)

lemma head_tag_wf: "tag_wf head_tag" 
  by (simp add: head_tag_def NocPacketTag_new_def tag_wf_def)

lemma pair_flit_steps:
  "take_header 1 (pair_flit [1, 0]) = Some (\<lparr>m_distance = [1], m_source = [0]\<rparr>, pair_flit [])"
  "dor_header [0] \<lparr>m_distance = [1], m_source = [0]\<rparr> = Some (\<lparr>m_distance = [0], m_source = [0]\<rparr>, [dir_FORWARD])"
  "Packet_AddHeader 1 (pair_flit []) \<lparr>m_distance = [0], m_source = [0]\<rparr> = Some (pair_flit [0, 0])"
  "Packet_AddHeader 1 (pair_flit [0, 0]) \<lparr>m_distance = [1], m_source = [0]\<rparr> = Some (pair_flit [1, 0, 0, 0])"
  "Packet_RemoveHeader 1 (pair_flit [1, 0, 0, 0]) (NocHeader_new 1) = Some (\<lparr>m_distance = [1], m_source = [0]\<rparr>, pair_flit [0, 0])"
  "Packet_RemoveHeader 1 (pair_flit [0, 0]) (NocHeader_new 1) = Some (\<lparr>m_distance = [0], m_source = [0]\<rparr>, pair_flit [])"
  "head_header 1 (pair_flit [1, 0]) head_tag = Some \<lparr>m_distance = [1], m_source = [0]\<rparr>"
  by code_simp+

lemma pair_flit_tag: "peeked_tag (pair_flit bs) = Some head_tag" "pk_uid (pair_flit bs) = 5"
  "Packet_RemovePacketTag (pair_flit bs) NocPacketTag_new = Some (True, head_tag, (pair_flit bs)\<lparr>pk_tag := None\<rparr>)"
proof -
  have t: "pk_tag (pair_flit bs) = Some (NocPacketTag_Serialize head_tag)" by (simp add: pair_flit_def)
  show "peeked_tag (pair_flit bs) = Some head_tag" by (rule peeked_tag_of [OF t head_tag_wf])
  show "Packet_RemovePacketTag (pair_flit bs) NocPacketTag_new = Some (True, head_tag, (pair_flit bs)\<lparr>pk_tag := None\<rparr>)"
    by (rule RemovePacketTag_of_Serialize [OF head_tag_wf t])
qed (simp add: pair_flit_def)

lemma pair_flit_inject: "Packet_AddPacketTag ((pair_flit bs)\<lparr>pk_tag := None\<rparr>) (head_tag\<lparr>tag_injectionTime := 0\<rparr>) = Some (pair_flit bs)"
  by (simp add: AddPacketTag_eq pair_flit_def head_tag_def NocPacketTag_new_def)

lemma pair_times: "now_picoseconds (blank_world 1) = Some 0" "clock_number (blank_world 1) = Some 1"
  by (simp_all add: now_picoseconds_def clock_number_def blank_world_def picoseconds_of_steps trunc_div_def)

lemma w_now_blank: "w_now (blank_world 1) = 0" by (simp add: blank_world_def)

lemma pair_select:
  assumes w: "w_devices w = w_devices pair_nodes" "w_nodes w = w_nodes pair_nodes" "r_class (w_routers w 0) = r_class (pair_router 0 10)"
    "r_devices (w_routers w 0) = [10]" "w_routers w 1 = pair_router 1 20"
  shows "dor_select w 1 1 1000 [dir_FORWARD] 0 (None, base_sample) = 
    Some (Some \<lparr>rt_routedPacket = 1000, rt_sourceDevice = 10, rt_destinationDevice = 20\<rparr>,
      base_sample\<lparr>rp_sourceNetDevice := Some 10, rp_destinationNetDevice := Some 20\<rparr>)"
  using w
  by (simp add: select_devices_def device_router_def node_router_def pair_nodes_simps pair_router_def router_GetOutputNetDevice_def FourWayRouter_GetOutputNetDevice_def FourWayRouter_GetInputNetDevice_def
     router_GetInputNetDevice_def irvine_of_def four_way_of_def device_matches_def dir_defs NocNetDevice_new_def)


text \<open>What the steps below read of the world.\<close>

definition like_pair :: "packet \<Rightarrow> world \<Rightarrow> bool" where
  "like_pair x w \<longleftrightarrow> w_packets w 1000 = x \<and> w_registry w = w_registry (blank_world 1) \<and> w_now w = 0 \<and> w_nodes w = w_nodes pair_nodes \<and>
     w_channels w = w_channels pair_nodes \<and> w_routers w 1 = pair_router 1 20 \<and> r_class (w_routers w 0) = r_class (pair_router 0 10) \<and>
     r_switchingProtocol (w_routers w 0) = Some WormholeSwitching \<and> r_devices (w_routers w 0) = [10]"

lemma pair_manage:
  assumes "like_pair (pair_flit [1, 0]) w" "w_devices w = w_devices pair_nodes" "w_routers w 0 = pair_router 0 10"
  shows "\<exists>w'. NocRouter_ManageFlit pick 0 1 1 1000 w = Some (Some \<lparr>rt_routedPacket = 1000, rt_sourceDevice = 10, rt_destinationDevice = 20\<rparr>, w') \<and>
    like_pair (pair_flit [0, 0]) w' \<and> w_devices w' = w_devices pair_nodes"
proof -
  have w: "w_packets w 1000 = pair_flit [1, 0]" "w_registry w = w_registry (blank_world 1)" "w_now w = 0" "w_nodes w = w_nodes pair_nodes"
    "w_channels w = w_channels pair_nodes" "w_routers w 1 = pair_router 1 20"
    using assms(1) by (simp_all add: like_pair_def)
  have clock: "clock_number w = Some 1"
    using pair_times(2) w(2,3) by (simp add: clock_number_def w_now_blank)
  let ?r = "(pair_router 0 10)\<lparr>r_powerCounter := 1, r_arrivedFlits := 1, r_lastClock := 1, r_flitsFromLastClock := [1000]\<rparr>"
  have count: "count_flit w 1000 (w_routers w 0) = Some ?r"
    by (simp add: count_flit_def clock assms(3) pair_router_def blank_world_def)
  let ?w = "put_packet 1000 (pair_flit [0, 0]) (put_router 0 ?r w)"
  have sel: "dor_select ?w 1 1 1000 [dir_FORWARD] 0 (None, base_sample) = 
    Some (Some \<lparr>rt_routedPacket = 1000, rt_sourceDevice = 10, rt_destinationDevice = 20\<rparr>,
      base_sample\<lparr>rp_sourceNetDevice := Some 10, rp_destinationNetDevice := Some 20\<rparr>)"
    using w(4,6) assms(2) by (intro pair_select) (simp_all add: pair_router_def)
  have dims: "w_dims (put_router 0 ?r w) = 1" using w(2) by (simp add: blank_world_def)
  have dor: "DorRouting_RequestNewRoute [0] 1 1 1000 base_sample (put_router 0 ?r w) =
    Some (Some \<lparr>rt_routedPacket = 1000, rt_sourceDevice = 10, rt_destinationDevice = 20\<rparr>,
      base_sample\<lparr>rp_sourceNetDevice := Some 10, rp_destinationNetDevice := Some 20\<rparr>, ?w)"
    using sel dims by (simp add: DorRouting_RequestNewRoute_def w(1) pair_flit_steps Let_def del: dor_select.simps One_nat_def)
  have "\<exists>base. NocRoutingProtocol_RequestRoute pick 1 1 1000 (DorRouting [0]) base_sample (put_router 0 ?r w) =
    Some (Some \<lparr>rt_routedPacket = 1000, rt_sourceDevice = 10, rt_destinationDevice = 20\<rparr>, DorRouting [0], base, ?w)"
    using dor by (simp add: NocRoutingProtocol_RequestRoute_def RequestRoute_with_def w(1) pair_flit_tag RequestNewRoute_def
      head_tag_def Let_def)
  then obtain base where rq: "NocRoutingProtocol_RequestRoute pick 1 1 1000 (DorRouting [0]) base_sample (put_router 0 ?r w) =
    Some (Some \<lparr>rt_routedPacket = 1000, rt_sourceDevice = 10, rt_destinationDevice = 20\<rparr>, DorRouting [0], base, ?w)" by blast
  have "NocRouter_ManageFlit pick 0 1 1 1000 w = Some (Some \<lparr>rt_routedPacket = 1000, rt_sourceDevice = 10, rt_destinationDevice = 20\<rparr>,
      put_router 0 (?r\<lparr>r_routingProtocol := Some (DorRouting [0], base)\<rparr>) ?w)"
    using rq by (simp add: NocRouter_ManageFlit_def count w(4) assms(2) pair_nodes_simps pair_router_def NocNetDevice_new_def Let_def)
  then show ?thesis using w assms(2) by (simp add: like_pair_def pair_router_def)
qed


lemma pair_traced: "traced_packet 1 \<lparr>m_distance = [1], m_source = [0]\<rparr> (pair_flit [0, 0]) = Some (pair_flit [])"
  by (simp add: traced_packet_def pair_flit_tag head_tag_def pair_flit_steps NocHeader_IsEmpty_def)

lemma pair_send:
  assumes "like_pair (pair_flit [1, 0, 0, 0]) w" "w_devices w = (w_devices pair_nodes)(1 := x)"
    "nd_inQueue x = None" "nd_viaNetDevice x = Some 10" "nd_node x = Some 0"
  shows "\<exists>w'. NocNetDevice_SendFrom 1 1000 source dest w = Some w'"
proof -
  have w: "w_packets w 1000 = pair_flit [1, 0, 0, 0]" "w_dims w = 1" "w_nodes w 0 = \<lparr>n_id = 0, n_router = Some 0, n_devices = [10]\<rparr>"
    "w_channels w 0 = (w_channels (blank_world 1) 0)\<lparr>c_devices := [10, 20], c_state := [PROPAGATING, PROPAGATING]\<rparr>"
    "r_switchingProtocol (w_routers w 0) = Some WormholeSwitching" "w_devices w 1 = x" "w_devices w (Suc 0) = x"
    "nd_channel (w_devices w 10) = Some 0" "nd_deviceId (w_devices w 10) = 0"
    using assms(1,2) by (simp_all add: like_pair_def pair_nodes_simps) (simp_all add: blank_world_def NocNetDevice_new_def facing_device_def)
  have c: "c_fullDuplex (w_channels (blank_world 1) 0)" "c_packetOriginalDevice (w_channels (blank_world 1) 0) = [Map.empty, Map.empty]"
    by (simp_all add: blank_world_def)
  let ?h = "\<lparr>m_distance = [1], m_source = [0]\<rparr>"
  have "\<exists>w'. send_unbuffered 1 1000 ?h to from (put_packet 1000 (pair_flit [0, 0]) w) = Some w'" for to "from"
    using assms(3-5)
    by (simp add: send_unbuffered_def w pair_traced device_router_def node_router_def trace_event_def Let_def
      ApplyFlowControl_def WormholeSwitching_ApplyFlowControl_def send_device_def NocChannel_TransmitStart_def c channel_link_def)
  then show ?thesis
    using assms(3,4) by (simp add: NocNetDevice_SendFrom_def w pair_flit_tag head_tag_def pair_flit_steps Let_def)
qed

lemma pair_inject:
  assumes "like_pair (pair_flit [1, 0]) w" "w_devices w = w_devices pair_nodes" "w_routers w 0 = pair_router 0 10"
  shows "\<exists>w'. NocNode_InjectPacket pick 0 1000 1 w = Some w'"
proof -
  have w: "w_packets w 1000 = pair_flit [1, 0]" "w_registry w = w_registry (blank_world 1)" "w_now w = 0" "w_nodes w = w_nodes pair_nodes"
    using assms(1) by (simp_all add: like_pair_def)
  have now: "now_picoseconds w = Some 0"
    using pair_times(1) w(3) by (simp add: now_picoseconds_def w_now_blank)
  let ?w = "put_packet 1000 (pair_flit [1, 0]) w"
  have "like_pair (pair_flit [1, 0]) ?w" "w_devices ?w = w_devices pair_nodes" "w_routers ?w 0 = pair_router 0 10"
    using assms by (simp_all add: like_pair_def)
  from pair_manage [OF this, of pick] obtain w1 where m:
    "NocRouter_ManageFlit pick 0 1 1 1000 ?w = Some (Some \<lparr>rt_routedPacket = 1000, rt_sourceDevice = 10, rt_destinationDevice = 20\<rparr>, w1)"
    "like_pair (pair_flit [0, 0]) w1" "w_devices w1 = w_devices pair_nodes" by blast
  have m1: "w_packets w1 1000 = pair_flit [0, 0]" "w_dims w1 = 1" using m(2) by (simp_all add: like_pair_def) (simp add: blank_world_def)
  let ?x = "NocNetDevice_SetViaNetDevice (Some 10) (w_devices w1 1)"
  let ?w1 = "put_device 1 ?x (put_packet 1000 (pair_flit [1, 0, 0, 0]) w1)"
  have x: "nd_inQueue ?x = None" "nd_viaNetDevice ?x = Some 10" "nd_node ?x = Some 0"
    by (simp_all add: m(3) pair_nodes_simps NocNetDevice_SetViaNetDevice_def NocNetDevice_new_def)
  have "like_pair (pair_flit [1, 0, 0, 0]) ?w1" "w_devices ?w1 = (w_devices pair_nodes)(1 := ?x)"
    using m(2,3) by (simp_all add: like_pair_def)
  from pair_send [OF this x] have "\<exists>w'. NocNode_DoSend 1000 1 10 20 (put_packet 1000 (pair_flit [1, 0, 0, 0]) w1) = Some w'"
    by (simp add: NocNode_DoSend_def NocNetDevice_Send_def Let_def)
  then have "\<exists>w'. NocNode_Send pick 0 1 1000 1 ?w = Some w'"
    using m(1) by (simp add: NocNode_Send_def pair_flit_tag pair_flit_steps w(2,4) node_router_def pair_nodes_simps m1 head_tag_type
      NocHeader_IsEmpty_def blank_world_def Let_def)
  then show ?thesis
    by (simp add: NocNode_InjectPacket_def w now pair_flit_tag pair_flit_inject node_router_def pair_nodes_simps assms(3)
      router_GetInjectionNetDevice_def pair_router_def)
qed


definition pair_app :: sync_application where
  "pair_app = (NocSyncApplication_new 0 64)\<lparr>sa_size := [2], sa_devices := [10, 20], sa_injectionProbability := 1, sa_maxFlits := 1\<rparr>"

lemma pair_parts:
  "source_coordinates [2] 0 = Some [0]" 
  "sync_destination uni [0] pair_app = Some ([1], pair_app)" 
  "node_number [2] [1] = Some 1"
  "NocMeshND_GetDestinationRelativeDimensionalPosition [2] 0 1 = Some [1]"
  "NocPacket_headN 1 5 [1] [0] 6 = Some (pair_flit [1, 0], 6)"
     apply code_simp
    apply code_simp
   apply code_simp
  apply code_simp
  apply code_simp
  done

lemma pair_warm: "w_registry w = w_registry (blank_world 1) \<Longrightarrow> w_now w = 0 \<Longrightarrow> warmed_up 0 w = Some True"
proof -
  assume "w_registry w = w_registry (blank_world 1)" "w_now w = 0"
  then have "warmed_up 0 w = warmed_up 0 (blank_world 1)" by (simp add: warmed_up_def app_GetGlobalClock_def w_now_blank)
  also have "\<dots> = Some True" by code_simp
  finally show ?thesis .
qed

lemma pair_sends:
  "\<exists>app' w'. NocSyncApplication_SendFlit (NocMeshND_GetDestinationRelativeDimensionalPosition [2]) pick 0 uni (pair_app, pair_nodes, 5)
     = Some (app', w', 6) \<and> sa_trace app' = [FlitInjected (pair_flit [1, 0])]"
proof -
  let ?w = "(put_packet 1000 (pair_flit [1, 0]) pair_nodes)\<lparr>w_nextPacket := 1001\<rparr>"
  have like: "like_pair (pair_flit [1, 0]) ?w" "w_devices ?w = w_devices pair_nodes" "w_routers ?w 0 = pair_router 0 10"
    by (simp_all add: like_pair_def pair_nodes_simps) (simp add: pair_router_def)
  obtain w' where w': "NocNode_InjectPacket pick 0 1000 1 ?w = Some w'" using pair_inject [OF like] by blast
  have warm: "warmed_up 0 ?w = Some True" by (rule pair_warm) (simp_all add: pair_nodes_simps)
  have a: "sa_size pair_app = [2]" "sa_node pair_app = 0" "sa_devices pair_app = [10, 20]" "sa_trafficPattern pair_app = BIT_COMPLEMENT"
    "sa_numberOfFlits pair_app = 3" "sa_currentFlitIndex pair_app = 0" "sa_flitSize pair_app = 8" "sa_injectionProbability pair_app = 1"
    "sa_warmupCycles pair_app = 0" "sa_trace pair_app = []" "sa_sendEvent pair_app = None" "sa_totFlits pair_app = 0" "sa_maxFlits pair_app = 1"
    by (simp_all add: pair_app_def NocSyncApplication_new_def trunc_div_def)
  have i: "sync_inject pick (pair_flit [1, 0]) (Some 1) pair_app pair_nodes = Some (1000, trace_app (FlitInjected (pair_flit [1, 0])) pair_app, w')"
    using w' warm by (simp add: sync_inject_def store_packet_def pair_nodes_simps a)
  have blank_dims: "w_dims (blank_world 1) = 1" by (simp add: blank_world_def)
  have dice: "rat_of_int 1 \<le> round64 100" by code_simp
  let ?app = "(trace_app (FlitInjected (pair_flit [1, 0])) pair_app)\<lparr>sa_currentHeadFlit := Some 1000, sa_currentFlitIndex := 1,
     sa_totBytes := sa_totBytes pair_app + 6\<rparr>"
  have h: "sync_send_head pick 0 [1] [0] (Some 1) (pair_app, pair_nodes, 5) = Some (?app, w', 6)"
    using dice by (simp add: sync_send_head_def a NocHeader_GetHeaderSize_def pair_nodes_simps pair_parts i trace_app_def blank_dims Let_def
      del: One_nat_def)
  have f: "find_node pair_nodes 1 [10, 20] = Some (Some 1)"
    by (simp add: pair_nodes_simps facing_device_def NocNetDevice_new_def)
  have "NocSyncApplication_SendFlit (NocMeshND_GetDestinationRelativeDimensionalPosition [2]) pick 0 uni (pair_app, pair_nodes, 5)
     = Some (NocSyncApplication_StopApplication (?app\<lparr>sa_totFlits := 1\<rparr>), w', 6)"
    using h f by (simp add: NocSyncApplication_SendFlit_def sync_send_flit_def a pair_nodes_simps pair_parts sync_end_packet_def
      NocSyncApplication_ScheduleNextTx_def trace_app_def del: One_nat_def find_node.simps)
  then show ?thesis
    by (simp add: NocSyncApplication_StopApplication_def NocSyncApplication_CancelEvents_def trace_app_def a)
qed

lemma pair_app_ok: "power_sizes (sa_size pair_app)" "bit_pattern (sa_trafficPattern pair_app)" "sa_size pair_app = [2]"
proof -
  have "\<exists>b. 1 \<le> b \<and> b \<le> 7 \<and> unat (2 :: u32) = 2 ^ b" by (rule exI [of _ 1]) simp
  then show "power_sizes (sa_size pair_app)"
    by (simp add: power_sizes_def sizes_ok_def pair_app_def NocSyncApplication_new_def)
qed (simp_all add: bit_pattern_def pair_app_def NocSyncApplication_new_def)

section \<open>Properties\<close>

text \<open>C18: in a mesh whose sizes are powers of two, each of the bit patterns pairs up the
  nodes: every node has a target inside the mesh, whose target it is in turn, and no assertion of the application fails on
  the way. So every node receives from exactly one node.\<close>

theorem pattern_permutes_nodes:
  assumes "power_sizes (sa_size app)" "bit_pattern (sa_trafficPattern app)" "unat s < prod_list (map unat (sa_size app))"
  shows "\<exists>d. sync_target uni app s = Some d \<and> unat d < prod_list (map unat (sa_size app)) \<and> sync_target uni app d = Some s"
  using target_permutes [OF assms] by blast

definition complement_app :: sync_application where
  "complement_app = (NocSyncApplication_new 0 64)\<lparr>sa_size := [4, 4]\<rparr>"

lemma complement_app_ok:
  "power_sizes (sa_size complement_app)" "bit_pattern (sa_trafficPattern complement_app)"
proof -
  have "\<exists>b. 1 \<le> b \<and> b \<le> 7 \<and> unat (4 :: u32) = 2 ^ b" by (rule exI [of _ 2]) simp
  then show "power_sizes (sa_size complement_app)"
    by (simp add: power_sizes_def sizes_ok_def complement_app_def NocSyncApplication_new_def)
  show "bit_pattern (sa_trafficPattern complement_app)"
    by (simp add: bit_pattern_def complement_app_def NocSyncApplication_new_def)
qed

lemma pattern_permutes_nodes_witness:
  "\<exists>d. sync_target (\<lambda>_. 0) complement_app 6 = Some d \<and> unat d < 16 \<and> sync_target (\<lambda>_. 0) complement_app d = Some 6"
  using pattern_permutes_nodes [OF complement_app_ok, of 6 "\<lambda>_. 0"] by (simp add: complement_app_def NocSyncApplication_new_def)

text \<open>C12: the head flit that an application of a bit pattern injects carries, in its header, the way that dimension
  order routing takes over the installed mesh to the target of the sending node.\<close>

theorem sync_traffic_delivered:
  assumes "NocSyncApplication_SendFlit (NocMeshND_GetDestinationRelativeDimensionalPosition (sa_size app)) pick rand uni (app, w, globalUid)
      = Some (app', w', globalUid')"
    and "sa_currentFlitIndex app = 0" "sa_trace app' = sa_trace app @ FlitInjected x # es"
    and "power_sizes (sa_size app)" "bit_pattern (sa_trafficPattern app)" "w_dims w = of_nat (length (sa_size app))"
    and "s = n_id (w_nodes w (sa_node app))" "unat s < length nodes"
    and "empty_store st" "factories_ok tf" "length nodes = prod_list (map unat (sa_size app))" "length (sa_size app) < 2 ^ 31"
    and "order_ok ro" "length ro = length (sa_size app)"
  shows "\<exists>d h st' ms h'. sync_target uni app s = Some d \<and> Packet_PeekHeader (w_dims w) x (NocHeader_new (w_dims w)) = Some h \<and>
    NocMeshND_Install tf (sa_size app) nodes st = Some st' \<and>
    travel (dor_header ro) (mesh_distance (map unat (sa_size app)) (unat s) (unat d)) h = Some (ms, h') \<and>
    leads (network st') (nodes ! unat s) ms (nodes ! unat d)"
proof -
  let ?S = "sa_size app"
  let ?src = "map ucast (coordinate_words ?S s) :: u8 list"
  have ok: "sizes_ok ?S" using assms(4) by (simp add: power_sizes_def)
  have l: "length nodes < 2 ^ 32" "\<forall>m \<in> set ?S. unat m \<le> 128"
  proof -
    show "length nodes < 2 ^ 32" using ok assms(11) by (simp add: sizes_ok_def)
    have "(2::nat) ^ b \<le> 2 ^ 7" if "b \<le> 7" for b using that by (intro power_increasing) simp_all
    then show "\<forall>m \<in> set ?S. unat m \<le> 128" using assms(4) by (fastforce simp: power_sizes_def)
  qed
  have sd: "unat s < prod_list (map unat ?S)" using assms(8,11) by simp
  obtain d relative n where d: "sync_target uni app s = Some d"
    "NocMeshND_GetDestinationRelativeDimensionalPosition ?S s d = Some relative"
    "NocPacket_headN (w_dims w) globalUid relative ?src n = Some (x, globalUid')"
    using SendFlit_head [OF assms(1-3,5,7)] source_coordinates_eq [OF ok, of s] by auto
  have dn: "unat d < length nodes" using target_permutes [OF assms(4,5) sd, of uni] d(1) assms(11) by auto
  let ?h = "\<lparr>m_distance = relative, m_source = ?src\<rparr>"
  have "length ?S \<le> 2 ^ 31" using assms(12) by simp
  from mesh_delivers [OF assms(9-11) l(1) this l(2) assms(13,14,8) dn order.refl, of ?src] d(2)
  obtain st' ms h' where t: "NocMeshND_Install tf ?S nodes st = Some st'"
    "travel (dor_header ro) (mesh_distance (map unat ?S) (unat s) (unat d)) ?h = Some (ms, h')"
    "leads (network st') (nodes ! unat s) ms (nodes ! unat d)" by auto
  have n: "unat (w_dims w) = length ?S" using assms(6,12) by (simp add: unat_of_nat take_bit_nat_eq_self)
  have "length relative = length ?S" using d(2) MeshND_positions [OF ok, of s d] by auto
  then have "Packet_PeekHeader (w_dims w) x (NocHeader_new (w_dims w)) = Some ?h"
    using n assms(12) by (intro headN_header [OF d(3)]) (simp_all add: coordinate_words_def)
  then show ?thesis using d(1) t by blast
qed

lemma sync_traffic_delivered_witness:
  "\<exists>d h st' ms h'. sync_target (\<lambda>_. 0) pair_app 0 = Some d \<and> Packet_PeekHeader 1 (pair_flit [1, 0]) (NocHeader_new 1) = Some h \<and>
    NocMeshND_Install four_way_factories [2] [0, 1] bare_nodes = Some st' \<and>
    travel (dor_header [0]) (mesh_distance [2] 0 (unat d)) h = Some (ms, h') \<and> leads (network st') 0 ms ([0, 1] ! unat d)"
proof -
  obtain app' w' where s: "NocSyncApplication_SendFlit (NocMeshND_GetDestinationRelativeDimensionalPosition (sa_size pair_app)) id 0 (\<lambda>_. 0)
      (pair_app, pair_nodes, 5) = Some (app', w', 6)" "sa_trace app' = [FlitInjected (pair_flit [1, 0])]"
    using pair_sends [of id "\<lambda>_. 0"] pair_app_ok(3) by auto
  have a: "sa_currentFlitIndex pair_app = 0" "sa_trace pair_app = []" "sa_node pair_app = 0" "n_id (w_nodes pair_nodes 0) = 0"
    "w_dims pair_nodes = 1"
    by (simp_all add: pair_app_def NocSyncApplication_new_def pair_nodes_simps) (simp add: blank_world_def)
  have t: "sa_trace app' = sa_trace pair_app @ FlitInjected (pair_flit [1, 0]) # []" using s(2) a(2) by simp
  have o: "order_ok [0]" by (auto simp: order_ok_def dor_order_def)
  show ?thesis
    using sync_traffic_delivered [OF s(1) a(1) t pair_app_ok(1,2), of 0 "[0, 1]", OF _ _ _ bare_nodes_empty four_way_factories_ok _ _ o]
    by (simp add: a pair_app_ok(3))
qed

end
