(* ===== verification/Double_Rounding.thy ===== *)
theory Double_Rounding
  imports Noc_Prelude
begin

text \<open>
  Facts on \<^verbatim>\<open>double\<close> arithmetic, as \<open>round64\<close> models it: rounding within a power of two, the numbers
  that are doubles, and a quotient that rounding keeps above a whole number.
\<close>

section \<open>Powers of two\<close>

lemma pow2_powi: "pow2 k = 2 powi k"
  by (simp add: pow2_def power_int_def divide_simps)

lemma pow2_pos: "0 < pow2 k" by (simp add: pow2_powi)

lemma pow2_add: "pow2 (a + b) = pow2 a * pow2 b"
  by (simp add: pow2_powi power_int_add)

lemma pow2_mono: "a \<le> b \<Longrightarrow> pow2 a \<le> pow2 b"
  by (simp add: pow2_powi power_int_increasing)

lemma pow2_of_nat: "pow2 (int n) = 2 ^ n" by (simp add: pow2_def)

lemma bitlen_pow2:
  assumes "0 < n"
  shows "pow2 (bitlen n - 1) \<le> rat_of_int n" "rat_of_int n < pow2 (bitlen n)"
proof -
  have b: "0 < bitlen n" using assms by (simp add: bitlen_alt_def)
  have "rat_of_int (2 ^ nat (bitlen n - 1)) \<le> rat_of_int n" "rat_of_int n < rat_of_int (2 ^ nat (bitlen n))"
    using bitlen_bounds [OF assms] by (simp_all only: of_int_le_iff of_int_less_iff)
  then show "pow2 (bitlen n - 1) \<le> rat_of_int n" "rat_of_int n < pow2 (bitlen n)"
    using b by (simp_all add: pow2_def)
qed

lemma binade_unique:
  assumes "pow2 a \<le> q" "q < pow2 (a + 1)" "pow2 b \<le> q" "q < pow2 (b + 1)"
  shows "a = b"
proof (rule ccontr)
  assume "a \<noteq> b"
  then consider "a + 1 \<le> b" | "b + 1 \<le> a" by linarith
  then show False using assms pow2_mono [of "a + 1" b] pow2_mono [of "b + 1" a] by cases auto
qed

section \<open>Rounding\<close>

lemma round64_binade:
  assumes "pow2 j \<le> q" "q < pow2 (j + 1)"
  shows "round64 q = rat_of_int (round_even (q / pow2 (j - 52))) * pow2 (j - 52)"
proof -
  have q: "0 < q" using assms(1) pow2_pos [of j] by linarith
  obtain n d where nd: "quotient_of q = (n, d)" by fastforce
  have d: "0 < d" using nd by (rule quotient_of_denom_pos)
  have qnd: "q = rat_of_int n / rat_of_int d" using nd by (rule quotient_of_div)
  have n: "0 < n" using q d unfolding qnd by (simp add: zero_less_divide_iff)
  define k where "k = bitlen n - bitlen d"
  note bn = bitlen_pow2 [OF n] and bd = bitlen_pow2 [OF d]
  have dp: "0 < rat_of_int d" using d by simp
  have "pow2 (k - 1) * rat_of_int d < pow2 (k - 1) * pow2 (bitlen d)"
    using bd(2) pow2_pos by (rule mult_strict_left_mono)
  also have "\<dots> = pow2 (bitlen n - 1)" by (simp add: k_def flip: pow2_add)
  finally have lo: "pow2 (k - 1) < q" using bn(1) dp by (simp add: qnd pos_less_divide_eq)
  have "rat_of_int n < pow2 (k + 1) * pow2 (bitlen d - 1)" using bn(2) by (simp add: k_def flip: pow2_add)
  also have "\<dots> \<le> pow2 (k + 1) * rat_of_int d" using bd(1) pow2_pos [of "k + 1"] by (intro mult_left_mono) simp_all
  finally have hi: "q < pow2 (k + 1)" using dp by (simp add: qnd pos_divide_less_eq)
  have e: "(if q \<ge> pow2 k then k else k - 1) = j"
  proof (cases "q \<ge> pow2 k")
    case True
    then show ?thesis using binade_unique [OF True hi assms] by simp
  next
    case False
    then show ?thesis using binade_unique [of "k - 1", OF _ _ assms] lo by simp
  qed
  have "\<bar>q\<bar> = q" "sgn q = 1" "q \<noteq> 0" using q by simp_all
  then show ?thesis by (simp only: round64_def Let_def nd prod.case if_False e mult_1_left flip: k_def)
qed

lemma round_even_bounds: "\<lfloor>x\<rfloor> \<le> round_even x" "round_even x \<le> \<lceil>x\<rceil>"
proof -
  have "\<lfloor>x\<rfloor> + 1 = \<lceil>x\<rceil> \<or> x = rat_of_int \<lfloor>x\<rfloor>" by (simp add: ceiling_altdef)
  then show "\<lfloor>x\<rfloor> \<le> round_even x" "round_even x \<le> \<lceil>x\<rceil>" by (auto simp: round_even_def Let_def)
qed

lemma round_even_int: "round_even (rat_of_int m) = m"
  by (simp add: round_even_def)

text \<open>A number of at most 53 bits is a double.\<close>

lemma round64_exact:
  assumes "0 < m" "m < 2 ^ 53"
  shows "round64 (rat_of_int m * pow2 c) = rat_of_int m * pow2 c"
proof -
  let ?j = "bitlen m - 1 + c"
  have b: "bitlen m \<le> 53" using bitlen_le_iff_power [of m 53] assms by simp
  have lo: "pow2 ?j \<le> rat_of_int m * pow2 c" and hi: "rat_of_int m * pow2 c < pow2 (?j + 1)"
    using bitlen_pow2 [OF assms(1)] pow2_pos [of c] by (simp_all add: pow2_add)
  have "rat_of_int m * pow2 c / pow2 (?j - 52) = rat_of_int m * pow2 (53 - bitlen m)"
  proof -
    have "pow2 c = pow2 (53 - bitlen m) * pow2 (?j - 52)" by (simp flip: pow2_add)
    then show ?thesis using pow2_pos [of "?j - 52"] by simp
  qed
  also have "\<dots> = rat_of_int (m * 2 ^ nat (53 - bitlen m))" using b by (simp add: pow2_def)
  finally have i: "rat_of_int m * pow2 c / pow2 (?j - 52) = rat_of_int (m * 2 ^ nat (53 - bitlen m))" .
  show ?thesis unfolding round64_binade [OF lo hi] i round_even_int
    unfolding i [symmetric] using pow2_pos [of "?j - 52"] by simp
qed

text \<open>A number that is a little above a whole one.\<close>

lemma nat_binade:
  assumes "1 \<le> n" "n < 2 ^ b"
  obtains j where "j < b" "pow2 (int j) \<le> rat_of_nat n" "rat_of_nat n + 1 \<le> pow2 (int j + 1)"
proof -
  define j where "j = floorlog 2 n - 1"
  have "2 ^ j \<le> n \<and> n < 2 ^ (j + 1)"
    using floorlog_bounds [of n 2] assms(1) by (auto simp: j_def floorlog_def)
  then have j: "2 ^ j \<le> n" "n + 1 \<le> 2 ^ (j + 1)" by simp_all
  then have "(2 :: nat) ^ j < 2 ^ b" using assms(2) by linarith
  then have "j < b" by (rule power_less_imp_less_exp [rotated]) simp
  moreover have "rat_of_nat (2 ^ j) \<le> rat_of_nat n" "rat_of_nat (n + 1) \<le> rat_of_nat (2 ^ (j + 1))"
    using j by (simp_all only: of_nat_le_iff)
  moreover have "int j + 1 = int (j + 1)" by simp
  ultimately show thesis by (intro that [of j]) (simp_all only: pow2_of_nat, simp_all)
qed

lemma round_up:
  assumes "1 \<le> n" "n < 2 ^ 17" "rat_of_nat n + pow2 (- 35) \<le> q" "q < rat_of_nat n + 1"
  shows "\<lceil>round64 q\<rceil> = int n + 1"
proof -
  obtain j where j17: "j < 17" and jr: "pow2 (int j) \<le> rat_of_nat n" "rat_of_nat n + 1 \<le> pow2 (int j + 1)"
    by (rule nat_binade [OF assms(1,2)])
  define u where "u = pow2 (int j - 52)"
  have u: "0 < u" by (simp add: u_def pow2_pos)
  have small: "u \<le> pow2 (- 35)" unfolding u_def using j17 by (intro pow2_mono) simp
  have b: "pow2 (int j) \<le> q" "q < pow2 (int j + 1)" using assms(3,4) jr pow2_pos [of "- 35"] by linarith+
  define m where "m = (2 :: int) ^ nat (52 - int j)"
  have m: "rat_of_int m * u = 1"
  proof -
    have "rat_of_int m = pow2 (52 - int j)" using j17 by (simp add: m_def pow2_def)
    then have "rat_of_int m * u = pow2 0" by (simp add: u_def flip: pow2_add)
    then show ?thesis by (simp add: pow2_def)
  qed
  have iu: "1 / u = rat_of_int m" using m u by (simp add: field_simps)
  have l: "rat_of_int (int n * m + 1) * u = rat_of_nat n + u" and h: "rat_of_int ((int n + 1) * m) * u = rat_of_nat n + 1"
    using m by (simp_all add: algebra_simps)
  have lo: "rat_of_int (int n * m + 1) \<le> q / u"
  proof -
    have "rat_of_int (int n * m + 1) * u \<le> q" unfolding l using small assms(3) by linarith
    then show ?thesis using u by (simp add: pos_le_divide_eq)
  qed
  have hi: "q / u \<le> rat_of_int ((int n + 1) * m)"
  proof -
    have "q \<le> rat_of_int ((int n + 1) * m) * u" unfolding h using assms(4) by linarith
    then show ?thesis using u by (simp add: pos_divide_le_eq)
  qed
  let ?r = "round_even (q / u)"
  have "int n * m + 1 \<le> ?r" "?r \<le> (int n + 1) * m"
    using order_trans [OF lo [folded le_floor_iff] round_even_bounds(1)]
      order_trans [OF round_even_bounds(2) hi [folded ceiling_le_iff]] by simp_all
  then have "rat_of_int (int n * m + 1) * u \<le> rat_of_int ?r * u" "rat_of_int ?r * u \<le> rat_of_int ((int n + 1) * m) * u"
    using u by (simp_all only: mult_le_cancel_right of_int_le_iff) simp_all
  then have "rat_of_nat n < rat_of_int ?r * u" "rat_of_int ?r * u \<le> rat_of_nat n + 1"
    unfolding l h using u by simp_all
  moreover have "round64 q = rat_of_int ?r * u" unfolding u_def by (rule round64_binade [OF b])
  ultimately show ?thesis by (simp add: ceiling_eq_iff)
qed

lemma round64_nonneg: "0 \<le> q \<Longrightarrow> 0 \<le> round64 q"
proof -
  assume q: "0 \<le> q"
  have "0 \<le> rat_of_int (round_even (\<bar>q\<bar> / pow2 e)) * pow2 e" for e
  proof -
    have "0 \<le> \<lfloor>\<bar>q\<bar> / pow2 e\<rfloor>" using pow2_pos [of e] by simp
    also have "\<dots> \<le> round_even (\<bar>q\<bar> / pow2 e)" by (rule round_even_bounds)
    finally show ?thesis using pow2_pos [of e] by simp
  qed
  then show ?thesis using q by (cases "q = 0") (simp_all add: round64_def Let_def split: prod.split)
qed

end
