(* ===== verification/Clock_Cycles.thy ===== *)
theory Clock_Cycles
  imports Noc_Applications Double_Rounding
begin

text \<open>
  The clock cycle at which an application or a device acts next. Both divide the seconds of the present time by those of
  the clock and round up. The lemmas compute the seconds, which are fixed-point
  numbers turned into doubles, for times below \<open>2 ^ 17\<close> steps, where they have at most 53 bits.
\<close>

section \<open>Steps and seconds\<close>

text \<open>A positive number of steps.\<close>

lemma TimeStep_steps:
  assumes "unat n < 2 ^ 63"
  shows "unat (TimeStep n) = unat n * 2 ^ 64" "sint (TimeStep n) = int (unat n * 2 ^ 64)"
proof -
  have s: "sint (TimeStep n) = int (unat n * 2 ^ 64)"
    using sint_small_u64 [OF assms] by (simp add: TimeStep_def HighPrecision_int_value)
  then have "\<not> sint (TimeStep n) < 0" by simp
  then have "uint (TimeStep n) = int (unat n * 2 ^ 64)" using hp_abs_value [of "TimeStep n"] s by (simp add: hp_abs_def)
  then show "unat (TimeStep n) = unat n * 2 ^ 64" by (simp only: unat_eq_nat_uint nat_int)
  show "sint (TimeStep n) = int (unat n * 2 ^ 64)" by (rule s)
qed

lemma TimeStep_of: "unat n < 2 ^ 63 \<Longrightarrow> unat t = unat n * 2 ^ 64 \<Longrightarrow> t = TimeStep n"
  using TimeStep_steps(1) [of n] by (metis unsigned_word_eqI)

text \<open>The seconds of a short time: the inverse of \<open>10 ^ 9\<close> has 128 bits, and a fraction of 53 bits is a double.\<close>

lemma seconds_inverse:
  obtains R where "HighPrecision_Invert 1000000000 = Some R" "unat R = 340282366920938463463374607432"
proof -
  obtain R where R: "HighPrecision_Invert 1000000000 = Some R" "is_inverse 1000000000 (unat R)"
    using Invert_value [of 1000000000] by auto
  then have "2 ^ 128 \<le> 1000000000 * unat R" "1000000000 * unat R < 2 ^ 128 + 1000000000" by (simp_all add: is_inverse_def)
  then have "unat R = 340282366920938463463374607432" by simp
  with R that show thesis by blast
qed

definition second_fraction :: "nat \<Rightarrow> nat" where
  "second_fraction n = n * 340282366920938463463374607432 div 2 ^ 64"

lemma second_fraction_split:
  "second_fraction n = n * 18446744073 + n * 13088917067439035464 div 2 ^ 64"
proof -
  have "n * 340282366920938463463374607432 = n * 13088917067439035464 + 2 ^ 64 * (n * 18446744073)" by simp
  then show ?thesis by (simp only: second_fraction_def div_mult_self2 [of "2 ^ 64"] power_not_zero zero_neq_numeral not_False_eq_True)
qed

lemma GetDouble_fraction:
  assumes "0 < unat v" "unat v < 2 ^ 53"
  shows "HighPrecision_GetDouble v = rat_of_nat (unat v) / 2 ^ 64"
proof -
  have u: "uint v = int (unat v)" by simp
  have "int (unat v) < int (2 ^ 53)" "int 0 < int (unat v)" using assms by (simp_all only: of_nat_less_iff)
  then have ui: "0 < uint v" "uint v < 2 ^ 53" by simp_all
  then have s: "\<not> sint v < 0" by (simp add: sint_u128)
  have "uint v div 2 ^ 64 = 0" "uint v mod 2 ^ 64 = uint v" using ui by simp_all
  moreover have "round64 (rat_of_int (uint v)) = rat_of_int (uint v)"
    using round64_exact [OF ui, of 0] by (simp add: pow2_def)
  moreover have "round64 (rat_of_int (uint v) / 2 ^ 64) = rat_of_int (uint v) / 2 ^ 64"
    using round64_exact [OF ui, of "- 64"] by (simp add: pow2_def)
  moreover have "round64 0 = 0" by (simp add: round64_def)
  ultimately show ?thesis using s by (simp add: HighPrecision_GetDouble_def hp_abs_def uint_high Let_def)
qed

lemma GetSeconds_short:
  assumes "0 < unat n" "unat n < 2 ^ 17"
  shows "Time_GetSeconds resolution (TimeStep n) = Some (rat_of_nat (second_fraction (unat n)) / 2 ^ 64)"
proof -
  obtain R where R: "HighPrecision_Invert 1000000000 = Some R" "unat R = 340282366920938463463374607432"
    by (rule seconds_inverse)
  have n: "unat n < 2 ^ 63" using assms(2) by simp
  let ?v = "HighPrecision_UmulByInvert (TimeStep n) R"
  have p: "hp_abs (TimeStep n) = TimeStep n" "\<not> sint (TimeStep n) < 0"
    using TimeStep_steps(2) [OF n] by (simp_all add: hp_abs_def)
  have "unat n * unat R \<le> 2 ^ 17 * 340282366920938463463374607432" unfolding R(2) using assms(2) by (intro mult_le_mono1) simp
  then have lt: "unat n * unat R < 2 ^ 117" by simp
  have v: "unat ?v = second_fraction (unat n)"
    using UmulByInvert_value [OF TimeStep_steps(1) [OF n], of R] n lt by (simp add: second_fraction_def R(2))
  have "second_fraction (unat n) < 2 ^ 53"
    unfolding second_fraction_def using lt R(2) by (simp add: less_mult_imp_div_less)
  moreover have "0 < second_fraction (unat n)" using assms(1) by (simp add: second_fraction_split)
  ultimately have "HighPrecision_GetDouble ?v = rat_of_nat (second_fraction (unat n)) / 2 ^ 64"
    using GetDouble_fraction [of ?v] v by simp
  then show ?thesis
    using R(1) p by (simp add: Time_GetSeconds_def Time_ToDouble_def Time_To_def Time_PeekInformation_def
      HighPrecision_MulByInvert_def hp_sign_def Let_def)
qed

text \<open>From the third clock cycle on, the quotient of the seconds is above the number of the cycle.\<close>

lemma second_quotient:
  assumes "2 \<le> n" "n < 2 ^ 17"
  shows "rat_of_nat n + pow2 (- 35) \<le> rat_of_nat (second_fraction n) / rat_of_nat (second_fraction 1)"
    "rat_of_nat (second_fraction n) / rat_of_nat (second_fraction 1) < rat_of_nat n + 1"
proof -
  let ?f = "n * 13088917067439035464 div 2 ^ 64"
  have one: "second_fraction 1 = 18446744073" by (simp add: second_fraction_split)
  have "2 * 13088917067439035464 \<le> n * 13088917067439035464" using assms(1) by simp
  then have "2 ^ 64 \<le> n * 13088917067439035464" by simp
  then have f: "1 \<le> ?f" by (simp add: div_greater_zero_iff Suc_le_eq)
  have "n * 13088917067439035464 < 2 ^ 17 * 2 ^ 64" using assms(2) by simp
  then have g: "?f < 18446744073" by (simp add: less_mult_imp_div_less)
  have q: "rat_of_nat (second_fraction n) / rat_of_nat (second_fraction 1) = rat_of_nat n + rat_of_nat ?f / 18446744073"
    unfolding one second_fraction_split by (simp add: add_divide_distrib)
  have "pow2 (- 35) \<le> 1 / 18446744073" by (simp add: pow2_def)
  also have "\<dots> \<le> rat_of_nat ?f / 18446744073" using f by (simp add: divide_right_mono)
  finally show "rat_of_nat n + pow2 (- 35) \<le> rat_of_nat (second_fraction n) / rat_of_nat (second_fraction 1)" unfolding q by simp
  have "rat_of_nat ?f < rat_of_nat 18446744073" using g by (simp only: of_nat_less_iff)
  then show "rat_of_nat (second_fraction n) / rat_of_nat (second_fraction 1) < rat_of_nat n + 1"
    unfolding q by simp
qed

lemma clock_multiplier_late:
  assumes "2 \<le> unat k" "unat k < 2 ^ 17"
  shows "clock_multiplier (TimeStep 1) (TimeStep k) = Some (k + 2)"
proof -
  let ?q = "rat_of_nat (second_fraction (unat k)) / rat_of_nat (second_fraction 1)"
  have "rat_of_nat (second_fraction 1) \<noteq> 0" by (simp add: second_fraction_split)
  moreover have "\<lceil>round64 ?q\<rceil> = int (unat k) + 1"
    using assms(1) by (intro round_up second_quotient assms) simp_all
  moreover have "Time_GetSeconds resolution (TimeStep 1) = Some (rat_of_nat (second_fraction 1) / 2 ^ 64)"
    using GetSeconds_short [of 1] by simp
  moreover have "Time_GetSeconds resolution (TimeStep k) = Some (rat_of_nat (second_fraction (unat k)) / 2 ^ 64)"
    using assms by (intro GetSeconds_short) simp_all
  ultimately show ?thesis by (simp add: clock_multiplier_def)
qed

lemma Scalar_int: "0 \<le> i \<Longrightarrow> Scalar (rat_of_int i) = push_bit 64 (word_of_int i)"
  by (simp add: Scalar_def HighPrecision_double_def hp_sign_def trunc_int_def round64_def Let_def)

lemma clock_time_step:
  assumes "0 < unat m" "unat m < 2 ^ 53"
  shows "clock_time (TimeStep 1) m = Some (TimeStep m)"
proof -
  have m63: "unat m < 2 ^ 63" using assms(2) by simp
  have "int (unat m) < int (2 ^ 53)" "int 0 < int (unat m)" using assms by (simp_all only: of_nat_less_iff)
  then have u: "0 < uint m" "uint m < 2 ^ 53" by simp_all
  have r: "round64 (rat_of_int (uint m)) = rat_of_int (uint m)" using round64_exact [OF u, of 0] by (simp add: pow2_def)
  have "push_bit 64 (word_of_int (uint m)) = TimeStep m"
    using TimeStep_steps(1) [OF m63] sint_small_u64 [OF m63]
    by (simp add: TimeStep_def HighPrecision_int_def scast_eq)
  then have S: "Scalar (rat_of_int (uint m)) = TimeStep m" using u(1) by (simp only: Scalar_int less_imp_le)
  have ab: "unat (hp_abs (TimeStep 1)) = 2 ^ 64" "unat (hp_abs (TimeStep m)) = unat m * 2 ^ 64"
    using TimeStep_steps [of 1] TimeStep_steps [OF m63] by (simp_all add: hp_abs_def)
  have lt: "unat (hp_abs (TimeStep 1)) * unat (hp_abs (TimeStep m)) < 2 ^ 192" using assms(2) by (simp add: ab)
  have "\<not> carry_lost (unat (hp_abs (TimeStep 1))) (unat (hp_abs (TimeStep m)))"
    by (rule carry_lost_int) (simp add: ab)
  then obtain r where r': "HighPrecision_Umul (hp_abs (TimeStep 1)) (hp_abs (TimeStep m)) = Some r" "unat r = unat m * 2 ^ 64"
    using Umul_value [OF lt] by (auto simp: ab)
  have "r = TimeStep m" by (rule TimeStep_of [OF m63 r'(2)])
  moreover have "\<not> sint (TimeStep 1) < 0" "\<not> sint (TimeStep m) < 0" 
    using TimeStep_steps [of 1] TimeStep_steps [OF m63] by simp_all
  ultimately show ?thesis using r'(1) unfolding clock_time_def r S time_mul_def by (simp add: HighPrecision_Mul_def hp_sign_def)
qed

lemma TimeStep_diff: 
  assumes "unat a \<le> unat b" "unat b < 2 ^ 63"
  shows "time_sub (TimeStep b) (TimeStep a) = TimeStep (b - a)" "time_add (TimeStep (b - a)) (TimeStep a) = TimeStep b"
proof -
  have d: "unat (b - a) = unat b - unat a" using assms(1) by (simp add: unat_sub word_le_nat_alt)
  have le: "TimeStep a \<le> TimeStep b"
    using assms TimeStep_steps(1) [of a] TimeStep_steps(1) [of b] by (simp add: word_le_nat_alt)
  have "unat (TimeStep b - TimeStep a) = unat (b - a) * 2 ^ 64"
    using assms TimeStep_steps(1) [of a] TimeStep_steps(1) [of b] by (simp add: unat_sub [OF le] d diff_mult_distrib)
  then have s: "TimeStep b - TimeStep a = TimeStep (b - a)" using assms d by (intro TimeStep_of) simp_all
  then show "time_sub (TimeStep b) (TimeStep a) = TimeStep (b - a)" by (simp add: time_sub_def HighPrecision_Sub_def)
  show "time_add (TimeStep (b - a)) (TimeStep a) = TimeStep b" by (simp add: time_add_def HighPrecision_Add_def flip: s)
qed

lemma GetInteger_steps: "HighPrecision_GetInteger (TimeStep n) = n"
  by (simp add: TimeStep_def GetInteger_int)

section \<open>The senders\<close>

text \<open>From the second cycle on, the next event of the clock is two cycles away.\<close>

lemma after_next:
  assumes "2 \<le> unat (w_now w)" "unat (w_now w) < 2 ^ 17"
  shows "clock_multiplier (TimeStep 1) (TimeStep (w_now w)) = Some (w_now w + 2)"
    "clock_time (TimeStep 1) (w_now w + 2) = Some (TimeStep (w_now w + 2))"
    "time_sub (TimeStep (w_now w + 2)) (TimeStep (w_now w)) = TimeStep 2"
    "due (TimeStep 2) w = Some (w_now w + 2)" "Time_IsPositive (TimeStep 2)"
proof -
  let ?k = "w_now w"
  have k: "unat (?k + 2) = unat ?k + 2" using assms(2) by (simp add: unat_word_ariths)
  have t: "unat ?k \<le> unat (?k + 2)" "unat (?k + 2) < 2 ^ 63" "0 < unat (?k + 2)" "unat (?k + 2) < 2 ^ 53"
    using assms(2) k by simp_all
  show "clock_multiplier (TimeStep 1) (TimeStep ?k) = Some (?k + 2)" by (rule clock_multiplier_late [OF assms])
  show "clock_time (TimeStep 1) (?k + 2) = Some (TimeStep (?k + 2))" by (rule clock_time_step [OF t(3,4)])
  have d: "time_sub (TimeStep (?k + 2)) (TimeStep ?k) = TimeStep 2" "time_add (TimeStep 2) (TimeStep ?k) = TimeStep (?k + 2)"
    using TimeStep_diff [OF t(1,2)] by simp_all
  then show "time_sub (TimeStep (?k + 2)) (TimeStep ?k) = TimeStep 2" by simp
  have p: "sint (TimeStep 2) = 2 * 2 ^ 64" "sint (TimeStep (?k + 2)) = int (unat (?k + 2)) * 2 ^ 64" "sint (TimeStep ?k) = int (unat ?k) * 2 ^ 64"
    using TimeStep_steps(2) [of 2] TimeStep_steps(2) [OF t(2)] TimeStep_steps(2) [of ?k] assms(2) by simp_all
  then show "Time_IsPositive (TimeStep 2)" by (simp add: Time_IsPositive_def HighPrecision_Compare_def)
  show "due (TimeStep 2) w = Some (?k + 2)"
    using p k by (simp add: due_def d Time_IsPositive_def time_less_eq_def HighPrecision_Compare_def Time_GetTimeStep_def
      GetInteger_steps not_less Let_def)
qed

lemma whole_period: "time_div (TimeStep 1) (Scalar 1) = Some (TimeStep 1)"
  by code_simp

lemma app_skips_cycle:
  assumes "reg_GlobalClock (w_registry w) = TimeStep 1" "2 \<le> unat (w_now w)" "unat (w_now w) < 2 ^ 17"
    and "sa_injectionProbability app \<noteq> 0" "sa_totBytes app \<noteq> 0"
    and "sa_maxBytes app = 0 \<or> sa_totBytes app < sa_maxBytes app" "sa_maxFlits app = 0 \<or> sa_totFlits app < sa_maxFlits app"
  shows "NocSyncApplication_ScheduleNextTx w app = Some (app\<lparr>sa_sendEvent := Some (w_now w + 2)\<rparr>)"
proof -
  note tick = after_next [OF assms(2,3)]
  have c: "TimeStep 1 \<noteq> 0" "sint (TimeStep 1) = 2 ^ 64" "sint (TimeStep 2) = 2 * 2 ^ 64"
    using TimeStep_steps(2) [of 1] TimeStep_steps(2) [of 2] by auto
  have "app_GetGlobalClock w = Some (TimeStep 1)"
    using c by (simp add: app_GetGlobalClock_def assms(1) Time_IsZero_def HighPrecision_Compare_def)
  then have "sync_send_time w app = Some (TimeStep 2)"
    using assms(5) by (simp add: sync_send_time_def tick Let_def)
  moreover have "Scalar 0 = 0" using Scalar_int [of 0] by simp
  ultimately show ?thesis
    using assms(4,6,7) tick c by (simp add: NocSyncApplication_ScheduleNextTx_def time_less_eq_def HighPrecision_Compare_def)
qed

lemma device_skips_cycle:
  assumes "reg_GlobalClock (w_registry w) = TimeStep 1" "2 \<le> unat (w_now w)" "unat (w_now w) < 2 ^ 17"
    and "peeked_tag (w_packets w p) = Some tag" "reg_DataPacketSpeedup (w_registry w) = 1"
    and "nd_lastScheduledEvent (w_devices w d) \<noteq> time_add (TimeStep (w_now w)) (TimeStep 1)"
  shows "\<exists>w'. schedule_clocked d h p w = Some w' \<and> w_events w' = w_events w @ [(w_now w + 2, ProcessBufferedPackets d h)]"
proof -
  note tick = after_next [OF assms(2,3)]
  have n: "2 \<le> unat (w_now (set_last_scheduled d t w))" "unat (w_now (set_last_scheduled d t w)) < 2 ^ 17" 
    "w_now (set_last_scheduled d t w) = w_now w" "w_events (set_last_scheduled d t w) = w_events w" for t
    using assms(2,3) by (simp_all add: set_last_scheduled_def)
  have "Simulator_Schedule (TimeStep 2) ev (set_last_scheduled d t w) =
      Some ((set_last_scheduled d t w)\<lparr>w_events := w_events w @ [(w_now w + 2, ev)]\<rparr>)" for t ev
    using after_next(4) [OF n(1,2)] by (simp add: Simulator_Schedule_def due_def n(3,4) Let_def split: if_splits)
  moreover from tick(1) obtain s c where "Time_GetSeconds resolution (TimeStep (w_now w)) = Some s"
    "Time_GetSeconds resolution (TimeStep 1) = Some c" "c \<noteq> 0" "1 + word_of_int \<lceil>round64 (s / c)\<rceil> = w_now w + 2"
    by (auto simp: clock_multiplier_def Option.bind_eq_Some_conv split: if_splits)
  ultimately show ?thesis
    using assms(4-6) tick tick(2,3) [unfolded add.commute [of "w_now w" 2]] by (simp add: schedule_clocked_def assms(1) whole_period clock_time_def Let_def)
qed

section \<open>The property\<close>

text \<open>C32: with a clock of one nanosecond, a sender that acts at a cycle
  from the second one on is next due two cycles later, not at the next one: the seconds of the time and of the clock are cut to 64 bits,
  so their quotient lies above the number of the cycle, and rounding it up counts one cycle more. It holds for the next
  flit of an application and for the next attempt of a device with a buffer.\<close>

theorem clocks_skip_cycles:
  assumes "reg_GlobalClock (w_registry w) = TimeStep 1" "2 \<le> unat (w_now w)" "unat (w_now w) < 2 ^ 17"
  shows "(sa_injectionProbability app \<noteq> 0 \<longrightarrow> sa_totBytes app \<noteq> 0 \<longrightarrow> 
      (sa_maxBytes app = 0 \<or> sa_totBytes app < sa_maxBytes app) \<longrightarrow> (sa_maxFlits app = 0 \<or> sa_totFlits app < sa_maxFlits app) \<longrightarrow>
      NocSyncApplication_ScheduleNextTx w app = Some (app\<lparr>sa_sendEvent := Some (w_now w + 2)\<rparr>)) \<and>
    (peeked_tag (w_packets w p) \<noteq> None \<longrightarrow> reg_DataPacketSpeedup (w_registry w) = 1 \<longrightarrow>
      nd_lastScheduledEvent (w_devices w d) \<noteq> time_add (TimeStep (w_now w)) (TimeStep 1) \<longrightarrow>
      (\<exists>w'. schedule_clocked d h p w = Some w' \<and> w_events w' = w_events w @ [(w_now w + 2, ProcessBufferedPackets d h)]))"
  using app_skips_cycle [OF assms] device_skips_cycle [OF assms] by blast

lemma clocks_skip_cycles_witness:
  "NocSyncApplication_ScheduleNextTx ((blank_world 2)\<lparr>w_now := 2\<rparr>) ((NocSyncApplication_new 0 64)\<lparr>sa_totBytes := 8\<rparr>) =
    Some ((NocSyncApplication_new 0 64)\<lparr>sa_totBytes := 8, sa_sendEvent := Some 4\<rparr>)"
  using clocks_skip_cycles [of "(blank_world 2)\<lparr>w_now := 2\<rparr>" "(NocSyncApplication_new 0 64)\<lparr>sa_totBytes := 8\<rparr>"]
  by (simp add: blank_world_def NocSyncApplication_new_def)

end
