(* ===== verification/Task_Graph_Application.thy ===== *)
theory Task_Graph_Application
  imports Noc_Applications Noc_Topology
begin

text \<open>
  The application of communication task graphs, \<^verbatim>\<open>noc/application/mapping/noc-ctg-application.cc\<close>. A
  node runs the tasks that were mapped to it: it waits for the data of the remote tasks, executes, and sends
  the data of its local tasks, once for every iteration of the graph. The events that an application has scheduled
  are a list of pending events under numbers, which are the \<^verbatim>\<open>EventId\<close>s; cancelling one takes
  it off the list. Doubles are the rational numbers they stand for.
\<close>

section \<open>The state\<close>

record task_data =
  td_id :: string
  td_execTime :: u128

record dependent_task_data =
  dt_senderTaskId :: string
  dt_senderNodeId :: u32
  dt_data :: rat
  dt_receivingTaskId :: string
  dt_receivingNodeId :: u32

datatype ctg_event = StartSending u64 | SendFlit u64 | ProcessFlit

text \<open>The vectors have an entry per iteration; \<open>ca_events\<close> and \<open>ca_nextEvent\<close> are the pending events and the number of the next one.\<close>

record ctg_application =
  ca_node :: node_ref
  ca_period :: u128
  ca_iterations :: u64
  ca_currentIteration :: u64
  ca_hSize :: u32
  ca_devices :: "device_ref list"
  ca_flitSize :: u32
  ca_numberOfFlits :: u64
  ca_currentFlitIndex :: "u64 list"
  ca_currentHeadFlit :: "packet_ref option list"
  ca_maxBytes :: u32
  ca_totBytes :: "u32 list"
  ca_maxFlits :: u32
  ca_totFlits :: "u32 list"
  ca_warmupCycles :: u32
  ca_startEvent :: "nat option list"
  ca_sendEvent :: "nat option list"
  ca_injectionStarted :: "bool list"
  ca_taskList :: "task_data list"
  ca_totalExecTime :: u128
  ca_executionAvailabilityTime :: u128
  ca_remoteTaskList :: "dependent_task_data list"
  ca_totalData :: rat
  ca_receivedData :: "rat list"
  ca_localTaskList :: "dependent_task_data list"
  ca_currentDestinationIndex :: "u32 list"
  ca_totalTaskBytes :: "u32 list"
  ca_trace :: "app_trace list"
  ca_events :: "(nat \<times> u64 \<times> ctg_event) list"
  ca_nextEvent :: nat

definition NocCtgApplication_new :: "node_ref \<Rightarrow> int \<Rightarrow> ctg_application" where
  "NocCtgApplication_new n flitSize = \<lparr>ca_node = n, ca_period = 0, ca_iterations = 1, ca_currentIteration = 0, ca_hSize = 4,
     ca_devices = [], ca_flitSize = word_of_int (trunc_div flitSize 8), ca_numberOfFlits = 3, ca_currentFlitIndex = [],
     ca_currentHeadFlit = [], ca_maxBytes = 0, ca_totBytes = [], ca_maxFlits = 0, ca_totFlits = [], ca_warmupCycles = 0,
     ca_startEvent = [], ca_sendEvent = [], ca_injectionStarted = [], ca_taskList = [], ca_totalExecTime = 0,
     ca_executionAvailabilityTime = 0, ca_remoteTaskList = [], ca_totalData = 0, ca_receivedData = [], ca_localTaskList = [],
     ca_currentDestinationIndex = [], ca_totalTaskBytes = [], ca_trace = [], ca_events = [], ca_nextEvent = 0\<rparr>"

definition vec_update :: "'a list \<Rightarrow> nat \<Rightarrow> ('a \<Rightarrow> 'a) \<Rightarrow> 'a list option" where
  "vec_update xs i f = do { x \<leftarrow> vec_at xs i; vec_set xs i (f x) }"

definition time_less :: "u128 \<Rightarrow> u128 \<Rightarrow> bool" where
  "time_less lhs rhs = (HighPrecision_Compare lhs rhs < 0)"

definition ctg_trace :: "bool \<Rightarrow> app_trace \<Rightarrow> ctg_application \<Rightarrow> ctg_application" where
  "ctg_trace warm e app = (if warm then app\<lparr>ca_trace := ca_trace app @ [e]\<rparr> else app)"

text \<open>\<^verbatim>\<open>Simulator::Schedule\<close> and \<^verbatim>\<open>Simulator::Cancel\<close>.\<close>

definition ctg_schedule :: "u128 \<Rightarrow> ctg_event \<Rightarrow> world \<Rightarrow> ctg_application \<Rightarrow> (nat \<times> ctg_application) option" where
  "ctg_schedule time ev w app = do {
     ts \<leftarrow> due time w;
     Some (ca_nextEvent app, app\<lparr>ca_events := ca_events app @ [(ca_nextEvent app, ts, ev)], ca_nextEvent := ca_nextEvent app + 1\<rparr>)
   }"

definition ctg_cancel :: "nat option \<Rightarrow> ctg_application \<Rightarrow> ctg_application" where
  "ctg_cancel event app = app\<lparr>ca_events := filter (\<lambda>(i, _). event \<noteq> Some i) (ca_events app)\<rparr>"

section \<open>Tasks\<close>

definition NocCtgApplication_SetMaxBytes :: "u32 \<Rightarrow> ctg_application \<Rightarrow> ctg_application" where
  "NocCtgApplication_SetMaxBytes maxBytes app = app\<lparr>ca_maxBytes := maxBytes\<rparr>"

definition NocCtgApplication_SetNetDeviceContainer :: "device_ref list \<Rightarrow> ctg_application \<Rightarrow> ctg_application" where
  "NocCtgApplication_SetNetDeviceContainer devices app = app\<lparr>ca_devices := devices\<rparr>"

definition NocCtgApplication_SetTaskList :: "task_data list \<Rightarrow> ctg_application \<Rightarrow> ctg_application" where
  "NocCtgApplication_SetTaskList taskList app =
     app\<lparr>ca_taskList := taskList, ca_totalExecTime := foldl (\<lambda>t task. time_add t (td_execTime task)) 0 taskList\<rparr>"

definition NocCtgApplication_TaskListContainsTask :: "string \<Rightarrow> ctg_application \<Rightarrow> bool" where
  "NocCtgApplication_TaskListContainsTask taskId app = list_ex (\<lambda>task. taskId = td_id task) (ca_taskList app)"

definition NocCtgApplication_GetLocalDependentTaskData :: "u32 \<Rightarrow> ctg_application \<Rightarrow> dependent_task_data option" where
  "NocCtgApplication_GetLocalDependentTaskData index app = vec_at (ca_localTaskList app) (unat index)"

definition NocCtgApplication_ContainsNotDependentTask :: "ctg_application \<Rightarrow> bool" where
  "NocCtgApplication_ContainsNotDependentTask app =
     list_ex (\<lambda>l. \<not> list_ex (\<lambda>r. dt_senderTaskId l = dt_receivingTaskId r) (ca_remoteTaskList app)) (ca_localTaskList app)"

definition NocCtgApplication_SetRemoteTaskList :: "dependent_task_data list \<Rightarrow> ctg_application \<Rightarrow> ctg_application" where
  "NocCtgApplication_SetRemoteTaskList remoteTaskList app = (let app = app\<lparr>ca_remoteTaskList := remoteTaskList\<rparr> in
     app\<lparr>ca_totalData := foldl (\<lambda>total d. if \<not> NocCtgApplication_TaskListContainsTask (dt_receivingTaskId d) app then total
        else round64 (total + dt_data d)) (ca_totalData app) remoteTaskList\<rparr>)"

text \<open>The tests of the local tasks only log errors.\<close>

definition NocCtgApplication_SetLocalTaskList :: "dependent_task_data list \<Rightarrow> ctg_application \<Rightarrow> ctg_application" where
  "NocCtgApplication_SetLocalTaskList localTaskList app = app\<lparr>ca_localTaskList := localTaskList\<rparr>"

section \<open>Starting\<close>

definition NocCtgApplication_CancelEvents :: "u64 \<Rightarrow> ctg_application \<Rightarrow> ctg_application option" where
  "NocCtgApplication_CancelEvents iteration app = do {
     send \<leftarrow> vec_at (ca_sendEvent app) (unat iteration);
     start \<leftarrow> vec_at (ca_startEvent app) (unat iteration);
     Some (ctg_cancel start (ctg_cancel send app))
   }"

definition NocCtgApplication_StopApplication :: "ctg_application \<Rightarrow> ctg_application option" where
  "NocCtgApplication_StopApplication app =
     for_each (\<lambda>i. NocCtgApplication_CancelEvents (of_nat i)) [0 ..< unat (ca_iterations app)] app"

definition NocCtgApplication_StopSending :: "u64 \<Rightarrow> ctg_application \<Rightarrow> ctg_application option" where
  "NocCtgApplication_StopSending = NocCtgApplication_CancelEvents"

text \<open>When the core can execute next.\<close>

definition ctg_start_time :: "world \<Rightarrow> ctg_application \<Rightarrow> u128" where
  "ctg_start_time w app =
     (if time_less (TimeStep (w_now w)) (ca_executionAvailabilityTime app) then ca_executionAvailabilityTime app else TimeStep (w_now w))"

text \<open>The delay before the injections of an iteration.\<close>

definition ctg_delay :: "u64 \<Rightarrow> ctg_application \<Rightarrow> u128 option" where
  "ctg_delay iteration app = do {
     started \<leftarrow> vec_at (ca_injectionStarted app) (unat iteration);
     if started then Some 0
     else if NocCtgApplication_ContainsNotDependentTask app then do {
       t \<leftarrow> time_mul (ca_period app) (Scalar (round64 (rat_of_int (uint iteration))));
       Some (time_add (time_add 0 (ca_totalExecTime app)) t)
     }
     else Some (time_add 0 (ca_totalExecTime app))
   }"

definition ctg_start :: "u64 \<Rightarrow> world \<Rightarrow> ctg_application \<Rightarrow> ctg_application option" where
  "ctg_start iteration w app = do {
     delay \<leftarrow> ctg_delay iteration app;
     globalClock \<leftarrow> app_GetGlobalClock w;
     clockMultiplier \<leftarrow> clock_multiplier globalClock (time_add (ctg_start_time w app) delay);
     t \<leftarrow> clock_time globalClock clockMultiplier;
     let nextClock = time_sub t (TimeStep (w_now w));
     _ \<leftarrow> ns_assert (Time_IsPositive nextClock);
     started \<leftarrow> vec_set (ca_injectionStarted app) (unat iteration) True;
     (event, app) \<leftarrow> ctg_schedule nextClock (StartSending iteration) w (app\<lparr>ca_injectionStarted := started\<rparr>);
     events \<leftarrow> vec_set (ca_startEvent app) (unat iteration) (Some event);
     Some (app\<lparr>ca_startEvent := events, ca_executionAvailabilityTime := time_add (TimeStep (w_now w)) nextClock\<rparr>)
   }"

definition NocCtgApplication_ScheduleStartEvent :: "u64 \<Rightarrow> world \<Rightarrow> ctg_application \<Rightarrow> ctg_application option" where
  "NocCtgApplication_ScheduleStartEvent iteration w app = do {
     received \<leftarrow> vec_at (ca_receivedData app) (unat iteration);
     if (NocCtgApplication_ContainsNotDependentTask app \<or> received = ca_totalData app) \<and> length (ca_localTaskList app) > 0
     then ctg_start iteration w app else Some app
   }"

text \<open>The body of the loop of \<^verbatim>\<open>StartApplication\<close>: a new entry in each vector, and the start of the iteration.\<close>

definition ctg_new_iteration :: "ctg_application \<Rightarrow> ctg_application" where
  "ctg_new_iteration app = app\<lparr>
     ca_injectionStarted := ca_injectionStarted app @ [False], ca_totBytes := ca_totBytes app @ [0],
     ca_totFlits := ca_totFlits app @ [0], ca_currentFlitIndex := ca_currentFlitIndex app @ [0],
     ca_currentHeadFlit := ca_currentHeadFlit app @ [None], ca_receivedData := ca_receivedData app @ [0],
     ca_currentDestinationIndex := ca_currentDestinationIndex app @ [0], ca_totalTaskBytes := ca_totalTaskBytes app @ [0],
     ca_startEvent := ca_startEvent app @ [None], ca_sendEvent := ca_sendEvent app @ [None]\<rparr>"

definition NocCtgApplication_StartApplication :: "world \<Rightarrow> ctg_application \<Rightarrow> ctg_application option" where
  "NocCtgApplication_StartApplication w app = for_each (\<lambda>i app. do {
     app \<leftarrow> NocCtgApplication_CancelEvents (of_nat i) (ctg_new_iteration app);
     NocCtgApplication_ScheduleStartEvent (of_nat i) w app
   }) [0 ..< unat (ca_iterations app)] app"

section \<open>Receiving\<close>

text \<open>The iteration that a flit belongs to and the number of bits of data in it.\<close>

definition ctg_flit_data :: "u32 \<Rightarrow> packet \<Rightarrow> (u64 \<times> u32) option" where
  "ctg_flit_data dims packet = do {
     tag \<leftarrow> peeked_tag packet;
     dataSize \<leftarrow>
       (if HEAD = tag_type tag then do {
          header \<leftarrow> Packet_PeekHeader dims packet (NocHeader_new dims);
          Some (Packet_GetSize packet - NocHeader_GetSerializedSize dims)
        }
        else Some (Packet_GetSize packet));
     Some (tag_ctgIteration tag, dataSize * 8)
   }"

text \<open>A node without local tasks only executes.\<close>

definition ctg_process :: "world \<Rightarrow> ctg_application \<Rightarrow> ctg_application option" where
  "ctg_process w app = do {
     let finish = time_add (ca_totalExecTime app) (ctg_start_time w app);
     (_, app) \<leftarrow> ctg_schedule (time_sub finish (TimeStep (w_now w))) ProcessFlit w app;
     Some (app\<lparr>ca_executionAvailabilityTime := finish\<rparr>)
   }"

text \<open>The data of the current iteration are there.\<close>

definition ctg_complete :: "world \<Rightarrow> ctg_application \<Rightarrow> ctg_application option" where
  "ctg_complete w app = do {
     let iteration = ca_currentIteration app;
     received \<leftarrow> vec_set (ca_receivedData app) (unat iteration) (ca_totalData app);
     let app = app\<lparr>ca_receivedData := received\<rparr>;
     app \<leftarrow>
       (if length (ca_localTaskList app) = 0 then ctg_process w app
        else do {
          d \<leftarrow> vec_at (ca_currentDestinationIndex app) (unat iteration);
          if \<not> NocCtgApplication_ContainsNotDependentTask app \<and> unat d < length (ca_localTaskList app)
          then NocCtgApplication_ScheduleStartEvent iteration w app else Some app
        });
     Some (app\<lparr>ca_currentIteration := iteration + 1\<rparr>)
   }"

definition ctg_count :: "u64 \<Rightarrow> u32 \<Rightarrow> world \<Rightarrow> ctg_application \<Rightarrow> ctg_application option" where
  "ctg_count packetIteration bits w app = do {
     _ \<leftarrow> ns_assert (packetIteration < ca_iterations app);
     received \<leftarrow> vec_update (ca_receivedData app) (unat packetIteration) (\<lambda>r. round64 (r + rat_of_int (uint bits)));
     let app = app\<lparr>ca_receivedData := received\<rparr>;
     if ca_currentIteration app < ca_iterations app then do {
       current \<leftarrow> vec_at received (unat (ca_currentIteration app));
       if current \<ge> ca_totalData app then ctg_complete w app else Some app
     }
     else Some app
   }"

definition NocCtgApplication_FlitReceivedCallback :: "packet \<Rightarrow> world \<Rightarrow> ctg_application \<Rightarrow> ctg_application option" where
  "NocCtgApplication_FlitReceivedCallback packet w app = do {
     warm \<leftarrow> warmed_up (ca_warmupCycles app) w;
     (packetIteration, bits) \<leftarrow> ctg_flit_data (w_dims w) packet;
     ctg_count packetIteration bits w (ctg_trace warm (FlitReceived packet) app)
   }"

section \<open>Sending\<close>

definition ctg_send_time :: "u64 \<Rightarrow> world \<Rightarrow> ctg_application \<Rightarrow> u128 option" where
  "ctg_send_time iteration w app = do {
     globalClock \<leftarrow> app_GetGlobalClock w;
     totBytes \<leftarrow> vec_at (ca_totBytes app) (unat iteration);
     if totBytes = 0 then PicoSeconds resolution 0
     else do {
       clockMultiplier \<leftarrow> clock_multiplier globalClock (TimeStep (w_now w));
       t \<leftarrow> clock_time globalClock clockMultiplier;
       let sendAtTime = time_sub t (TimeStep (w_now w));
       _ \<leftarrow> ns_assert (Time_IsPositive sendAtTime);
       Some sendAtTime
     }
   }"

definition NocCtgApplication_ScheduleNextTx :: "u64 \<Rightarrow> world \<Rightarrow> ctg_application \<Rightarrow> ctg_application option" where
  "NocCtgApplication_ScheduleNextTx iteration w app = do {
     totBytes \<leftarrow> vec_at (ca_totBytes app) (unat iteration);
     totFlits \<leftarrow> vec_at (ca_totFlits app) (unat iteration);
     if (ca_maxBytes app = 0 \<or> totBytes < ca_maxBytes app) \<and> (ca_maxFlits app = 0 \<or> totFlits < ca_maxFlits app) then do {
       sendAtTime \<leftarrow> ctg_send_time iteration w app;
       _ \<leftarrow> ns_assert (time_less_eq (Scalar 0) sendAtTime);
       (event, app) \<leftarrow> ctg_schedule sendAtTime (SendFlit iteration) w app;
       events \<leftarrow> vec_set (ca_sendEvent app) (unat iteration) (Some event);
       Some (app\<lparr>ca_sendEvent := events\<rparr>)
     }
     else NocCtgApplication_StopApplication app
   }"

definition NocCtgApplication_StartSending :: "u64 \<Rightarrow> world \<Rightarrow> ctg_application \<Rightarrow> ctg_application option" where
  "NocCtgApplication_StartSending = NocCtgApplication_ScheduleNextTx"

text \<open>The number of flits that the data need: a product of unsigned integers, compared with a double.\<close>

definition ctg_flits_needed :: "u32 \<Rightarrow> u32 \<Rightarrow> rat \<Rightarrow> u64 option" where
  "ctg_flits_needed dims flitSize data = do {
     _ \<leftarrow> ns_assert (flitSize \<noteq> 0);
     let upperValue = word_of_int \<lceil>round64 (data / 8 / rat_of_int (uint flitSize))\<rceil>;
     let payload = ((upperValue - 1) * ucast flitSize + ucast flitSize - ucast (NocHeader_GetHeaderSize dims) :: u64);
     Some (if round64 (rat_of_int (uint payload)) < data / 8 then upperValue + 1 else upperValue)
   }"

definition mark_iteration :: "u64 \<Rightarrow> packet \<Rightarrow> packet option" where
  "mark_iteration iteration x = do {
     (_, tag, x) \<leftarrow> Packet_RemovePacketTag x NocPacketTag_new;
     Packet_AddPacketTag x (tag\<lparr>tag_ctgIteration := iteration\<rparr>)
   }"

definition ctg_inject ::
    "(nat \<Rightarrow> nat) \<Rightarrow> u64 \<Rightarrow> packet \<Rightarrow> node_ref option \<Rightarrow> ctg_application \<Rightarrow> world \<Rightarrow>
       (packet_ref \<times> ctg_application \<times> world) option" where
  "ctg_inject pick iteration x destinationNode app w = do {
     x \<leftarrow> mark_iteration iteration x;
     let (p, w) = store_packet x w;
     warm \<leftarrow> warmed_up (ca_warmupCycles app) w;
     destination \<leftarrow> destinationNode;
     w \<leftarrow> NocNode_InjectPacket pick (ca_node app) p destination w;
     Some (p, ctg_trace warm (FlitInjected x) app, w)
   }"

text \<open>A flit with so many bytes of data was injected.\<close>

definition ctg_sent :: "u64 \<Rightarrow> u32 \<Rightarrow> ctg_application \<Rightarrow> ctg_application option" where
  "ctg_sent iteration bytes app = do {
     index \<leftarrow> vec_update (ca_currentFlitIndex app) (unat iteration) (\<lambda>i. i + 1);
     totBytes \<leftarrow> vec_update (ca_totBytes app) (unat iteration) (\<lambda>b. b + bytes);
     totalTaskBytes \<leftarrow> vec_update (ca_totalTaskBytes app) (unat iteration) (\<lambda>b. b + bytes);
     Some (app\<lparr>ca_currentFlitIndex := index, ca_totBytes := totBytes, ca_totalTaskBytes := totalTaskBytes\<rparr>)
   }"

definition ctg_send_head ::
    "(nat \<Rightarrow> nat) \<Rightarrow> u64 \<Rightarrow> u8 list \<Rightarrow> u8 \<Rightarrow> u8 \<Rightarrow> node_ref option \<Rightarrow>
       ctg_application \<times> world \<times> u32 \<Rightarrow> (ctg_application \<times> world \<times> u32) option" where
  "ctg_send_head pick iteration relative sourceX sourceY destinationNode = (\<lambda>(app, w, globalUid). do {
     relativeX \<leftarrow> vec_at relative 0;
     relativeY \<leftarrow> vec_at relative 1;
     let headerSize = NocHeader_GetHeaderSize (w_dims w);
     _ \<leftarrow> ns_assert (ca_flitSize app \<ge> headerSize);
     (x, globalUid) \<leftarrow> NocPacket_head2 (w_dims w) globalUid relativeX relativeY sourceX sourceY (ca_flitSize app - headerSize);
     (p, app, w) \<leftarrow> ctg_inject pick iteration x destinationNode app w;
     heads \<leftarrow> vec_set (ca_currentHeadFlit app) (unat iteration) (Some p);
     app \<leftarrow> ctg_sent iteration (ca_flitSize app - headerSize) (app\<lparr>ca_currentHeadFlit := heads\<rparr>);
     Some (app, w, globalUid)
   })"

definition ctg_send_data ::
    "(nat \<Rightarrow> nat) \<Rightarrow> u64 \<Rightarrow> rat \<Rightarrow> node_ref option \<Rightarrow>
       ctg_application \<times> world \<times> u32 \<Rightarrow> (ctg_application \<times> world \<times> u32) option" where
  "ctg_send_data pick iteration data destinationNode = (\<lambda>(app, w, globalUid). do {
     index \<leftarrow> vec_at (ca_currentFlitIndex app) (unat iteration);
     bytes \<leftarrow> vec_at (ca_totalTaskBytes app) (unat iteration);
     let isTail = (index + 1 = ca_numberOfFlits app \<or> rat_of_int (uint ((bytes + ca_flitSize app) * 8)) \<ge> data);
     head \<leftarrow> vec_at (ca_currentHeadFlit app) (unat iteration);
     head \<leftarrow> head;
     (x, globalUid) \<leftarrow> NocPacket_data globalUid (pk_uid (w_packets w head)) (ca_flitSize app) isTail;
     (p, app, w) \<leftarrow> ctg_inject pick iteration x destinationNode app w;
     app \<leftarrow> ctg_sent iteration (ca_flitSize app) app;
     Some (app, w, globalUid)
   })"

text \<open>After the last flit of a packet, and after the last one of a task.\<close>

definition ctg_trace_packet :: "u64 \<Rightarrow> world \<Rightarrow> ctg_application \<Rightarrow> ctg_application option" where
  "ctg_trace_packet iteration w app = do {
     warm \<leftarrow> warmed_up (ca_warmupCycles app) w;
     if warm then do { head \<leftarrow> vec_at (ca_currentHeadFlit app) (unat iteration); head \<leftarrow> head; Some (ctg_trace True (PacketInjected (w_packets w head)) app) } else Some app
   }"

definition ctg_end_packet :: "u64 \<Rightarrow> world \<Rightarrow> ctg_application \<Rightarrow> ctg_application option" where
  "ctg_end_packet iteration w app = do {
     index \<leftarrow> vec_at (ca_currentFlitIndex app) (unat iteration);
     if index = ca_numberOfFlits app then do {
       app \<leftarrow> ctg_trace_packet iteration w app;
       indices \<leftarrow> vec_set (ca_currentFlitIndex app) (unat iteration) 0;
       Some (app\<lparr>ca_currentFlitIndex := indices\<rparr>)
     }
     else Some app
   }"

definition ctg_end_task :: "u64 \<Rightarrow> rat \<Rightarrow> world \<Rightarrow> ctg_application \<Rightarrow> ctg_application option" where
  "ctg_end_task iteration data w app = do {
     bytes \<leftarrow> vec_at (ca_totalTaskBytes app) (unat iteration);
     if rat_of_int (uint (bytes * 8)) \<ge> data then do {
       index \<leftarrow> vec_at (ca_currentFlitIndex app) (unat iteration);
       app \<leftarrow> (if 0 < index \<and> index < ca_numberOfFlits app then ctg_trace_packet iteration w app else Some app);
       indices \<leftarrow> vec_set (ca_currentFlitIndex app) (unat iteration) 0;
       destinations \<leftarrow> vec_update (ca_currentDestinationIndex app) (unat iteration) (\<lambda>d. d + 1);
       totals \<leftarrow> vec_set (ca_totalTaskBytes app) (unat iteration) 0;
       Some (app\<lparr>ca_currentFlitIndex := indices, ca_currentDestinationIndex := destinations, ca_totalTaskBytes := totals\<rparr>)
     }
     else Some app
   }"

definition ctg_send_flit ::
    "(u32 \<Rightarrow> u32 \<Rightarrow> u8 list option) \<Rightarrow> (nat \<Rightarrow> nat) \<Rightarrow> u64 \<Rightarrow> rat \<Rightarrow> u32 \<Rightarrow> u32 \<Rightarrow> node_ref option \<Rightarrow>
       ctg_application \<times> world \<times> u32 \<Rightarrow> (ctg_application \<times> world \<times> u32) option" where
  "ctg_send_flit positions pick iteration data sourceNodeId destinationNodeId destinationNode = (\<lambda>(app, w, globalUid). do {
     relative \<leftarrow> positions sourceNodeId destinationNodeId;
     index \<leftarrow> vec_at (ca_currentFlitIndex app) (unat iteration);
     (app, w, globalUid) \<leftarrow>
       (if index = 0
        then ctg_send_head pick iteration relative (ucast (sourceNodeId mod ca_hSize app)) (ucast (sourceNodeId div ca_hSize app))
               destinationNode (app, w, globalUid)
        else ctg_send_data pick iteration data destinationNode (app, w, globalUid));
     app \<leftarrow> ctg_end_packet iteration w app;
     totFlits \<leftarrow> vec_update (ca_totFlits app) (unat iteration) (\<lambda>n. n + 1);
     app \<leftarrow> ctg_end_task iteration data w (app\<lparr>ca_totFlits := totFlits\<rparr>);
     d \<leftarrow> vec_at (ca_currentDestinationIndex app) (unat iteration);
     app \<leftarrow> (if unat d < length (ca_localTaskList app) then NocCtgApplication_ScheduleNextTx iteration w app else Some app);
     Some (app, w, globalUid)
   })"

text \<open>A task whose receiver is on the same node is passed over, unless it is the last one.\<close>

definition ctg_skip_task :: "u64 \<Rightarrow> world \<Rightarrow> ctg_application \<Rightarrow> ctg_application option" where
  "ctg_skip_task iteration w app = do {
     d \<leftarrow> vec_at (ca_currentDestinationIndex app) (unat iteration);
     if unat d < length (ca_localTaskList app) - 1 then do {
       destinations \<leftarrow> vec_set (ca_currentDestinationIndex app) (unat iteration) (d + 1);
       NocCtgApplication_ScheduleNextTx iteration w (app\<lparr>ca_currentDestinationIndex := destinations\<rparr>)
     }
     else Some app
   }"

definition NocCtgApplication_SendFlit ::
    "(u32 \<Rightarrow> u32 \<Rightarrow> u8 list option) \<Rightarrow> (nat \<Rightarrow> nat) \<Rightarrow> u64 \<Rightarrow>
       ctg_application \<times> world \<times> u32 \<Rightarrow> (ctg_application \<times> world \<times> u32) option" where
  "NocCtgApplication_SendFlit positions pick iteration = (\<lambda>(app, w, globalUid). do {
     let sourceNodeId = n_id (w_nodes w (ca_node app));
     _ \<leftarrow> ns_assert (ca_hSize app \<noteq> 0);
     d \<leftarrow> vec_at (ca_currentDestinationIndex app) (unat iteration);
     dtd \<leftarrow> NocCtgApplication_GetLocalDependentTaskData d app;
     let destinationNodeId = dt_receivingNodeId dtd;
     upperValue \<leftarrow> ctg_flits_needed (w_dims w) (ca_flitSize app) (dt_data dtd);
     let app = (if ca_numberOfFlits app > upperValue then app\<lparr>ca_numberOfFlits := upperValue\<rparr> else app);
     _ \<leftarrow> ns_assert (ca_numberOfFlits app \<ge> 1);
     destinationNode \<leftarrow> find_node w destinationNodeId (ca_devices app);
     if sourceNodeId = destinationNodeId then do {
       app \<leftarrow> ctg_skip_task iteration w app;
       Some (app, w, globalUid)
     }
     else ctg_send_flit positions pick iteration (dt_data dtd) sourceNodeId destinationNodeId destinationNode (app, w, globalUid)
   })"

end
