(* ===== verification/Task_Graph_Runs.thy ===== *)
theory Task_Graph_Runs
  imports Task_Graph_Application Clock_Cycles
begin

text \<open>
  The runs of a task graph application: it starts, receives flits, and executes its pending events in any order. What
  it has received and started is an invariant of the runs, from which follows that it
  waits for its data, and what becomes of flits that overtake those of an earlier iteration.
\<close>

section \<open>Runs of an application\<close>

text \<open>The flits received so far, the latest first: their iterations and numbers of bits.\<close>

type_synonym history = "(u64 \<times> u32) list"

definition bits_of :: "history \<Rightarrow> nat \<Rightarrow> nat" where
  "bits_of h i = sum_list (map (\<lambda>(k, b). if unat k = i then unat b else 0) h)"

text \<open>An event that is executed leaves the list of the pending ones.\<close>

definition ctg_fired :: "nat \<Rightarrow> ctg_application \<Rightarrow> ctg_application" where
  "ctg_fired n app = app\<lparr>ca_events := filter (\<lambda>(i, _). i \<noteq> n) (ca_events app)\<rparr>"

inductive ctg_run ::
    "(u32 \<Rightarrow> u32 \<Rightarrow> u8 list option) \<Rightarrow> (nat \<Rightarrow> nat) \<Rightarrow> ctg_application \<Rightarrow> history \<Rightarrow> ctg_application \<Rightarrow> bool"
  for positions pick app0 where
  run_start: "NocCtgApplication_StartApplication w app0 = Some app \<Longrightarrow> ctg_run positions pick app0 [] app"
| run_receive: "ctg_run positions pick app0 h app \<Longrightarrow> ctg_flit_data (w_dims w) x = Some (k, b) \<Longrightarrow>
    NocCtgApplication_FlitReceivedCallback x w app = Some app' \<Longrightarrow> ctg_run positions pick app0 ((k, b) # h) app'"
| run_sending: "ctg_run positions pick app0 h app \<Longrightarrow> (n, ts, StartSending i) \<in> set (ca_events app) \<Longrightarrow>
    NocCtgApplication_StartSending i w (ctg_fired n app) = Some app' \<Longrightarrow> ctg_run positions pick app0 h app'"
| run_send: "ctg_run positions pick app0 h app \<Longrightarrow> (n, ts, SendFlit i) \<in> set (ca_events app) \<Longrightarrow>
    NocCtgApplication_SendFlit positions pick i (ctg_fired n app, w, globalUid) = Some (app', w', globalUid') \<Longrightarrow>
    ctg_run positions pick app0 h app'"
| run_process: "ctg_run positions pick app0 h app \<Longrightarrow> (n, ts, ProcessFlit) \<in> set (ca_events app) \<Longrightarrow>
    ctg_run positions pick app0 h (ctg_fired n app)"
| run_stop: "ctg_run positions pick app0 h app \<Longrightarrow> NocCtgApplication_StopApplication app = Some app' \<Longrightarrow>
    ctg_run positions pick app0 h app'"

section \<open>What an operation may change\<close>

definition iteration_of :: "ctg_event \<Rightarrow> u64 option" where
  "iteration_of ev = (case ev of StartSending i \<Rightarrow> Some i | SendFlit i \<Rightarrow> Some i | ProcessFlit \<Rightarrow> None)"

definition pending :: "ctg_application \<Rightarrow> u64 option set" where
  "pending app = {iteration_of ev | n ts ev. (n, ts, ev) \<in> set (ca_events app)}"

lemma iteration_of_simps [simp]: "iteration_of (StartSending i) = Some i" "iteration_of (SendFlit i) = Some i" "iteration_of ProcessFlit = None"
  by (simp_all add: iteration_of_def)

text \<open>The part of the state that the waiting for data works on.\<close>

definition waiting_part where
  "waiting_part app = (ca_iterations app, ca_totalData app, ca_localTaskList app, ca_remoteTaskList app,
     ca_receivedData app, ca_currentIteration app, ca_injectionStarted app)"

definition sends_for :: "u64 \<Rightarrow> ctg_application \<Rightarrow> ctg_application \<Rightarrow> bool" where
  "sends_for i app app' \<longleftrightarrow> waiting_part app' = waiting_part app \<and> pending app' \<subseteq> insert (Some i) (pending app) \<and>
     (\<exists>d. ca_currentDestinationIndex app' = (ca_currentDestinationIndex app)[unat i := d])"

lemma sends_for_refl: "waiting_part app' = waiting_part app \<Longrightarrow> ca_events app' = ca_events app \<Longrightarrow>
    ca_currentDestinationIndex app' = ca_currentDestinationIndex app \<Longrightarrow> sends_for i app app'"
  by (auto simp: sends_for_def pending_def intro: exI [of _ "ca_currentDestinationIndex app ! unat i"])

lemma sends_for_trans: "sends_for i a b \<Longrightarrow> sends_for i b c \<Longrightarrow> sends_for i a c"
  unfolding sends_for_def by fastforce

lemma sends_for_if: "sends_for i a (if c then b else a)" if "sends_for i a b"
  using that by (simp add: sends_for_refl)

lemma cancel_sends_for: "sends_for i app (ctg_cancel e app)"
  by (auto simp: sends_for_def waiting_part_def pending_def ctg_cancel_def intro: exI [of _ "ca_currentDestinationIndex app ! unat i"])

lemma fired_sends_for: "sends_for i app (ctg_fired n app)"
  by (auto simp: sends_for_def waiting_part_def pending_def ctg_fired_def intro: exI [of _ "ca_currentDestinationIndex app ! unat i"])

lemma CancelEvents_sends_for: "NocCtgApplication_CancelEvents k app = Some app' \<Longrightarrow> sends_for i app app'"
  by (auto simp: NocCtgApplication_CancelEvents_def Option.bind_eq_Some_conv intro: sends_for_trans cancel_sends_for)

lemma for_each_rel:
  assumes "for_each body xs s = Some s'" "\<And>x s s'. body x s = Some s' \<Longrightarrow> R s s'" "\<And>s. R s s" "\<And>a b c. R a b \<Longrightarrow> R b c \<Longrightarrow> R a c"
  shows "R s s'"
  using assms(1)
proof (induction xs arbitrary: s)
  case (Cons x xs)
  then obtain t where "body x s = Some t" "for_each body xs t = Some s'" by (auto simp: Option.bind_eq_Some_conv)
  then show ?case using Cons.IH assms(2,4) by blast
qed (simp add: assms(3))

lemma StopApplication_sends_for: "NocCtgApplication_StopApplication app = Some app' \<Longrightarrow> sends_for i app app'"
  unfolding NocCtgApplication_StopApplication_def
  by (erule for_each_rel) (auto intro: CancelEvents_sends_for sends_for_refl sends_for_trans)

lemma pending_add:
  "set (ca_events app') = insert (e, ts, ev) (set (ca_events app)) \<Longrightarrow> pending app' = insert (iteration_of ev) (pending app)"
  unfolding pending_def by (simp, blast)

lemma pending_schedule:
  assumes "ctg_schedule t ev w app = Some (e, app')"
  shows "pending app' = insert (iteration_of ev) (pending app)" "\<exists>ts. app' = app\<lparr>ca_events := ca_events app @ [(e, ts, ev)], ca_nextEvent := e + 1\<rparr>"
proof -
  show "\<exists>ts. app' = app\<lparr>ca_events := ca_events app @ [(e, ts, ev)], ca_nextEvent := e + 1\<rparr>"
    using assms by (auto simp: ctg_schedule_def Option.bind_eq_Some_conv)
  then obtain ts where "set (ca_events app') = insert (e, ts, ev) (set (ca_events app))" by auto
  then show "pending app' = insert (iteration_of ev) (pending app)" by (rule pending_add)
qed

lemma ScheduleNextTx_sends_for:
  assumes "NocCtgApplication_ScheduleNextTx i w app = Some app'"
  shows "sends_for i app app'"
proof -
  have new: "sends_for i app (app1\<lparr>ca_sendEvent := es\<rparr>)" if s: "ctg_schedule t (SendFlit i) w app = Some (e, app1)" for t e app1 es
  proof -
    have "pending (app1\<lparr>ca_sendEvent := es\<rparr>) = insert (Some i) (pending app)"
      using pending_schedule(1) [OF s] by (simp add: pending_def)
    with pending_schedule(2) [OF s] show ?thesis
      by (auto simp: sends_for_def waiting_part_def intro: exI [of _ "ca_currentDestinationIndex app ! unat i"])
  qed
  then show ?thesis
    using assms by (auto simp: NocCtgApplication_ScheduleNextTx_def Option.bind_eq_Some_conv StopApplication_sends_for split: if_splits)
qed

lemma inject_keeps: "ctg_inject pick k x node app w = Some (p, app', w') \<Longrightarrow> \<exists>warm y. app' = ctg_trace warm (FlitInjected y) app"
  unfolding ctg_inject_def store_packet_def Let_def prod.case
  by (auto simp: Option.bind_eq_Some_conv)

lemma inject_sends_for: "ctg_inject pick k x node app w = Some (p, app', w') \<Longrightarrow> sends_for i app app'"
  by (drule inject_keeps) (auto simp: ctg_trace_def waiting_part_def intro!: sends_for_refl)

lemma sent_sends_for: "ctg_sent k n app = Some app' \<Longrightarrow> sends_for i app app'"
  by (auto simp: ctg_sent_def Option.bind_eq_Some_conv waiting_part_def intro!: sends_for_refl)

lemma heads_sends_for: "sends_for i app (app\<lparr>ca_currentHeadFlit := hs\<rparr>)" "sends_for i app (app\<lparr>ca_currentFlitIndex := is\<rparr>)"
  "sends_for i app (app\<lparr>ca_totFlits := ns\<rparr>)" "sends_for i app (app\<lparr>ca_numberOfFlits := n\<rparr>)"
  by (auto simp: waiting_part_def intro!: sends_for_refl)


lemma trace_packet_sends_for: "ctg_trace_packet k w app = Some app' \<Longrightarrow> sends_for i app app'"
  by (auto simp: ctg_trace_packet_def ctg_trace_def Option.bind_eq_Some_conv waiting_part_def split: if_splits intro!: sends_for_refl)

lemma end_packet_sends_for: "ctg_end_packet k w app = Some app' \<Longrightarrow> sends_for i app app'"
  by (auto simp: ctg_end_packet_def Option.bind_eq_Some_conv split: if_splits
    intro: sends_for_trans [OF trace_packet_sends_for heads_sends_for(2)] sends_for_refl)

lemma destination_sends_for:
  assumes "waiting_part app' = waiting_part app" "ca_events app' = ca_events app"
    "ca_currentDestinationIndex app' = (ca_currentDestinationIndex app)[unat i := d]"
  shows "sends_for i app app'"
  using assms by (auto simp: sends_for_def pending_def)

lemma end_task_sends_for:
  assumes "ctg_end_task i data w app = Some app'"
  shows "sends_for i app app'"
proof -
  have "sends_for i app2 (app2\<lparr>ca_currentFlitIndex := is, ca_currentDestinationIndex := ds, ca_totalTaskBytes := ts\<rparr>)"
    if "vec_update (ca_currentDestinationIndex app2) (unat i) (\<lambda>d. d + 1) = Some ds" for app2 "is" ds ts
    using that by (auto simp: vec_update_def waiting_part_def abort_iffs intro!: destination_sends_for)
  then show ?thesis
    using assms by (auto simp: ctg_end_task_def Option.bind_eq_Some_conv split: if_splits
      intro: sends_for_trans [OF trace_packet_sends_for] sends_for_refl)
qed

lemma send_head_sends_for:
  assumes "ctg_send_head pick k relative x y node (app, w, g) = Some (app', w', g')"
  shows "sends_for i app app'"
proof -
  from assms obtain p app1 hs n z where "ctg_inject pick k z node app w = Some (p, app1, w')"
    "ctg_sent k n (app1\<lparr>ca_currentHeadFlit := hs\<rparr>) = Some app'"
    by (auto simp: ctg_send_head_def Option.bind_eq_Some_conv Let_def split: if_splits)
  from inject_sends_for [OF this(1)] sent_sends_for [OF this(2)] heads_sends_for(1)
  show ?thesis by (meson sends_for_trans)
qed

lemma send_data_sends_for:
  assumes "ctg_send_data pick k data node (app, w, g) = Some (app', w', g')"
  shows "sends_for i app app'"
proof -
  from assms obtain p app1 n z where "ctg_inject pick k z node app w = Some (p, app1, w')" "ctg_sent k n app1 = Some app'"
    by (auto simp: ctg_send_data_def Option.bind_eq_Some_conv Let_def split: if_splits)
  from inject_sends_for [OF this(1)] sent_sends_for [OF this(2)] show ?thesis by (meson sends_for_trans)
qed

text \<open>The steps of a successful \<^verbatim>\<open>SendFlit\<close>.\<close>

lemma ctg_send_flit_steps:
  assumes "ctg_send_flit positions pick i data s d node (app, w, g) = Some (app', w', g')"
  obtains relative index app1 app2 ns app3 dest where "positions s d = Some relative" "vec_at (ca_currentFlitIndex app) (unat i) = Some index"
    "(if index = 0 then ctg_send_head pick i relative (ucast (s mod ca_hSize app)) (ucast (s div ca_hSize app)) node (app, w, g)
      else ctg_send_data pick i data node (app, w, g)) = Some (app1, w', g')"
    "ctg_end_packet i w' app1 = Some app2" "vec_update (ca_totFlits app2) (unat i) (\<lambda>n. n + 1) = Some ns"
    "ctg_end_task i data w' (app2\<lparr>ca_totFlits := ns\<rparr>) = Some app3" "vec_at (ca_currentDestinationIndex app3) (unat i) = Some dest"
    "(if unat dest < length (ca_localTaskList app3) then NocCtgApplication_ScheduleNextTx i w' app3 else Some app3) = Some app'"
proof -
  from assms obtain relative index where r: "positions s d = Some relative" "vec_at (ca_currentFlitIndex app) (unat i) = Some index"
    by (auto simp: ctg_send_flit_def Option.bind_eq_Some_conv)
  define q where "q = (if index = 0 then ctg_send_head pick i relative (ucast (s mod ca_hSize app)) (ucast (s div ca_hSize app)) node (app, w, g)
      else ctg_send_data pick i data node (app, w, g))"
  have "Option.bind q (\<lambda>(app, w, globalUid). do {
     app \<leftarrow> ctg_end_packet i w app;
     totFlits \<leftarrow> vec_update (ca_totFlits app) (unat i) (\<lambda>n. n + 1);
     app \<leftarrow> ctg_end_task i data w (app\<lparr>ca_totFlits := totFlits\<rparr>);
     d \<leftarrow> vec_at (ca_currentDestinationIndex app) (unat i);
     app \<leftarrow> (if unat d < length (ca_localTaskList app) then NocCtgApplication_ScheduleNextTx i w app else Some app);
     Some (app, w, globalUid) }) = Some (app', w', g')"
    using assms r unfolding q_def by (simp add: ctg_send_flit_def)
  then obtain app1 app2 ns app3 dest where "q = Some (app1, w', g')" "ctg_end_packet i w' app1 = Some app2"
    "vec_update (ca_totFlits app2) (unat i) (\<lambda>n. n + 1) = Some ns"
    "ctg_end_task i data w' (app2\<lparr>ca_totFlits := ns\<rparr>) = Some app3" "vec_at (ca_currentDestinationIndex app3) (unat i) = Some dest"
    "(if unat dest < length (ca_localTaskList app3) then NocCtgApplication_ScheduleNextTx i w' app3 else Some app3) = Some app'"
    by (auto simp: Option.bind_eq_Some_conv)
  with that r show thesis unfolding q_def by blast
qed

lemma send_flit_sends_for:
  assumes "ctg_send_flit positions pick i data s d node (app, w, g) = Some (app', w', g')"
  shows "sends_for i app app'"
proof -
  obtain relative index app1 app2 ns app3 dest where st: "positions s d = Some relative"
    "vec_at (ca_currentFlitIndex app) (unat i) = Some index"
    "(if index = 0 then ctg_send_head pick i relative (ucast (s mod ca_hSize app)) (ucast (s div ca_hSize app)) node (app, w, g)
      else ctg_send_data pick i data node (app, w, g)) = Some (app1, w', g')"
    "ctg_end_packet i w' app1 = Some app2" "vec_update (ca_totFlits app2) (unat i) (\<lambda>n. n + 1) = Some ns"
    "ctg_end_task i data w' (app2\<lparr>ca_totFlits := ns\<rparr>) = Some app3" "vec_at (ca_currentDestinationIndex app3) (unat i) = Some dest"
    "(if unat dest < length (ca_localTaskList app3) then NocCtgApplication_ScheduleNextTx i w' app3 else Some app3) = Some app'"
    by (rule ctg_send_flit_steps [OF assms])
  have "sends_for i app app1" using st(3) send_head_sends_for send_data_sends_for by (auto split: if_splits)
  moreover have "sends_for i app3 app'" using st(8) ScheduleNextTx_sends_for by (auto split: if_splits intro: sends_for_refl)
  ultimately show ?thesis
    using end_packet_sends_for [OF st(4)] end_task_sends_for [OF st(6)] heads_sends_for(3) by (meson sends_for_trans)
qed

lemma skip_task_sends_for:
  assumes "ctg_skip_task i w app = Some app'"
  shows "sends_for i app app'"
proof -
  have "sends_for i app (app\<lparr>ca_currentDestinationIndex := (ca_currentDestinationIndex app)[unat i := d]\<rparr>)" for d
    by (auto simp: waiting_part_def intro!: destination_sends_for)
  then show ?thesis
    using assms by (auto simp: ctg_skip_task_def abort_iffs split: if_splits
      intro: sends_for_trans [OF _ ScheduleNextTx_sends_for] sends_for_refl)
qed

lemma ctg_SendFlit_steps:
  assumes "NocCtgApplication_SendFlit positions pick i (app, w, g) = Some (app', w', g')"
  obtains index dtd n node app1 where "vec_at (ca_currentDestinationIndex app) (unat i) = Some index"
    "NocCtgApplication_GetLocalDependentTaskData index app = Some dtd" "ctg_flits_needed (w_dims w) (ca_flitSize app) (dt_data dtd) = Some n"
    "app1 = (if ca_numberOfFlits app > n then app\<lparr>ca_numberOfFlits := n\<rparr> else app)" "ca_numberOfFlits app1 \<ge> 1"
    "(if n_id (w_nodes w (ca_node app1)) = dt_receivingNodeId dtd
      then Option.bind (ctg_skip_task i w app1) (\<lambda>app. Some (app, w, g))
      else ctg_send_flit positions pick i (dt_data dtd) (n_id (w_nodes w (ca_node app1))) (dt_receivingNodeId dtd) node (app1, w, g)) =
      Some (app', w', g')"
proof -
  from assms obtain index dtd n where s: "vec_at (ca_currentDestinationIndex app) (unat i) = Some index"
    "NocCtgApplication_GetLocalDependentTaskData index app = Some dtd" "ctg_flits_needed (w_dims w) (ca_flitSize app) (dt_data dtd) = Some n"
    by (auto simp: NocCtgApplication_SendFlit_def Option.bind_eq_Some_conv Let_def simp del: split_paired_Ex split: if_splits)
  define app1 where "app1 = (if ca_numberOfFlits app > n then app\<lparr>ca_numberOfFlits := n\<rparr> else app)"
  have same: "ca_node app1 = ca_node app" "ca_devices app1 = ca_devices app" by (simp_all add: app1_def)
  have "do {
     _ \<leftarrow> ns_assert (ca_numberOfFlits app1 \<ge> 1);
     node \<leftarrow> find_node w (dt_receivingNodeId dtd) (ca_devices app1);
     if n_id (w_nodes w (ca_node app1)) = dt_receivingNodeId dtd
     then Option.bind (ctg_skip_task i w app1) (\<lambda>app. Some (app, w, g))
     else ctg_send_flit positions pick i (dt_data dtd) (n_id (w_nodes w (ca_node app1))) (dt_receivingNodeId dtd) node (app1, w, g)
   } = Some (app', w', g')"
    using assms unfolding NocCtgApplication_SendFlit_def prod.case Let_def s Option.bind.bind_lunit app1_def [symmetric] same
    by (simp split: if_splits)
  then obtain node where "ca_numberOfFlits app1 \<ge> 1" "(if n_id (w_nodes w (ca_node app1)) = dt_receivingNodeId dtd
     then Option.bind (ctg_skip_task i w app1) (\<lambda>app. Some (app, w, g))
     else ctg_send_flit positions pick i (dt_data dtd) (n_id (w_nodes w (ca_node app1))) (dt_receivingNodeId dtd) node (app1, w, g)) =
       Some (app', w', g')"
    by (cases "find_node w (dt_receivingNodeId dtd) (ca_devices app1)") (simp_all split: if_splits)
  with s app1_def that show thesis by blast
qed

lemma SendFlit_sends_for:
  assumes "NocCtgApplication_SendFlit positions pick i (app, w, g) = Some (app', w', g')"
  shows "sends_for i app app'"
proof -
  obtain index dtd n node app1 where "vec_at (ca_currentDestinationIndex app) (unat i) = Some index"
    "NocCtgApplication_GetLocalDependentTaskData index app = Some dtd" "ctg_flits_needed (w_dims w) (ca_flitSize app) (dt_data dtd) = Some n"
    and app1: "app1 = (if ca_numberOfFlits app > n then app\<lparr>ca_numberOfFlits := n\<rparr> else app)" and "ca_numberOfFlits app1 \<ge> 1"
    and st: "(if n_id (w_nodes w (ca_node app1)) = dt_receivingNodeId dtd
      then Option.bind (ctg_skip_task i w app1) (\<lambda>app. Some (app, w, g))
      else ctg_send_flit positions pick i (dt_data dtd) (n_id (w_nodes w (ca_node app1))) (dt_receivingNodeId dtd) node (app1, w, g)) =
      Some (app', w', g')" by (rule ctg_SendFlit_steps [OF assms])
  have "sends_for i app app1" unfolding app1 using heads_sends_for(4) by (auto intro: sends_for_refl)
  moreover have "sends_for i app1 app'"
    using st skip_task_sends_for send_flit_sends_for by (auto simp: Option.bind_eq_Some_conv split: if_splits)
  ultimately show ?thesis by (rule sends_for_trans)
qed

section \<open>Waiting for data\<close>

text \<open>The iteration whose data the application waits for, after the flits of a history.\<close>

fun current_after :: "rat \<Rightarrow> nat \<Rightarrow> history \<Rightarrow> nat" where
  "current_after D n [] = 0"
| "current_after D n (f # h) = (let c = current_after D n h in if c < n \<and> D \<le> rat_of_nat (bits_of (f # h) c) then c + 1 else c)"

lemma current_after_le: "current_after D n h \<le> n"
  by (induction h) (simp_all add: Let_def)

lemma bits_of_Cons: "bits_of ((k, b) # h) i = (if unat k = i then unat b else 0) + bits_of h i"
  by (simp add: bits_of_def)

lemma bits_of_le: "bits_of h i \<le> bits_of (f # h) i"
  by (cases f) (simp add: bits_of_Cons)

lemma current_after_bits: "i < current_after D n h \<Longrightarrow> D \<le> rat_of_nat (bits_of h i)"
proof (induction h)
  case (Cons f h)
  have le: "rat_of_nat (bits_of h i) \<le> rat_of_nat (bits_of (f # h) i)" using bits_of_le by simp
  show ?case
  proof (cases "i < current_after D n h")
    case True
    then show ?thesis using Cons.IH le by linarith
  next
    case False
    then show ?thesis using Cons.prems by (auto simp: Let_def less_Suc_eq split: if_splits)
  qed
qed simp

definition ctg_ok :: "rat \<Rightarrow> nat \<Rightarrow> history \<Rightarrow> ctg_application \<Rightarrow> bool" where
  "ctg_ok D n h app \<longleftrightarrow> unat (ca_iterations app) = n \<and> ca_totalData app = D \<and> ca_localTaskList app \<noteq> [] \<and>
     \<not> NocCtgApplication_ContainsNotDependentTask app \<and> unat (ca_currentIteration app) = current_after D n h \<and>
     length (ca_receivedData app) = n \<and> length (ca_injectionStarted app) = n \<and> length (ca_currentDestinationIndex app) = n \<and>
     (\<forall>i<n. current_after D n h \<le> i \<longrightarrow> ca_receivedData app ! i = rat_of_nat (bits_of h i)) \<and>
     (\<forall>i. Some i \<in> pending app \<longrightarrow> unat i < n \<and> ca_injectionStarted app ! unat i) \<and>
     (\<forall>i<n. ca_injectionStarted app ! i \<longleftrightarrow> i < current_after D n h) \<and>
     (\<forall>i<n. \<not> ca_injectionStarted app ! i \<longrightarrow> ca_currentDestinationIndex app ! i = 0)"

lemma dependent_part:
  "waiting_part app' = waiting_part app \<Longrightarrow>
     NocCtgApplication_ContainsNotDependentTask app' = NocCtgApplication_ContainsNotDependentTask app"
  by (simp add: waiting_part_def NocCtgApplication_ContainsNotDependentTask_def)

lemma sends_for_ok:
  assumes "ctg_ok D n h app" "sends_for i app app'" "unat i < n" "ca_injectionStarted app ! unat i"
  shows "ctg_ok D n h app'"
proof -
  from assms(2) have w: "waiting_part app' = waiting_part app" and p: "pending app' \<subseteq> insert (Some i) (pending app)"
    by (simp_all add: sends_for_def)
  from assms(2) obtain d where d: "ca_currentDestinationIndex app' = (ca_currentDestinationIndex app)[unat i := d]"
    by (auto simp: sends_for_def)
  have e: "ca_iterations app' = ca_iterations app" "ca_totalData app' = ca_totalData app" "ca_localTaskList app' = ca_localTaskList app"
    "ca_receivedData app' = ca_receivedData app" "ca_currentIteration app' = ca_currentIteration app"
    "ca_injectionStarted app' = ca_injectionStarted app" using w by (simp_all add: waiting_part_def)
  show ?thesis
    using assms(1,3,4) p unfolding ctg_ok_def dependent_part [OF w] e d
    by (auto simp: nth_list_update)
qed

lemma fewer_events_ok:
  assumes "ctg_ok D n h app" "\<And>i. sends_for i app app'"
    "pending app' \<subseteq> pending app" "ca_currentDestinationIndex app' = ca_currentDestinationIndex app"
  shows "ctg_ok D n h app'"
proof -
  from assms(2) have w: "waiting_part app' = waiting_part app" by (simp add: sends_for_def)
  have e: "ca_iterations app' = ca_iterations app" "ca_totalData app' = ca_totalData app" "ca_localTaskList app' = ca_localTaskList app"
    "ca_receivedData app' = ca_receivedData app" "ca_currentIteration app' = ca_currentIteration app"
    "ca_injectionStarted app' = ca_injectionStarted app" using w by (simp_all add: waiting_part_def)
  show ?thesis using assms(1,3) unfolding ctg_ok_def dependent_part [OF w] e assms(4) by blast
qed

text \<open>The start of an iteration.\<close>

lemma ctg_start_effect:
  assumes "ctg_start i w app = Some app'"
  obtains t e es where "app' = app\<lparr>ca_injectionStarted := (ca_injectionStarted app)[unat i := True],
      ca_events := ca_events app @ [(e, t, StartSending i)], ca_nextEvent := e + 1, ca_startEvent := es,
      ca_executionAvailabilityTime := ca_executionAvailabilityTime app'\<rparr>"
proof -
  from assms obtain started t e app1 es a where s: "vec_set (ca_injectionStarted app) (unat i) True = Some started"
    "ctg_schedule t (StartSending i) w (app\<lparr>ca_injectionStarted := started\<rparr>) = Some (e, app1)"
    "app' = app1\<lparr>ca_startEvent := es, ca_executionAvailabilityTime := a\<rparr>"
    by (auto simp: ctg_start_def Option.bind_eq_Some_conv Let_def split: if_splits)
  from s(1) have "started = (ca_injectionStarted app)[unat i := True]" by (simp add: vec_set_eq_Some)
  with pending_schedule(2) [OF s(2)] s(3) that show thesis by auto
qed

lemma round64_nat: "m < 2 ^ 53 \<Longrightarrow> round64 (rat_of_nat m) = rat_of_nat m"
proof (cases "m = 0")
  case False
  assume "m < 2 ^ 53"
  then have "int m < int (2 ^ 53)" by (simp only: of_nat_less_iff)
  then show ?thesis using round64_exact [of "int m" 0] False by (simp add: pow2_def)
qed (simp add: round64_def)

lemma ScheduleStartEvent_complete:
  assumes "NocCtgApplication_ScheduleStartEvent i w app = Some app'" "ca_localTaskList app \<noteq> []"
    "vec_at (ca_receivedData app) (unat i) = Some (ca_totalData app)"
  shows "ctg_start i w app = Some app'"
  using assms by (simp add: NocCtgApplication_ScheduleStartEvent_def)

lemma ctg_complete_ok:
  assumes ok: "ctg_ok D n h app" and c: "ctg_complete w (app\<lparr>ca_receivedData := r\<rparr>) = Some app'"
    and cur: "current_after D n h < n" "current_after D n (f # h) = current_after D n h + 1"
    and r: "length r = n" "\<forall>i<n. current_after D n h < i \<longrightarrow> r ! i = rat_of_nat (bits_of (f # h) i)"
  shows "ctg_ok D n (f # h) app'"
proof -
  let ?c = "current_after D n h" and ?r = "r[current_after D n h := D]"
  let ?app = "app\<lparr>ca_receivedData := ?r\<rparr>"
  have o: "unat (ca_iterations app) = n" "ca_totalData app = D" "ca_localTaskList app \<noteq> []"
    "\<not> NocCtgApplication_ContainsNotDependentTask app" "unat (ca_currentIteration app) = ?c"
    "length (ca_injectionStarted app) = n" "length (ca_currentDestinationIndex app) = n"
    "ca_currentDestinationIndex app ! ?c = 0"
    using ok cur(1) by (simp_all add: ctg_ok_def)
  have dep: "\<not> NocCtgApplication_ContainsNotDependentTask ?app" for x using o(4) by (simp add: NocCtgApplication_ContainsNotDependentTask_def)
  have "0 < length (ca_localTaskList app)" using o(3) by simp
  with c o dep r(1) cur(1) obtain app1 where s: "NocCtgApplication_ScheduleStartEvent (ca_currentIteration app) w ?app = Some app1"
    "app' = app1\<lparr>ca_currentIteration := ca_currentIteration app + 1\<rparr>"
    by (auto simp: ctg_complete_def Option.bind_eq_Some_conv Let_def)
  have "ctg_start (ca_currentIteration app) w ?app = Some app1"
    using o r(1) cur(1) by (intro ScheduleStartEvent_complete [OF s(1)]) simp_all
  then obtain t e es where e: "app1 = ?app\<lparr>ca_injectionStarted := (ca_injectionStarted app)[?c := True],
      ca_events := ca_events app @ [(e, t, StartSending (ca_currentIteration app))], ca_nextEvent := e + 1, ca_startEvent := es,
      ca_executionAvailabilityTime := ca_executionAvailabilityTime app1\<rparr>"
    by (rule ctg_start_effect) (simp add: o)
  define a where "a = ca_executionAvailabilityTime app1"
  have app': "app' = app\<lparr>ca_receivedData := ?r, ca_injectionStarted := (ca_injectionStarted app)[?c := True],
      ca_events := ca_events app @ [(e, t, StartSending (ca_currentIteration app))], ca_nextEvent := e + 1, ca_startEvent := es,
      ca_executionAvailabilityTime := a, ca_currentIteration := ca_currentIteration app + 1\<rparr>"
    unfolding s(2) by (subst e) (simp add: a_def)
  have "unat (ca_currentIteration app) + 1 < 2 ^ 64"
    using o(1,5) cur(1) unat_u64_less [of "ca_iterations app"] by simp
  then have u: "unat (ca_currentIteration app + 1) = ?c + 1" using o(5) by (simp add: unat_word_ariths)
  have set: "set (ca_events app') = insert (e, t, StartSending (ca_currentIteration app)) (set (ca_events app))" by (simp add: app')
  have p: "pending app' = insert (Some (ca_currentIteration app)) (pending app)" using pending_add [OF set] by simp
  have d: "\<not> NocCtgApplication_ContainsNotDependentTask app'" using o(4) by (simp add: app' NocCtgApplication_ContainsNotDependentTask_def)
  have q: "\<forall>i. Some i \<in> pending app \<longrightarrow> unat i < n \<and> ca_injectionStarted app ! unat i"
    "\<forall>i<n. ca_injectionStarted app ! i \<longleftrightarrow> i < ?c" "\<forall>i<n. \<not> ca_injectionStarted app ! i \<longrightarrow> ca_currentDestinationIndex app ! i = 0"
    using ok unfolding ctg_ok_def by blast+
  have new: "ca_iterations app' = ca_iterations app" "ca_totalData app' = D" "ca_localTaskList app' = ca_localTaskList app"
    "ca_receivedData app' = ?r" "ca_currentIteration app' = ca_currentIteration app + 1"
    "ca_injectionStarted app' = (ca_injectionStarted app)[?c := True]" "ca_currentDestinationIndex app' = ca_currentDestinationIndex app"
    by (simp_all add: app' o(2))
  show ?thesis
    unfolding ctg_ok_def new p cur(2)
  proof (intro conjI allI impI)
    fix i assume "i < n" "?c + 1 \<le> i"
    then show "?r ! i = rat_of_nat (bits_of (f # h) i)" using r by simp
  next
    fix i assume "Some i \<in> insert (Some (ca_currentIteration app)) (pending app)"
    then show "unat i < n" "(ca_injectionStarted app)[?c := True] ! unat i"
      using q(1) o cur(1) by (auto simp: nth_list_update)
  next
    fix i assume "i < n"
    then show "(ca_injectionStarted app)[?c := True] ! i \<longleftrightarrow> i < ?c + 1" using q(2) o(6) by (cases "i = ?c") auto
    assume "\<not> (ca_injectionStarted app)[?c := True] ! i"
    then show "ca_currentDestinationIndex app ! i = 0" using q(3) \<open>i < n\<close> o(6) by (cases "i = ?c") auto
  qed (use o d r(1) u in simp_all)
qed

lemma ctg_count_ok:
  assumes ok: "ctg_ok D n h app" and c: "ctg_count k b w app = Some app'" and small: "\<forall>i. bits_of ((k, b) # h) i < 2 ^ 53"
  shows "ctg_ok D n ((k, b) # h) app'"
proof -
  let ?c = "current_after D n h" and ?h = "(k, b) # h"
  let ?r = "(ca_receivedData app)[unat k := round64 (ca_receivedData app ! unat k + rat_of_nat (unat b))]"
  have o: "unat (ca_iterations app) = n" "ca_totalData app = D" "unat (ca_currentIteration app) = ?c" "length (ca_receivedData app) = n"
    "\<forall>i<n. ?c \<le> i \<longrightarrow> ca_receivedData app ! i = rat_of_nat (bits_of h i)"
    using ok by (simp_all add: ctg_ok_def)
  have k: "unat k < n" using c o(1) by (simp add: ctg_count_def word_less_nat_alt split: if_splits)
  have r: "\<forall>i<n. ?c \<le> i \<longrightarrow> ?r ! i = rat_of_nat (bits_of ?h i)"
  proof (intro allI impI)
    fix i assume i: "i < n" "?c \<le> i"
    show "?r ! i = rat_of_nat (bits_of ?h i)"
    proof (cases "i = unat k")
      case True
      then have "ca_receivedData app ! unat k + rat_of_nat (unat b) = rat_of_nat (bits_of ?h i)"
        using o(5) i by (simp add: bits_of_Cons)
      then have "round64 (ca_receivedData app ! unat k + rat_of_nat (unat b)) = rat_of_nat (bits_of ?h i)"
        using round64_nat small by metis
      then show ?thesis using True k o(4) by simp
    next
      case False
      then show ?thesis using i o(4,5) by (simp add: bits_of_Cons)
    qed
  qed
  have u: "rat_of_int (uint b) = rat_of_nat (unat b)" by simp
  have c': "(if ?c < n then if D \<le> ?r ! ?c then ctg_complete w (app\<lparr>ca_receivedData := ?r\<rparr>) else Some (app\<lparr>ca_receivedData := ?r\<rparr>)
      else Some (app\<lparr>ca_receivedData := ?r\<rparr>)) = Some app'"
    using c k o by (auto simp: ctg_count_def vec_update_def word_less_nat_alt Let_def simp del: nth_list_update split: if_splits)
  show ?thesis
  proof (cases "?c < n \<and> D \<le> rat_of_nat (bits_of ?h ?c)")
    case True
    then have "ctg_complete w (app\<lparr>ca_receivedData := ?r\<rparr>) = Some app'" using c' r by simp
    then show ?thesis
      by (rule ctg_complete_ok [OF ok]) (use True r o(4) in \<open>auto simp: Let_def\<close>)
  next
    case False
    then have app': "app' = app\<lparr>ca_receivedData := ?r\<rparr>" using c' r by (auto split: if_splits)
    have cur: "current_after D n ?h = ?c" using False by (auto simp: Let_def)
    have "pending app' = pending app"
      "NocCtgApplication_ContainsNotDependentTask app' = NocCtgApplication_ContainsNotDependentTask app"
      "ca_iterations app' = ca_iterations app" "ca_totalData app' = ca_totalData app" "ca_localTaskList app' = ca_localTaskList app"
      "ca_receivedData app' = ?r" "ca_currentIteration app' = ca_currentIteration app"
      "ca_injectionStarted app' = ca_injectionStarted app" "ca_currentDestinationIndex app' = ca_currentDestinationIndex app"
      by (simp_all add: app' pending_def NocCtgApplication_ContainsNotDependentTask_def)
    note same = this
    show ?thesis using ok r unfolding ctg_ok_def cur same length_list_update by blast
  qed
qed

lemma callback_ok:
  assumes "ctg_ok D n h app" "NocCtgApplication_FlitReceivedCallback x w app = Some app'" "ctg_flit_data (w_dims w) x = Some (k, b)"
    "\<forall>i. bits_of ((k, b) # h) i < 2 ^ 53"
  shows "ctg_ok D n ((k, b) # h) app'"
proof -
  obtain warm where c: "ctg_count k b w (ctg_trace warm (FlitReceived x) app) = Some app'"
    using assms(2,3) by (auto simp: NocCtgApplication_FlitReceivedCallback_def Option.bind_eq_Some_conv)
  have "ctg_ok D n h (ctg_trace warm (FlitReceived x) app)"
    by (rule fewer_events_ok [OF assms(1)]) (auto simp: ctg_trace_def waiting_part_def pending_def intro!: sends_for_refl)
  then show ?thesis using c assms(4) by (rule ctg_count_ok)
qed


section \<open>Starting and running\<close>

definition ctg_fresh :: "rat \<Rightarrow> nat \<Rightarrow> ctg_application \<Rightarrow> bool" where
  "ctg_fresh D n app \<longleftrightarrow> unat (ca_iterations app) = n \<and> ca_totalData app = D \<and> 0 < D \<and> ca_localTaskList app \<noteq> [] \<and>
     \<not> NocCtgApplication_ContainsNotDependentTask app \<and> ca_currentIteration app = 0 \<and>
     ca_receivedData app = [] \<and> ca_injectionStarted app = [] \<and> ca_currentDestinationIndex app = [] \<and> ca_events app = []"

lemma for_each_snoc: "for_each body (xs @ [x]) s = Option.bind (for_each body xs s) (body x)"
proof (induction xs arbitrary: s)
  case (Cons y ys)
  then show ?case by (cases "body y s") simp_all
next
  case Nil
  then show ?case by (cases "body x s") simp_all
qed

lemma StartApplication_ok:
  assumes "ctg_fresh D n app0" "NocCtgApplication_StartApplication w app0 = Some app"
  shows "ctg_ok D n [] app"
proof -
  define body where "body = (\<lambda>i app. do {
     app \<leftarrow> NocCtgApplication_CancelEvents (of_nat i) (ctg_new_iteration app);
     NocCtgApplication_ScheduleStartEvent (of_nat i) w app
   })"
  have f: "unat (ca_iterations app0) = n" "0 < D" using assms(1) by (simp_all add: ctg_fresh_def)
  have n: "n < 2 ^ 64" using f(1) unat_u64_less [of "ca_iterations app0"] by simp
  have "unat (ca_iterations app) = n \<and> ca_totalData app = D \<and> ca_localTaskList app \<noteq> [] \<and>
     \<not> NocCtgApplication_ContainsNotDependentTask app \<and> ca_currentIteration app = 0 \<and>
     ca_receivedData app = replicate m 0 \<and> ca_injectionStarted app = replicate m False \<and>
     ca_currentDestinationIndex app = replicate m 0 \<and> ca_events app = []"
    if "for_each body [0 ..< m] app0 = Some app" "m \<le> n" for m app
    using that
  proof (induction m arbitrary: app)
    case 0
    then show ?case using assms(1) by (simp add: ctg_fresh_def)
  next
    case (Suc m)
    then obtain app1 where a: "for_each body [0 ..< m] app0 = Some app1" "body m app1 = Some app"
      by (auto simp: for_each_snoc Option.bind_eq_Some_conv simp del: for_each.simps)
    have IH: "unat (ca_iterations app1) = n" "ca_totalData app1 = D" "ca_localTaskList app1 \<noteq> []"
     "\<not> NocCtgApplication_ContainsNotDependentTask app1" "ca_currentIteration app1 = 0"
     "ca_receivedData app1 = replicate m 0" "ca_injectionStarted app1 = replicate m False"
     "ca_currentDestinationIndex app1 = replicate m 0" "ca_events app1 = []"
      using Suc.IH [OF a(1)] Suc.prems(2) by simp_all
    have m: "unat (of_nat m :: u64) = m" using n Suc.prems(2) by (simp add: unat_of_nat take_bit_nat_eq_self)
    obtain app2 where b: "NocCtgApplication_CancelEvents (of_nat m) (ctg_new_iteration app1) = Some app2"
      "NocCtgApplication_ScheduleStartEvent (of_nat m) w app2 = Some app"
      using a(2) by (auto simp: body_def Option.bind_eq_Some_conv)
    obtain s t where app2: "app2 = ctg_cancel s (ctg_cancel t (ctg_new_iteration app1))"
      using b(1) by (auto simp: NocCtgApplication_CancelEvents_def Option.bind_eq_Some_conv)
    have "\<not> NocCtgApplication_ContainsNotDependentTask app2"
      using IH(4) by (simp add: app2 ctg_cancel_def ctg_new_iteration_def NocCtgApplication_ContainsNotDependentTask_def)
    moreover have "ca_receivedData app2 = replicate m 0 @ [0]" "ca_totalData app2 = D"
      using IH by (simp_all add: app2 ctg_cancel_def ctg_new_iteration_def)
    ultimately have "app = app2" using b(2) f(2) m by (simp add: NocCtgApplication_ScheduleStartEvent_def nth_append)
    then show ?case
      using IH by (simp add: app2 ctg_cancel_def ctg_new_iteration_def NocCtgApplication_ContainsNotDependentTask_def replicate_append_same)
  qed
  from this [of n app] have "unat (ca_iterations app) = n \<and> ca_totalData app = D \<and> ca_localTaskList app \<noteq> [] \<and>
     \<not> NocCtgApplication_ContainsNotDependentTask app \<and> ca_currentIteration app = 0 \<and>
     ca_receivedData app = replicate n 0 \<and> ca_injectionStarted app = replicate n False \<and>
     ca_currentDestinationIndex app = replicate n 0 \<and> ca_events app = []"
    using assms(2) f(1) by (simp add: NocCtgApplication_StartApplication_def body_def)
  then show ?thesis by (simp add: ctg_ok_def pending_def bits_of_def)
qed

lemma ok_pending: "ctg_ok D n h app \<Longrightarrow> Some i \<in> pending app \<Longrightarrow> unat i < n \<and> ca_injectionStarted app ! unat i"
  unfolding ctg_ok_def by blast

lemma bits_of_prefix_small: "\<forall>i. bits_of (f # h) i < 2 ^ 53 \<Longrightarrow> \<forall>i. bits_of h i < 2 ^ 53"
  using bits_of_le le_less_trans by blast

lemma fired_ok:
  assumes "ctg_ok D n h app" shows "ctg_ok D n h (ctg_fired e app)"
  by (rule fewer_events_ok [OF assms fired_sends_for]) (auto simp: pending_def ctg_fired_def)

lemma ctg_run_ok:
  assumes "ctg_run positions pick app0 h app" "ctg_fresh D n app0" "\<forall>i. bits_of h i < 2 ^ 53"
  shows "ctg_ok D n h app"
  using assms
proof (induction rule: ctg_run.induct)
  case (run_start w app)
  then show ?case by (blast intro: StartApplication_ok)
next
  case (run_receive h app w x k b app')
  then show ?case using callback_ok bits_of_prefix_small by blast
next
  case (run_sending h app e ts i w app')
  then have ok: "ctg_ok D n h app" by blast
  have "Some i \<in> pending app" using run_sending.hyps(2) unfolding pending_def by force
  then have i: "unat i < n" "ca_injectionStarted (ctg_fired e app) ! unat i" using ok_pending [OF ok] by (simp_all add: ctg_fired_def)
  have "sends_for i (ctg_fired e app) app'"
    using run_sending.hyps(3) ScheduleNextTx_sends_for by (simp add: NocCtgApplication_StartSending_def)
  then show ?case by (rule sends_for_ok [OF fired_ok [OF ok] _ i])
next
  case (run_send h app e ts i w g app' w' g')
  then have ok: "ctg_ok D n h app" by blast
  have "Some i \<in> pending app" using run_send.hyps(2) unfolding pending_def by force
  then have i: "unat i < n" "ca_injectionStarted (ctg_fired e app) ! unat i" using ok_pending [OF ok] by (simp_all add: ctg_fired_def)
  show ?case by (rule sends_for_ok [OF fired_ok [OF ok] SendFlit_sends_for [OF run_send.hyps(3)] i])
next
  case (run_process h app e ts)
  then show ?case using fired_ok by blast
next
  case (run_stop h app app')
  then have ok: "ctg_ok D n h app" by blast
  have "pending app' \<subseteq> pending app \<and> ca_currentDestinationIndex app' = ca_currentDestinationIndex app"
    using run_stop.hyps(2) unfolding NocCtgApplication_StopApplication_def
  proof (rule for_each_rel)
    fix i a b assume "NocCtgApplication_CancelEvents (of_nat i) a = Some b"
    then obtain s t where "b = ctg_cancel s (ctg_cancel t a)"
      by (auto simp: NocCtgApplication_CancelEvents_def Option.bind_eq_Some_conv)
    then show "pending b \<subseteq> pending a \<and> ca_currentDestinationIndex b = ca_currentDestinationIndex a"
      by (auto simp: pending_def ctg_cancel_def)
  qed auto
  then show ?case using fewer_events_ok [OF ok StopApplication_sends_for [OF run_stop.hyps(2)]] by blast
qed

lemma bits_of_none: "\<forall>(l, d) \<in> set h. unat l \<noteq> i \<Longrightarrow> bits_of h i = 0"
proof (induction h)
  case (Cons f h)
  then show ?case by (cases f) (simp add: bits_of_Cons)
qed (simp add: bits_of_def)

lemma in_order:
  assumes "0 < D" "sorted (map (\<lambda>(k, b). unat k) (rev h))" "current_after D n h < n"
  shows "rat_of_nat (bits_of h (current_after D n h)) < D"
  using assms(2,3)
proof (induction h)
  case Nil
  then show ?case using assms(1) by (simp add: bits_of_def)
next
  case (Cons f h)
  obtain k b where f: "f = (k, b)" by fastforce
  let ?c = "current_after D n h"
  have s: "sorted (map (\<lambda>(k, b). unat k) (rev h))" "\<And>l d. (l, d) \<in> set h \<Longrightarrow> unat l \<le> unat k"
    using Cons.prems(1) by (force simp: f sorted_append)+
  show ?case
  proof (cases "?c < n \<and> D \<le> rat_of_nat (bits_of (f # h) ?c)")
    case False
    then show ?thesis using Cons.prems(2) by (auto simp: Let_def not_le)
  next
    case True
    then have "rat_of_nat (bits_of h ?c) < D" using Cons.IH s(1) by blast
    then have k: "unat k = ?c" using True by (auto simp: f bits_of_Cons split: if_splits)
    have "bits_of h (?c + 1) = 0"
      using s(2) k by (intro bits_of_none ballI) fastforce
    then have "bits_of (f # h) (?c + 1) = 0" using k by (simp add: f bits_of_Cons)
    moreover have "current_after D n (f # h) = ?c + 1" using True by (simp add: Let_def)
    ultimately show ?thesis using assms(1) by simp
  qed
qed

lemma waits_for_first: "rat_of_nat (bits_of h 0) < D \<Longrightarrow> current_after D n h = 0"
proof (induction h)
  case (Cons f h)
  have "rat_of_nat (bits_of h 0) \<le> rat_of_nat (bits_of (f # h) 0)" using bits_of_le by simp
  then have "rat_of_nat (bits_of h 0) < D" using Cons.prems by linarith
  then show ?case using Cons by (simp add: Let_def)
qed simp

section \<open>Properties\<close>

text \<open>C13: in any run, a node all of whose tasks depend on others has an event to start or to send
  for an iteration only when it has received as many bits for that iteration as its remote tasks
  send, whatever the order of flits, events and stops.\<close>

theorem ctg_waits_for_data:
  assumes "ctg_run positions pick app0 h app" "ctg_fresh D n app0" "\<forall>i. bits_of h i < 2 ^ 53"
  shows "\<forall>(e, ts, ev) \<in> set (ca_events app). \<forall>i. iteration_of ev = Some i \<longrightarrow> unat i < n \<and> D \<le> rat_of_nat (bits_of h (unat i))"
proof (intro ballI, clarify)
  fix e ts ev i assume "(e, ts, ev) \<in> set (ca_events app)" "iteration_of ev = Some i"
  then have "Some i \<in> pending app" unfolding pending_def by force
  moreover have ok: "ctg_ok D n h app" by (rule ctg_run_ok [OF assms])
  ultimately have i: "unat i < n" "ca_injectionStarted app ! unat i" by (simp_all add: ok_pending)
  then have "unat i < current_after D n h" using ok unfolding ctg_ok_def by blast
  then show "unat i < n \<and> D \<le> rat_of_nat (bits_of h (unat i))" using i(1) current_after_bits by blast
qed

text \<open>C15: where the flits arrive in the order of their iterations, every iteration up to which
  the data of all are there has been started.\<close>

theorem ctg_starts_in_order:
  assumes "ctg_run positions pick app0 h app" "ctg_fresh D n app0" "\<forall>i. bits_of h i < 2 ^ 53"
    and "sorted (map (\<lambda>(k, b). unat k) (rev h))" "i < n" "\<forall>j\<le>i. D \<le> rat_of_nat (bits_of h j)"
  shows "ca_injectionStarted app ! i"
proof -
  have "0 < D" using assms(2) by (simp add: ctg_fresh_def)
  note late = in_order [OF this assms(4), of n]
  have "i < current_after D n h"
  proof (rule ccontr)
    assume "\<not> i < current_after D n h"
    then have "current_after D n h \<le> i" by simp
    with late assms(5,6) show False by fastforce
  qed
  then show ?thesis using ctg_run_ok [OF assms(1-3)] assms(5) unfolding ctg_ok_def by blast
qed

text \<open>C16: the callback looks at one iteration only. When the flit that completes iteration 0 arrives after all the data of
  iteration 1, the node starts iteration 0 and leaves iteration 1, whose data are complete too, without an event; it waits for
  a further flit, which need not come.\<close>

theorem ctg_overtaken_stalls:
  assumes "ctg_run positions pick app0 (f # h) app" "ctg_fresh D n app0" "\<forall>i. bits_of (f # h) i < 2 ^ 53" "1 < n"
    and "rat_of_nat (bits_of h 0) < D" "D \<le> rat_of_nat (bits_of (f # h) 0)" "D \<le> rat_of_nat (bits_of (f # h) 1)"
  shows "ca_injectionStarted app ! 0 \<and> \<not> ca_injectionStarted app ! 1 \<and>
    (\<forall>(e, ts, ev) \<in> set (ca_events app). iteration_of ev \<noteq> Some 1)"
proof -
  have ok: "ctg_ok D n (f # h) app" by (rule ctg_run_ok [OF assms(1-3)])
  have c: "current_after D n (f # h) = 1" using waits_for_first [OF assms(5), of n] assms(4,6) by (simp add: Let_def)
  then have s: "ca_injectionStarted app ! 0" "\<not> ca_injectionStarted app ! 1" using ok assms(4) unfolding ctg_ok_def by auto
  moreover have "iteration_of ev \<noteq> Some 1" if "(e, ts, ev) \<in> set (ca_events app)" for e ts ev
  proof
    assume "iteration_of ev = Some 1"
    with that have "Some 1 \<in> pending app" unfolding pending_def by force
    from ok_pending [OF ok this] s(2) show False by simp
  qed
  ultimately show ?thesis by blast
qed

end
