(* ===== verification/Task_Graph_Starts.thy ===== *)
theory Task_Graph_Starts
  imports Task_Graph_Runs
begin

text \<open>
  When a source of a task graph starts its iterations. Times in whole steps are computed exactly
  by the fixed-point operators, and by those of doubles below \<open>2 ^ 17\<close> steps.
\<close>

section \<open>Times in whole steps\<close>

definition steps :: "nat \<Rightarrow> u128" where
  "steps n = TimeStep (of_nat n)"

lemma unat_of_small: "n < 2 ^ 63 \<Longrightarrow> unat (of_nat n :: u64) = n"
  by (simp add: unat_of_nat take_bit_nat_eq_self)

lemma steps_value:
  assumes "n < 2 ^ 63"
  shows "unat (steps n) = n * 2 ^ 64" "sint (steps n) = int (n * 2 ^ 64)"
  using TimeStep_steps [of "of_nat n", unfolded unat_of_small [OF assms]] assms by (simp_all only: steps_def)

lemma steps_of: "n < 2 ^ 63 \<Longrightarrow> unat t = n * 2 ^ 64 \<Longrightarrow> t = steps n"
  using steps_value(1) [of n] by (metis unsigned_word_eqI)

lemma steps_zero: "steps 0 = 0"
  by (rule steps_of [symmetric]) simp_all

lemma steps_add: "a + b < 2 ^ 63 \<Longrightarrow> time_add (steps a) (steps b) = steps (a + b)"
proof (rule steps_of)
  assume s: "a + b < 2 ^ 63"
  then have "unat (steps a) + unat (steps b) = (a + b) * 2 ^ 64" by (simp add: steps_value)
  then show "unat (time_add (steps a) (steps b)) = (a + b) * 2 ^ 64"
    using s unfolding time_add_def HighPrecision_Add_def by (subst unat_plus) simp_all
qed

lemma steps_sub: "a + b < 2 ^ 63 \<Longrightarrow> time_sub (steps (a + b)) (steps a) = steps b"
  using steps_add [of b a] by (simp add: time_add_def HighPrecision_Add_def time_sub_def HighPrecision_Sub_def add.commute eq_diff_eq [symmetric])

lemma steps_less: "a < 2 ^ 63 \<Longrightarrow> b < 2 ^ 63 \<Longrightarrow> time_less (steps a) (steps b) \<longleftrightarrow> a < b"
  by (simp add: time_less_def HighPrecision_Compare_def steps_value)

lemma steps_inj: "a < 2 ^ 63 \<Longrightarrow> b < 2 ^ 63 \<Longrightarrow> steps a = steps b \<longleftrightarrow> a = b"
proof
  assume "a < 2 ^ 63" "b < 2 ^ 63" "steps a = steps b"
  then have "a * 2 ^ 64 = b * 2 ^ 64" by (simp only: steps_value(1) [symmetric])
  then show "a = b" by simp
qed simp

lemma steps_le: "a < 2 ^ 63 \<Longrightarrow> b < 2 ^ 63 \<Longrightarrow> time_less_eq (steps a) (steps b) \<longleftrightarrow> a \<le> b"
  by (auto simp: time_less_eq_def HighPrecision_Compare_def steps_value steps_inj)

lemma steps_positive: "a < 2 ^ 63 \<Longrightarrow> Time_IsPositive (steps a)"
  by (simp add: Time_IsPositive_def HighPrecision_Compare_def steps_value)

lemma steps_mul:
  assumes "b < 2 ^ 53" "a < 2 ^ 63" "a * b < 2 ^ 63"
  shows "time_mul (steps a) (Scalar (round64 (rat_of_nat b))) = Some (steps (a * b))"
proof -
  have b: "b < 2 ^ 63" using assms(1) by simp
  have r: "round64 (rat_of_nat b) = rat_of_int (int b)" using assms(1) by (simp add: round64_nat)
  have "Scalar (rat_of_int (int b)) = push_bit 64 (word_of_int (int b))" by (rule Scalar_int) simp
  also have "\<dots> = steps b"
    using b by (intro steps_of) (simp_all add: unat_shift unat_of_nat take_bit_nat_eq_self)
  finally have S: "Scalar (round64 (rat_of_nat b)) = steps b" unfolding r .
  have u: "unat (hp_abs (steps a)) = a * 2 ^ 64" "unat (hp_abs (steps b)) = b * 2 ^ 64"
    using steps_value [OF assms(2)] steps_value [OF b] by (simp_all add: hp_abs_def)
  have lt: "unat (hp_abs (steps a)) * unat (hp_abs (steps b)) < 2 ^ 192" using assms(3) by (simp add: u)
  have "\<not> carry_lost (unat (hp_abs (steps a))) (unat (hp_abs (steps b)))"
    by (rule carry_lost_int) (simp add: u)
  then obtain x where x: "HighPrecision_Umul (hp_abs (steps a)) (hp_abs (steps b)) = Some x" "unat x = a * b * 2 ^ 64"
    using Umul_value [OF lt] by (auto simp: u)
  then have "x = steps (a * b)" using assms(3) by (intro steps_of) simp_all
  moreover have "\<not> sint (steps a) < 0" "\<not> sint (steps b) < 0" using steps_value [OF assms(2)] steps_value [OF b] by simp_all
  ultimately show ?thesis using x(1) unfolding S time_mul_def by (simp add: HighPrecision_Mul_def hp_sign_def)
qed

lemma steps_due:
  assumes "w_now w = of_nat now" "d + now < 2 ^ 63"
  shows "due (steps d) w = Some (of_nat (d + now))"
proof -
  have "TimeStep (w_now w) = steps now" using assms(1) by (simp add: steps_def)
  then show ?thesis
    using assms(2) by (simp add: due_def steps_add steps_positive steps_le Let_def)
      (simp add: Time_GetTimeStep_def steps_def GetInteger_steps)
qed

lemma steps_clock:
  assumes "2 \<le> k" "k < 2 ^ 17"
  shows "clock_multiplier (steps 1) (steps k) = Some (of_nat (k + 2))" "clock_time (steps 1) (of_nat (k + 2)) = Some (steps (k + 2))"
proof -
  have u: "unat (of_nat k :: u64) = k" "unat (of_nat (k + 2) :: u64) = k + 2" using assms(2) by (intro unat_of_small, simp)+
  show "clock_multiplier (steps 1) (steps k) = Some (of_nat (k + 2))"
    using clock_multiplier_late [of "of_nat k"] assms by (simp add: u steps_def add.commute)
  show "clock_time (steps 1) (of_nat (k + 2)) = Some (steps (k + 2))"
    using clock_time_step [of "of_nat (k + 2)"] assms(2) u(2) by (simp add: steps_def)
qed

section \<open>The starts of a source\<close>

text \<open>When a source starts to inject the flits of an iteration: it is free, executes, and waits for the period
  times the number of the iteration, and for the clock.\<close>

fun source_start :: "nat \<Rightarrow> nat \<Rightarrow> nat \<Rightarrow> nat \<Rightarrow> nat" where
  "source_start now e p 0 = now + e + 2"
| "source_start now e p (Suc i) = source_start now e p i + e + p * Suc i + 2"

definition source_free :: "nat \<Rightarrow> nat \<Rightarrow> nat \<Rightarrow> nat \<Rightarrow> nat" where
  "source_free now e p i = (if i = 0 then now else source_start now e p (i - 1))"

lemma source_start_free: "source_start now e p i = source_free now e p i + (e + p * i) + 2"
  by (cases i) (simp_all add: source_free_def)

lemma source_start_mono: "i \<le> j \<Longrightarrow> source_start now e p i \<le> source_start now e p j"
  by (induction j) (auto simp: le_Suc_eq)

lemma source_start_sum: "2 * source_start now e p i = 2 * now + 2 * (i + 1) * (e + 2) + p * i * (i + 1)"
  by (induction i) (simp_all add: algebra_simps)

lemma now_before: "now \<le> source_free now e p i"
proof (cases i)
  case (Suc j)
  then show ?thesis using source_start_mono [of 0 j now e p] by (simp add: source_free_def)
qed (simp add: source_free_def)

lemma ctg_delay_steps:
  assumes "vec_at (ca_injectionStarted app) (unat i) = Some False" "NocCtgApplication_ContainsNotDependentTask app"
    and "ca_totalExecTime app = steps e" "ca_period app = steps p" "unat i < 2 ^ 53" "p < 2 ^ 62" "e + p * unat i < 2 ^ 62"
  shows "ctg_delay i app = Some (steps (e + p * unat i))"
proof -
  have "rat_of_int (uint i) = rat_of_nat (unat i)" by simp
  moreover have "time_mul (steps p) (Scalar (round64 (rat_of_nat (unat i)))) = Some (steps (p * unat i))"
    using assms(5-7) by (intro steps_mul) simp_all
  moreover have "time_add 0 (steps e) = steps e" by (simp add: time_add_def HighPrecision_Add_def)
  ultimately show ?thesis using assms by (simp add: ctg_delay_def steps_add)
qed

lemma GetGlobalClock_steps: "reg_GlobalClock (w_registry w) = steps 1 \<Longrightarrow> app_GetGlobalClock w = Some (steps 1)"
  using steps_value(2) [of 1] steps_inj [of 1 0]
  by (simp add: app_GetGlobalClock_def Time_IsZero_def HighPrecision_Compare_def steps_zero Let_def)

lemma ctg_start_steps:
  assumes clock: "reg_GlobalClock (w_registry w) = steps 1" and now: "w_now w = of_nat now"
    and d: "ctg_delay i app = Some (steps delay)" and s: "ctg_start_time w app = steps free" "now \<le> free"
    and b: "2 \<le> free + delay" "free + delay < 2 ^ 17"
    and v: "unat i < length (ca_injectionStarted app)" "unat i < length (ca_startEvent app)"
  shows "ctg_start i w app = Some (app\<lparr>ca_injectionStarted := (ca_injectionStarted app)[unat i := True],
      ca_events := ca_events app @ [(ca_nextEvent app, of_nat (free + delay + 2), StartSending i)],
      ca_nextEvent := ca_nextEvent app + 1, ca_startEvent := (ca_startEvent app)[unat i := Some (ca_nextEvent app)],
      ca_executionAvailabilityTime := steps (free + delay + 2)\<rparr>)"
proof -
  have c: "app_GetGlobalClock w = Some (steps 1)" by (rule GetGlobalClock_steps [OF clock])
  define r where "r = free + delay + 2 - now"
  have r: "now + r = free + delay + 2" "now + r < 2 ^ 63" "r < 2 ^ 63" using s(2) b(2) by (simp_all add: r_def)
  have t: "TimeStep (w_now w) = steps now" by (simp add: now steps_def)
  have f: "time_add (steps free) (steps delay) = steps (free + delay)" using b(2) by (intro steps_add) simp
  define M T one where "M = (of_nat (free + delay + 2) :: u64)" and "T = steps (free + delay + 2)" and "one = steps 1"
  have n: "time_sub T (steps now) = steps r" "time_add (steps now) (steps r) = T"
    using steps_sub [OF r(2)] steps_add [OF r(2)] r(1) by (simp_all add: T_def)
  have "due (steps r) w = Some M"
    using steps_due [OF now, of r] r(1,2) unfolding M_def by (simp only: add.commute)
  moreover have "clock_multiplier one (steps (free + delay)) = Some M" "clock_time one M = Some T"
    using steps_clock [OF b] by (simp_all only: M_def T_def one_def)
  ultimately show ?thesis
    unfolding M_def [symmetric] T_def [symmetric]
    using v steps_positive [OF r(3)] n by (simp add: ctg_start_def d c [folded one_def] s(1) f t ctg_schedule_def Let_def)
qed

text \<open>An application before its start; the execution time and the period are whole steps.\<close>

definition fresh_source :: "nat \<Rightarrow> nat \<Rightarrow> nat \<Rightarrow> ctg_application \<Rightarrow> bool" where
  "fresh_source n e p app \<longleftrightarrow> unat (ca_iterations app) = n \<and> NocCtgApplication_ContainsNotDependentTask app \<and>
     ca_totalExecTime app = steps e \<and> ca_period app = steps p \<and> ca_executionAvailabilityTime app = 0 \<and>
     ca_receivedData app = [] \<and> ca_injectionStarted app = [] \<and> ca_startEvent app = [] \<and> ca_sendEvent app = [] \<and>
     ca_events app = [] \<and> ca_nextEvent app = 0"

definition source_events :: "nat \<Rightarrow> nat \<Rightarrow> nat \<Rightarrow> nat \<Rightarrow> (nat \<times> u64 \<times> ctg_event) list" where
  "source_events now e p m = map (\<lambda>i. (i, of_nat (source_start now e p i), StartSending (of_nat i))) [0 ..< m]"

definition source_ok where
  "source_ok now e p m app \<longleftrightarrow> NocCtgApplication_ContainsNotDependentTask app \<and>
     ca_totalExecTime app = steps e \<and> ca_period app = steps p \<and>
     ca_executionAvailabilityTime app = (if m = 0 then 0 else steps (source_free now e p m)) \<and>
     length (ca_receivedData app) = m \<and> length (ca_injectionStarted app) = m \<and> length (ca_startEvent app) = m \<and>
     length (ca_sendEvent app) = m \<and> ca_events app = source_events now e p m \<and> ca_nextEvent app = m"

lemma source_step:
  assumes ok: "source_ok now e p m app" and w: "reg_GlobalClock (w_registry w) = steps 1" "w_now w = of_nat now"
    and b: "2 \<le> now + e" "source_start now e p m < 2 ^ 17" "p < 2 ^ 17" "m < 2 ^ 17"
  shows "\<exists>app'. Option.bind (NocCtgApplication_CancelEvents (of_nat m) (ctg_new_iteration app))
      (NocCtgApplication_ScheduleStartEvent (of_nat m) w) = Some app' \<and> source_ok now e p (Suc m) app'"
proof -
  let ?f = "source_free now e p m" and ?d = "e + p * m"
  let ?app = "ctg_new_iteration app"
  have m: "unat (of_nat m :: u64) = m" using b(4) by (intro unat_of_small) simp
  have o: "NocCtgApplication_ContainsNotDependentTask app" "ca_totalExecTime app = steps e" "ca_period app = steps p"
    "ca_executionAvailabilityTime app = (if m = 0 then 0 else steps ?f)"
    "length (ca_receivedData app) = m" "length (ca_injectionStarted app) = m" "length (ca_startEvent app) = m"
    "length (ca_sendEvent app) = m" "ca_events app = source_events now e p m" "ca_nextEvent app = m"
    using ok by (simp_all add: source_ok_def)
  have cancel: "NocCtgApplication_CancelEvents (of_nat m) ?app = Some ?app"
    using o(7,8) m by (simp add: NocCtgApplication_CancelEvents_def ctg_new_iteration_def ctg_cancel_def case_prod_unfold nth_append)
  have dep: "NocCtgApplication_ContainsNotDependentTask ?app"
    using o(1) by (simp add: ctg_new_iteration_def NocCtgApplication_ContainsNotDependentTask_def)
  then have local: "ca_localTaskList ?app \<noteq> []" by (auto simp: NocCtgApplication_ContainsNotDependentTask_def)
  have fd: "?f + ?d + 2 < 2 ^ 17" using b(2) source_start_free [of now e p m] by simp
  have "now \<le> ?f" by (rule now_before)
  have t: "TimeStep (w_now w) = steps now" using w(2) by (simp add: steps_def)
  have start: "ctg_start_time w ?app = steps ?f"
  proof (cases "m = 0")
    case True
    then show ?thesis
      using fd t steps_less [of now 0] by (simp add: ctg_start_time_def ctg_new_iteration_def o(4) source_free_def steps_zero)
  next
    case False
    then have "now < ?f" using source_start_mono [of 0 "m - 1" now e p] by (simp add: source_free_def)
    then show ?thesis
      using False fd t steps_less [of now ?f] by (simp add: ctg_start_time_def ctg_new_iteration_def o(4))
  qed
  have delay: "ctg_delay (of_nat m) ?app = Some (steps ?d)"
    using ctg_delay_steps [of ?app "of_nat m" e p] dep m o(2,3,6) b(3,4) fd by (simp add: ctg_new_iteration_def nth_append)
  have "2 \<le> ?f + ?d" using b(1) \<open>now \<le> ?f\<close> by simp
  have "ctg_start (of_nat m) w ?app = Some (?app\<lparr>ca_injectionStarted := (ca_injectionStarted ?app)[m := True],
      ca_events := ca_events ?app @ [(ca_nextEvent ?app, of_nat (?f + ?d + 2), StartSending (of_nat m))],
      ca_nextEvent := ca_nextEvent ?app + 1, ca_startEvent := (ca_startEvent ?app)[m := Some (ca_nextEvent ?app)],
      ca_executionAvailabilityTime := steps (?f + ?d + 2)\<rparr>)" (is "_ = Some ?app'")
    using ctg_start_steps [OF w delay start \<open>now \<le> ?f\<close> \<open>2 \<le> ?f + ?d\<close>] fd m o(6,7) by (simp add: ctg_new_iteration_def)
  then have "NocCtgApplication_ScheduleStartEvent (of_nat m) w ?app = Some ?app'"
    using dep local m o(5) by (simp add: NocCtgApplication_ScheduleStartEvent_def) (simp add: ctg_new_iteration_def)
  moreover have "source_ok now e p (Suc m) ?app'"
  proof -
    have "NocCtgApplication_ContainsNotDependentTask ?app'"
      using o(1) by (simp add: ctg_new_iteration_def NocCtgApplication_ContainsNotDependentTask_def)
    then show ?thesis
      using o by (simp add: source_ok_def source_events_def ctg_new_iteration_def source_start_free source_free_def [of now e p "Suc m"])
  qed
  ultimately show ?thesis using cancel by simp
qed

text \<open>C17: with a clock of one step, a source plans iteration \<open>i\<close> at \<open>source_start now e p i\<close>, that is, at
  \<open>now + (i + 1) * (e + 2) + p * (0 + 1 + \<dots> + i)\<close>: the period times the number of the iteration is added to the time at which the
  one before was planned, so the distance of the iterations grows by a period each time.\<close>

theorem ctg_period_drifts:
  assumes "fresh_source n e p app" "reg_GlobalClock (w_registry w) = steps 1" "w_now w = of_nat now"
    and "2 \<le> now + e" "0 < n \<longrightarrow> source_start now e p (n - 1) < 2 ^ 17" "p < 2 ^ 17" "n \<le> 2 ^ 17"
  shows "\<exists>app'. NocCtgApplication_StartApplication w app = Some app' \<and> ca_events app' = source_events now e p n"
proof -
  have fits: "source_start now e p i < 2 ^ 17" if "i < n" for i
  proof -
    have "i \<le> n - 1" using that by simp
    from source_start_mono [OF this, of now e p] show ?thesis using assms(5) that by simp
  qed
  have "\<exists>app'. for_each (\<lambda>i app. Option.bind (NocCtgApplication_CancelEvents (of_nat i) (ctg_new_iteration app))
      (NocCtgApplication_ScheduleStartEvent (of_nat i) w)) [0 ..< m] app = Some app' \<and> source_ok now e p m app'" if "m \<le> n" for m
    using that
  proof (induction m)
    case 0
    then show ?case using assms(1) by (simp add: fresh_source_def source_ok_def source_events_def)
  next
    case (Suc m)
    then obtain app1 where "for_each (\<lambda>i app. Option.bind (NocCtgApplication_CancelEvents (of_nat i) (ctg_new_iteration app))
      (NocCtgApplication_ScheduleStartEvent (of_nat i) w)) [0 ..< m] app = Some app1" "source_ok now e p m app1" by auto
    moreover from source_step [OF this(2) assms(2,3,4) _ assms(6)] fits [of m] Suc.prems assms(7)
    obtain app' where "Option.bind (NocCtgApplication_CancelEvents (of_nat m) (ctg_new_iteration app1))
      (NocCtgApplication_ScheduleStartEvent (of_nat m) w) = Some app'" "source_ok now e p (Suc m) app'" by auto
    ultimately show ?case by (simp add: for_each_snoc del: for_each.simps)
  qed
  from this [of n] assms(1) show ?thesis
    by (auto simp: NocCtgApplication_StartApplication_def fresh_source_def source_ok_def)
qed

lemma warm_at_once:
  assumes "reg_GlobalClock (w_registry w) = steps 1" "w_now w = of_nat now" "now < 2 ^ 63"
  shows "warmed_up 0 w = Some True"
proof -
  have "time_mul (steps 1) (Scalar 0) = Some (steps 0)"
    using steps_mul [of 0 1] by (simp add: round64_def)
  moreover have "TimeStep (w_now w) = steps now" using assms(2) by (simp add: steps_def)
  ultimately show ?thesis using assms(3) by (simp add: warmed_up_def GetGlobalClock_steps [OF assms(1)] steps_le)
qed

lemma PicoSeconds_zero: "PicoSeconds resolution 0 = Some 0"
proof -
  obtain info where "Time_PeekInformation Unit_NS Unit_PS = Some info" "\<not> ti_fromMul info"
    by (rule PeekInformation_fine [of Unit_PS Unit_NS]) simp
  then show ?thesis
    by (simp add: PicoSeconds_def Time_FromInteger_def Time_From_def HighPrecision_int_def HighPrecision_MulByInvert_def
      HighPrecision_UmulByInvert_def hp_abs_def hp_sign_def Let_def)
qed

end
