(* ===== verification/Task_Graph_Sending.thy ===== *)
theory Task_Graph_Sending
  imports Task_Graph_Runs
begin

text \<open>
  The sending of the data of a task graph: what \<^verbatim>\<open>SendFlit\<close> does to the current task and to the bytes sent of it.
\<close>

section \<open>Sending ends\<close>

definition sending_part where
  "sending_part app = (ca_localTaskList app, ca_flitSize app, ca_currentDestinationIndex app, ca_totalTaskBytes app)"

lemma cancel_sending: "sending_part (ctg_cancel e app) = sending_part app"
  by (simp add: sending_part_def ctg_cancel_def)

lemma StopApplication_sending:
  assumes "NocCtgApplication_StopApplication app = Some app'"
  shows "sending_part app' = sending_part app"
  using assms unfolding NocCtgApplication_StopApplication_def
  by (rule for_each_rel) (auto simp: NocCtgApplication_CancelEvents_def Option.bind_eq_Some_conv cancel_sending)

lemma ScheduleNextTx_sending:
  assumes "NocCtgApplication_ScheduleNextTx i w app = Some app'"
  shows "sending_part app' = sending_part app"
proof -
  have "sending_part (app1\<lparr>ca_sendEvent := es\<rparr>) = sending_part app" if s: "ctg_schedule t ev w app = Some (e, app1)" for t ev e app1 es
    using pending_schedule(2) [OF s] by (auto simp: sending_part_def)
  then show ?thesis
    using assms by (auto simp: NocCtgApplication_ScheduleNextTx_def Option.bind_eq_Some_conv StopApplication_sending split: if_splits)
qed

lemma trace_packet_sending: "ctg_trace_packet k w app = Some app' \<Longrightarrow> sending_part app' = sending_part app"
  by (auto simp: ctg_trace_packet_def ctg_trace_def Option.bind_eq_Some_conv sending_part_def split: if_splits)

lemma index_sending [simp]: "sending_part (app\<lparr>ca_currentFlitIndex := is\<rparr>) = sending_part app"
  by (simp add: sending_part_def)

lemma end_packet_sending:
  assumes "ctg_end_packet k w app = Some app'"
  shows "sending_part app' = sending_part app"
  using assms by (auto simp: ctg_end_packet_def Option.bind_eq_Some_conv split: if_splits dest!: trace_packet_sending)

lemma end_task_sending:
  assumes "ctg_end_task i data w app = Some app'" "sending_part app = (local, fs, ds, bs)"
  shows "unat i < length bs \<and> (if data \<le> rat_of_int (uint (bs ! unat i * 8))
    then unat i < length ds \<and> sending_part app' = (local, fs, ds[unat i := ds ! unat i + 1], bs[unat i := 0])
    else sending_part app' = (local, fs, ds, bs))"
proof -
  have p: "ca_totalTaskBytes app = bs" "ca_currentDestinationIndex app = ds" using assms(2) by (simp_all add: sending_part_def)
  obtain b where b: "vec_at bs (unat i) = Some b" using assms(1) by (auto simp: ctg_end_task_def p Option.bind_eq_Some_conv)
  then have i: "unat i < length bs" "b = bs ! unat i" by (simp_all add: vec_at_eq_Some)
  show ?thesis
  proof (cases "data \<le> rat_of_int (uint (b * 8))")
    case False
    then show ?thesis using assms b i by (simp add: ctg_end_task_def p)
  next
    case True
    then obtain index app1 "is" ds' bs' where s: "(if 0 < index \<and> index < ca_numberOfFlits app then ctg_trace_packet i w app else Some app) = Some app1"
      "vec_update (ca_currentDestinationIndex app1) (unat i) (\<lambda>d. d + 1) = Some ds'" "vec_set (ca_totalTaskBytes app1) (unat i) 0 = Some bs'"
      "app' = app1\<lparr>ca_currentFlitIndex := is, ca_currentDestinationIndex := ds', ca_totalTaskBytes := bs'\<rparr>"
      using assms(1) b by (auto simp: ctg_end_task_def p Option.bind_eq_Some_conv)
    from s(1) have "sending_part app1 = (local, fs, ds, bs)"
      using assms(2) trace_packet_sending by (auto split: if_splits)
    then have "ca_localTaskList app1 = local" "ca_flitSize app1 = fs" "ca_currentDestinationIndex app1 = ds" "ca_totalTaskBytes app1 = bs"
      by (simp_all add: sending_part_def)
    then show ?thesis using s(2-4) True i by (auto simp: sending_part_def vec_update_def abort_iffs)
  qed
qed

lemma inject_sending: "ctg_inject pick k x node app w = Some (p, app', w') \<Longrightarrow> sending_part app' = sending_part app"
  by (drule inject_keeps) (auto simp: ctg_trace_def sending_part_def)

lemma sent_sending:
  assumes "ctg_sent i n app = Some app'" "sending_part app = (local, fs, ds, bs)"
  shows "unat i < length bs \<and> sending_part app' = (local, fs, ds, bs[unat i := bs ! unat i + n])"
  using assms by (auto simp: ctg_sent_def sending_part_def vec_update_def abort_iffs)

lemma send_flit_progress:
  assumes "ctg_send_flit positions pick i data s d node (app, w, g) = Some (app', w', g')" "sending_part app = (local, fs, ds, bs)"
    and "NocHeader_GetHeaderSize (w_dims w) < fs"
  shows "\<exists>n. 0 < n \<and> n \<le> fs \<and> unat i < length bs \<and> (let b = bs ! unat i + n in
    if data \<le> rat_of_int (uint (b * 8))
    then unat i < length ds \<and> sending_part app' = (local, fs, ds[unat i := ds ! unat i + 1], bs[unat i := 0])
    else sending_part app' = (local, fs, ds, bs[unat i := b]))"
proof -
  obtain relative index app1 app2 ns app3 dest where st: "positions s d = Some relative"
    "vec_at (ca_currentFlitIndex app) (unat i) = Some index"
    "(if index = 0 then ctg_send_head pick i relative (ucast (s mod ca_hSize app)) (ucast (s div ca_hSize app)) node (app, w, g)
      else ctg_send_data pick i data node (app, w, g)) = Some (app1, w', g')"
    "ctg_end_packet i w' app1 = Some app2" "vec_update (ca_totFlits app2) (unat i) (\<lambda>n. n + 1) = Some ns"
    "ctg_end_task i data w' (app2\<lparr>ca_totFlits := ns\<rparr>) = Some app3" "vec_at (ca_currentDestinationIndex app3) (unat i) = Some dest"
    "(if unat dest < length (ca_localTaskList app3) then NocCtgApplication_ScheduleNextTx i w' app3 else Some app3) = Some app'"
    by (rule ctg_send_flit_steps [OF assms(1)])
  have fs: "ca_flitSize app = fs" using assms(2) by (simp add: sending_part_def)
  have "\<exists>n app0. 0 < n \<and> n \<le> fs \<and> sending_part app0 = sending_part app \<and> ctg_sent i n app0 = Some app1"
  proof (cases "index = 0")
    case True
    with st(3) obtain p app0 hs z where s: "ctg_inject pick i z node app w = Some (p, app0, w')"
      "ctg_sent i (ca_flitSize app0 - NocHeader_GetHeaderSize (w_dims w)) (app0\<lparr>ca_currentHeadFlit := hs\<rparr>) = Some app1 \<or>
       ctg_sent i (ca_flitSize app - NocHeader_GetHeaderSize (w_dims w)) (app0\<lparr>ca_currentHeadFlit := hs\<rparr>) = Some app1"
      by (auto simp: ctg_send_head_def Option.bind_eq_Some_conv Let_def split: if_splits)
    have p: "sending_part app0 = sending_part app" by (rule inject_sending [OF s(1)])
    then have "ca_flitSize app0 = fs" using fs by (simp add: sending_part_def)
    with s(2) fs have "ctg_sent i (fs - NocHeader_GetHeaderSize (w_dims w)) (app0\<lparr>ca_currentHeadFlit := hs\<rparr>) = Some app1" by auto
    moreover have "sending_part (app0\<lparr>ca_currentHeadFlit := hs\<rparr>) = sending_part app" using p by (simp add: sending_part_def)
    moreover have "0 < fs - NocHeader_GetHeaderSize (w_dims w)" "fs - NocHeader_GetHeaderSize (w_dims w) \<le> fs"
      using assms(3) by (simp_all add: word_less_nat_alt word_le_nat_alt unat_sub)
    ultimately show ?thesis by blast
  next
    case False
    with st(3) obtain p app0 z where s: "ctg_inject pick i z node app w = Some (p, app0, w')"
      "ctg_sent i (ca_flitSize app0) app0 = Some app1 \<or> ctg_sent i (ca_flitSize app) app0 = Some app1"
      by (auto simp: ctg_send_data_def Option.bind_eq_Some_conv Let_def)
    have p: "sending_part app0 = sending_part app" by (rule inject_sending [OF s(1)])
    then have "ca_flitSize app0 = fs" using fs by (simp add: sending_part_def)
    moreover have "0 < fs" using assms(3) word_gt_0 by fastforce
    ultimately show ?thesis using s(2) fs p by auto
  qed
  then obtain n app0 where n: "0 < n" "n \<le> fs" "sending_part app0 = sending_part app" "ctg_sent i n app0 = Some app1" by blast
  have p1: "unat i < length bs" "sending_part app1 = (local, fs, ds, bs[unat i := bs ! unat i + n])"
    using sent_sending [OF n(4)] n(3) assms(2) by simp_all
  have "sending_part (app2\<lparr>ca_totFlits := ns\<rparr>) = sending_part app2" by (simp add: sending_part_def)
  also have "\<dots> = (local, fs, ds, bs[unat i := bs ! unat i + n])" using end_packet_sending [OF st(4)] p1(2) by simp
  finally have e: "if data \<le> rat_of_int (uint ((bs ! unat i + n) * 8))
    then unat i < length ds \<and> sending_part app3 = (local, fs, ds[unat i := ds ! unat i + 1], bs[unat i := 0])
    else sending_part app3 = (local, fs, ds, bs[unat i := bs ! unat i + n])"
    using end_task_sending [OF st(6)] p1(1) by simp
  have "sending_part app' = sending_part app3" using st(8) ScheduleNextTx_sending by (auto split: if_splits)
  then show ?thesis using e n(1,2) p1(1) by (intro exI [of _ n]) (simp add: Let_def split: if_splits)
qed


text \<open>What is left to send of an iteration: the tasks, and the bits of the current one.\<close>

definition task_bits :: "nat \<Rightarrow> ctg_application \<Rightarrow> nat" where
  "task_bits i app = nat \<lceil>dt_data (ca_localTaskList app ! unat (ca_currentDestinationIndex app ! i))\<rceil>"

definition left_to_send :: "nat \<Rightarrow> ctg_application \<Rightarrow> nat \<times> nat" where
  "left_to_send i app = (length (ca_localTaskList app) - unat (ca_currentDestinationIndex app ! i),
     task_bits i app - 8 * unat (ca_totalTaskBytes app ! i))"

text \<open>Sizes below the overflow of 32 bits; of a task that is not finished, fewer bits were sent than it has.\<close>

definition sending_ok :: "u32 \<Rightarrow> u32 \<Rightarrow> nat \<Rightarrow> ctg_application \<Rightarrow> bool" where
  "sending_ok dims me i app \<longleftrightarrow> NocHeader_GetHeaderSize dims < ca_flitSize app \<and> unat (ca_flitSize app) < 2 ^ 27 \<and>
     (\<forall>t \<in> set (ca_localTaskList app). dt_data t < 2 ^ 31) \<and> length (ca_localTaskList app) < 2 ^ 32 \<and>
     i < length (ca_currentDestinationIndex app) \<and> i < length (ca_totalTaskBytes app) \<and>
     (unat (ca_currentDestinationIndex app ! i) < length (ca_localTaskList app) \<longrightarrow> ca_totalTaskBytes app ! i = 0 \<or>
       rat_of_nat (8 * unat (ca_totalTaskBytes app ! i)) < dt_data (ca_localTaskList app ! unat (ca_currentDestinationIndex app ! i)) \<and>
       dt_receivingNodeId (ca_localTaskList app ! unat (ca_currentDestinationIndex app ! i)) \<noteq> me)"

lemma flit_ends:
  assumes ok: "sending_ok dims me (unat i) app" and part: "sending_part app = (local, fs, ds, bs)"
    and d: "unat (ds ! unat i) < length local" "data = dt_data (local ! unat (ds ! unat i))"
      "dt_receivingNodeId (local ! unat (ds ! unat i)) \<noteq> me"
    and n: "0 < n" "n \<le> fs" "let b = bs ! unat i + n in
      if data \<le> rat_of_int (uint (b * 8))
      then sending_part app' = (local, fs, ds[unat i := ds ! unat i + 1], bs[unat i := 0])
      else sending_part app' = (local, fs, ds, bs[unat i := b])"
  shows "sending_ok dims me (unat i) app' \<and> (left_to_send (unat i) app', left_to_send (unat i) app) \<in> less_than <*lex*> less_than"
proof -
  let ?b = "bs ! unat i + n"
  have p: "ca_localTaskList app = local" "ca_flitSize app = fs" "ca_currentDestinationIndex app = ds" "ca_totalTaskBytes app = bs"
    using part by (simp_all add: sending_part_def)
  have o: "NocHeader_GetHeaderSize dims < fs" "unat fs < 2 ^ 27" "\<forall>t \<in> set local. dt_data t < 2 ^ 31" "length local < 2 ^ 32"
    "unat i < length ds" "unat i < length bs" "bs ! unat i = 0 \<or> rat_of_nat (8 * unat (bs ! unat i)) < data"
    using ok d by (auto simp: sending_ok_def p)
  have "data < 2 ^ 31" using o(3) d by simp
  then have "rat_of_nat (8 * unat (bs ! unat i)) < rat_of_nat (2 ^ 31)" using o(7) by auto
  then have "8 * unat (bs ! unat i) < 2 ^ 31" by (simp only: of_nat_less_iff)
  moreover have "unat n < 2 ^ 27" using n(2) o(2) by (simp add: word_le_nat_alt)
  ultimately have b: "unat ?b = unat (bs ! unat i) + unat n" "unat (?b * 8) = 8 * unat ?b"
    by (simp_all add: unat_word_ariths)
  have n0: "0 < unat n" using n(1) by (simp add: word_less_nat_alt)
  show ?thesis
  proof (cases "data \<le> rat_of_int (uint (?b * 8))")
    case True
    then have "sending_part app' = (local, fs, ds[unat i := ds ! unat i + 1], bs[unat i := 0])" using n(3) by (simp add: Let_def)
    then have p': "ca_localTaskList app' = local" "ca_flitSize app' = fs"
      "ca_currentDestinationIndex app' = ds[unat i := ds ! unat i + 1]" "ca_totalTaskBytes app' = bs[unat i := 0]"
      by (simp_all add: sending_part_def)
    have "unat (ds ! unat i + 1) = unat (ds ! unat i) + 1" using d(1) o(4) by (simp add: unat_word_ariths)
    moreover from this have "length local - unat (ds ! unat i + 1) < length local - unat (ds ! unat i)" using d(1) by linarith
    ultimately show ?thesis using o d(1) by (simp add: sending_ok_def left_to_send_def p p')
  next
    case False
    then have "sending_part app' = (local, fs, ds, bs[unat i := ?b])" using n(3) by (simp add: Let_def)
    then have p': "ca_localTaskList app' = local" "ca_flitSize app' = fs" "ca_currentDestinationIndex app' = ds"
      "ca_totalTaskBytes app' = bs[unat i := ?b]" by (simp_all add: sending_part_def)
    have "rat_of_int (uint (?b * 8)) = rat_of_nat (8 * unat ?b)" unfolding b(2) [symmetric] by simp
    then have lt: "rat_of_nat (8 * unat ?b) < data" using False by simp
    then have "8 * unat ?b < nat \<lceil>data\<rceil>" by (simp add: zless_nat_eq_int_zless less_ceiling_iff)
    then have "task_bits (unat i) app' - 8 * unat ?b < task_bits (unat i) app - 8 * unat (bs ! unat i)"
      using b(1) n0 by (simp add: task_bits_def p p' flip: d(2))
    then show ?thesis using o lt d by (simp add: sending_ok_def left_to_send_def p p')
  qed
qed

text \<open>C14: each flit brings the sending of an iteration nearer to its end: fewer tasks are left, or
  fewer bits of the current one. Only a last task for the node itself neither sends nor
  schedules an event. So the node stops sending after finitely many flits.\<close>

theorem ctg_sending_ends:
  assumes "sending_ok (w_dims w) me (unat i) app" "me = n_id (w_nodes w (ca_node app))"
    and "NocCtgApplication_SendFlit positions pick i (app, w, globalUid) = Some (app', w', globalUid')"
  shows "sending_ok (w_dims w) me (unat i) app' \<and>
    ((left_to_send (unat i) app', left_to_send (unat i) app) \<in> less_than <*lex*> less_than \<or> ca_events app' = ca_events app)"
proof -
  obtain local fs ds bs where part: "sending_part app = (local, fs, ds, bs)" by (simp add: sending_part_def)
  then have p: "ca_localTaskList app = local" "ca_flitSize app = fs" "ca_currentDestinationIndex app = ds" "ca_totalTaskBytes app = bs"
    by (simp_all add: sending_part_def)
  obtain index dtd n node app1 where s: "vec_at ds (unat i) = Some index"
    "NocCtgApplication_GetLocalDependentTaskData index app = Some dtd" "ctg_flits_needed (w_dims w) (ca_flitSize app) (dt_data dtd) = Some n"
    and app1: "app1 = (if ca_numberOfFlits app > n then app\<lparr>ca_numberOfFlits := n\<rparr> else app)" and "ca_numberOfFlits app1 \<ge> 1"
    and st: "(if n_id (w_nodes w (ca_node app1)) = dt_receivingNodeId dtd
      then Option.bind (ctg_skip_task i w app1) (\<lambda>app. Some (app, w, globalUid))
      else ctg_send_flit positions pick i (dt_data dtd) (n_id (w_nodes w (ca_node app1))) (dt_receivingNodeId dtd) node (app1, w, globalUid)) =
      Some (app', w', globalUid')" by (rule ctg_SendFlit_steps [OF assms(3), unfolded p(3)])
  have d: "unat (ds ! unat i) < length local" "dtd = local ! unat (ds ! unat i)" "index = ds ! unat i" "unat i < length ds"
    using s(1,2) by (auto simp: NocCtgApplication_GetLocalDependentTaskData_def vec_at_eq_Some p)
  have part1: "sending_part app1 = (local, fs, ds, bs)" "ca_events app1 = ca_events app" "ca_node app1 = ca_node app"
    using part by (simp_all add: app1 sending_part_def)
  have p1: "ca_localTaskList app1 = local" "ca_flitSize app1 = fs" "ca_currentDestinationIndex app1 = ds" "ca_totalTaskBytes app1 = bs"
    using part1(1) by (simp_all add: sending_part_def)
  have ok1: "sending_ok (w_dims w) me (unat i) app1" and left1: "left_to_send (unat i) app1 = left_to_send (unat i) app"
    using assms(1) by (simp_all add: sending_ok_def left_to_send_def task_bits_def p p1)
  show ?thesis
  proof (cases "n_id (w_nodes w (ca_node app1)) = dt_receivingNodeId dtd")
    case False
    then have f: "ctg_send_flit positions pick i (dt_data dtd) (n_id (w_nodes w (ca_node app1))) (dt_receivingNodeId dtd) node
        (app1, w, globalUid) = Some (app', w', globalUid')" using st by simp
    have "NocHeader_GetHeaderSize (w_dims w) < fs" using ok1 by (simp add: sending_ok_def p1)
    from send_flit_progress [OF f part1(1) this] obtain n where "0 < n" "n \<le> fs"
      "let b = bs ! unat i + n in if dt_data dtd \<le> rat_of_int (uint (b * 8))
        then sending_part app' = (local, fs, ds[unat i := ds ! unat i + 1], bs[unat i := 0])
        else sending_part app' = (local, fs, ds, bs[unat i := b])" by (auto simp: Let_def split: if_splits)
    from flit_ends [OF ok1 part1(1) d(1) _ _ this] d(2) left1 False assms(2) part1(3) show ?thesis by simp
  next
    case True
    then have k: "ctg_skip_task i w app1 = Some app'" using st by (auto simp: Option.bind_eq_Some_conv)
    show ?thesis
    proof (cases "unat (ds ! unat i) < length local - 1")
      case False
      then show ?thesis using k d part1(2) ok1 by (simp add: ctg_skip_task_def p1)
    next
      case True
      then have "NocCtgApplication_ScheduleNextTx i w (app1\<lparr>ca_currentDestinationIndex := ds[unat i := ds ! unat i + 1]\<rparr>) = Some app'"
        using k d by (simp add: ctg_skip_task_def p1)
      from ScheduleNextTx_sending [OF this] have p': "ca_localTaskList app' = local" "ca_flitSize app' = fs"
        "ca_currentDestinationIndex app' = ds[unat i := ds ! unat i + 1]" "ca_totalTaskBytes app' = bs"
        by (simp_all add: sending_part_def p1)
      have "bs ! unat i = 0" using ok1 d(1,2) \<open>n_id _ = _\<close> assms(2) part1(3) by (auto simp: sending_ok_def p1)
      moreover have "unat (ds ! unat i + 1) = unat (ds ! unat i) + 1"
        using d(1) ok1 by (simp add: unat_word_ariths sending_ok_def p1)
      moreover from this have "length local - unat (ds ! unat i + 1) < length local - unat (ds ! unat i)" using d(1) by linarith
      ultimately show ?thesis using ok1 d(4) by (simp add: sending_ok_def left_to_send_def p p1 p')
    qed
  qed
qed

text \<open>A task without data stops the program: no flit is needed for it, and the number of flits of a packet is
  asserted to be at least one.\<close>

lemma ctg_empty_task_stops:
  assumes "vec_at (ca_currentDestinationIndex app) (unat i) = Some d" "NocCtgApplication_GetLocalDependentTaskData d app = Some dtd"
    "dt_data dtd = 0"
  shows "NocCtgApplication_SendFlit positions pick i (app, w, globalUid) = None"
proof -
  have z: "\<not> round64 (unsigned (x :: u64)) < 0" for x
  proof -
    have "0 \<le> rat_of_int (uint x)" by (simp only: of_int_0_le_iff uint_ge_0)
    from round64_nonneg [OF this] show ?thesis by (simp add: not_less)
  qed
  have "ctg_flits_needed dims fs 0 = None \<or> ctg_flits_needed dims fs 0 = Some 0" for dims fs
    using z by (auto simp: ctg_flits_needed_def round64_def [of 0] Let_def ns_assert_def simp del: unsigned_of_nat)
  from this [of "w_dims w" "ca_flitSize app"] consider "ctg_flits_needed (w_dims w) (ca_flitSize app) 0 = None" | "ctg_flits_needed (w_dims w) (ca_flitSize app) 0 = Some 0" by (elim disjE)
  then show ?thesis
    using assms by cases (auto simp: NocCtgApplication_SendFlit_def Let_def word_gt_0 ns_assert_def)
qed

end
