(* ===== verification/Task_Graph_Samples.thy ===== *)
theory Task_Graph_Samples
  imports Task_Graph_Starts Task_Graph_Sending
begin

text \<open>Concrete runs of task graph applications, on which the properties of \<open>Task_Graph_Runs\<close>, \<open>Task_Graph_Starts\<close> and
  \<open>Task_Graph_Sending\<close> apply.\<close>

section \<open>A sample task graph\<close>

text \<open>A task \<open>b\<close> that gets a byte from a task \<open>a\<close> and sends one to a task \<open>c\<close>, in two iterations.\<close>

definition relay_app :: ctg_application where
  "relay_app = (NocCtgApplication_new 0 64)\<lparr>ca_iterations := 2, ca_totalExecTime := steps 5, ca_totalData := 8,
     ca_remoteTaskList := [\<lparr>dt_senderTaskId = ''a'', dt_senderNodeId = 1, dt_data = 8, dt_receivingTaskId = ''b'', dt_receivingNodeId = 0\<rparr>],
     ca_localTaskList := [\<lparr>dt_senderTaskId = ''b'', dt_senderNodeId = 0, dt_data = 8, dt_receivingTaskId = ''c'', dt_receivingNodeId = 1\<rparr>]\<rparr>"

definition relay_started :: ctg_application where
  "relay_started = relay_app\<lparr>ca_injectionStarted := [False, False], ca_totBytes := [0, 0], ca_totFlits := [0, 0],
     ca_currentFlitIndex := [0, 0], ca_currentHeadFlit := [None, None], ca_receivedData := [0, 0],
     ca_currentDestinationIndex := [0, 0], ca_totalTaskBytes := [0, 0], ca_startEvent := [None, None], ca_sendEvent := [None, None]\<rparr>"

definition byte_flit :: "u64 \<Rightarrow> packet" where
  "byte_flit k = \<lparr>pk_uid = 7, pk_bytes = [], pk_zeros = 1,
     pk_tag = Some (NocPacketTag_Serialize (NocPacketTag_new\<lparr>tag_type := DATA, tag_ctgIteration := k\<rparr>))\<rparr>"

lemma relay_dependent: "\<not> NocCtgApplication_ContainsNotDependentTask relay_app"
  "ca_remoteTaskList app = ca_remoteTaskList relay_app \<Longrightarrow> ca_localTaskList app = ca_localTaskList relay_app \<Longrightarrow>
     \<not> NocCtgApplication_ContainsNotDependentTask app"
  by (simp_all add: relay_app_def NocCtgApplication_ContainsNotDependentTask_def)

lemma relay_fresh: "ctg_fresh 8 2 relay_app"
  using relay_dependent(1) by (simp add: ctg_fresh_def) (simp add: relay_app_def NocCtgApplication_new_def)

lemma relay_starts: "NocCtgApplication_StartApplication w relay_app = Some relay_started"
proof -
  have "[0 ..< unat (ca_iterations relay_app)] = [0, 1]" by (simp add: relay_app_def upt_rec)
  then show ?thesis
    by (simp add: NocCtgApplication_StartApplication_def NocCtgApplication_CancelEvents_def NocCtgApplication_ScheduleStartEvent_def
      NocCtgApplication_ContainsNotDependentTask_def ctg_new_iteration_def ctg_cancel_def relay_app_def relay_started_def NocCtgApplication_new_def)
qed

lemma byte_flit_data: "ctg_flit_data dims (byte_flit 0) = Some (0, 8)" "ctg_flit_data dims (byte_flit 1) = Some (1, 8)"
proof -
  have "peeked_tag (byte_flit k) = Some (NocPacketTag_new\<lparr>tag_type := DATA, tag_ctgIteration := k\<rparr>)" for k
    by (rule peeked_tag_of) (simp_all add: byte_flit_def tag_wf_def NocPacketTag_new_def)
  moreover have "Packet_GetSize (byte_flit k) = 1" for k by (simp add: byte_flit_def Packet_GetSize_def)
  ultimately show "ctg_flit_data dims (byte_flit 0) = Some (0, 8)" "ctg_flit_data dims (byte_flit 1) = Some (1, 8)"
    by (simp_all add: ctg_flit_data_def)
qed

lemma blank_warm: "warmed_up 0 (blank_world 2) = Some True"
  by (rule warm_at_once [of _ 0]) (simp_all add: blank_world_def steps_def)

lemma relay_callback:
  "ctg_flit_data (w_dims (blank_world 2)) x = Some (k, 8) \<Longrightarrow> ca_warmupCycles app = 0 \<Longrightarrow>
    NocCtgApplication_FlitReceivedCallback x (blank_world 2) app = ctg_count k 8 (blank_world 2) (ctg_trace True (FlitReceived x) app)"
  by (simp add: NocCtgApplication_FlitReceivedCallback_def blank_warm)

lemma round64_small: "round64 8 = 8"
  using round64_nat [of 8] by simp

text \<open>The data of iteration 0 start it.\<close>

lemma relay_completes:
  "\<exists>app'. ctg_count 0 8 (blank_world 2) (relay_started\<lparr>ca_trace := ts, ca_receivedData := [0, r]\<rparr>) = Some app'"
proof -
  let ?app = "relay_started\<lparr>ca_trace := ts, ca_receivedData := [8, r]\<rparr>"
  have now: "w_now (blank_world 2) = of_nat 0" "reg_GlobalClock (w_registry (blank_world 2)) = steps 1"
    by (simp_all add: blank_world_def steps_def)
  have dep: "\<not> NocCtgApplication_ContainsNotDependentTask ?app"
    by (rule relay_dependent(2)) (simp_all add: relay_started_def)
  have a: "ca_iterations ?app = 2" "ca_currentIteration ?app = 0" "ca_totalData ?app = 8" "length (ca_localTaskList ?app) = 1"
    "ca_injectionStarted ?app = [False, False]" "ca_startEvent ?app = [None, None]" "ca_currentDestinationIndex ?app = [0, 0]"
    "ca_totalExecTime ?app = steps 5" "ca_executionAvailabilityTime ?app = 0"
    by (simp_all add: relay_started_def relay_app_def NocCtgApplication_new_def)
  have free: "ctg_start_time (blank_world 2) ?app = steps 0"
    using steps_less [of 0 0] by (simp add: ctg_start_time_def a now(1) steps_zero flip: steps_def [of 0, simplified])
  have delay: "ctg_delay 0 ?app = Some (steps 5)"
    using dep by (simp add: ctg_delay_def a time_add_def HighPrecision_Add_def)
  have "\<exists>app'. ctg_start 0 (blank_world 2) ?app = Some app'"
    using ctg_start_steps [OF now(2,1) delay free] a(5,6) by simp
  then have "\<exists>app'. ctg_complete (blank_world 2) ?app = Some app'"
    using dep a by (auto simp: ctg_complete_def NocCtgApplication_ScheduleStartEvent_def Let_def)
  then show ?thesis
    using a by (simp add: ctg_count_def vec_update_def round64_small Let_def)
qed

lemma relay_run:
  "\<exists>app. ctg_run positions pick relay_app [(0, 8)] app"
  "\<exists>app. ctg_run positions pick relay_app [(0, 8), (1, 8)] app"
proof -
  have s: "ctg_run positions pick relay_app [] relay_started" by (rule run_start [OF relay_starts])
  have warm: "ca_warmupCycles relay_started = 0" by (simp add: relay_started_def relay_app_def NocCtgApplication_new_def)
  have t: "ctg_trace True e relay_started = relay_started\<lparr>ca_trace := ca_trace relay_started @ [e], ca_receivedData := [0, 0]\<rparr>" for e
    by (simp add: relay_started_def ctg_trace_def)
  obtain app where "NocCtgApplication_FlitReceivedCallback (byte_flit 0) (blank_world 2) relay_started = Some app"
    using relay_completes warm by (auto simp: relay_callback [OF byte_flit_data(1)] t)
  from run_receive [OF s byte_flit_data(1) this] show "\<exists>app. ctg_run positions pick relay_app [(0, 8)] app" by blast
  let ?app = "relay_started\<lparr>ca_trace := ca_trace relay_started @ [FlitReceived (byte_flit 1)], ca_receivedData := [0, 8]\<rparr>"
  have one: "NocCtgApplication_FlitReceivedCallback (byte_flit 1) (blank_world 2) relay_started = Some ?app"
    using warm by (simp add: relay_callback [OF byte_flit_data(2)] ctg_trace_def ctg_count_def vec_update_def round64_small Let_def)
      (simp add: relay_started_def relay_app_def NocCtgApplication_new_def round64_small)
  have u: "ctg_trace True e ?app = relay_started\<lparr>ca_trace := ca_trace relay_started @ [FlitReceived (byte_flit 1), e], ca_receivedData := [0, 8]\<rparr>" for e
    by (simp add: ctg_trace_def relay_started_def)
  have "ca_warmupCycles ?app = 0" using warm by simp
  moreover obtain app' where "ctg_count 0 8 (blank_world 2) (ctg_trace True (FlitReceived (byte_flit 0)) ?app) = Some app'"
    using relay_completes [where r = 8] unfolding u by blast
  ultimately have "NocCtgApplication_FlitReceivedCallback (byte_flit 0) (blank_world 2) ?app = Some app'"
    by (simp add: relay_callback [OF byte_flit_data(1)])
  from run_receive [OF run_receive [OF s byte_flit_data(2) one] byte_flit_data(1) this]
  show "\<exists>app. ctg_run positions pick relay_app [(0, 8), (1, 8)] app" by blast
qed

lemma relay_bits: "bits_of [(0, 8)] i = (if i = 0 then 8 else 0)" "bits_of [(1, 8)] i = (if i = 1 then 8 else 0)"
  "bits_of [(0, 8), (1, 8)] i = (if i = 0 then 8 else if i = 1 then 8 else 0)"
  by (auto simp: bits_of_def)

lemma ctg_waits_for_data_witness:
  "\<exists>app. ctg_run (\<lambda>_ _. None) id relay_app [(0, 8), (1, 8)] app \<and>
    (\<forall>(e, ts, ev) \<in> set (ca_events app). \<forall>i. iteration_of ev = Some i \<longrightarrow> unat i < 2 \<and> 8 \<le> rat_of_nat (bits_of [(0, 8), (1, 8)] (unat i)))"
proof -
  obtain app where r: "ctg_run (\<lambda>_ _. None) id relay_app [(0, 8), (1, 8)] app" using relay_run(2) by blast
  have small: "\<forall>i. bits_of [(0, 8), (1, 8)] i < 2 ^ 53" by (simp add: relay_bits)
  from ctg_waits_for_data [OF r relay_fresh small] r show ?thesis by blast
qed

lemma ctg_starts_in_order_witness:
  "\<exists>app. ctg_run (\<lambda>_ _. None) id relay_app [(0, 8)] app \<and> ca_injectionStarted app ! 0"
proof -
  obtain app where r: "ctg_run (\<lambda>_ _. None) id relay_app [(0, 8)] app" using relay_run(1) by blast
  have small: "\<forall>i. bits_of [(0, 8)] i < 2 ^ 53" by (simp add: relay_bits)
  from ctg_starts_in_order [OF r relay_fresh small, of 0] r show ?thesis by (auto simp: relay_bits)
qed

lemma ctg_overtaken_stalls_witness:
  "\<exists>app. ctg_run (\<lambda>_ _. None) id relay_app [(0, 8), (1, 8)] app \<and> ca_injectionStarted app ! 0 \<and> \<not> ca_injectionStarted app ! 1"
proof -
  obtain app where r: "ctg_run (\<lambda>_ _. None) id relay_app [(0, 8), (1, 8)] app" using relay_run(2) by blast
  have small: "\<forall>i. bits_of [(0, 8), (1, 8)] i < 2 ^ 53" by (simp add: relay_bits)
  from ctg_overtaken_stalls [OF r relay_fresh small] r show ?thesis by (auto simp: relay_bits)
qed

text \<open>A source: the task \<open>b\<close> without its sender.\<close>

definition source_app :: ctg_application where
  "source_app = relay_app\<lparr>ca_iterations := 3, ca_period := steps 10, ca_remoteTaskList := []\<rparr>"

lemma ctg_period_drifts_witness:
  "\<exists>app'. NocCtgApplication_StartApplication (blank_world 2) source_app = Some app' \<and>
    ca_events app' = [(0, 7, StartSending 0), (1, 24, StartSending 1), (2, 51, StartSending 2)]"
proof -
  have f: "fresh_source 3 5 10 source_app"
    by (simp add: fresh_source_def source_app_def relay_app_def NocCtgApplication_new_def NocCtgApplication_ContainsNotDependentTask_def)
  have w: "reg_GlobalClock (w_registry (blank_world 2)) = steps 1" "w_now (blank_world 2) = of_nat 0"
    by (simp_all add: blank_world_def steps_def)
  have s: "source_start 0 5 10 0 = 7" "source_start 0 5 10 1 = 24" "source_start 0 5 10 2 = 51" by (simp_all add: numeral_2_eq_2)
  have "[0 ..< 3] = [0, 1, 2 :: nat]" by (simp add: upt_rec)
  then have e: "source_events 0 5 10 3 = [(0, 7, StartSending 0), (1, 24, StartSending 1), (2, 51, StartSending 2)]"
    by (simp add: source_events_def s [simplified])
  have "\<exists>app'. NocCtgApplication_StartApplication (blank_world 2) source_app = Some app' \<and> ca_events app' = source_events 0 5 10 3"
    by (rule ctg_period_drifts [OF f w]) (simp_all add: s)
  then show ?thesis unfolding e .
qed

text \<open>Two tasks for the node itself: the first one is passed over.\<close>

definition self_app :: ctg_application where
  "self_app = relay_started\<lparr>ca_localTaskList :=
     [\<lparr>dt_senderTaskId = ''b'', dt_senderNodeId = 0, dt_data = 8, dt_receivingTaskId = ''c'', dt_receivingNodeId = 0\<rparr>,
      \<lparr>dt_senderTaskId = ''b'', dt_senderNodeId = 0, dt_data = 8, dt_receivingTaskId = ''d'', dt_receivingNodeId = 0\<rparr>]\<rparr>"

lemma ctg_sending_ends_witness:
  "\<exists>app' w' g. NocCtgApplication_SendFlit (\<lambda>_ _. None) id 0 (self_app, blank_world 2, 5) = Some (app', w', g) \<and>
     (left_to_send 0 app', left_to_send 0 self_app) \<in> less_than <*lex*> less_than"
proof -
  have ok: "sending_ok (w_dims (blank_world 2)) 0 (unat (0 :: u64)) self_app"
    by (simp add: sending_ok_def self_app_def relay_started_def relay_app_def NocCtgApplication_new_def trunc_div_def
      NocHeader_GetHeaderSize_def blank_world_def)
  have needed: "ctg_flits_needed 2 8 8 = Some 1" by code_simp
  have now: "w_now (blank_world 2) = of_nat 0" by (simp add: blank_world_def)
  have due: "due 0 (blank_world 2) = Some 0" using steps_due [OF now, of 0] by (simp add: steps_zero)
  have le: "time_less_eq (Scalar 0) 0" using Scalar_int [of 0] by (simp add: time_less_eq_def HighPrecision_Compare_def)
  have clock: "app_GetGlobalClock (blank_world 2) = Some (steps 1)"
    by (rule GetGlobalClock_steps) (simp add: blank_world_def steps_def)
  let ?app = "self_app\<lparr>ca_numberOfFlits := 1, ca_currentDestinationIndex := [1, 0]\<rparr>"
  let ?app' = "?app\<lparr>ca_events := [(0, 0, SendFlit 0)], ca_nextEvent := 1, ca_sendEvent := [Some 0, None]\<rparr>"
  have "ctg_skip_task 0 (blank_world 2) (self_app\<lparr>ca_numberOfFlits := 1\<rparr>) = Some ?app'"
    by (simp add: ctg_skip_task_def NocCtgApplication_ScheduleNextTx_def ctg_send_time_def ctg_schedule_def clock PicoSeconds_zero due le
      self_app_def relay_started_def relay_app_def NocCtgApplication_new_def)
  then have s: "NocCtgApplication_SendFlit (\<lambda>_ _. None) id 0 (self_app, blank_world 2, 5) = Some (?app', blank_world 2, 5)"
    using needed by (simp add: NocCtgApplication_SendFlit_def NocCtgApplication_GetLocalDependentTaskData_def Let_def)
      (simp add: self_app_def relay_started_def relay_app_def NocCtgApplication_new_def blank_world_def trunc_div_def)
  have "0 = n_id (w_nodes (blank_world 2) (ca_node self_app))" by (simp add: blank_world_def)
  from ctg_sending_ends [OF ok this s] show ?thesis
    using s by (auto simp: self_app_def relay_started_def relay_app_def NocCtgApplication_new_def)
qed

end
