(* ===== verification/Spec2Isabelle.thy ===== *)
theory Spec2Isabelle
  imports Noc_Prelude Noc_Header Noc_Packet Drop_Tail_Queue Noc_Switching Noc_World Noc_Routers
    Dim_Order_Routing Adaptive_Routing Noc_Flits Event_Schedulers High_Precision Sim_Time Default_Simulator
    Noc_Transport Noc_Links Noc_Conservation Noc_Topology Noc_Installed Relative_Positions
    Mesh_Delivery Calendar_Scheduler Traffic_Patterns Noc_Applications Application_Traffic
    Double_Rounding Clock_Cycles Task_Graph_Application Task_Graph_Runs Task_Graph_Starts
    Task_Graph_Sending Task_Graph_Samples
begin

text \<open>
  A verification library of ns-3 NoC, a network-on-chip simulator on top of the discrete event
  simulator ns-3. Paths are relative to \<^verbatim>\<open>src/\<close>.

  \<^bold>\<open>The program.\<close> An application hands the flits of a message to its node (\<^verbatim>\<open>noc/node\<close>). The node injects
  them into a net device of its router; the device (\<^verbatim>\<open>noc/netdevice\<close>) asks the router for a route
  (\<^verbatim>\<open>noc/router\<close>, \<^verbatim>\<open>noc/routing\<close>), which reads and updates the header of the head flit (\<^verbatim>\<open>noc/packet\<close>), and
  buffers the flit in its input queue (\<^verbatim>\<open>node/drop-tail-queue\<close>) until the switching protocol (\<^verbatim>\<open>noc/switching\<close>) lets
  it go and the channel (\<^verbatim>\<open>noc/channel\<close>) is free. The channel carries it to the next device by an
  event of the simulator (\<^verbatim>\<open>simulator\<close>), and so on until the destination. The topologies
  (\<^verbatim>\<open>noc/topology\<close>) create routers, devices and channels, and tell the applications what to put in
  the header.

  \<^bold>\<open>The theories, bottom up.\<close>

  \<^item> \<open>Noc_Prelude\<close>: integers at their width, \<open>ns_assert\<close>, bounds-checked vectors. Whatever can stop
    the program is an \<open>option\<close>.
  \<^item> \<open>Noc_Header\<close>, \<open>Noc_Packet\<close>: the header (one byte per dimension, a direction bit and seven bits of
    hops), its bytes on the wire, the packet tag and the flits. Round trips; \<open>displacement\<close> is the
    signed number that a byte stands for.
  \<^item> \<open>Drop_Tail_Queue\<close>: the channel buffer. The locale \<open>bounded_fifo\<close> is what its clients rely on.
  \<^item> \<open>Noc_Switching\<close>: store and forward, virtual cut-through and wormhole as state machines over the
    flits that ask to pass; the locale \<open>flow_control\<close> is their contract.
  \<^item> \<open>Noc_World\<close>: the store. Packets, devices, channels, routers and nodes are records behind
    references, because the code shares them through \<^verbatim>\<open>Ptr\<close> and changes them in place.
  \<^item> \<open>Noc_Routers\<close>: the tables of the four-way and Irvine routers, with the lookups of input and output devices;
    how the devices of an Irvine router are split between its two sub-routers.
  \<^item> \<open>Dim_Order_Routing\<close>: XY, XYZ and DOR. The locale \<open>dimension_order\<close> states one hop abstractly; from it
    follow the journey of a head flit, deadlock freedom (the channel dependency relation is
    acyclic) and that the header goes on pointing to the same node.
  \<^item> \<open>Adaptive_Routing\<close>: SO and SLB routing with their load components. The random choice among
    equals is a parameter.
  \<^item> \<open>Noc_Flits\<close>: \<^verbatim>\<open>RequestRoute\<close> with the routes remembered for the flits behind the head, and the count of
    flits per clock.
  \<^item> \<open>Event_Schedulers\<close>, \<open>Default_Simulator\<close>: list, map and heap schedulers under the locales
    \<open>event_scheduler\<close> and \<open>removing_scheduler\<close>, and the sequential simulator on top of any of them
    (locale \<open>simulation\<close>). What an event does is a script of simulator calls.
  \<^item> \<open>Calendar_Scheduler\<close>: the calendar queue, which needs a client that does not go back in time (locale
    \<open>monotone_scheduler\<close>, of which \<open>removing_scheduler\<close> is a case); for such a client it hands out what
    the list scheduler does, for times up to \<open>horizon\<close>, beyond which its width can become zero.
  \<^item> \<open>High_Precision\<close>, \<open>Sim_Time\<close>: the 128-bit fixed-point numbers and the times made of them.
  \<^item> \<open>Noc_Transport\<close>: devices, channels and nodes in motion: injection, buffering, flow control,
    transmission, reception, retries. The events are those that the code schedules.
  \<^item> \<open>Noc_Links\<close>, \<open>Noc_Conservation\<close>: the invariant \<open>net_ok\<close> of wires and buffers, that every step keeps it,
    and that no flit is lost or doubled.
  \<^item> \<open>Noc_Topology\<close>, \<open>Noc_Installed\<close>: \<^verbatim>\<open>Install\<close> of the meshes and tori; for the meshes, that it ends, makes
    exactly the edges of the mesh and establishes \<open>net_ok\<close>.
  \<^item> \<open>Relative_Positions\<close>, \<open>Mesh_Delivery\<close>: \<^verbatim>\<open>GetDestinationRelativeDimensionalPosition\<close>
    of all topologies; the ways in a torus are the shortest; and header, DOR and the
    installed mesh together take a packet to its destination.
  \<^item> \<open>Traffic_Patterns\<close>: the permutations of the bits of a number, and that each is its own inverse.
  \<^item> \<open>Noc_Applications\<close>, \<open>Application_Traffic\<close>: \<^verbatim>\<open>NocSyncApplication\<close>, which injects the flits of its packets by
    the clock. The bit patterns pair up the nodes of a mesh, and the head flit of an
    application carries the way to its target over the installed mesh.
  \<^item> \<open>Double_Rounding\<close>, \<open>Clock_Cycles\<close>: rounding to doubles, and the clock cycle at which applications and devices act
    next, which rounding can put off by one.
  \<^item> \<open>Task_Graph_Application\<close>: \<^verbatim>\<open>NocCtgApplication\<close>, a node of a communication task graph. \<open>Task_Graph_Runs\<close> has its
    runs, in which flits and pending events come in any order (\<open>ctg_run\<close>), and the invariant \<open>ctg_ok\<close>: a node waits
    for the data of an iteration, and a flit that overtakes can leave the next one waiting.
    \<open>Task_Graph_Starts\<close> has the times at which a source starts its iterations, \<open>Task_Graph_Sending\<close> the end of
    the sending, \<open>Task_Graph_Samples\<close> concrete runs.

  \<^bold>\<open>Bounds and termination.\<close> Loops over data are structural. The loops that the code cannot bound itself
  are \<open>partial_function (option)\<close>: the main loop of the simulator (it returns for programs that schedule
  ever less, \<open>run_returns\<close>) and the loops of the installers that step by a size (they end for sizes other than
  zero). \<open>travel\<close> takes the number of routers to pass as fuel; any number from the sum of the offsets on is
  enough. A header offset has seven bits, so sizes up to 128 in a mesh and 255 in a torus are covered. The counter of
  pending events of the simulator is an integer, not an \<^verbatim>\<open>int\<close> of 32 bits. The calendar queue is right
  for times up to 1431655765 steps (\<open>horizon\<close>).

  \<^bold>\<open>Not modelled.\<close> Log output, attributes and the object system, trace callbacks other than the sent and
  received flits; energy (the Orion model, floating point); the calendar queue of ns-2; the real-time
  simulator (threads, the clock of the machine); the other applications (an older one for two
  dimensions and on-off traffic) and the helpers that create applications; random numbers, which are arguments;
  the faulty variants of router, channel, node and device; saving a topology to
  XML; and the parts of ns-3 that the network does not use. Reference counts are not modelled, and objects are never freed.
\<close>

end
